(* ===== verification/Transition.thy ===== *)
theory Transition
  imports Main
begin

text \<open>
  The interface between a step relation and what is proved of the states it reaches. Whoever
  models concurrent tasks as steps proves its facts for one step; that they hold after any number
  of steps is shown here once. Every step relation of the development is an instance.
\<close>

text \<open>A property no step loses.\<close>

locale step_invariant =
  fixes step :: "'s \<Rightarrow> 's \<Rightarrow> bool"
    and inv :: "'s \<Rightarrow> bool"
  assumes step_inv: "step s s' \<Longrightarrow> inv s \<Longrightarrow> inv s'"
begin

lemma reach_inv: "step\<^sup>*\<^sup>* s s' \<Longrightarrow> inv s \<Longrightarrow> inv s'"
  by (induction rule: rtranclp_induct) (auto intro: step_inv)

end

text \<open>A relation between a state and the next that composes, so that it holds between any two.\<close>

locale step_preorder =
  fixes step :: "'s \<Rightarrow> 's \<Rightarrow> bool"
    and rel :: "'s \<Rightarrow> 's \<Rightarrow> bool"
  assumes refl: "rel s s"
    and trans: "rel s s' \<Longrightarrow> rel s' s'' \<Longrightarrow> rel s s''"
    and step_rel: "step s s' \<Longrightarrow> rel s s'"

sublocale step_preorder \<subseteq> related: step_invariant step "rel s0" for s0
  by unfold_locales (blast intro: step_rel trans)

context step_preorder
begin

lemma reach_rel: "step\<^sup>*\<^sup>* s s' \<Longrightarrow> rel s s'"
  by (rule related.reach_inv [OF _ refl])

end

end
