(* ===== verification/Prelude.thy ===== *)
theory Prelude
  imports Transition "HOL-Library.Word"
begin

text \<open>
  What every component of the development shares: the machine integers and byte
  strings of the Rust sources, the standard-library operations the sources call on them
  (little-endian conversion, decimal formatting), the two rule collections the component
  proofs draw on, and generic lemmas on lists and words.

  Lengths and counts of type \<open>usize\<close> are natural numbers: every one of them is the length
  of something in memory. Where the source narrows one (\<open>as u32\<close>) or does bit
  arithmetic on it, the conversion to a word is written out.
\<close>

unbundle bit_operations_syntax

named_theorems codec \<open>round-trip equations of the byte codecs\<close>

named_theorems acct \<open>byte and item accounting of the cache\<close>

type_synonym u8 = "8 word"
type_synonym u16 = "16 word"
type_synonym u32 = "32 word"
type_synonym u64 = "64 word"
type_synonym bytes = "u8 list"

section \<open>Little-endian conversion\<close>

text \<open>Rust's \<open>u32::to_le_bytes\<close> and \<open>u32::from_le_bytes\<close>.\<close>

definition to_le_bytes :: "u32 \<Rightarrow> bytes" where
  "to_le_bytes w =
     [ucast w, ucast (drop_bit 8 w), ucast (drop_bit 16 w), ucast (drop_bit 24 w)]"

definition from_le_bytes :: "bytes \<Rightarrow> u32" where
  "from_le_bytes bs =
     ucast (bs ! 0) OR push_bit 8 (ucast (bs ! 1)) OR
     push_bit 16 (ucast (bs ! 2)) OR push_bit 24 (ucast (bs ! 3))"

lemma length_to_le_bytes [simp]: "length (to_le_bytes w) = 4"
  by (simp add: to_le_bytes_def)

lemma from_to_le_bytes [simp, codec]: "from_le_bytes (to_le_bytes w) = w"
proof (rule bit_word_eqI)
  fix n assume "n < LENGTH(32)"
  then consider "n < 8" | "8 \<le> n" "n < 16" | "16 \<le> n" "n < 24" | "24 \<le> n" "n < 32"
    by fastforce
  then show "bit (from_le_bytes (to_le_bytes w)) n = bit w n"
    by cases (auto simp: from_le_bytes_def to_le_bytes_def bit_simps numeral_3_eq_3)
qed

lemma to_from_le_bytes [codec]:
  assumes "length bs = 4"
  shows "to_le_bytes (from_le_bytes bs) = bs"
proof -
  from assms obtain a b c d where "bs = [a, b, c, d]"
    by (auto simp: length_Suc_conv numeral_eq_Suc)
  moreover have "to_le_bytes (from_le_bytes [a, b, c, d]) = [a, b, c, d]"
    unfolding from_le_bytes_def to_le_bytes_def list.inject
    by (intro conjI bit_word_eqI) (auto simp: bit_simps numeral_3_eq_3 dest: bit_imp_le_length)
  ultimately show ?thesis by simp
qed

text \<open>A length narrowed with \<open>as u32\<close> and read back: exact below \<open>2 ^ 32\<close>.\<close>

lemma unat_of_nat_u32 [simp, codec]: "n < 2 ^ 32 \<Longrightarrow> unat (of_nat n :: u32) = n"
  by (simp add: unat_of_nat take_bit_nat_eq_self)

lemma unat_of_nat_u64: "n < 2 ^ 64 \<Longrightarrow> unat (of_nat n :: u64) = n"
  by (simp add: unat_of_nat take_bit_nat_eq_self)

lemma unat_from_le_bytes_less: "unat (from_le_bytes bs) < 2 ^ 32"
  using unsigned_less [of "from_le_bytes bs"] by simp

section \<open>Text\<close>

text \<open>
  The bytes of an ASCII literal, and a number as \<open>Display\<close> formats it: what the
  \<open>format!\<close> and \<open>thiserror\<close> messages of the sources are made of.
\<close>

definition str :: "string \<Rightarrow> bytes" where
  "str s = map (\<lambda>c. of_nat (of_char c)) s"

fun dec :: "nat \<Rightarrow> bytes" where
  "dec n = (if n < 10 then [of_nat (48 + n)] else dec (n div 10) @ [of_nat (48 + n mod 10)])"

declare dec.simps [simp del]

lemma length_str [simp]: "length (str s) = length s"
  by (simp add: str_def)

lemma length_dec: "n < 10 ^ k \<Longrightarrow> 0 < k \<Longrightarrow> length (dec n) \<le> k"
proof (induction k arbitrary: n)
  case (Suc k)
  show ?case
  proof (cases "n < 10")
    case True
    then show ?thesis by (simp add: dec.simps [of n])
  next
    case False
    with Suc.prems have "n div 10 < 10 ^ k" and "0 < k"
      by (auto intro: gr0I)
    then have "length (dec (n div 10)) \<le> k" by (rule Suc.IH)
    with False show ?thesis by (simp add: dec.simps [of n])
  qed
qed simp

lemma unat_digit: "k < 10 \<Longrightarrow> unat (of_nat (48 + k) :: u8) = 48 + k"
  by (simp add: unat_of_nat take_bit_nat_eq_self del: of_nat_add)

lemma dec_bytes: "b \<in> set (dec n) \<Longrightarrow> 48 \<le> unat b \<and> unat b \<le> 57"
proof (induction n rule: dec.induct)
  case (1 n)
  then show ?case
    by (cases "n < 10") (auto simp: dec.simps [of n] unat_digit simp del: of_nat_add)
qed

section \<open>Results\<close>

text \<open>
  A \<open>Result<T, E>\<close> is a sum \<open>'e + 'a\<close>, the error on the left; the \<open>?\<close> operator is its
  bind.
\<close>

fun bindE :: "'e + 'a \<Rightarrow> ('a \<Rightarrow> 'e + 'b) \<Rightarrow> 'e + 'b" where
  "bindE (Inl e) f = Inl e"
| "bindE (Inr x) f = f x"

lemma bindE_Inr_iff: "bindE m f = Inr y \<longleftrightarrow> (\<exists>x. m = Inr x \<and> f x = Inr y)"
  by (cases m) auto

lemma bindE_Inl_iff: "bindE m f = Inl e \<longleftrightarrow> m = Inl e \<or> (\<exists>x. m = Inr x \<and> f x = Inl e)"
  by (cases m) auto

lemma bindE_cong [fundef_cong]:
  "m = m' \<Longrightarrow> (\<And>x. m' = Inr x \<Longrightarrow> f x = f' x) \<Longrightarrow> bindE m f = bindE m' f'"
  by (cases m') auto

text \<open>Collecting an iterator of results: the first error, or all the values.\<close>

fun collect_results :: "('e + 'a) list \<Rightarrow> 'e + 'a list" where
  "collect_results [] = Inr []"
| "collect_results (r # rs) = bindE r (\<lambda>x. map_sum id (\<lambda>xs. x # xs) (collect_results rs))"

lemma collect_results_values [simp]: "collect_results (map Inr xs) = Inr xs"
  by (induction xs) simp_all

lemma collect_results_Inr: "collect_results rs = Inr xs \<longleftrightarrow> rs = map Inr xs"
proof
  show "collect_results rs = Inr xs \<Longrightarrow> rs = map Inr xs"
  proof (induction rs arbitrary: xs)
    case (Cons r rs)
    then show ?case by (cases r; cases "collect_results rs") auto
  qed simp
qed simp

section \<open>Lists\<close>

lemma take_append_exact [simp]: "length xs = n \<Longrightarrow> take n (xs @ ys) = xs"
  by simp

lemma drop_append_exact [simp]: "length xs = n \<Longrightarrow> drop n (xs @ ys) = ys"
  by simp

lemma sum_list_map_filter_split:
  "sum_list (map f xs) = sum_list (map f (filter P xs)) + (sum_list (map f (filter (\<lambda>x. \<not> P x) xs)) :: nat)"
  by (induction xs) auto

lemma sum_list_filter_le: "sum_list (map f (filter P xs)) \<le> (sum_list (map f xs) :: nat)"
  by (simp add: sum_list_map_filter_split [of f xs P])

lemma map_cong_on: "(\<And>x. x \<in> set xs \<Longrightarrow> f x = g x) \<Longrightarrow> map f xs = map g xs"
  by simp

text \<open>What a slice write (\<open>copy_from_slice\<close> on a range) leaves.\<close>

definition overwrite :: "nat \<Rightarrow> 'a list \<Rightarrow> 'a list \<Rightarrow> 'a list" where
  "overwrite at ys xs = take at xs @ ys @ drop (at + length ys) xs"

lemma length_overwrite [simp]: "at + length ys \<le> length xs \<Longrightarrow> length (overwrite at ys xs) = length xs"
  by (simp add: overwrite_def)

lemma overwrite_append [simp]:
  "length as = at \<Longrightarrow> length bs = length ys \<Longrightarrow> overwrite at ys (as @ bs @ cs) = as @ ys @ cs"
  by (simp add: overwrite_def)

end
