(* ===== verification/Framing.thy ===== *)
theory Framing
  imports Prelude
begin

text \<open>
  The interface between whoever writes self-delimiting messages and whoever reads them
  back: an encoder, a step that takes one message off the head of a byte string, and the two
  laws that make them inverse. Everything a reader needs about sequences of messages
  (uniqueness, decoding of a concatenation, stability under more input) follows from them;
  the frames of \<^verbatim>\<open>crates/wire\<close> are the instance.
\<close>

text \<open>Taking \<open>n\<close> messages off the head of a byte string, stopping at the first error.\<close>

primrec walk :: "(bytes \<Rightarrow> 'e + 'f \<times> bytes) \<Rightarrow> nat \<Rightarrow> bytes \<Rightarrow> 'e + 'f list \<times> bytes" where
  "walk step 0 bs = Inr ([], bs)"
| "walk step (Suc n) bs =
     bindE (step bs) (\<lambda>(f, r). bindE (walk step n r) (\<lambda>(fs, r'). Inr (f # fs, r')))"

locale framing =
  fixes enc :: "'f \<Rightarrow> bytes"
    and step :: "bytes \<Rightarrow> 'e + 'f \<times> bytes"
    and ok :: "'f \<Rightarrow> bool"
  assumes step_enc: "ok f \<Longrightarrow> step (enc f @ rest) = Inr (f, rest)"
    and step_inv: "step bs = Inr (f, rest) \<Longrightarrow> ok f \<and> bs = enc f @ rest"
    and enc_nonempty: "enc f \<noteq> []"
begin

lemma step_iff: "step bs = Inr (f, rest) \<longleftrightarrow> ok f \<and> bs = enc f @ rest"
  using step_enc step_inv by blast

lemma step_extend: "step bs = Inr (f, rest) \<Longrightarrow> step (bs @ more) = Inr (f, rest @ more)"
  by (simp add: step_iff)

lemma step_shrinks: "step bs = Inr (f, rest) \<Longrightarrow> length rest < length bs"
  using enc_nonempty by (simp add: step_iff)

lemma enc_prefix_free:
  assumes "ok f" and "ok g" and "enc f @ xs = enc g @ ys"
  shows "f = g \<and> xs = ys"
proof -
  from assms have "step (enc f @ xs) = Inr (g, ys)" by (simp add: step_enc)
  with assms(1) show ?thesis by (simp add: step_enc)
qed

lemma walk_iff:
  "walk step n bs = Inr (fs, rest) \<longleftrightarrow>
     length fs = n \<and> (\<forall>f \<in> set fs. ok f) \<and> bs = concat (map enc fs) @ rest"
proof (induction n arbitrary: bs fs)
  case 0
  then show ?case by auto
next
  case (Suc n)
  show ?case
  proof (cases fs)
    case Nil
    then show ?thesis by (auto simp: bindE_Inr_iff)
  next
    case (Cons f fs')
    have "walk step (Suc n) bs = Inr (fs, rest) \<longleftrightarrow>
      (\<exists>r. step bs = Inr (f, r) \<and> walk step n r = Inr (fs', rest))"
      using Cons by (auto simp: bindE_Inr_iff)
    also have "\<dots> \<longleftrightarrow> (ok f \<and> (\<exists>r. bs = enc f @ r \<and> walk step n r = Inr (fs', rest)))"
      by (auto simp: step_iff)
    finally show ?thesis using Cons Suc.IH [of _ fs'] by auto
  qed
qed

lemma walk_concat:
  "\<forall>f \<in> set fs. ok f \<Longrightarrow> walk step (length fs) (concat (map enc fs) @ rest) = Inr (fs, rest)"
  by (simp add: walk_iff)

lemma concat_enc_unique:
  assumes "\<forall>f \<in> set fs. ok f" and "\<forall>f \<in> set gs. ok f" and "length fs = length gs"
    and "concat (map enc fs) @ xs = concat (map enc gs) @ ys"
  shows "fs = gs \<and> xs = ys"
proof -
  have "Inr (fs, xs) = walk step (length fs) (concat (map enc fs) @ xs)"
    using walk_concat [OF assms(1), of xs] by simp
  also have "\<dots> = walk step (length gs) (concat (map enc gs) @ ys)"
    by (simp only: assms(3,4))
  also have "\<dots> = Inr (gs, ys)" by (rule walk_concat [OF assms(2)])
  finally show ?thesis by simp
qed

end

end
