(* ===== verification/Wire.thy ===== *)
theory Wire
  imports Framing
begin

text \<open>
  The wire protocol of \<^verbatim>\<open>crates/wire/src/lib.rs\<close>: operation and status bytes, the
  five-byte frame header, SET bodies, the batch encoder and the validated iterator over a
  batch's nested frames.

  A byte slice is the list of its bytes. Where the source computes the address of a slice
  inside its buffer (the batch iterator's items), the model carries the offset of the slice
  beside its bytes. The \<open>unsafe\<close> accesses of the iterator are the unchecked \<open>take\<close> and
  \<open>drop\<close> of the same ranges; \<open>frames_in_bounds\<close> shows that they never leave the buffer.
\<close>

section \<open>Operations and statuses\<close>

definition HEADER_LEN :: nat where "HEADER_LEN = 5"

datatype op = Get | Set | Del | Auth | Ping | Batch

fun op_u8 :: "op \<Rightarrow> u8" where
  "op_u8 Get = 1" | "op_u8 Set = 2" | "op_u8 Del = 3"
| "op_u8 Auth = 4" | "op_u8 Ping = 5" | "op_u8 Batch = 6"

definition op_from_u8 :: "u8 \<Rightarrow> op option" where
  "op_from_u8 b =
     (if b = 1 then Some Get else if b = 2 then Some Set else if b = 3 then Some Del
      else if b = 4 then Some Auth else if b = 5 then Some Ping else if b = 6 then Some Batch
      else None)"

datatype status = Ok | BadRequest | UnknownOp | TooLarge | Unauthorized | NotFound

fun status_u8 :: "status \<Rightarrow> u8" where
  "status_u8 Ok = 0" | "status_u8 BadRequest = 1" | "status_u8 UnknownOp = 2"
| "status_u8 TooLarge = 3" | "status_u8 Unauthorized = 4" | "status_u8 NotFound = 5"

definition status_from_u8 :: "u8 \<Rightarrow> status option" where
  "status_from_u8 b =
     (if b = 0 then Some Ok else if b = 1 then Some BadRequest else if b = 2 then Some UnknownOp
      else if b = 3 then Some TooLarge else if b = 4 then Some Unauthorized
      else if b = 5 then Some NotFound else None)"

section \<open>Headers and bodies\<close>

definition encode_header :: "u8 \<Rightarrow> nat \<Rightarrow> bytes" where
  "encode_header tag len = tag # to_le_bytes (of_nat len)"

definition decode_header :: "bytes \<Rightarrow> u8 \<times> nat" where
  "decode_header h = (h ! 0, unat (from_le_bytes (take 4 (drop 1 h))))"

datatype decode_error = Truncated nat | Trailing nat | TooMany nat

definition U32 :: nat where "U32 = 4"

definition MAX_FRAME :: nat where "MAX_FRAME = 64 * 2 ^ 20"

definition MAX_ITEMS :: nat where "MAX_ITEMS = 2 ^ 16"

text \<open>The \<open>Display\<close> text of a decoding error, as its \<open>#[error]\<close> attributes format it.\<close>

fun decode_error_msg :: "decode_error \<Rightarrow> bytes" where
  "decode_error_msg (Truncated n) =
     str ''unexpected end of frame: needed '' @ dec n @ str '' more bytes''"
| "decode_error_msg (Trailing n) = str ''trailing '' @ dec n @ str '' bytes after frame''"
| "decode_error_msg (TooMany n) =
     dec n @ str '' items in one batch exceeds the limit of '' @ dec MAX_ITEMS"

definition split_count :: "bytes \<Rightarrow> decode_error + (nat \<times> bytes)" where
  "split_count body =
     (if length body < U32 then Inl (Truncated (U32 - length body))
      else Inr (unat (from_le_bytes (take U32 body)), drop U32 body))"

definition split_len :: "bytes \<Rightarrow> nat \<Rightarrow> decode_error + (bytes \<times> bytes)" where
  "split_len b len =
     (if length b < len then Inl (Truncated (len - length b)) else Inr (take len b, drop len b))"

definition set_size :: "bytes \<Rightarrow> bytes \<Rightarrow> nat" where
  "set_size key val = U32 + length key + length val"

definition put_set_key :: "bytes \<Rightarrow> bytes \<Rightarrow> bytes" where
  "put_set_key out key = out @ to_le_bytes (of_nat (length key)) @ key"

definition put_set :: "bytes \<Rightarrow> bytes \<Rightarrow> bytes \<Rightarrow> bytes" where
  "put_set out key val = put_set_key out key @ val"

definition encode_set :: "bytes \<Rightarrow> bytes \<Rightarrow> bytes" where
  "encode_set key val = put_set [] key val"

definition set_body :: "bytes \<Rightarrow> decode_error + (bytes \<times> bytes)" where
  "set_body body = bindE (split_count body) (\<lambda>(klen, rest). split_len rest klen)"

section \<open>The batch encoder\<close>

record batch_encoder =
  enc_out :: bytes
  enc_count :: nat

definition enc_new :: batch_encoder where
  "enc_new = \<lparr>enc_out = to_le_bytes 0, enc_count = 0\<rparr>"

definition enc_len :: "batch_encoder \<Rightarrow> nat" where
  "enc_len e = enc_count e"

definition enc_is_empty :: "batch_encoder \<Rightarrow> bool" where
  "enc_is_empty e \<longleftrightarrow> enc_count e = 0"

definition enc_item :: "batch_encoder \<Rightarrow> op \<Rightarrow> nat \<Rightarrow> batch_encoder" where
  "enc_item e o' len =
     e\<lparr>enc_out := enc_out e @ encode_header (op_u8 o') len, enc_count := enc_count e + 1\<rparr>"

definition enc_put :: "bytes \<Rightarrow> batch_encoder \<Rightarrow> batch_encoder" where
  "enc_put b e = e\<lparr>enc_out := enc_out e @ b\<rparr>"

definition enc_get :: "batch_encoder \<Rightarrow> bytes \<Rightarrow> batch_encoder" where
  "enc_get e key = enc_put key (enc_item e Get (length key))"

definition enc_set :: "batch_encoder \<Rightarrow> bytes \<Rightarrow> bytes \<Rightarrow> batch_encoder" where
  "enc_set e key val =
     (let e' = enc_item e Set (set_size key val)
      in e'\<lparr>enc_out := put_set (enc_out e') key val\<rparr>)"

text \<open>
  The value writer of \<open>set_with\<close> is a closure over the buffer: it returns its error, if
  any, and the buffer as it left it. A failed writer's item is cut off again.
\<close>

definition enc_set_with ::
  "batch_encoder \<Rightarrow> bytes \<Rightarrow> (bytes \<Rightarrow> 'e option \<times> bytes) \<Rightarrow> ('e + unit) \<times> batch_encoder" where
  "enc_set_with e key val =
     (let at = length (enc_out e);
          e1 = enc_item e Set 0;
          e2 = e1\<lparr>enc_out := put_set_key (enc_out e1) key\<rparr>;
          (err, out) = val (enc_out e2);
          e3 = e2\<lparr>enc_out := out\<rparr>
      in case err of
           Some x \<Rightarrow> (Inl x, e3\<lparr>enc_out := take at out, enc_count := enc_count e3 - 1\<rparr>)
         | None \<Rightarrow>
             (Inr (),
              e3\<lparr>enc_out :=
                   overwrite (at + 1) (to_le_bytes (of_nat (length out - at - HEADER_LEN))) out\<rparr>))"

definition enc_del :: "batch_encoder \<Rightarrow> bytes \<Rightarrow> batch_encoder" where
  "enc_del e key = enc_put key (enc_item e Del (length key))"

definition enc_push :: "batch_encoder \<Rightarrow> u8 \<Rightarrow> bytes \<Rightarrow> batch_encoder" where
  "enc_push e o' body =
     enc_put body (e\<lparr>enc_out := enc_out e @ encode_header o' (length body),
                     enc_count := enc_count e + 1\<rparr>)"

text \<open>The assertion of \<open>finish\<close> panics past \<open>MAX_ITEMS\<close>: \<open>None\<close>.\<close>

definition enc_finish :: "batch_encoder \<Rightarrow> bytes option" where
  "enc_finish e =
     (if enc_count e \<le> MAX_ITEMS
      then Some (overwrite 0 (to_le_bytes (of_nat (enc_count e))) (enc_out e))
      else None)"

section \<open>Nested frames\<close>

record frames =
  fr_rest :: bytes
  fr_left :: nat
  fr_at :: nat  \<comment> \<open>offset of \<open>rest\<close> from the start of the body\<close>

text \<open>One round of the validation loop: the frame at the head of \<open>rest\<close>, and what follows it.\<close>

definition frame_step :: "bytes \<Rightarrow> decode_error + ((u8 \<times> bytes) \<times> bytes)" where
  "frame_step rest =
     bindE (split_len rest HEADER_LEN) (\<lambda>(h, r).
       let (tag, len) = decode_header h
       in bindE (split_len r len) (\<lambda>(b, r'). Inr ((tag, b), r')))"

fun frames_walk :: "nat \<Rightarrow> bytes \<Rightarrow> decode_error + bytes" where
  "frames_walk 0 rest = Inr rest"
| "frames_walk (Suc n) rest = bindE (frame_step rest) (\<lambda>(_, r). frames_walk n r)"

definition frames :: "bytes \<Rightarrow> decode_error + frames" where
  "frames body =
     bindE (split_count body) (\<lambda>(n, rest).
       if n > MAX_ITEMS then Inl (TooMany n)
       else bindE (frames_walk n rest) (\<lambda>rest'.
         if rest' \<noteq> [] then Inl (Trailing (length rest'))
         else Inr \<lparr>fr_rest = drop U32 body, fr_left = n, fr_at = U32\<rparr>))"

text \<open>An item is its tag, the offset of its body in the buffer, and its body.\<close>

type_synonym item = "u8 \<times> nat \<times> bytes"

definition frames_next :: "frames \<Rightarrow> (item \<times> frames) option" where
  "frames_next f =
     (if fr_left f = 0 then None
      else let (tag, len) = decode_header (take HEADER_LEN (fr_rest f));
               rest = drop HEADER_LEN (fr_rest f)
           in Some ((tag, fr_at f + HEADER_LEN, take len rest),
                    \<lparr>fr_rest = drop len rest, fr_left = fr_left f - 1,
                     fr_at = fr_at f + HEADER_LEN + len\<rparr>))"

function frames_collect :: "frames \<Rightarrow> item list" where
  "frames_collect f =
     (case frames_next f of None \<Rightarrow> [] | Some (x, f') \<Rightarrow> x # frames_collect f')"
  by pat_completeness auto
termination
  by (relation "measure fr_left") (auto simp: frames_next_def Let_def split: if_splits prod.splits)

declare frames_collect.simps [simp del]

text \<open>Tag and body of an item, the pair the source's iterator yields.\<close>

abbreviation untag :: "item \<Rightarrow> u8 \<times> bytes" where
  "untag x \<equiv> (fst x, snd (snd x))"

definition frames_items :: "frames \<Rightarrow> (u8 \<times> bytes) list" where
  "frames_items f = map untag (frames_collect f)"

definition decode_replies :: "bytes \<Rightarrow> decode_error + (u8 \<times> bytes) list" where
  "decode_replies body =
     bindE (frames body) (\<lambda>f.
       Inr (map (\<lambda>(tag, start, b). (tag, take (length b) (drop start body))) (frames_collect f)))"

section \<open>Codec lemmas\<close>

lemmas wire_consts = HEADER_LEN_def U32_def MAX_FRAME_def MAX_ITEMS_def

lemma op_from_u8_op_u8 [simp, codec]: "op_from_u8 (op_u8 x) = Some x"
  by (cases x) (simp_all add: op_from_u8_def)

lemma op_from_u8_Some: "op_from_u8 b = Some x \<Longrightarrow> b = op_u8 x"
  by (auto simp: op_from_u8_def split: if_splits)

lemma status_from_u8_status_u8 [simp, codec]: "status_from_u8 (status_u8 s) = Some s"
  by (cases s) (simp_all add: status_from_u8_def)

lemma status_from_u8_Some: "status_from_u8 b = Some s \<Longrightarrow> b = status_u8 s"
  by (auto simp: status_from_u8_def split: if_splits)

lemma length_encode_header [simp]: "length (encode_header t n) = HEADER_LEN"
  by (simp add: encode_header_def HEADER_LEN_def)

lemma decode_header_encode [simp, codec]:
  "n < 2 ^ 32 \<Longrightarrow> decode_header (encode_header t n) = (t, n)"
  by (simp add: decode_header_def encode_header_def)

lemma encode_header_decode [codec]:
  assumes "length h = HEADER_LEN"
  shows "encode_header (fst (decode_header h)) (snd (decode_header h)) = h"
proof -
  from assms obtain t bs where h: "h = t # bs" "length bs = 4"
    by (cases h) (auto simp: HEADER_LEN_def)
  then show ?thesis
    by (simp add: encode_header_def decode_header_def to_from_le_bytes)
qed

lemma decode_header_less: "snd (decode_header h) < 2 ^ 32"
  using unat_from_le_bytes_less by (simp add: decode_header_def)

text \<open>A frame as it stands on the wire: header, then body.\<close>

definition encode_frame :: "u8 \<times> bytes \<Rightarrow> bytes" where
  "encode_frame f = encode_header (fst f) (length (snd f)) @ snd f"

definition frame_ok :: "u8 \<times> bytes \<Rightarrow> bool" where
  "frame_ok f \<longleftrightarrow> length (snd f) < 2 ^ 32"

lemma length_encode_frame [simp]: "length (encode_frame f) = HEADER_LEN + length (snd f)"
  by (simp add: encode_frame_def)

lemma frame_step_encode: "frame_ok f \<Longrightarrow> frame_step (encode_frame f @ rest) = Inr (f, rest)"
  by (cases f) (simp add: frame_step_def split_len_def encode_frame_def frame_ok_def)

lemma frame_step_inv:
  assumes "frame_step bs = Inr (f, rest)"
  shows "frame_ok f \<and> bs = encode_frame f @ rest"
proof -
  define h where "h = take HEADER_LEN bs"
  define r where "r = drop HEADER_LEN bs"
  define len where "len = snd (decode_header h)"
  from assms have len: "HEADER_LEN \<le> length bs" "len \<le> length r"
    and f: "f = (fst (decode_header h), take len r)" "rest = drop len r"
    by (auto simp: frame_step_def split_len_def h_def r_def len_def bindE_Inr_iff
        split: if_splits prod.splits)
  have "len < 2 ^ 32" unfolding len_def by (rule decode_header_less)
  moreover have "encode_header (fst f) (length (snd f)) = h"
    using len f encode_header_decode [of h] by (simp add: h_def len_def)
  moreover have "bs = h @ take len r @ drop len r"
    by (simp only: h_def r_def append_take_drop_id)
  ultimately show ?thesis
    using len f by (simp add: frame_ok_def encode_frame_def)
qed

interpretation wire: framing encode_frame frame_step frame_ok
  using frame_step_encode frame_step_inv
  by unfold_locales (auto simp: encode_frame_def encode_header_def)

lemma frames_walk_numeral [simp]:
  "frames_walk (numeral k) rest = bindE (frame_step rest) (\<lambda>(_, r). frames_walk (pred_numeral k) r)"
  by (simp add: numeral_eq_Suc)

lemma frames_walk_iff:
  "frames_walk n bs = Inr rest \<longleftrightarrow> (\<exists>fs. walk frame_step n bs = Inr (fs, rest))"
proof (induction n arbitrary: bs)
  case (Suc n)
  then show ?case by (fastforce simp: bindE_Inr_iff)
qed simp

section \<open>Batch bodies\<close>

text \<open>The reference encoding of a batch: the count, then the frames of the items.\<close>

definition encode_batch :: "(u8 \<times> bytes) list \<Rightarrow> bytes" where
  "encode_batch xs = to_le_bytes (of_nat (length xs)) @ concat (map encode_frame xs)"

text \<open>The iterator's state is good when the rest of the buffer is exactly its frames.\<close>

definition frames_wf :: "frames \<Rightarrow> (u8 \<times> bytes) list \<Rightarrow> bool" where
  "frames_wf f xs \<longleftrightarrow>
     fr_left f = length xs \<and> (\<forall>x \<in> set xs. frame_ok x) \<and> fr_rest f = concat (map encode_frame xs)"

lemma split_count_iff:
  "split_count body = Inr (n, rest) \<longleftrightarrow> n < 2 ^ 32 \<and> body = to_le_bytes (of_nat n) @ rest"
proof
  assume l: "split_count body = Inr (n, rest)"
  then have n: "U32 \<le> length body" "n = unat (from_le_bytes (take U32 body))" "rest = drop U32 body"
    by (auto simp: split_count_def split: if_splits)
  then have "to_le_bytes (of_nat n) = take U32 body"
    by (simp add: to_from_le_bytes U32_def)
  moreover have "n < 2 ^ 32" using n(2) unat_from_le_bytes_less by simp
  ultimately show "n < 2 ^ 32 \<and> body = to_le_bytes (of_nat n) @ rest"
    using n(3) by simp
qed (auto simp: split_count_def U32_def)

lemma frames_Inr_iff:
  "frames body = Inr f \<longleftrightarrow>
     (\<exists>xs. frames_wf f xs \<and> fr_at f = U32 \<and> length xs \<le> MAX_ITEMS \<and> body = encode_batch xs)"
proof
  assume "frames body = Inr f"
  then obtain n rest where n: "split_count body = Inr (n, rest)" "n \<le> MAX_ITEMS"
    and w: "frames_walk n rest = Inr []" and f: "f = \<lparr>fr_rest = drop U32 body, fr_left = n, fr_at = U32\<rparr>"
    by (auto simp: frames_def bindE_Inr_iff split: if_splits)
  from w obtain xs where "length xs = n" "\<forall>x \<in> set xs. frame_ok x" "rest = concat (map encode_frame xs)"
    by (auto simp: frames_walk_iff wire.walk_iff)
  with n f show "\<exists>xs. frames_wf f xs \<and> fr_at f = U32 \<and> length xs \<le> MAX_ITEMS \<and> body = encode_batch xs"
    by (intro exI [of _ xs]) (auto simp: frames_wf_def encode_batch_def split_count_iff U32_def)
next
  assume "\<exists>xs. frames_wf f xs \<and> fr_at f = U32 \<and> length xs \<le> MAX_ITEMS \<and> body = encode_batch xs"
  then obtain xs where xs: "frames_wf f xs" "fr_at f = U32" "length xs \<le> MAX_ITEMS"
    "body = encode_batch xs" by blast
  then have "frames_walk (length xs) (concat (map encode_frame xs)) = Inr []"
    by (auto simp: frames_walk_iff wire.walk_iff frames_wf_def intro!: exI [of _ xs])
  moreover have "split_count body = Inr (length xs, concat (map encode_frame xs))"
    using xs by (simp add: split_count_iff encode_batch_def MAX_ITEMS_def)
  ultimately show "frames body = Inr f"
    using xs by (cases f) (simp add: frames_def frames_wf_def encode_batch_def U32_def)
qed

lemma frames_next_wf:
  assumes "frames_wf f (x # xs)"
  shows "frames_next f =
      Some ((fst x, fr_at f + HEADER_LEN, snd x),
        \<lparr>fr_rest = concat (map encode_frame xs), fr_left = length xs,
         fr_at = fr_at f + HEADER_LEN + length (snd x)\<rparr>)"
  using assms by (simp add: frames_next_def frames_wf_def encode_frame_def frame_ok_def)

lemma frames_collect_wf:
  assumes "frames_wf f xs"
  shows "map untag (frames_collect f) = xs \<and>
    (\<forall>(t, at, b) \<in> set (frames_collect f).
       \<exists>pre post. fr_rest f = pre @ b @ post \<and> at = fr_at f + length pre)"
  using assms
proof (induction xs arbitrary: f)
  case Nil
  then show ?case
    by (simp add: frames_collect.simps [of f] frames_next_def frames_wf_def)
next
  case (Cons x xs)
  let ?f' = "\<lparr>fr_rest = concat (map encode_frame xs), fr_left = length xs,
         fr_at = fr_at f + HEADER_LEN + length (snd x)\<rparr>"
  from Cons.prems have wf': "frames_wf ?f' xs" and rest: "fr_rest f = encode_frame x @ fr_rest ?f'"
    by (auto simp: frames_wf_def)
  have c: "frames_collect f = (fst x, fr_at f + HEADER_LEN, snd x) # frames_collect ?f'"
    using frames_next_wf [OF Cons.prems] by (simp add: frames_collect.simps [of f])
  have "\<exists>pre post. fr_rest f = pre @ b @ post \<and> at = fr_at f + length pre"
    if "(t, at, b) \<in> set (frames_collect f)" for t at b
  proof (cases "(t, at, b) \<in> set (frames_collect ?f')")
    case True
    then obtain pre post where "fr_rest ?f' = pre @ b @ post" "at = fr_at ?f' + length pre"
      using Cons.IH [OF wf'] by fastforce
    then show ?thesis
      by (intro exI [of _ "encode_frame x @ pre"] exI [of _ post]) (simp add: rest)
  next
    case False
    with that c have "at = fr_at f + HEADER_LEN" "b = snd x" by auto
    then show ?thesis
      by (intro exI [of _ "encode_header (fst x) (length (snd x))"] exI [of _ "fr_rest ?f'"])
        (simp add: rest encode_frame_def)
  qed
  then have "\<forall>(t, at, b) \<in> set (frames_collect f).
      \<exists>pre post. fr_rest f = pre @ b @ post \<and> at = fr_at f + length pre"
    by blast
  moreover have "map untag (frames_collect f) = x # xs"
    using Cons.IH [OF wf'] by (simp add: c)
  ultimately show ?case by blast
qed

lemma frames_items_wf: "frames_wf f xs \<Longrightarrow> frames_items f = xs"
  using frames_collect_wf by (simp add: frames_items_def)

lemma frames_collect_slice:
  assumes "frames body = Inr f" and "(t, at, b) \<in> set (frames_collect f)"
  shows "take (length b) (drop at body) = b"
proof -
  from assms(1) obtain xs where xs: "frames_wf f xs" "fr_at f = U32" "body = encode_batch xs"
    by (auto simp: frames_Inr_iff)
  then have body: "body = to_le_bytes (of_nat (length xs)) @ fr_rest f"
    by (simp add: encode_batch_def frames_wf_def)
  obtain pre post where "fr_rest f = pre @ b @ post" "at = fr_at f + length pre"
    using frames_collect_wf [OF xs(1)] assms(2) by fastforce
  with xs(2) body show ?thesis by (simp add: U32_def)
qed

text \<open>The encoder's state represents the items added so far.\<close>

definition enc_repr :: "batch_encoder \<Rightarrow> (u8 \<times> bytes) list \<Rightarrow> bool" where
  "enc_repr e xs \<longleftrightarrow>
     enc_out e = to_le_bytes 0 @ concat (map encode_frame xs) \<and> enc_count e = length xs"

lemma enc_repr_new [simp]: "enc_repr enc_new []"
  by (simp add: enc_repr_def enc_new_def)

lemma enc_repr_push: "enc_repr e xs \<Longrightarrow> enc_repr (enc_push e t b) (xs @ [(t, b)])"
  by (simp add: enc_repr_def enc_push_def enc_put_def encode_frame_def)

lemma enc_get_push: "enc_get e k = enc_push e (op_u8 Get) k"
  by (simp add: enc_get_def enc_push_def enc_item_def enc_put_def)

lemma enc_del_push: "enc_del e k = enc_push e (op_u8 Del) k"
  by (simp add: enc_del_def enc_push_def enc_item_def enc_put_def)

lemma length_encode_set [simp]: "length (encode_set k v) = set_size k v"
  by (simp add: encode_set_def put_set_def put_set_key_def set_size_def U32_def)

lemma enc_set_push: "enc_set e k v = enc_push e (op_u8 Set) (encode_set k v)"
  by (simp add: enc_set_def enc_push_def enc_item_def enc_put_def Let_def)
    (simp add: encode_set_def put_set_def put_set_key_def)

lemma enc_finish_repr:
  "enc_repr e xs \<Longrightarrow> length xs \<le> MAX_ITEMS \<Longrightarrow> enc_finish e = Some (encode_batch xs)"
  by (simp add: enc_finish_def enc_repr_def encode_batch_def overwrite_def)

lemma set_body_encode_set [simp, codec]:
  "length k < 2 ^ 32 \<Longrightarrow> set_body (encode_set k v) = Inr (k, v)"
  by (simp add: set_body_def split_count_def encode_set_def put_set_def put_set_key_def U32_def
      split_len_def)

lemma set_body_Inr_iff:
  "set_body body = Inr (k, v) \<longleftrightarrow> length k < 2 ^ 32 \<and> body = encode_set k v"
proof
  assume "set_body body = Inr (k, v)"
  then obtain n rest where "split_count body = Inr (n, rest)" "split_len rest n = Inr (k, v)"
    by (auto simp: set_body_def bindE_Inr_iff)
  then show "length k < 2 ^ 32 \<and> body = encode_set k v"
    by (auto simp: split_count_iff split_len_def encode_set_def put_set_def put_set_key_def
        split: if_splits)
qed auto

section \<open>Properties\<close>

text \<open>A call on the batch encoder, and the item it stands for.\<close>

datatype enc_call = CGet bytes | CSet bytes bytes | CDel bytes | CPush u8 bytes

fun enc_apply :: "enc_call \<Rightarrow> batch_encoder \<Rightarrow> batch_encoder" where
  "enc_apply (CGet k) e = enc_get e k"
| "enc_apply (CSet k v) e = enc_set e k v"
| "enc_apply (CDel k) e = enc_del e k"
| "enc_apply (CPush t b) e = enc_push e t b"

fun call_item :: "enc_call \<Rightarrow> u8 \<times> bytes" where
  "call_item (CGet k) = (op_u8 Get, k)"
| "call_item (CSet k v) = (op_u8 Set, encode_set k v)"
| "call_item (CDel k) = (op_u8 Del, k)"
| "call_item (CPush t b) = (t, b)"

lemma enc_apply_push: "enc_apply c e = enc_push e (fst (call_item c)) (snd (call_item c))"
  by (cases c) (simp_all add: enc_get_push enc_set_push enc_del_push)

lemma enc_repr_fold: "enc_repr e xs \<Longrightarrow> enc_repr (fold enc_apply cs e) (xs @ map call_item cs)"
proof (induction cs arbitrary: e xs)
  case (Cons c cs)
  have "enc_repr (enc_apply c e) (xs @ [call_item c])"
    using enc_repr_push [OF Cons.prems, of "fst (call_item c)" "snd (call_item c)"]
    by (simp add: enc_apply_push)
  from Cons.IH [OF this] show ?case by simp
qed simp

lemma frames_items_iff:
  "(\<exists>f. frames body = Inr f \<and> frames_items f = xs) \<longleftrightarrow>
     length xs \<le> MAX_ITEMS \<and> list_all frame_ok xs \<and> body = encode_batch xs"
proof
  assume "\<exists>f. frames body = Inr f \<and> frames_items f = xs"
  then obtain f ys where "frames_items f = xs" "frames_wf f ys" "length ys \<le> MAX_ITEMS"
    "body = encode_batch ys" by (auto simp: frames_Inr_iff)
  moreover from this have "ys = xs" by (simp add: frames_items_wf)
  ultimately show "length xs \<le> MAX_ITEMS \<and> list_all frame_ok xs \<and> body = encode_batch xs"
    by (simp add: frames_wf_def list_all_iff)
next
  assume xs: "length xs \<le> MAX_ITEMS \<and> list_all frame_ok xs \<and> body = encode_batch xs"
  define f where "f = \<lparr>fr_rest = concat (map encode_frame xs), fr_left = length xs, fr_at = U32\<rparr>"
  have "frames_wf f xs" using xs by (simp add: f_def frames_wf_def list_all_iff)
  moreover from this have "frames body = Inr f"
    using xs by (auto simp: frames_Inr_iff f_def)
  ultimately show "\<exists>f. frames body = Inr f \<and> frames_items f = xs"
    using frames_items_wf by blast
qed

text \<open>
  C18. A batch built by any sequence of encoder calls within the item limit, each item short enough for the
  length field of a frame, is finished, and
  parsing its body yields exactly the items of the calls, in order: what a client adds is what
  a server reads.
\<close>

theorem batch_roundtrip:
  assumes "length cs \<le> MAX_ITEMS" and "list_all (\<lambda>c. frame_ok (call_item c)) cs"
  shows "\<exists>body f. enc_finish (fold enc_apply cs enc_new) = Some body \<and>
    frames body = Inr f \<and> frames_items f = map call_item cs"
proof -
  have "enc_repr (fold enc_apply cs enc_new) (map call_item cs)"
    using enc_repr_fold [OF enc_repr_new] by simp
  then have "enc_finish (fold enc_apply cs enc_new) = Some (encode_batch (map call_item cs))"
    using assms(1) by (simp add: enc_finish_repr)
  moreover have "\<exists>f. frames (encode_batch (map call_item cs)) = Inr f \<and>
      frames_items f = map call_item cs"
    using assms by (simp add: frames_items_iff list_all_iff)
  ultimately show ?thesis by blast
qed

theorem batch_roundtrip_witness:
  "length [CGet [97], CSet [107] [118], CDel []] \<le> MAX_ITEMS \<and>
   list_all (\<lambda>c. frame_ok (call_item c)) [CGet [97], CSet [107] [118], CDel []] \<and>
   (\<exists>body f. enc_finish (fold enc_apply [CGet [97], CSet [107] [118], CDel []] enc_new) = Some body \<and>
     frames body = Inr f \<and>
     frames_items f = [(1, [97]), (2, [1, 0, 0, 0, 107, 118]), (3, [])])"
proof -
  let ?cs = "[CGet [97], CSet [107] [118], CDel []]"
  have h: "length ?cs \<le> MAX_ITEMS" "list_all (\<lambda>c. frame_ok (call_item c)) ?cs"
    by (simp_all add: MAX_ITEMS_def frame_ok_def set_size_def U32_def)
  have "map call_item ?cs = [(1, [97]), (2, [1, 0, 0, 0, 107, 118]), (3, [])]"
    by (simp add: encode_set_def put_set_def put_set_key_def to_le_bytes_def)
  with h batch_roundtrip [OF h] show ?thesis by metis
qed

text \<open>
  C17. A batch body is accepted, with items \<open>xs\<close>, exactly when it is the encoding of \<open>xs\<close>
  and \<open>xs\<close> is within the limits: nothing else parses, and no two bodies parse alike.
\<close>

theorem frames_accepts_exactly_encodings:
  "(\<exists>f. frames body = Inr f \<and> frames_items f = xs) \<longleftrightarrow>
     length xs \<le> MAX_ITEMS \<and> list_all frame_ok xs \<and> body = encode_batch xs"
  by (rule frames_items_iff)

text \<open>The states the iterator passes through.\<close>

inductive frames_reach :: "frames \<Rightarrow> frames \<Rightarrow> bool" for f0 where
  start: "frames_reach f0 f0"
| step: "frames_reach f0 f \<Longrightarrow> frames_next f = Some (x, f') \<Longrightarrow> frames_reach f0 f'"

lemma frames_reach_wf:
  assumes "frames_reach f0 f" and "\<exists>xs. frames_wf f0 xs"
  shows "\<exists>xs. frames_wf f xs"
  using assms
proof (induction rule: frames_reach.induct)
  case (step f x f')
  then obtain xs where wf: "frames_wf f xs" by blast
  show ?case
  proof (cases xs)
    case Nil
    with wf step.hyps(2) show ?thesis by (simp add: frames_next_def frames_wf_def)
  next
    case (Cons y ys)
    with wf have "frames_next f = Some ((fst y, fr_at f + HEADER_LEN, snd y),
        \<lparr>fr_rest = concat (map encode_frame ys), fr_left = length ys,
         fr_at = fr_at f + HEADER_LEN + length (snd y)\<rparr>)"
      by (simp add: frames_next_wf)
    with step.hyps(2) wf Cons have "frames_wf f' ys" by (auto simp: frames_wf_def)
    then show ?thesis by blast
  qed
qed simp

text \<open>
  C38. Once \<open>frames\<close> has accepted a body, every unchecked access of the iterator is in
  bounds: in every state it reaches with items left, the header it reads and the body it
  splits off lie inside the rest of the buffer.
\<close>

theorem frames_in_bounds:
  assumes "frames body = Inr f0" and "frames_reach f0 f" and "fr_left f \<noteq> 0"
  shows "HEADER_LEN \<le> length (fr_rest f) \<and>
    HEADER_LEN + snd (decode_header (take HEADER_LEN (fr_rest f))) \<le> length (fr_rest f)"
proof -
  from assms(1) have "\<exists>xs. frames_wf f0 xs" by (auto simp: frames_Inr_iff)
  then obtain xs where wf: "frames_wf f xs" using frames_reach_wf [OF assms(2)] by blast
  with assms(3) obtain x ys where "xs = x # ys" by (cases xs) (auto simp: frames_wf_def)
  with wf show ?thesis by (auto simp: frames_wf_def encode_frame_def frame_ok_def)
qed

theorem frames_in_bounds_witness:
  "\<exists>f0 f. frames [2, 0, 0, 0, 1, 0, 0, 0, 0, 3, 1, 0, 0, 0, 97] = Inr f0 \<and> frames_reach f0 f \<and>
     fr_left f = 1 \<and> HEADER_LEN \<le> length (fr_rest f) \<and>
     HEADER_LEN + snd (decode_header (take HEADER_LEN (fr_rest f))) \<le> length (fr_rest f)"
proof -
  let ?b = "[2, 0, 0, 0, 1, 0, 0, 0, 0, 3, 1, 0, 0, 0, 97] :: bytes"
  let ?g = "\<lparr>fr_rest = [1, 0, 0, 0, 0, 3, 1, 0, 0, 0, 97], fr_left = 2, fr_at = 4\<rparr> :: frames"
  let ?f = "\<lparr>fr_rest = [3, 1, 0, 0, 0, 97], fr_left = 1, fr_at = 9\<rparr> :: frames"
  have f0: "frames ?b = Inr ?g"
    by (simp add: frames_def split_count_def wire_consts frame_step_def split_len_def
        decode_header_def from_le_bytes_def)
  have "frames_next ?g = Some ((1, 9, []), ?f)"
    by (simp add: frames_next_def wire_consts decode_header_def from_le_bytes_def)
  then have r: "frames_reach ?g ?f" by (rule frames_reach.step [OF frames_reach.start])
  have "fr_left ?f \<noteq> 0" by simp
  note frames_in_bounds [OF f0 r this]
  with f0 r show ?thesis by (intro exI [of _ ?g] exI [of _ ?f]) simp
qed

lemma frame_step_prefix:
  assumes "frame_ok f" and "m < length (encode_frame f)"
  shows "\<exists>n > 0. frame_step (take m (encode_frame f)) = Inl (Truncated n)"
proof (cases "m < HEADER_LEN")
  case True
  with assms show ?thesis
    by (auto simp: frame_step_def split_len_def)
next
  case False
  with assms show ?thesis
    by (auto simp: frame_step_def split_len_def encode_frame_def frame_ok_def)
qed

lemma frames_walk_prefix:
  assumes "list_all frame_ok xs" and "m < length (concat (map encode_frame xs))"
  shows "\<exists>n > 0. frames_walk (length xs) (take m (concat (map encode_frame xs))) = Inl (Truncated n)"
  using assms
proof (induction xs arbitrary: m)
  case (Cons x xs)
  let ?rest = "concat (map encode_frame xs)"
  show ?case
  proof (cases "m < length (encode_frame x)")
    case True
    with Cons.prems(1) frame_step_prefix [of x m] show ?thesis by auto
  next
    case False
    with Cons.prems(2) have "m - length (encode_frame x) < length ?rest" by simp
    moreover have "list_all frame_ok xs" and x: "frame_ok x" using Cons.prems(1) by simp_all
    ultimately obtain n where "n > 0"
      "frames_walk (length xs) (take (m - length (encode_frame x)) ?rest) = Inl (Truncated n)"
      using Cons.IH by blast
    moreover have "take m (encode_frame x @ ?rest) =
        encode_frame x @ take (m - length (encode_frame x)) ?rest"
      using False by (simp del: length_encode_frame)
    ultimately show ?thesis
      using x by (simp add: frame_step_encode del: length_encode_frame take_append)
  qed
qed simp

text \<open>
  C39. A damaged batch is refused as a whole: every proper prefix of a valid body is
  \<open>Truncated\<close> (asking for at least one more byte), and every extension of one is
  \<open>Trailing\<close> by exactly the bytes added.
\<close>

theorem frames_rejects_damaged:
  assumes "length xs \<le> MAX_ITEMS" and "list_all frame_ok xs"
    and "m < length (encode_batch xs)" and "extra \<noteq> []"
  shows "(\<exists>n > 0. frames (take m (encode_batch xs)) = Inl (Truncated n)) \<and>
    frames (encode_batch xs @ extra) = Inl (Trailing (length extra))"
proof
  let ?c = "concat (map encode_frame xs)"
  have n: "unat (of_nat (length xs) :: u32) = length xs"
    using assms(1) by (simp add: MAX_ITEMS_def)
  show "\<exists>n > 0. frames (take m (encode_batch xs)) = Inl (Truncated n)"
  proof (cases "m < U32")
    case True
    with assms(3) show ?thesis by (auto simp: frames_def split_count_def)
  next
    case False
    with assms(3) have "m - U32 < length ?c" by (simp add: encode_batch_def U32_def)
    then obtain k where "k > 0" "frames_walk (length xs) (take (m - U32) ?c) = Inl (Truncated k)"
      using frames_walk_prefix [OF assms(2)] by blast
    with False assms(1,3) n show ?thesis
      by (auto simp: frames_def split_count_def encode_batch_def U32_def)
  qed
  have "frames_walk (length xs) (?c @ extra) = Inr extra"
    using assms(2) wire.walk_concat [of xs extra] by (auto simp: frames_walk_iff list_all_iff)
  with assms(1,4) n show "frames (encode_batch xs @ extra) = Inl (Trailing (length extra))"
    by (simp add: frames_def split_count_def encode_batch_def U32_def)
qed

theorem frames_rejects_damaged_witness:
  "(\<exists>n > 0. frames (take 7 (encode_batch [(1, [97])])) = Inl (Truncated n)) \<and>
   frames (encode_batch [(1, [97])] @ [9]) = Inl (Trailing 1)"
proof -
  have h: "length [(1, [97])] \<le> MAX_ITEMS" "list_all frame_ok [(1 :: u8, [97 :: u8])]"
    by (simp_all add: MAX_ITEMS_def frame_ok_def)
  have "7 < length (encode_batch [(1 :: u8, [97 :: u8])])"
    by (simp add: encode_batch_def HEADER_LEN_def)
  from frames_rejects_damaged [OF h this, of "[9]"] show ?thesis by simp
qed

text \<open>
  Writing a value straight into the batch buffer and patching the length afterwards is the
  same as adding the encoded item, and a failed writer leaves the encoder exactly as it was.
\<close>

lemma set_with_in_place:
  "enc_set_with e key (\<lambda>out. (r, out @ v)) =
     (case r of None \<Rightarrow> (Inr (), enc_set e key v) | Some x \<Rightarrow> (Inl x, e))"
proof (cases r)
  case None
  let ?b = "to_le_bytes (of_nat (length key)) @ key @ v"
  have "overwrite (length (enc_out e) + 1) (to_le_bytes (of_nat (length ?b)))
      ((enc_out e @ [op_u8 Set]) @ to_le_bytes 0 @ ?b) =
      (enc_out e @ [op_u8 Set]) @ to_le_bytes (of_nat (length ?b)) @ ?b"
    by (rule overwrite_append) simp_all
  with None show ?thesis
    by (simp add: enc_set_with_def enc_item_def enc_set_def put_set_def put_set_key_def set_size_def
        encode_header_def HEADER_LEN_def U32_def Let_def ac_simps)
next
  case (Some x)
  then show ?thesis
    by (simp add: enc_set_with_def enc_item_def put_set_key_def)
qed

end
