(* ===== verification/Frame_Reader.thy ===== *)
theory Frame_Reader
  imports Wire
begin

text \<open>
  \<open>FrameReader\<close> of \<^verbatim>\<open>crates/wire/src/io.rs\<close>: socket reads accumulate in one buffer and
  complete frames are handed out from its head. A lent frame stays in the buffer until the
  next call releases it.

  The buffer is a \<open>BytesMut\<close> of the \<open>bytes\<close> crate. Its contents are in the model; its
  capacity belongs to that crate, so the one operation that reads it (\<open>fill\<close>, to decide how
  much to reserve) takes it as an argument, and what the socket delivers is an argument too.
\<close>

definition BUF :: nat where "BUF = 64 * 2 ^ 10"

record frame_reader =
  rd_buf :: bytes
  rd_max_frame :: nat
  rd_need :: nat
  rd_lent :: nat

datatype frame_too_large = FrameTooLarge nat

fun frame_too_large_msg :: "frame_too_large \<Rightarrow> bytes" where
  "frame_too_large_msg (FrameTooLarge n) =
     str ''frame body of '' @ dec n @ str '' bytes exceeds the limit''"

definition rd_new :: "nat \<Rightarrow> frame_reader" where
  "rd_new max_frame = \<lparr>rd_buf = [], rd_max_frame = max_frame, rd_need = 0, rd_lent = 0\<rparr>"

definition set_max_frame :: "nat \<Rightarrow> frame_reader \<Rightarrow> frame_reader" where
  "set_max_frame max_frame r = r\<lparr>rd_max_frame := max_frame\<rparr>"

definition release :: "frame_reader \<Rightarrow> frame_reader" where
  "release r = r\<lparr>rd_buf := drop (rd_lent r) (rd_buf r), rd_lent := 0\<rparr>"

definition rd_head :: "frame_reader \<Rightarrow> (frame_too_large + nat option) \<times> frame_reader" where
  "rd_head r =
     (if length (rd_buf r) < HEADER_LEN then (Inr None, r)
      else let len = snd (decode_header (take HEADER_LEN (rd_buf r)))
           in if len > rd_max_frame r then (Inl (FrameTooLarge len), r)
              else if length (rd_buf r) < HEADER_LEN + len
              then (Inr None, r\<lparr>rd_need := HEADER_LEN + len\<rparr>)
              else (Inr (Some len), r\<lparr>rd_need := 0\<rparr>))"

definition next_buffered ::
  "frame_reader \<Rightarrow> (frame_too_large + (u8 \<times> bytes) option) \<times> frame_reader" where
  "next_buffered r =
     (case rd_head (release r) of
        (Inl e, r') \<Rightarrow> (Inl e, r')
      | (Inr None, r') \<Rightarrow> (Inr None, r')
      | (Inr (Some len), r') \<Rightarrow>
          (Inr (Some (rd_buf r' ! 0, take len (drop HEADER_LEN (rd_buf r')))),
           r'\<lparr>rd_lent := HEADER_LEN + len\<rparr>))"

definition next_buffered_owned ::
  "frame_reader \<Rightarrow> (frame_too_large + (u8 \<times> bytes) option) \<times> frame_reader" where
  "next_buffered_owned r =
     (case rd_head (release r) of
        (Inl e, r') \<Rightarrow> (Inl e, r')
      | (Inr None, r') \<Rightarrow> (Inr None, r')
      | (Inr (Some len), r') \<Rightarrow>
          let tag = rd_buf r' ! 0;
              buf = drop HEADER_LEN (rd_buf r')
          in (Inr (Some (tag, take len buf)), r'\<lparr>rd_buf := drop len buf\<rparr>))"

text \<open>
  The reservation of \<open>fill\<close>: how many more bytes it asks the buffer of capacity \<open>cap\<close> to
  hold, after the frame lent last is released; \<open>None\<close> when there is room. An empty buffer
  that had grown past \<open>4 * BUF\<close> is replaced by a fresh one of capacity \<open>BUF\<close> first.
\<close>

definition fill_reserve :: "nat \<Rightarrow> frame_reader \<Rightarrow> nat option" where
  "fill_reserve cap0 r =
     (let buf = rd_buf (release r);
          cap = (if buf = [] \<and> cap0 > 4 * BUF then BUF else cap0);
          pending = rd_need r - length buf;
          half_arrived = (pending > 0 \<and> length buf \<ge> pending);
          want = (if half_arrived then pending else max (min pending (max cap BUF)) (BUF div 4))
      in if cap - length buf < want
         then Some (if half_arrived then want else max want BUF) else None)"

text \<open>
  The rest of \<open>fill\<close>: \<open>got\<close> is what \<open>read_buf\<close> returned, an I/O error or the bytes it
  appended; no bytes is end of file, \<open>false\<close>.
\<close>

definition fill :: "'e + bytes \<Rightarrow> frame_reader \<Rightarrow> ('e + bool) \<times> frame_reader" where
  "fill got r =
     (let r' = release r
      in case got of
           Inl e \<Rightarrow> (Inl e, r')
         | Inr data \<Rightarrow> (Inr (data \<noteq> []), r'\<lparr>rd_buf := rd_buf r' @ data\<rparr>))"

section \<open>What a reader holds\<close>

text \<open>The bytes received and not yet handed out.\<close>

definition rd_view :: "frame_reader \<Rightarrow> bytes" where
  "rd_view r = drop (rd_lent r) (rd_buf r)"

lemma rd_view_release [simp]: "rd_view (release r) = rd_view r"
  by (simp add: rd_view_def release_def)

lemma rd_buf_release [simp]: "rd_buf (release r) = rd_view r"
  by (simp add: rd_view_def release_def)

lemma rd_max_release [simp]: "rd_max_frame (release r) = rd_max_frame r"
  by (simp add: release_def)

lemma rd_lent_release [simp]: "rd_lent (release r) = 0"
  by (simp add: release_def)

lemma rd_view_new [simp]: "rd_view (rd_new n) = []" "rd_max_frame (rd_new n) = n"
  by (simp_all add: rd_view_def rd_new_def)

lemma rd_view_set_max [simp]: "rd_view (set_max_frame n r) = rd_view r"
  "rd_max_frame (set_max_frame n r) = n"
  by (simp_all add: rd_view_def set_max_frame_def)

lemma fill_view [simp]:
  "rd_view (snd (fill (Inr data) r)) = rd_view r @ data"
  "rd_max_frame (snd (fill got r)) = rd_max_frame r"
  by (simp_all add: fill_def Let_def rd_view_def release_def split: sum.split)

text \<open>
  One call, in terms of the bytes held: a frame too large to accept is refused by its header,
  a complete frame is handed out and leaves the view, anything else asks for more input.
\<close>

lemma next_buffered_cases:
  obtains (large) t n where "HEADER_LEN \<le> length (rd_view r)"
      "decode_header (take HEADER_LEN (rd_view r)) = (t, n)" "rd_max_frame r < n"
      "fst (next_buffered r) = Inl (FrameTooLarge n)" "rd_view (snd (next_buffered r)) = rd_view r"
  | (frame) f rest where "frame_step (rd_view r) = Inr (f, rest)" "length (snd f) \<le> rd_max_frame r"
      "fst (next_buffered r) = Inr (Some f)" "rd_view (snd (next_buffered r)) = rest"
  | (more) e where "frame_step (rd_view r) = Inl e"
      "fst (next_buffered r) = Inr None" "rd_view (snd (next_buffered r)) = rd_view r"
proof -
  let ?v = "rd_view r"
  obtain t n where h: "decode_header (take HEADER_LEN ?v) = (t, n)" by fastforce
  then have t: "HEADER_LEN \<le> length ?v \<Longrightarrow> t = ?v ! 0"
    by (auto simp: decode_header_def HEADER_LEN_def)
  consider "length ?v < HEADER_LEN" | "HEADER_LEN \<le> length ?v" "rd_max_frame r < n"
    | "HEADER_LEN \<le> length ?v" "n \<le> rd_max_frame r" "length ?v < HEADER_LEN + n"
    | "n \<le> rd_max_frame r" "HEADER_LEN + n \<le> length ?v"
    by linarith
  then show ?thesis
  proof cases
    case 1
    then have "next_buffered r = (Inr None, release r)"
      by (simp add: next_buffered_def rd_head_def)
    moreover from 1 have "\<exists>e. frame_step ?v = Inl e" by (simp add: frame_step_def split_len_def)
    ultimately show ?thesis using more by auto
  next
    case 2
    then have "next_buffered r = (Inl (FrameTooLarge n), release r)"
      by (simp add: next_buffered_def rd_head_def h)
    with 2 h show ?thesis using large by auto
  next
    case 3
    then have "next_buffered r = (Inr None, (release r)\<lparr>rd_need := HEADER_LEN + n\<rparr>)"
      by (simp add: next_buffered_def rd_head_def h)
    moreover from 3 have "\<exists>e. frame_step ?v = Inl e" by (simp add: frame_step_def split_len_def h)
    ultimately show ?thesis using more by (auto simp: rd_view_def)
  next
    case 4
    let ?f = "(t, take n (drop HEADER_LEN ?v))"
    from 4 t have nb: "next_buffered r = (Inr (Some ?f),
        (release r)\<lparr>rd_need := 0, rd_lent := HEADER_LEN + n\<rparr>)"
      by (simp add: next_buffered_def rd_head_def h)
    moreover from 4 have "frame_step ?v = Inr (?f, drop n (drop HEADER_LEN ?v))"
      by (simp add: frame_step_def split_len_def h)
    moreover have "rd_view (snd (next_buffered r)) = drop n (drop HEADER_LEN ?v)"
      by (simp add: nb rd_view_def ac_simps)
    ultimately show ?thesis using frame 4 by auto
  qed
qed

lemma next_buffered_max [simp]: "rd_max_frame (snd (next_buffered r)) = rd_max_frame r"
  by (auto simp: next_buffered_def rd_head_def Let_def split: sum.splits option.splits prod.splits if_splits)

lemma next_buffered_shrinks:
  "next_buffered r = (Inr (Some f), r') \<Longrightarrow> length (rd_view r') < length (rd_view r)"
  by (cases rule: next_buffered_cases [of r]) (auto dest: wire.step_shrinks)

section \<open>Reading a stream\<close>

text \<open>
  The loop every user of a reader runs after a \<open>fill\<close>: take frames until more input is
  needed or a frame is refused.
\<close>

function rd_drain ::
  "frame_reader \<Rightarrow> (u8 \<times> bytes) list \<times> frame_too_large option \<times> frame_reader" where
  "rd_drain r =
     (case next_buffered r of
        (Inl e, r') \<Rightarrow> ([], Some e, r')
      | (Inr None, r') \<Rightarrow> ([], None, r')
      | (Inr (Some f), r') \<Rightarrow> (let (fs, e, r'') = rd_drain r' in (f # fs, e, r'')))"
  by pat_completeness auto
termination
  by (relation "measure (\<lambda>r. length (rd_view r))") (auto dest!: sym [of _ "next_buffered _"] next_buffered_shrinks)

declare rd_drain.simps [simp del]

lemma rd_drain_more:
  "fst (next_buffered r) = Inr None \<Longrightarrow> rd_drain r = ([], None, snd (next_buffered r))"
  by (cases "next_buffered r") (simp add: rd_drain.simps [of r])

lemma rd_drain_frame:
  "fst (next_buffered r) = Inr (Some f) \<Longrightarrow> rd_drain (snd (next_buffered r)) = (fs, e, r') \<Longrightarrow>
   rd_drain r = (f # fs, e, r')"
  by (cases "next_buffered r") (simp add: rd_drain.simps [of r])

text \<open>Socket reads arriving one after the other, each followed by the draining loop.\<close>

fun rd_feed ::
  "bytes list \<Rightarrow> frame_reader \<Rightarrow> (u8 \<times> bytes) list \<times> frame_too_large option \<times> frame_reader" where
  "rd_feed [] r = ([], None, r)"
| "rd_feed (data # chunks) r =
     (let r1 = snd (fill (Inr data :: unit + bytes) r);
          (fs, e, r2) = rd_drain r1
      in case e of
           Some x \<Rightarrow> (fs, Some x, r2)
         | None \<Rightarrow> (let (gs, e', r3) = rd_feed chunks r2 in (fs @ gs, e', r3)))"

text \<open>A frame the reader accepts.\<close>

definition rd_accepts :: "nat \<Rightarrow> u8 \<times> bytes \<Rightarrow> bool" where
  "rd_accepts max_frame f \<longleftrightarrow> frame_ok f \<and> length (snd f) \<le> max_frame"

lemma rd_drain_stream:
  assumes "rd_view r @ future = concat (map encode_frame fs)"
    and "\<forall>f \<in> set fs. rd_accepts (rd_max_frame r) f"
  shows "\<exists>gs hs r'. rd_drain r = (gs, None, r') \<and> fs = gs @ hs \<and>
    rd_view r' @ future = concat (map encode_frame hs) \<and> rd_max_frame r' = rd_max_frame r \<and>
    (\<exists>e. frame_step (rd_view r') = Inl e)"
  using assms
proof (induction fs arbitrary: r)
  case Nil
  then have v: "rd_view r = []" by simp
  then have "\<exists>e. frame_step (rd_view r) = Inl e"
    by (simp add: frame_step_def split_len_def HEADER_LEN_def)
  then show ?case
  proof (cases rule: next_buffered_cases [of r])
    case (more e)
    then have "rd_drain r = ([], None, snd (next_buffered r))" by (simp add: rd_drain_more)
    with more v Nil show ?thesis by (auto simp: frame_step_def split_len_def HEADER_LEN_def)
  qed (use v in \<open>auto simp: HEADER_LEN_def\<close>)
next
  case (Cons f fs)
  have f: "frame_ok f" "length (snd f) \<le> rd_max_frame r"
    using Cons.prems(2) by (auto simp: rd_accepts_def)
  from Cons.prems(1) have str: "rd_view r @ future = encode_frame f @ concat (map encode_frame fs)"
    by simp
  show ?case
  proof (cases rule: next_buffered_cases [of r])
    case (large t n)
    have "take HEADER_LEN (rd_view r) = take HEADER_LEN (rd_view r @ future)"
      using large(1) by simp
    also have "\<dots> = encode_header (fst f) (length (snd f))"
      by (simp add: str encode_frame_def)
    finally have "n = length (snd f)" using large(2) f(1) by (simp add: frame_ok_def)
    with large(3) f(2) show ?thesis by simp
  next
    case (frame g rest)
    then have "frame_ok g" "rd_view r = encode_frame g @ rest" by (auto simp: wire.step_iff)
    with str f have g: "g = f" and rest: "rest @ future = concat (map encode_frame fs)"
      using wire.enc_prefix_free [of g f "rest @ future"] by auto
    let ?r' = "snd (next_buffered r)"
    from Cons.IH [of ?r'] frame(4) rest Cons.prems(2) obtain gs hs r'' where
      d: "rd_drain ?r' = (gs, None, r'')" "fs = gs @ hs"
        "rd_view r'' @ future = concat (map encode_frame hs)" "rd_max_frame r'' = rd_max_frame r"
        "\<exists>e. frame_step (rd_view r'') = Inl e" by auto
    have "rd_drain r = (f # gs, None, r'')"
      using frame(3) d(1) g by (simp add: rd_drain_frame)
    with d show ?thesis by auto
  next
    case (more e)
    then have "rd_drain r = ([], None, snd (next_buffered r))" by (simp add: rd_drain_more)
    with more Cons.prems show ?thesis by auto
  qed
qed

lemma rd_feed_stream:
  assumes "rd_view r @ concat chunks @ future = concat (map encode_frame fs)"
    and "\<forall>f \<in> set fs. rd_accepts (rd_max_frame r) f"
    and "\<exists>e. frame_step (rd_view r) = Inl e"
  shows "\<exists>gs hs r'. rd_feed chunks r = (gs, None, r') \<and> fs = gs @ hs \<and>
    rd_view r' @ future = concat (map encode_frame hs) \<and> (\<exists>e. frame_step (rd_view r') = Inl e)"
  using assms
proof (induction chunks arbitrary: r fs)
  case Nil
  then show ?case by auto
next
  case (Cons data chunks)
  let ?r1 = "snd (fill (Inr data :: unit + bytes) r)"
  from Cons.prems obtain gs hs r2 where
    d: "rd_drain ?r1 = (gs, None, r2)" "fs = gs @ hs"
      "rd_view r2 @ concat chunks @ future = concat (map encode_frame hs)"
      "rd_max_frame r2 = rd_max_frame r" "\<exists>e. frame_step (rd_view r2) = Inl e"
    using rd_drain_stream [of ?r1 "concat chunks @ future" fs] by fastforce
  with Cons.prems(2) obtain gs' hs' r3 where
    "rd_feed chunks r2 = (gs', None, r3)" "hs = gs' @ hs'"
    "rd_view r3 @ future = concat (map encode_frame hs')" "\<exists>e. frame_step (rd_view r3) = Inl e"
    using Cons.IH [of r2 hs] by auto
  with d show ?case by (auto simp: Let_def)
qed

text \<open>
  C19. However the network cuts a stream of acceptable frames into reads, the reader hands out
  exactly those frames, in order, with nothing left over: no frame is lost, split, merged or
  invented at a read boundary.
\<close>

theorem rd_reassembles:
  assumes "concat chunks = concat (map encode_frame fs)"
    and "list_all (rd_accepts max_frame) fs"
  shows "\<exists>r'. rd_feed chunks (rd_new max_frame) = (fs, None, r') \<and> rd_view r' = []"
proof -
  have "\<exists>e. frame_step (rd_view (rd_new max_frame)) = Inl e"
    by (simp add: frame_step_def split_len_def HEADER_LEN_def)
  then obtain gs hs r' where r: "rd_feed chunks (rd_new max_frame) = (gs, None, r')"
    "fs = gs @ hs" "rd_view r' = concat (map encode_frame hs)" "\<exists>e. frame_step (rd_view r') = Inl e"
    using rd_feed_stream [of "rd_new max_frame" chunks "[]" fs] assms by (auto simp: list_all_iff)
  have "hs = []"
  proof (cases hs)
    case (Cons h hs')
    with r(2) assms(2) have "frame_ok h" by (simp add: rd_accepts_def)
    with r(3,4) Cons show ?thesis by (simp add: frame_step_encode)
  qed simp
  with r show ?thesis by simp
qed

theorem rd_reassembles_witness:
  "concat [[1, 1, 0], [0, 0, 97, 3], [], [0, 0, 0, 0]] = concat (map encode_frame [(1, [97]), (3, [])]) \<and>
   list_all (rd_accepts 4096) [(1, [97]), (3, [])] \<and>
   (\<exists>r'. rd_feed [[1, 1, 0], [0, 0, 97, 3], [], [0, 0, 0, 0]] (rd_new 4096) =
     ([(1, [97]), (3, [])], None, r') \<and> rd_view r' = [])"
proof -
  have "concat [[1, 1, 0], [0, 0, 97, 3], [], [0, 0, 0, 0]] =
      concat (map encode_frame [(1, [97]), (3, [])])"
    by (simp add: encode_frame_def encode_header_def to_le_bytes_def)
  moreover have "list_all (rd_accepts 4096) [(1, [97]), (3, [])]"
    by (simp add: rd_accepts_def frame_ok_def)
  ultimately show ?thesis using rd_reassembles by blast
qed

text \<open>
  A frame whose announced body exceeds the limit is refused as soon as its header is
  buffered, whatever follows, with the announced length; nothing is consumed.
\<close>

lemma rd_refuses_oversized:
  assumes "rd_max_frame r < n" and "n < 2 ^ 32" and "rd_view r = encode_header t n @ rest"
  shows "\<exists>r'. next_buffered r = (Inl (FrameTooLarge n), r') \<and>
    next_buffered_owned r = (Inl (FrameTooLarge n), r') \<and> rd_view r' = rd_view r"
  using assms by (simp add: next_buffered_def next_buffered_owned_def rd_head_def)

text \<open>
  Handing a frame out by copy and handing it out by reference agree: same result, same
  bytes left.
\<close>

lemma next_buffered_owned_agrees:
  "fst (next_buffered_owned r) = fst (next_buffered r) \<and>
   rd_view (snd (next_buffered_owned r)) = rd_view (snd (next_buffered r))"
proof -
  obtain h r' where h: "rd_head (release r) = (h, r')" by fastforce
  then have "rd_lent r' = 0" by (auto simp: rd_head_def Let_def split: if_splits)
  with h show ?thesis
    by (cases h; cases "projr h")
      (simp_all add: next_buffered_def next_buffered_owned_def rd_view_def Let_def add.commute)
qed

text \<open>
  What \<open>fill\<close> reserves is bounded by what the peer has already sent or by the buffer it
  already has, never by the length a header merely announces.
\<close>

lemma fill_reserve_bounded:
  assumes "fill_reserve cap r = Some n"
  shows "n \<le> max (length (rd_view r)) (max cap BUF)"
proof -
  define cap' where "cap' = (if rd_view r = [] \<and> cap > 4 * BUF then BUF else cap)"
  have cap': "max cap' BUF \<le> max cap BUF" by (simp add: cap'_def)
  define p where "p = rd_need r - length (rd_view r)"
  show ?thesis
  proof (cases "p > 0 \<and> length (rd_view r) \<ge> p")
    case True
    with assms have "n = p" by (simp add: fill_reserve_def p_def Let_def split: if_splits)
    with True show ?thesis by (simp add: le_max_iff_disj)
  next
    case False
    with assms have "n = max (max (min p (max cap' BUF)) (BUF div 4)) BUF"
      unfolding fill_reserve_def Let_def rd_buf_release p_def [symmetric] cap'_def [symmetric]
      by (simp only: if_False split: if_splits) simp_all
    also have "\<dots> \<le> max cap BUF" using cap' by linarith
    finally show ?thesis by simp
  qed
qed

end
