(* ===== verification/Frame_Writer.thy ===== *)
theory Frame_Writer
  imports Frame_Reader
begin

text \<open>
  \<open>FrameWriter\<close> of \<^verbatim>\<open>crates/wire/src/io.rs\<close>: small frames are coalesced in one chunk,
  large bodies are queued by reference, a frame of unknown length is begun with a placeholder
  header and patched when it ends, and everything is flushed with vectored writes.

  An operation that can panic returns an option, \<open>None\<close> being the panic; that no sequence of
  calls the writer is used with panics is part of what is proved. The socket is a parameter:
  \<open>write_vectored\<close> on a state of its own, with the contract of \<open>AsyncWrite\<close> (it never claims
  more bytes than it was given) as a named hypothesis.
\<close>

definition INLINE_BODY :: nat where "INLINE_BODY = 1024"
definition MAX_IOV :: nat where "MAX_IOV = 64"

datatype piece = Own bytes | Shared bytes

fun piece_deref :: "piece \<Rightarrow> bytes" where
  "piece_deref (Own b) = b"
| "piece_deref (Shared b) = b"

record mark =
  mk_piece :: nat
  mk_offset :: nat
  mk_len :: nat

record frame_writer =
  fw_chunk :: bytes
  fw_pieces :: "piece list"
  fw_inline_limit :: nat
  fw_len :: nat

definition with_inline_limit :: "nat \<Rightarrow> frame_writer" where
  "with_inline_limit limit =
     \<lparr>fw_chunk = [], fw_pieces = [], fw_inline_limit = limit, fw_len = 0\<rparr>"

definition fw_new :: frame_writer where "fw_new = with_inline_limit INLINE_BODY"

definition fw_spill :: "frame_writer \<Rightarrow> frame_writer" where
  "fw_spill w = w\<lparr>fw_pieces := fw_pieces w @ [Own (fw_chunk w)], fw_chunk := []\<rparr>"

definition fw_put_slice :: "bytes \<Rightarrow> frame_writer \<Rightarrow> frame_writer" where
  "fw_put_slice b w =
     (let w1 = (if length (fw_chunk w) + length b > BUF \<and> fw_chunk w \<noteq> [] then fw_spill w else w)
      in w1\<lparr>fw_chunk := fw_chunk w1 @ b, fw_len := fw_len w1 + length b\<rparr>)"

definition fw_header :: "u8 \<Rightarrow> nat \<Rightarrow> frame_writer \<Rightarrow> frame_writer" where
  "fw_header tag len w = fw_put_slice (encode_header tag len) w"

definition fw_begin :: "u8 \<Rightarrow> frame_writer \<Rightarrow> mark \<times> frame_writer" where
  "fw_begin tag w =
     (let w1 = (if length (fw_chunk w) + HEADER_LEN > BUF \<and> fw_chunk w \<noteq> [] then fw_spill w else w);
          m = \<lparr>mk_piece = length (fw_pieces w1), mk_offset = length (fw_chunk w1), mk_len = fw_len w1\<rparr>
      in (m, fw_header tag 0 w1))"

definition fw_since :: "mark \<Rightarrow> frame_writer \<Rightarrow> nat" where
  "fw_since m w = fw_len w - mk_len m - HEADER_LEN"

text \<open>\<open>b[at..at + 4].copy_from_slice(&len)\<close>: panics outside \<open>b\<close>.\<close>

definition patch :: "nat \<Rightarrow> bytes \<Rightarrow> bytes \<Rightarrow> bytes option" where
  "patch at len b = (if at + 4 \<le> length b then Some (overwrite at len b) else None)"

definition fw_end :: "mark \<Rightarrow> frame_writer \<Rightarrow> frame_writer option" where
  "fw_end m w =
     (let len = to_le_bytes (of_nat (fw_since m w));
          at = mk_offset m + 1
      in if mk_piece m = length (fw_pieces w)
         then map_option (\<lambda>c. w\<lparr>fw_chunk := c\<rparr>) (patch at len (fw_chunk w))
         else if mk_piece m < length (fw_pieces w)
         then (case fw_pieces w ! mk_piece m of
                 Own b \<Rightarrow> map_option (\<lambda>c. w\<lparr>fw_pieces := (fw_pieces w)[mk_piece m := Own c]\<rparr>)
                            (patch at len b)
               | Shared _ \<Rightarrow> None)
         else None)"

definition fw_abort :: "mark \<Rightarrow> frame_writer \<Rightarrow> frame_writer option" where
  "fw_abort m w =
     (if mk_piece m < length (fw_pieces w)
      then (case fw_pieces w ! mk_piece m of
              Own b \<Rightarrow> Some (w\<lparr>fw_pieces := take (mk_piece m) (fw_pieces w),
                               fw_chunk := take (mk_offset m) b, fw_len := mk_len m\<rparr>)
            | Shared _ \<Rightarrow> None)
      else Some (w\<lparr>fw_chunk := take (mk_offset m) (fw_chunk w), fw_len := mk_len m\<rparr>))"

definition fw_put_bytes :: "bytes \<Rightarrow> frame_writer \<Rightarrow> frame_writer" where
  "fw_put_bytes b w =
     (if length b < fw_inline_limit w then fw_put_slice b w
      else let w1 = (if fw_chunk w \<noteq> []
                     then w\<lparr>fw_pieces := fw_pieces w @ [Own (fw_chunk w)], fw_chunk := []\<rparr> else w)
           in w1\<lparr>fw_len := fw_len w1 + length b, fw_pieces := fw_pieces w1 @ [Shared b]\<rparr>)"

definition fw_frame :: "u8 \<Rightarrow> bytes \<Rightarrow> frame_writer \<Rightarrow> frame_writer" where
  "fw_frame tag body w = fw_put_bytes body (fw_header tag (length body) w)"

definition fw_is_empty :: "frame_writer \<Rightarrow> bool" where
  "fw_is_empty w \<longleftrightarrow> fw_len w = 0"

section \<open>Flushing\<close>

text \<open>The slices handed to one \<open>write_vectored\<close>: at most \<open>MAX_IOV\<close>, the first from \<open>off\<close>.\<close>

definition iov :: "piece list \<Rightarrow> nat \<Rightarrow> nat \<Rightarrow> bytes list" where
  "iov ps idx off =
     (case take (min MAX_IOV (length ps - idx)) (drop idx ps) of
        [] \<Rightarrow> []
      | p # rest \<Rightarrow> drop off (piece_deref p) # map piece_deref rest)"

text \<open>The inner loop: step over the pieces a write of \<open>written\<close> bytes completed.\<close>

function advance :: "piece list \<Rightarrow> nat \<Rightarrow> nat \<Rightarrow> nat \<Rightarrow> (nat \<times> nat) option" where
  "advance ps idx off written =
     (if written = 0 then Some (idx, off)
      else if idx \<ge> length ps then None
      else let remaining = length (piece_deref (ps ! idx)) - off
           in if written \<ge> remaining then advance ps (idx + 1) 0 (written - remaining)
              else Some (idx, off + written))"
  by pat_completeness auto
termination by (relation "measure (\<lambda>(ps, idx, _). length ps - idx)") auto

declare advance.simps [simp del]

datatype 'e flush_error = WriteZero | Io 'e

lemma advance_progress:
  "advance ps idx off n = Some (idx', off') \<Longrightarrow> 0 < n \<Longrightarrow> idx < length ps \<and>
   (idx < idx' \<or> idx' = idx \<and> off < off' \<and> off' < length (piece_deref (ps ! idx)))"
proof (induction ps idx off n rule: advance.induct)
  case (1 ps idx off n)
  let ?m = "length (piece_deref (ps ! idx)) - off"
  from "1.prems" have "idx < length ps" by (simp add: advance.simps [of ps idx off] split: if_splits)
  moreover have "idx < idx' \<or> idx' = idx \<and> off < off' \<and> off' < length (piece_deref (ps ! idx))"
  proof (cases "?m \<le> n")
    case True
    with "1.prems" calculation have *: "advance ps (idx + 1) 0 (n - ?m) = Some (idx', off')"
      by (simp add: advance.simps [of ps idx off])
    show ?thesis
    proof (cases "n - ?m = 0")
      case True
      with * show ?thesis by (simp add: advance.simps [of _ _ _ 0])
    next
      case False
      with "1.IH" [OF _ _ refl True * ] "1.prems" calculation show ?thesis by auto
    qed
  next
    case False
    with "1.prems" calculation show ?thesis by (auto simp: advance.simps [of ps idx off])
  qed
  ultimately show ?case by blast
qed

text \<open>
  The outer loop. The result is \<open>None\<close> for a panic; the bytes the socket accepted are
  returned beside it.
\<close>

function flush_loop :: "('s \<Rightarrow> bytes list \<Rightarrow> ('e + nat) \<times> 's) \<Rightarrow> piece list \<Rightarrow> nat \<Rightarrow> nat \<Rightarrow> 's \<Rightarrow>
    ('e flush_error + unit) option \<times> bytes \<times> 's" where
  "flush_loop write_vectored ps idx off s =
     (if idx \<ge> length ps then (Some (Inr ()), [], s)
      else let v = iov ps idx off
           in case write_vectored s v of
                (Inl e, s') \<Rightarrow> (Some (Inl (Io e)), [], s')
              | (Inr written, s') \<Rightarrow>
                  if written = 0 then (Some (Inl WriteZero), [], s')
                  else (case advance ps idx off written of
                          None \<Rightarrow> (None, [], s')
                        | Some (idx', off') \<Rightarrow>
                            (let (res, sent, s'') = flush_loop write_vectored ps idx' off' s'
                             in (res, take written (concat v) @ sent, s''))))"
  by pat_completeness auto
termination
  by (relation "(\<lambda>(_, ps, idx, off, _). length ps - idx) <*mlex*>
      measure (\<lambda>(_, ps, idx, off, _). length (piece_deref (ps ! idx)) - off)")
    (auto simp: mlex_prod_def wf_mlex dest: advance_progress)

declare flush_loop.simps [simp del]

definition fw_flush :: "('s \<Rightarrow> bytes list \<Rightarrow> ('e + nat) \<times> 's) \<Rightarrow> frame_writer \<Rightarrow> 's \<Rightarrow>
    ('e flush_error + unit) option \<times> bytes \<times> 's \<times> frame_writer" where
  "fw_flush write_vectored w s =
     (let w1 = (if fw_chunk w \<noteq> []
                then w\<lparr>fw_pieces := fw_pieces w @ [Own (fw_chunk w)], fw_chunk := []\<rparr> else w)
      in case flush_loop write_vectored (fw_pieces w1) 0 0 s of
           (res, sent, s') \<Rightarrow>
             (res, sent, s',
              if res = Some (Inr ()) then w1\<lparr>fw_pieces := [], fw_len := 0\<rparr> else w1))"

definition fw_take :: "frame_writer \<Rightarrow> bytes \<times> frame_writer" where
  "fw_take w =
     (concat (map piece_deref (fw_pieces w)) @ fw_chunk w,
      w\<lparr>fw_pieces := [], fw_chunk := [], fw_len := 0\<rparr>)"

definition fw_take_bytes :: "frame_writer \<Rightarrow> bytes \<times> frame_writer" where
  "fw_take_bytes w =
     (let w1 = w\<lparr>fw_len := 0\<rparr>
      in if fw_pieces w1 = [] then (fw_chunk w1, w1\<lparr>fw_chunk := []\<rparr>)
         else if length (fw_pieces w1) = 1 \<and> fw_chunk w1 = []
         then (piece_deref (last (fw_pieces w1)), w1\<lparr>fw_pieces := butlast (fw_pieces w1)\<rparr>)
         else (fold (\<lambda>p out. out @ piece_deref p) (fw_pieces w1) [] @ fw_chunk w1,
               w1\<lparr>fw_pieces := [], fw_chunk := []\<rparr>))"

section \<open>What a writer holds\<close>

text \<open>The bytes queued, in the order they will be written.\<close>

abbreviation pieces_bytes :: "piece list \<Rightarrow> bytes" where
  "pieces_bytes ps \<equiv> concat (map piece_deref ps)"

definition fw_bytes :: "frame_writer \<Rightarrow> bytes" where
  "fw_bytes w = pieces_bytes (fw_pieces w) @ fw_chunk w"

text \<open>
  The invariant: \<open>len\<close> counts the queued bytes, and no queued piece is empty (an empty one
  would end in a vectored write of nothing, reported as \<open>WriteZero\<close>).
\<close>

definition fw_inv :: "frame_writer \<Rightarrow> bool" where
  "fw_inv w \<longleftrightarrow> fw_len w = length (fw_bytes w) \<and> 0 < fw_inline_limit w \<and>
     (\<forall>p \<in> set (fw_pieces w). piece_deref p \<noteq> [])"

text \<open>
  A frame begun at \<open>m\<close> and not yet closed: \<open>pre\<close> was queued before it, \<open>body\<close> since, and the
  placeholder header lies whole in the chunk or in one owned piece.
\<close>

definition fw_open :: "mark \<Rightarrow> bytes \<Rightarrow> u8 \<Rightarrow> bytes \<Rightarrow> frame_writer \<Rightarrow> bool" where
  "fw_open m pre t body w \<longleftrightarrow> fw_inv w \<and> mk_len m = length pre \<and>
     (\<exists>front b tail. fw_bytes w = pieces_bytes front @ b @ tail \<and>
        length front = mk_piece m \<and> mk_offset m + HEADER_LEN \<le> length b \<and>
        pieces_bytes front @ take (mk_offset m) b = pre \<and>
        drop (mk_offset m) b @ tail = encode_header t 0 @ body \<and>
        (fw_pieces w = front \<and> fw_chunk w = b \<and> tail = [] \<or>
         (\<exists>ps. fw_pieces w = front @ Own b # ps \<and> tail = pieces_bytes ps @ fw_chunk w)))"

lemma fw_bytes_new [simp]: "fw_bytes fw_new = []" "fw_bytes (with_inline_limit n) = []"
  by (simp_all add: fw_bytes_def fw_new_def with_inline_limit_def)

lemma fw_inv_new [simp]: "fw_inv fw_new" "0 < n \<Longrightarrow> fw_inv (with_inline_limit n)"
  by (simp_all add: fw_inv_def fw_bytes_def fw_new_def with_inline_limit_def INLINE_BODY_def)

lemma fw_spill_bytes [simp]: "fw_bytes (fw_spill w) = fw_bytes w" "fw_len (fw_spill w) = fw_len w"
  "fw_inline_limit (fw_spill w) = fw_inline_limit w" "fw_chunk (fw_spill w) = []"
  "fw_pieces (fw_spill w) = fw_pieces w @ [Own (fw_chunk w)]"
  by (simp_all add: fw_spill_def fw_bytes_def)

lemma fw_inv_spill [simp]: "fw_inv w \<Longrightarrow> fw_chunk w \<noteq> [] \<Longrightarrow> fw_inv (fw_spill w)"
  by (auto simp: fw_inv_def)

lemma fw_put_slice_bytes [simp]: "fw_bytes (fw_put_slice b w) = fw_bytes w @ b"
  by (simp add: fw_put_slice_def fw_bytes_def Let_def)

lemma fw_put_slice_inv [simp]: "fw_inv w \<Longrightarrow> fw_inv (fw_put_slice b w)"
  by (auto simp: fw_inv_def fw_put_slice_def fw_bytes_def Let_def fw_spill_def)

lemma fw_put_bytes_bytes [simp]: "fw_bytes (fw_put_bytes b w) = fw_bytes w @ b"
  by (simp add: fw_put_bytes_def Let_def) (auto simp: fw_bytes_def)

lemma fw_put_bytes_inv [simp]: "fw_inv w \<Longrightarrow> fw_inv (fw_put_bytes b w)"
proof (cases "length b < fw_inline_limit w")
  case True
  then show "fw_inv w \<Longrightarrow> fw_inv (fw_put_bytes b w)" by (simp add: fw_put_bytes_def)
next
  case False
  then show "fw_inv w \<Longrightarrow> fw_inv (fw_put_bytes b w)"
    by (auto simp: fw_put_bytes_def fw_inv_def fw_bytes_def Let_def)
qed

lemma fw_header_bytes [simp]: "fw_bytes (fw_header t n w) = fw_bytes w @ encode_header t n"
  by (simp add: fw_header_def)

lemma fw_header_inv [simp]: "fw_inv w \<Longrightarrow> fw_inv (fw_header t n w)"
  by (simp add: fw_header_def)

lemma fw_frame_bytes [simp]: "fw_bytes (fw_frame t b w) = fw_bytes w @ encode_frame (t, b)"
  by (simp add: fw_frame_def encode_frame_def)

lemma fw_frame_inv [simp]: "fw_inv w \<Longrightarrow> fw_inv (fw_frame t b w)"
  by (simp add: fw_frame_def)

section \<open>Frames of unknown length\<close>

text \<open>
  Any operation that only appends (spilling the chunk or not) keeps a frame open.
\<close>

definition fw_extends :: "frame_writer \<Rightarrow> bytes \<Rightarrow> frame_writer \<Rightarrow> bool" where
  "fw_extends w b w' \<longleftrightarrow> fw_bytes w' = fw_bytes w @ b \<and>
     ((\<exists>c. fw_pieces w' = fw_pieces w \<and> fw_chunk w' = fw_chunk w @ c) \<or>
      (\<exists>ps. fw_pieces w' = fw_pieces w @ Own (fw_chunk w) # ps) \<or>
      fw_chunk w = [] \<and> (\<exists>ps. fw_pieces w' = fw_pieces w @ ps))"

lemma fw_put_slice_extends: "fw_extends w b (fw_put_slice b w)"
  by (simp add: fw_extends_def) (auto simp: fw_put_slice_def Let_def)

lemma fw_put_bytes_extends: "fw_extends w b (fw_put_bytes b w)"
  using fw_put_slice_extends [of w b]
  by (simp add: fw_extends_def) (auto simp: fw_put_bytes_def Let_def)

lemma fw_open_extends:
  assumes "fw_open m pre t body w" and "fw_extends w c w'" and "fw_inv w'"
  shows "fw_open m pre t (body @ c) w'"
proof -
  from assms(1) obtain front b tail where o: "mk_len m = length pre"
      "fw_bytes w = pieces_bytes front @ b @ tail" "length front = mk_piece m"
      "mk_offset m + HEADER_LEN \<le> length b" "pieces_bytes front @ take (mk_offset m) b = pre"
      "drop (mk_offset m) b @ tail = encode_header t 0 @ body"
      "fw_pieces w = front \<and> fw_chunk w = b \<and> tail = [] \<or>
       (\<exists>ps. fw_pieces w = front @ Own b # ps \<and> tail = pieces_bytes ps @ fw_chunk w)"
    unfolding fw_open_def by blast
  from o(4) have ne: "b \<noteq> []" by (auto simp: HEADER_LEN_def)
  have by': "fw_bytes w' = fw_bytes w @ c" using assms(2) by (simp add: fw_extends_def)
  consider (grow) d where "fw_pieces w' = fw_pieces w" "fw_chunk w' = fw_chunk w @ d"
    | (more) ps where "fw_pieces w' = fw_pieces w @ Own (fw_chunk w) # ps"
    | (empty) ps where "fw_chunk w = []" "fw_pieces w' = fw_pieces w @ ps"
    using assms(2) by (auto simp: fw_extends_def)
  then have "\<exists>b' tail'. fw_bytes w' = pieces_bytes front @ b' @ tail' \<and> (\<exists>d. b' = b @ d) \<and>
        (fw_pieces w' = front \<and> fw_chunk w' = b' \<and> tail' = [] \<or>
         (\<exists>ps. fw_pieces w' = front @ Own b' # ps \<and> tail' = pieces_bytes ps @ fw_chunk w'))"
    using o(7) ne by cases (auto simp: fw_bytes_def)
  then obtain b' tail' d where b': "fw_bytes w' = pieces_bytes front @ b' @ tail'" "b' = b @ d"
      "fw_pieces w' = front \<and> fw_chunk w' = b' \<and> tail' = [] \<or>
       (\<exists>ps. fw_pieces w' = front @ Own b' # ps \<and> tail' = pieces_bytes ps @ fw_chunk w')" by blast
  from b'(1,2) by' o(2) have "d @ tail' = tail @ c" by simp
  with o(6) b'(2) o(4) have "drop (mk_offset m) b' @ tail' = encode_header t 0 @ body @ c" by simp
  with o b' assms(3) show ?thesis unfolding fw_open_def
    by (intro conjI exI [of _ front] exI [of _ b'] exI [of _ tail']) simp_all
qed

lemma fw_begin_open:
  assumes "fw_inv w" and "fw_begin t w = (m, w')"
  shows "fw_open m (fw_bytes w) t [] w' \<and> fw_bytes w' = fw_bytes w @ encode_header t 0"
proof -
  define w1 where
    "w1 = (if length (fw_chunk w) + HEADER_LEN > BUF \<and> fw_chunk w \<noteq> [] then fw_spill w else w)"
  have w1: "fw_inv w1" "fw_bytes w1 = fw_bytes w"
      "\<not> (length (fw_chunk w1) + HEADER_LEN > BUF \<and> fw_chunk w1 \<noteq> [])"
    using assms(1) by (auto simp: w1_def)
  from assms(2) have m: "m = \<lparr>mk_piece = length (fw_pieces w1), mk_offset = length (fw_chunk w1),
      mk_len = fw_len w1\<rparr>" and w': "w' = fw_header t 0 w1"
    by (simp_all add: fw_begin_def Let_def w1_def)
  have "fw_pieces w' = fw_pieces w1" "fw_chunk w' = fw_chunk w1 @ encode_header t 0"
    using w1(3) by (auto simp: w' fw_header_def fw_put_slice_def Let_def)
  moreover from w1 have "fw_inv w'" "fw_len w1 = length (fw_bytes w)" "fw_bytes w' = fw_bytes w @ encode_header t 0"
    by (simp_all add: w', simp add: fw_inv_def)
  ultimately show ?thesis using w1(2) unfolding fw_open_def
    by (intro conjI exI [of _ "fw_pieces w1"] exI [of _ "fw_chunk w'"] exI [of _ "[]"])
      (simp_all add: m, simp_all add: fw_bytes_def)
qed

lemma overwrite_inside:
  "at + length ys \<le> length b \<Longrightarrow> overwrite (length xs + at) ys (xs @ b @ zs) = xs @ overwrite at ys b @ zs"
  by (simp add: overwrite_def)

text \<open>Patching the four length bytes of the placeholder completes the header.\<close>

lemma patch_header:
  assumes "off + HEADER_LEN \<le> length b" and "drop off b @ tail = encode_header t 0 @ body"
  shows "\<exists>c. patch (off + 1) (to_le_bytes n) b = Some c \<and> length c = length b \<and>
    take off c = take off b \<and> drop off c @ tail = t # to_le_bytes n @ body"
proof -
  obtain u v where b: "b = u @ v" "length u = off"
    using assms(1) by (metis append_take_drop_id add_leD1 length_take min.absorb2)
  with assms have "v @ tail = encode_header t 0 @ body" "HEADER_LEN \<le> length v" by simp_all
  then have "take HEADER_LEN (v @ tail) = encode_header t 0" "HEADER_LEN \<le> length v" by simp_all
  then obtain x where v: "v = encode_header t 0 @ x" by (metis append_take_drop_id take_append
      diff_is_0_eq' take_0 append_Nil2)
  with \<open>v @ tail = _\<close> have x: "x @ tail = body" by simp
  have "overwrite (off + 1) (to_le_bytes n) b = u @ t # to_le_bytes n @ x"
    using overwrite_append [of "u @ [t]" "off + 1" "to_le_bytes 0" "to_le_bytes n" x] b v
    by (simp add: encode_header_def)
  with b v x show ?thesis by (simp add: patch_def HEADER_LEN_def)
qed

lemma fw_end_open:
  assumes "fw_open m pre t body w"
  shows "\<exists>w'. fw_end m w = Some w' \<and> fw_inv w' \<and> fw_bytes w' = pre @ encode_frame (t, body)"
proof -
  from assms obtain front b tail where o: "mk_len m = length pre" "fw_inv w"
      "fw_bytes w = pieces_bytes front @ b @ tail" "length front = mk_piece m"
      "mk_offset m + HEADER_LEN \<le> length b" "pieces_bytes front @ take (mk_offset m) b = pre"
      "drop (mk_offset m) b @ tail = encode_header t 0 @ body"
      "fw_pieces w = front \<and> fw_chunk w = b \<and> tail = [] \<or>
       (\<exists>ps. fw_pieces w = front @ Own b # ps \<and> tail = pieces_bytes ps @ fw_chunk w)"
    unfolding fw_open_def by blast
  have "fw_bytes w = pre @ encode_header t 0 @ body"
    using o(3,6,7) by (metis append.assoc append_take_drop_id)
  with o(1,2) have "fw_since m w = length body" by (simp add: fw_since_def fw_inv_def)
  moreover obtain c where c: "patch (mk_offset m + 1) (to_le_bytes (of_nat (length body))) b = Some c"
      "length c = length b" "take (mk_offset m) c = take (mk_offset m) b"
      "drop (mk_offset m) c @ tail = t # to_le_bytes (of_nat (length body)) @ body"
    using patch_header [OF o(5,7)] by blast
  moreover have "pieces_bytes front @ c @ tail = pre @ encode_frame (t, body)"
    using c(3,4) o(6) by (metis (no_types) append.assoc append_take_drop_id encode_frame_def
        encode_header_def fst_conv snd_conv append_Cons)
  moreover have "c \<noteq> []" using o(5) c(2) by (auto simp: HEADER_LEN_def)
  moreover have "(front @ Own b # ps)[mk_piece m := Own c] = front @ Own c # ps" for ps
    using o(4) [symmetric] by simp
  ultimately show ?thesis
    using o(2,3,4,8) by (auto simp: fw_end_def fw_inv_def fw_bytes_def nth_append)
qed

lemma fw_abort_open:
  assumes "fw_open m pre t body w"
  shows "\<exists>w'. fw_abort m w = Some w' \<and> fw_inv w' \<and> fw_bytes w' = pre"
  using assms unfolding fw_open_def by (auto simp: fw_abort_def fw_inv_def fw_bytes_def nth_append)

lemma fw_since_open:
  assumes "fw_open m pre t body w"
  shows "fw_since m w = length body \<and> fw_bytes w = pre @ encode_header t 0 @ body"
proof -
  from assms obtain front b tail where "fw_bytes w = pieces_bytes front @ b @ tail"
      "pieces_bytes front @ take (mk_offset m) b = pre"
      "drop (mk_offset m) b @ tail = encode_header t 0 @ body"
    unfolding fw_open_def by blast
  then have "fw_bytes w = pre @ encode_header t 0 @ body" by (metis append.assoc append_take_drop_id)
  with assms show ?thesis by (simp add: fw_since_def fw_open_def fw_inv_def)
qed

section \<open>The interface responses are written through\<close>

text \<open>
  What the code that answers requests relies on: a sink with some content, whole pieces
  appended by copy (\<open>put\<close>) or by reference (\<open>put_ref\<close>), and a frame that can be begun, closed or
  taken back. Inside, the two shapes such code has: a frame written with a header up front
  and one written between \<open>begin\<close> and \<open>end\<close>.
\<close>

locale frame_sink =
  fixes content :: "'w \<Rightarrow> bytes"
    and inv :: "'w \<Rightarrow> bool"
    and opened :: "'m \<Rightarrow> bytes \<Rightarrow> u8 \<Rightarrow> bytes \<Rightarrow> 'w \<Rightarrow> bool"
    and put put_ref :: "bytes \<Rightarrow> 'w \<Rightarrow> 'w"
    and start :: "u8 \<Rightarrow> 'w \<Rightarrow> 'm \<times> 'w"
    and finish revert :: "'m \<Rightarrow> 'w \<Rightarrow> 'w option"
    and written :: "'m \<Rightarrow> 'w \<Rightarrow> nat"
  assumes put_content: "inv w \<Longrightarrow> content (put b w) = content w @ b"
    and put_ref_content: "inv w \<Longrightarrow> content (put_ref b w) = content w @ b"
    and put_inv: "inv w \<Longrightarrow> inv (put b w)"
    and put_ref_inv: "inv w \<Longrightarrow> inv (put_ref b w)"
    and opened_inv: "opened m pre t body w \<Longrightarrow> inv w"
    and start_opened: "inv w \<Longrightarrow> start t w = (m, w') \<Longrightarrow> opened m (content w) t [] w'"
    and put_opened: "opened m pre t body w \<Longrightarrow> opened m pre t (body @ b) (put b w)"
    and put_ref_opened: "opened m pre t body w \<Longrightarrow> opened m pre t (body @ b) (put_ref b w)"
    and written_opened: "opened m pre t body w \<Longrightarrow> written m w = length body"
    and finish_opened: "opened m pre t body w \<Longrightarrow>
      \<exists>w'. finish m w = Some w' \<and> inv w' \<and> content w' = pre @ encode_frame (t, body)"
    and revert_opened: "opened m pre t body w \<Longrightarrow>
      \<exists>w'. revert m w = Some w' \<and> inv w' \<and> content w' = pre"
begin

text \<open>A run of writes, each by copy (\<open>False\<close>) or by reference (\<open>True\<close>).\<close>

definition put_one :: "bool \<times> bytes \<Rightarrow> 'w \<Rightarrow> 'w" where
  "put_one p w = (if fst p then put_ref (snd p) w else put (snd p) w)"

lemma put_one_opened: "opened m pre t body w \<Longrightarrow> opened m pre t (body @ snd p) (put_one p w)"
  by (simp add: put_one_def put_opened put_ref_opened)

lemma puts_opened:
  "opened m pre t body w \<Longrightarrow> opened m pre t (body @ concat (map snd ps)) (fold put_one ps w)"
proof (induction ps arbitrary: body w)
  case (Cons p ps)
  from Cons.IH [OF put_one_opened [OF Cons.prems, of p]] show ?case by simp
qed simp

lemma begun_frame:
  assumes "inv w" and "start t w = (m, w1)"
  shows "\<exists>w2. finish m (fold put_one ps w1) = Some w2 \<and> inv w2 \<and>
    content w2 = content w @ encode_frame (t, concat (map snd ps))"
  using finish_opened [OF puts_opened [OF start_opened [OF assms], of ps]] by simp

lemma reverted_frame:
  assumes "inv w" and "start t w = (m, w1)"
  shows "\<exists>w2. revert m (fold put_one ps w1) = Some w2 \<and> inv w2 \<and> content w2 = content w"
  using revert_opened [OF puts_opened [OF start_opened [OF assms], of ps]] .

lemma written_puts:
  assumes "inv w" and "start t w = (m, w1)"
  shows "written m (fold put_one ps w1) = length (concat (map snd ps))"
  using written_opened [OF puts_opened [OF start_opened [OF assms], of ps]] by simp

lemma header_frame:
  "inv w \<Longrightarrow> content (put b (put (encode_header t (length b)) w)) = content w @ encode_frame (t, b)"
  "inv w \<Longrightarrow> content (put_ref b (put (encode_header t (length b)) w)) = content w @ encode_frame (t, b)"
  by (simp_all add: put_content put_ref_content put_inv encode_frame_def)

end

lemma fw_open_put_slice: "fw_open m pre t body w \<Longrightarrow> fw_open m pre t (body @ b) (fw_put_slice b w)"
  by (rule fw_open_extends [OF _ fw_put_slice_extends]) (auto simp: fw_open_def)

lemma fw_open_put_bytes: "fw_open m pre t body w \<Longrightarrow> fw_open m pre t (body @ b) (fw_put_bytes b w)"
  by (rule fw_open_extends [OF _ fw_put_bytes_extends]) (auto simp: fw_open_def)

interpretation fw: frame_sink fw_bytes fw_inv fw_open fw_put_slice fw_put_bytes fw_begin
  fw_end fw_abort fw_since
  by unfold_locales
    (simp_all add: fw_open_put_slice fw_open_put_bytes fw_since_open fw_end_open fw_abort_open
      fw_begin_open, simp add: fw_open_def)

section \<open>Flushing sends the queue\<close>

text \<open>What is left to send at a position of the loop, and the positions the loop visits.\<close>

definition unsent :: "piece list \<Rightarrow> nat \<Rightarrow> nat \<Rightarrow> bytes" where
  "unsent ps idx off = drop off (pieces_bytes (drop idx ps))"

definition pos_ok :: "piece list \<Rightarrow> nat \<Rightarrow> nat \<Rightarrow> bool" where
  "pos_ok ps idx off \<longleftrightarrow>
     (if idx < length ps then off < length (piece_deref (ps ! idx)) else off = 0)"

lemma unsent_at:
  assumes "pos_ok ps idx off" and "idx < length ps"
  shows "unsent ps idx off = drop off (piece_deref (ps ! idx)) @ unsent ps (idx + 1) 0"
  using assms by (simp add: unsent_def pos_ok_def Cons_nth_drop_Suc [symmetric])

lemma unsent_end: "length ps \<le> idx \<Longrightarrow> unsent ps idx off = []"
  by (simp add: unsent_def)

lemma advance_spec:
  assumes "\<forall>p \<in> set ps. piece_deref p \<noteq> []" and "pos_ok ps idx off"
    and "n \<le> length (unsent ps idx off)"
  shows "\<exists>i j. advance ps idx off n = Some (i, j) \<and> pos_ok ps i j \<and>
    unsent ps i j = drop n (unsent ps idx off)"
  using assms
proof (induction ps idx off n rule: advance.induct)
  case (1 ps idx off n)
  let ?m = "length (piece_deref (ps ! idx)) - off"
  consider "n = 0" | "0 < n" "n < ?m" "idx < length ps" | "0 < n" "?m \<le> n" "idx < length ps"
    using "1.prems"(3) unsent_end [of ps idx off] by fastforce
  then show ?case
  proof cases
    case 1
    with "1.prems" show ?thesis by (simp add: advance.simps [of ps idx off])
  next
    case 2
    then have "advance ps idx off n = Some (idx, off + n)"
      by (simp add: advance.simps [of ps idx off])
    moreover from 2 have "pos_ok ps idx (off + n)" by (auto simp: pos_ok_def)
    moreover have "unsent ps idx (off + n) = drop n (unsent ps idx off)"
      by (simp add: unsent_def add.commute)
    ultimately show ?thesis by blast
  next
    case 3
    have u: "unsent ps idx off = drop off (piece_deref (ps ! idx)) @ unsent ps (idx + 1) 0"
      using "1.prems"(2) 3(3) by (rule unsent_at)
    have "pos_ok ps (idx + 1) 0" using "1.prems"(1) by (auto simp: pos_ok_def)
    with "1.IH" [OF _ _ refl 3(2)] 3 "1.prems" u
    have "\<exists>i j. advance ps (idx + 1) 0 (n - ?m) = Some (i, j) \<and> pos_ok ps i j \<and>
        unsent ps i j = drop (n - ?m) (unsent ps (idx + 1) 0)" by simp
    moreover from 3 have "advance ps idx off n = advance ps (idx + 1) 0 (n - ?m)"
      by (simp add: advance.simps [of ps idx off n])
    ultimately show ?thesis using 3 by (simp add: u)
  qed
qed

lemma iov_spec:
  assumes "pos_ok ps idx off" and "idx < length ps"
  shows "\<exists>r. unsent ps idx off = concat (iov ps idx off) @ r" and "concat (iov ps idx off) \<noteq> []"
proof -
  let ?k = "min MAX_IOV (length ps - idx)"
  obtain k where k: "?k = Suc k" using assms(2) by (cases ?k) (auto simp: MAX_IOV_def)
  then have iov: "iov ps idx off = drop off (piece_deref (ps ! idx)) #
      map piece_deref (take k (drop (idx + 1) ps))"
    using assms(2) by (simp add: iov_def Cons_nth_drop_Suc [symmetric])
  then show "concat (iov ps idx off) \<noteq> []" using assms by (auto simp: pos_ok_def)
  have "unsent ps (idx + 1) 0 = pieces_bytes (take k (drop (idx + 1) ps) @ drop k (drop (idx + 1) ps))"
    by (simp only: append_take_drop_id unsent_def drop_0)
  then show "\<exists>r. unsent ps idx off = concat (iov ps idx off) @ r"
    unfolding unsent_at [OF assms] iov by simp
qed

text \<open>
  The contract of \<open>AsyncWrite::poll_write_vectored\<close>: no more bytes are reported written than
  were given. A socket that never fails accepts at least one byte of a non-empty write.
\<close>

definition write_contract :: "('s \<Rightarrow> bytes list \<Rightarrow> ('e + nat) \<times> 's) \<Rightarrow> bool" where
  "write_contract wv \<longleftrightarrow> (\<forall>s v n s'. wv s v = (Inr n, s') \<longrightarrow> n \<le> length (concat v))"

definition write_accepts :: "('s \<Rightarrow> bytes list \<Rightarrow> ('e + nat) \<times> 's) \<Rightarrow> bool" where
  "write_accepts wv \<longleftrightarrow>
     (\<forall>s v. concat v \<noteq> [] \<longrightarrow> (\<exists>n s'. wv s v = (Inr n, s') \<and> 0 < n))"

lemma flush_loop_spec:
  assumes "write_contract wv" and "\<forall>p \<in> set ps. piece_deref p \<noteq> []" and "pos_ok ps idx off"
  shows "\<exists>res sent s' r. flush_loop wv ps idx off s = (Some res, sent, s') \<and>
    unsent ps idx off = sent @ r \<and> (res = Inr () \<longrightarrow> r = []) \<and> (write_accepts wv \<longrightarrow> res = Inr ())"
  using assms
proof (induction wv ps idx off s rule: flush_loop.induct)
  case (1 wv ps idx off s)
  show ?case
  proof (cases "idx < length ps")
    case False
    then show ?thesis by (simp add: flush_loop.simps [of wv ps idx off] unsent_end)
  next
    case True
    let ?v = "iov ps idx off"
    obtain w s' where w: "wv s ?v = (w, s')" by fastforce
    note fl = flush_loop.simps [of wv ps idx off s]
    obtain r where r: "unsent ps idx off = concat ?v @ r" using iov_spec [OF "1.prems"(3) True] by blast
    have acc: "write_accepts wv \<Longrightarrow> \<exists>n. w = Inr n \<and> 0 < n"
      using iov_spec(2) [OF "1.prems"(3) True] w
      unfolding write_accepts_def by (metis Pair_inject)
    consider (err) e where "w = Inl e" | (zero) "w = Inr 0" | (sent) n where "w = Inr n" "0 < n"
      by (cases w) auto
    then show ?thesis
    proof cases
      case sent
      then have n: "n \<le> length (concat ?v)" using "1.prems"(1) w by (auto simp: write_contract_def)
      then obtain i j where a: "advance ps idx off n = Some (i, j)" "pos_ok ps i j"
          "unsent ps i j = drop n (unsent ps idx off)"
        using advance_spec [OF "1.prems"(2,3), of n] r by auto
      from "1.IH" [OF _ refl w [symmetric] sent(1) _ a(1) refl "1.prems"(1,2) a(2)] sent(2) True
      obtain res sent s'' r' where f: "flush_loop wv ps i j s' = (Some res, sent, s'')"
          "unsent ps i j = sent @ r'" "res = Inr () \<longrightarrow> r' = []" "write_accepts wv \<longrightarrow> res = Inr ()"
        by auto
      have "unsent ps idx off = take n (concat ?v) @ sent @ r'"
        using a(3) f(2) r n by (metis append_take_drop_id take_append diff_is_0_eq' take_0 append_Nil2)
      with f sent True a w show ?thesis by (simp add: fl Let_def)
    qed (use True w acc in \<open>auto simp: fl Let_def\<close>)
  qed
qed

definition fw_write :: "bool \<times> bytes \<Rightarrow> frame_writer \<Rightarrow> frame_writer" where
  "fw_write p w = (if fst p then fw_put_bytes (snd p) w else fw_put_slice (snd p) w)"

lemma fw_put_one: "fw.put_one = fw_write"
  by (intro ext) (simp add: fw.put_one_def fw_write_def)

text \<open>
  C20. A frame begun with a placeholder header and written piece by piece, by copy or by
  reference, however often the coalescing buffer spills in between, is closed without a panic
  and stands in the queue as the encoding of exactly its tag and body, after what was queued
  before it; taken back instead, it leaves exactly what was queued before it.
\<close>

theorem begun_frame_is_encoded:
  assumes "fw_inv w" and "fw_begin t w = (m, w1)" and "w2 = fold fw_write ps w1"
  shows "(\<exists>w3. fw_end m w2 = Some w3 \<and> fw_inv w3 \<and>
       fw_bytes w3 = fw_bytes w @ encode_frame (t, concat (map snd ps))) \<and>
     (\<exists>w3. fw_abort m w2 = Some w3 \<and> fw_inv w3 \<and> fw_bytes w3 = fw_bytes w) \<and>
     fw_since m w2 = length (concat (map snd ps))"
  using fw.begun_frame [OF assms(1,2), of ps] fw.reverted_frame [OF assms(1,2), of ps]
    fw.written_puts [OF assms(1,2), of ps]
  unfolding fw_put_one assms(3) by blast

theorem begun_frame_is_encoded_witness:
  "\<exists>w3. fw_end (fst (fw_begin 4 (with_inline_limit 2)))
       (fold fw_write [(True, [7]), (True, [8, 9]), (False, [10])] (snd (fw_begin 4 (with_inline_limit 2))))
     = Some w3 \<and> fw_inv w3 \<and> fw_bytes w3 = encode_frame (4, [7, 8, 9, 10])"
  using begun_frame_is_encoded [of "with_inline_limit 2" 4
      "fst (fw_begin 4 (with_inline_limit 2))" "snd (fw_begin 4 (with_inline_limit 2))" _
      "[(True, [7]), (True, [8, 9]), (False, [10])]"] by simp

lemma fw_flush_spec:
  assumes "write_contract wv" and "fw_inv w"
  shows "\<exists>res sent s' w' r. fw_flush wv w s = (Some res, sent, s', w') \<and> fw_bytes w = sent @ r \<and>
    (if res = Inr () then r = [] \<and> fw_bytes w' = [] \<and> fw_len w' = 0 else fw_bytes w' = fw_bytes w) \<and>
    fw_inv w'"
proof -
  define w1 where "w1 = (if fw_chunk w \<noteq> []
      then w\<lparr>fw_pieces := fw_pieces w @ [Own (fw_chunk w)], fw_chunk := []\<rparr> else w)"
  have w1: "fw_inv w1" "fw_bytes w1 = fw_bytes w" "fw_chunk w1 = []"
    using assms(2) by (auto simp: w1_def fw_inv_def fw_bytes_def)
  then have "pos_ok (fw_pieces w1) 0 0" by (auto simp: pos_ok_def fw_inv_def)
  moreover from w1 have u: "unsent (fw_pieces w1) 0 0 = fw_bytes w" by (simp add: unsent_def fw_bytes_def)
  ultimately obtain res sent s' r where
    "flush_loop wv (fw_pieces w1) 0 0 s = (Some res, sent, s')" "fw_bytes w = sent @ r"
    "res = Inr () \<longrightarrow> r = []"
    using flush_loop_spec [OF assms(1), of "fw_pieces w1" 0 0 s] w1(1) unfolding fw_inv_def by auto
  with w1 show ?thesis
    by (auto simp: fw_flush_def w1_def [symmetric] Let_def fw_inv_def fw_bytes_def)
qed

text \<open>
  C21. Flushing through any socket that keeps its contract never panics and never reorders,
  repeats or skips a byte: what the socket got is a prefix of the queue, all of it exactly when
  the flush reports success, and the writer is then empty.
\<close>

theorem flush_sends_queue:
  assumes "write_contract wv" and "fw_inv w"
  shows "\<exists>res sent s' w' r. fw_flush wv w s = (Some res, sent, s', w') \<and> fw_bytes w = sent @ r \<and>
    (if res = Inr () then r = [] \<and> fw_bytes w' = [] \<and> fw_len w' = 0 else fw_bytes w' = fw_bytes w) \<and>
    fw_inv w'"
  by (rule fw_flush_spec [OF assms])

text \<open>A socket that takes at most three bytes at a time and fails on its fifth write.\<close>

definition slow_socket :: "nat \<Rightarrow> bytes list \<Rightarrow> (unit + nat) \<times> nat" where
  "slow_socket s v = (if s = 5 then Inl () else Inr (min 3 (length (concat v))), s + 1)"

theorem flush_sends_queue_witness:
  "\<exists>res sent s' w' r. fw_flush slow_socket (fw_frame 1 [2, 3] (with_inline_limit 1)) 0 =
     (Some res, sent, s', w') \<and> encode_frame (1, [2, 3]) = sent @ r"
proof -
  have "write_contract slow_socket" by (auto simp: write_contract_def slow_socket_def)
  from flush_sends_queue [OF this, of "fw_frame 1 [2, 3] (with_inline_limit 1)" 0]
  show ?thesis by (auto simp: fw_inv_new)
qed

text \<open>
  Flushing completes: over a socket that keeps its contract and always accepts something,
  however little at a time, the flush returns success with the whole queue sent.
\<close>

lemma flush_completes:
  assumes "write_contract wv" and "write_accepts wv" and "fw_inv w"
  shows "\<exists>s' w'. fw_flush wv w s = (Some (Inr ()), fw_bytes w, s', w') \<and> fw_is_empty w'"
proof -
  define w1 where "w1 = (if fw_chunk w \<noteq> []
      then w\<lparr>fw_pieces := fw_pieces w @ [Own (fw_chunk w)], fw_chunk := []\<rparr> else w)"
  have w1: "\<forall>p \<in> set (fw_pieces w1). piece_deref p \<noteq> []" "unsent (fw_pieces w1) 0 0 = fw_bytes w"
    using assms(3) by (auto simp: w1_def fw_inv_def fw_bytes_def unsent_def)
  then have "pos_ok (fw_pieces w1) 0 0" by (auto simp: pos_ok_def)
  with flush_loop_spec [OF assms(1) w1(1), of 0 0 s] assms(2) w1(2)
  obtain s' where "flush_loop wv (fw_pieces w1) 0 0 s = (Some (Inr ()), fw_bytes w, s')" by auto
  then show ?thesis by (simp add: fw_flush_def w1_def [symmetric] Let_def fw_is_empty_def)
qed

definition byte_socket :: "unit \<Rightarrow> bytes list \<Rightarrow> (unit + nat) \<times> unit" where
  "byte_socket s v = (Inr (if concat v = [] then 0 else 1), ())"

lemma byte_socket_contract: "write_contract byte_socket" "write_accepts byte_socket"
  by (auto simp: write_contract_def write_accepts_def byte_socket_def)
    (metis One_nat_def Suc_leI concat_eq_Nil_conv length_greater_0_conv length_concat)

lemma fw_take_bytes_spec:
  "fst (fw_take_bytes w) = fw_bytes w" "fw_pieces (snd (fw_take_bytes w)) = []" "fw_chunk (snd (fw_take_bytes w)) = []"
  "fw_len (snd (fw_take_bytes w)) = 0" "fw_inline_limit (snd (fw_take_bytes w)) = fw_inline_limit w"
proof -
  have fold: "fold (\<lambda>p out. out @ piece_deref p) ps acc = acc @ pieces_bytes ps" for ps acc
    by (induction ps arbitrary: acc) auto
  consider "fw_pieces w = []" | p where "fw_pieces w = [p]" "fw_chunk w = []"
    | "fw_pieces w \<noteq> []" "\<not> (length (fw_pieces w) = 1 \<and> fw_chunk w = [])"
    by (cases "fw_pieces w") auto
  then show "fst (fw_take_bytes w) = fw_bytes w" "fw_pieces (snd (fw_take_bytes w)) = []" "fw_chunk (snd (fw_take_bytes w)) = []"
    "fw_len (snd (fw_take_bytes w)) = 0" "fw_inline_limit (snd (fw_take_bytes w)) = fw_inline_limit w"
    by (cases; auto simp: fw_take_bytes_def fw_bytes_def Let_def fold)+
qed

text \<open>
  Draining the queue into one buffer, with or without a copy, gives the queued bytes and
  an empty writer.
\<close>

lemma take_bytes_drains:
  "fst (fw_take_bytes w) = fw_bytes w \<and> fst (fw_take w) = fw_bytes w \<and>
   fw_bytes (snd (fw_take_bytes w)) = [] \<and> fw_len (snd (fw_take_bytes w)) = 0 \<and>
   snd (fw_take w) = snd (fw_take_bytes w)"
  using fw_take_bytes_spec [of w] by (simp add: fw_take_def fw_bytes_def frame_writer.equality)

end
