(* ===== verification/Cache_Key.thy ===== *)
theory Cache_Key
  imports Prelude
begin

text \<open>
  \<open>Key\<close> of \<^verbatim>\<open>crates/server/src/cache/key.rs\<close>: a short key lies in a fixed inline
  array with its length, a longer one in an allocation of its own.
\<close>

definition INLINE :: nat where "INLINE = 30"

datatype key = Inline u8 bytes | Heap bytes

definition key_new :: "bytes \<Rightarrow> key" where
  "key_new k =
     (if length k \<le> INLINE then Inline (of_nat (length k)) (overwrite 0 k (replicate INLINE 0))
      else Heap k)"

fun key_as_slice :: "key \<Rightarrow> bytes" where
  "key_as_slice (Inline len buf) = take (unat len) buf"
| "key_as_slice (Heap b) = b"

definition key_eq :: "key \<Rightarrow> key \<Rightarrow> bool" where
  "key_eq a b \<longleftrightarrow> key_as_slice a = key_as_slice b"

text \<open>What \<open>new\<close> establishes and the unchecked slice of \<open>as_slice\<close> relies on.\<close>

fun key_wf :: "key \<Rightarrow> bool" where
  "key_wf (Inline len buf) \<longleftrightarrow> length buf = INLINE \<and> unat len \<le> INLINE"
| "key_wf (Heap b) \<longleftrightarrow> INLINE < length b"

lemma unat_of_nat_u8 [simp]: "n < 256 \<Longrightarrow> unat (of_nat n :: u8) = n"
  by (simp add: unat_of_nat take_bit_nat_eq_self)

lemma key_wf_new [simp]: "key_wf (key_new k)"
  by (simp add: key_new_def INLINE_def)

lemma key_as_slice_new [simp]: "key_as_slice (key_new k) = k"
  by (simp add: key_new_def INLINE_def overwrite_def)

text \<open>
  A stored key is the key given, whichever representation it takes, the inline slice
  stays inside its array, and two stored keys compare equal exactly when the given ones are.
\<close>

lemma key_roundtrip:
  "key_as_slice (key_new k) = k \<and> key_wf (key_new k) \<and>
   (key_eq (key_new k) (key_new k') \<longleftrightarrow> k = k')"
  by (simp add: key_eq_def)

end
