(* ===== verification/Slab.thy ===== *)
theory Slab
  imports Prelude "HOL-Library.Multiset"
begin

text \<open>
  The size-class slab of \<^verbatim>\<open>crates/server/src/cache/slab.rs\<close>: entry allocations are served
  from per-class free lists, fronted by one magazine per thread and class, and carved from
  large regions when the lists are empty.

  A chunk is its address. The address \<open>mmap\<close> returns is a parameter of the operations that may
  need a fresh region; threads are numbered, and whether a thread still has its magazines (its
  thread-local storage may be gone while it exits) is an argument.
\<close>

definition MAX_SLAB :: nat where "MAX_SLAB = 64 * 2 ^ 10"
definition LINEAR_MAX :: nat where "LINEAR_MAX = 1024"
definition LINEAR :: nat where "LINEAR = LINEAR_MAX div 64"
definition BATCH_BYTES :: nat where "BATCH_BYTES = 64 * 2 ^ 10"
definition REGION :: nat where "REGION = 8 * 2 ^ 20"
definition HUGE :: nat where "HUGE = 2 * 2 ^ 20"

fun trailing_zeros :: "nat \<Rightarrow> nat" where
  "trailing_zeros n = (if n = 0 \<or> odd n then 0 else Suc (trailing_zeros (n div 2)))"

text \<open>The position of the highest set bit, \<open>BITS - 1 - n.leading_zeros()\<close>.\<close>

fun msb_index :: "nat \<Rightarrow> nat" where
  "msb_index n = (if n \<le> 1 then 0 else Suc (msb_index (n div 2)))"

declare trailing_zeros.simps [simp del] msb_index.simps [simp del]

definition CLASSES :: nat where
  "CLASSES = LINEAR + 4 * (trailing_zeros MAX_SLAB - trailing_zeros LINEAR_MAX)"

definition div_ceil :: "nat \<Rightarrow> nat \<Rightarrow> nat" where
  "div_ceil a b = (if a mod b = 0 then a div b else a div b + 1)"

definition class_of :: "nat \<Rightarrow> nat option" where
  "class_of sz =
     (if sz \<le> LINEAR_MAX then Some (div_ceil sz 64 - 1)
      else if sz > MAX_SLAB then None
      else let k = msb_index (sz - 1);
               step = 2 ^ (k - 2);
               sub = div_ceil (sz - 2 ^ k) step
           in Some (LINEAR + 4 * (k - trailing_zeros LINEAR_MAX) + sub - 1))"

definition class_size :: "nat \<Rightarrow> nat" where
  "class_size class =
     (if class < LINEAR then (class + 1) * 64
      else let g = class - LINEAR;
               k = trailing_zeros LINEAR_MAX + g div 4
           in 2 ^ k + (g mod 4 + 1) * 2 ^ (k - 2))"

text \<open>\<open>batch\<close>: how many chunks a magazine moves per refill or flush, clamped to 1..32.\<close>

definition batch :: "nat \<Rightarrow> nat" where
  "batch class = max 1 (min 32 (BATCH_BYTES div class_size class))"

section \<open>The free lists\<close>

record slab =
  sl_free :: "nat list list"
  sl_bump :: "nat \<times> nat"
  sl_mags :: "nat list list list"

definition slab_init :: "nat \<Rightarrow> slab" where
  "slab_init threads =
     \<lparr>sl_free = replicate CLASSES [], sl_bump = (0, 0),
      sl_mags = replicate threads (replicate CLASSES [])\<rparr>"

text \<open>\<open>map_region\<close>: the aligned part of a mapping of \<open>REGION + HUGE\<close> bytes at \<open>addr\<close>.\<close>

definition map_region :: "nat \<Rightarrow> nat" where
  "map_region addr =
     unat ((of_nat addr + of_nat HUGE - 1) AND NOT (of_nat HUGE - 1) :: u64)"

definition carve :: "nat \<Rightarrow> nat \<Rightarrow> nat \<Rightarrow> nat list" where
  "carve cur sz n = map (\<lambda>i. cur + i * sz) [0..<n]"

text \<open>\<open>Central::refill\<close>: the chunks appended to \<open>into\<close>, and the central lists after.\<close>

definition refill :: "nat \<Rightarrow> nat \<Rightarrow> nat \<Rightarrow> slab \<Rightarrow> nat list \<times> slab" where
  "refill mmap class n s =
     (let free = sl_free s ! class
      in if free \<noteq> []
         then let at = length free - min (length free) n
              in (drop at free, s\<lparr>sl_free := (sl_free s)[class := take at free]\<rparr>)
         else let sz = class_size class;
                  need = sz * n;
                  bump = (if snd (sl_bump s) - fst (sl_bump s) < need
                          then (map_region mmap, map_region mmap + REGION) else sl_bump s)
              in (carve (fst bump) sz n, s\<lparr>sl_bump := (fst bump + need, snd bump)\<rparr>))"

text \<open>\<open>Central::flush\<close> of what lies past \<open>keep\<close> in \<open>from\<close>; returns what is kept.\<close>

definition flush_free :: "nat \<Rightarrow> nat list \<Rightarrow> nat \<Rightarrow> slab \<Rightarrow> nat list \<times> slab" where
  "flush_free class from keep s =
     (take keep from, s\<lparr>sl_free := (sl_free s)[class := sl_free s ! class @ drop keep from]\<rparr>)"

definition mag :: "nat \<Rightarrow> nat \<Rightarrow> slab \<Rightarrow> nat list" where
  "mag tid class s = sl_mags s ! tid ! class"

definition set_mag :: "nat \<Rightarrow> nat \<Rightarrow> nat list \<Rightarrow> slab \<Rightarrow> slab" where
  "set_mag tid class v s =
     s\<lparr>sl_mags := (sl_mags s)[tid := (sl_mags s ! tid)[class := v]]\<rparr>"

text \<open>\<open>alloc\<close>: \<open>tls\<close> is whether the thread's magazines are still there.\<close>

definition alloc :: "nat \<Rightarrow> nat \<Rightarrow> bool \<Rightarrow> nat \<Rightarrow> slab \<Rightarrow> (nat \<times> nat) option \<times> slab" where
  "alloc mmap tid tls sz s =
     (case class_of sz of
        None \<Rightarrow> (None, s)
      | Some class \<Rightarrow>
          if tls then
            let v = mag tid class s
            in if v \<noteq> [] then (Some (last v, class), set_mag tid class (butlast v) s)
               else let (fresh, s1) = refill mmap class (batch class) s;
                        v1 = v @ fresh
                    in (Some (last v1, class), set_mag tid class (butlast v1) s1)
          else let (one, s1) = refill mmap class 1 s in (Some (one ! 0, class), s1))"

definition free :: "nat \<Rightarrow> bool \<Rightarrow> nat \<Rightarrow> nat \<Rightarrow> slab \<Rightarrow> slab" where
  "free tid tls p class s =
     (if tls then
        let v = mag tid class s @ [p];
            cap = 2 * batch class
        in if length v > cap
           then let (v', s') = flush_free class v (cap div 2) s in set_mag tid class v' s'
           else set_mag tid class v s
      else s\<lparr>sl_free := (sl_free s)[class := sl_free s ! class @ [p]]\<rparr>)"

text \<open>\<open>Drop\<close> of a thread's magazines when the thread exits.\<close>

definition drop_mags :: "nat \<Rightarrow> slab \<Rightarrow> slab" where
  "drop_mags tid s =
     fold (\<lambda>class s. let v = mag tid class s
                     in if v \<noteq> []
                        then let (v', s') = flush_free class v 0 s in set_mag tid class v' s'
                        else s)
       [0..<CLASSES] s"


section \<open>Size classes\<close>

lemma msb_index_bounds: "0 < n \<Longrightarrow> 2 ^ msb_index n \<le> n \<and> n < 2 ^ (msb_index n + 1)"
proof (induction n rule: msb_index.induct)
  case (1 n)
  show ?case
  proof (cases "n \<le> 1")
    case True
    with "1.prems" show ?thesis by (simp add: msb_index.simps [of n])
  next
    case False
    with "1.IH" have "2 ^ msb_index (n div 2) \<le> n div 2" "n div 2 < 2 ^ (msb_index (n div 2) + 1)"
      by auto
    then have "2 * 2 ^ msb_index (n div 2) \<le> n \<and> n < 2 * 2 ^ (msb_index (n div 2) + 1)" by linarith
    with False show ?thesis by (simp add: msb_index.simps [of n])
  qed
qed

lemma div_ceil_bounds:
  assumes "0 < a" and "0 < b"
  shows "\<exists>s. div_ceil a b = s + 1 \<and> s * b < a \<and> a \<le> (s + 1) * b"
proof (cases "a mod b = 0")
  case True
  then obtain q where q: "a = b * q" by auto
  with assms obtain s where "q = Suc s" by (cases q) auto
  with q assms True show ?thesis by (simp add: div_ceil_def)
next
  case False
  have "a div b * b < a" using False by (metis div_mult_mod_eq gr0I less_add_same_cancel1)
  moreover have "a \<le> (a div b + 1) * b" using assms(2) dividend_less_div_times [of b a]
    by (simp add: mult.commute)
  ultimately show ?thesis using False by (simp add: div_ceil_def)
qed

lemma slab_consts [simp]: "LINEAR = 16" "trailing_zeros LINEAR_MAX = 10" "CLASSES = 40"
  by (simp_all add: CLASSES_def LINEAR_def LINEAR_MAX_def MAX_SLAB_def trailing_zeros.simps)

lemma class_size_linear: "c < 16 \<Longrightarrow> class_size c = (c + 1) * 64"
  by (simp add: class_size_def)

lemma class_size_group:
  assumes "s < 4"
  shows "class_size (16 + 4 * j + s) = 2 ^ (j + 10) + (s + 1) * 2 ^ (j + 8)"
proof -
  have "(4 * j + s) div 4 = j" "(4 * j + s) mod 4 = s" using assms by auto
  then show ?thesis by (simp add: class_size_def Let_def add.commute)
qed

lemma class_size_pred_group:
  assumes "s < 4"
  shows "class_size (16 + 4 * j + s - 1) = 2 ^ (j + 10) + s * 2 ^ (j + 8)"
proof (cases s)
  case (Suc r)
  with assms class_size_group [of r j] show ?thesis by (simp add: add.assoc)
next
  case 0
  then show ?thesis
    using class_size_group [of 3 "j - 1"] by (cases j) (simp_all add: class_size_linear power_add)
qed

lemma class_of_large:
  assumes "LINEAR_MAX < sz" and "sz \<le> MAX_SLAB"
  shows "\<exists>j s. j < 6 \<and> s < 4 \<and> class_of sz = Some (16 + 4 * j + s) \<and>
    2 ^ (j + 10) + s * 2 ^ (j + 8) < sz \<and> sz \<le> 2 ^ (j + 10) + (s + 1) * 2 ^ (j + 8)"
proof -
  let ?k = "msb_index (sz - 1)"
  from assms have sz: "1024 \<le> sz - 1" "sz - 1 < 65536" by (auto simp: LINEAR_MAX_def MAX_SLAB_def)
  then have b: "2 ^ ?k \<le> sz - 1" "sz - 1 < 2 ^ (?k + 1)" using msb_index_bounds [of "sz - 1"] by auto
  have "(2::nat) ^ 10 < 2 ^ (?k + 1)" "(2::nat) ^ ?k < 2 ^ 16" using b sz by auto
  then have "10 < ?k + 1" "?k < 16"
    by (simp_all only: power_strict_increasing_iff [of "2::nat"] one_less_numeral_iff semiring_norm)
  then have "?k = (?k - 10) + 10" "?k - 10 < 6" by simp_all
  then obtain j where j: "?k = j + 10" "j < 6" by blast
  let ?a = "sz - 2 ^ ?k"
  have a: "0 < ?a" "?a \<le> 4 * 2 ^ (j + 8)" "sz = 2 ^ (j + 10) + ?a"
    using b unfolding j(1) by (simp_all add: power_add)
  then obtain s where s: "div_ceil ?a (2 ^ (j + 8)) = s + 1" "s * 2 ^ (j + 8) < ?a"
      "?a \<le> (s + 1) * 2 ^ (j + 8)"
    using div_ceil_bounds [of ?a "2 ^ (j + 8)"] by auto
  with a(2) have "s * 2 ^ (j + 8) < 4 * 2 ^ (j + 8)" by linarith
  then have "s < 4" by simp
  moreover have "class_of sz = Some (16 + 4 * j + s)"
    using assms s(1) j(1) by (simp add: class_of_def Let_def add.commute)
  ultimately show ?thesis using j(2) s(2,3) a(3) by (intro exI [of _ j] exI [of _ s]) linarith
qed

lemma class_of_spec:
  assumes "0 < sz"
  shows "case class_of sz of
     None \<Rightarrow> MAX_SLAB < sz
   | Some c \<Rightarrow> sz \<le> MAX_SLAB \<and> c < CLASSES \<and> sz \<le> class_size c \<and>
       (c = 0 \<or> class_size (c - 1) < sz) \<and>
       (if LINEAR \<le> c then 4 * (class_size c - sz) < class_size c else class_size c - sz < 64)"
proof -
  consider "sz \<le> LINEAR_MAX" | "MAX_SLAB < sz" | "LINEAR_MAX < sz" "sz \<le> MAX_SLAB" by linarith
  then show ?thesis
  proof cases
    case 1
    obtain s where s: "div_ceil sz 64 = s + 1" "s * 64 < sz" "sz \<le> (s + 1) * 64"
      using div_ceil_bounds [OF assms, of 64] by auto
    with 1 have "s < 16" by (simp add: LINEAR_MAX_def)
    with s 1 show ?thesis by (auto simp: class_of_def LINEAR_MAX_def MAX_SLAB_def class_size_linear)
  next
    case 2
    then show ?thesis by (simp add: class_of_def LINEAR_MAX_def MAX_SLAB_def)
  next
    case 3
    then obtain j s where c: "j < 6" "s < 4" "class_of sz = Some (16 + 4 * j + s)"
        "2 ^ (j + 10) + s * 2 ^ (j + 8) < sz" "sz \<le> 2 ^ (j + 10) + (s + 1) * 2 ^ (j + 8)"
      using class_of_large by blast
    have "4 * (2 ^ (j + 10) + (s + 1) * 2 ^ (j + 8) - sz) < 2 ^ (j + 10) + (s + 1) * 2 ^ (j + 8)"
      using c(4,5) by (simp add: algebra_simps power_add)
    with c 3(2) show ?thesis
      using class_size_group [OF c(2), of j] class_size_pred_group [OF c(2), of j] by simp
  qed
qed

section \<open>Chunks never overlap\<close>

text \<open>
  A chunk with its class occupies \<open>class_size\<close> bytes from its address. All chunks the slab
  knows of are those in its free lists, in the magazines, and the ones handed out and not yet
  returned, \<open>live\<close>.
\<close>

type_synonym chunk = "nat \<times> nat"

definition span :: "chunk \<Rightarrow> nat set" where
  "span c = {fst c ..< fst c + class_size (snd c)}"

definition tag_class :: "nat \<Rightarrow> nat list \<Rightarrow> chunk multiset" where
  "tag_class c ps = mset (map (\<lambda>p. (p, c)) ps)"

definition tag_all :: "nat list list \<Rightarrow> chunk multiset" where
  "tag_all xss = (\<Sum>c\<in>{..<length xss}. tag_class c (xss ! c))"

definition mag_chunks :: "nat list list list \<Rightarrow> chunk multiset" where
  "mag_chunks ms = (\<Sum>t\<in>{..<length ms}. tag_all (ms ! t))"

definition chunks :: "slab \<Rightarrow> chunk multiset \<Rightarrow> chunk multiset" where
  "chunks s live = tag_all (sl_free s) + mag_chunks (sl_mags s) + live"

definition chunk_ok :: "chunk \<Rightarrow> bool" where
  "chunk_ok c \<longleftrightarrow> snd c < CLASSES \<and> fst c mod 64 = 0 \<and> 0 < fst c \<and>
     fst c + class_size (snd c) \<le> 2 ^ 47"

definition no_overlap :: "chunk multiset \<Rightarrow> bool" where
  "no_overlap M \<longleftrightarrow> (\<forall>x. count M x \<le> 1) \<and>
     (\<forall>x \<in># M. \<forall>y \<in># M. x \<noteq> y \<longrightarrow> span x \<inter> span y = {})"

definition shape :: "slab \<Rightarrow> bool" where
  "shape s \<longleftrightarrow> length (sl_free s) = CLASSES \<and> (\<forall>m \<in> set (sl_mags s). length m = CLASSES)"

text \<open>
  The invariant: chunks are well placed (aligned, in the lower half of a 48-bit address
  space), pairwise disjoint, and clear of the part of the region still to be carved.
\<close>

definition slab_inv :: "slab \<Rightarrow> chunk multiset \<Rightarrow> bool" where
  "slab_inv s live \<longleftrightarrow> shape s \<and> no_overlap (chunks s live) \<and>
     (\<forall>c \<in># chunks s live. chunk_ok c \<and> span c \<inter> {fst (sl_bump s) ..< snd (sl_bump s)} = {}) \<and>
     fst (sl_bump s) mod 64 = 0 \<and> snd (sl_bump s) \<le> 2 ^ 47 \<and>
     (fst (sl_bump s) = 0 \<longrightarrow> snd (sl_bump s) = 0)"

lemma class_size_pos: "64 \<le> class_size c"
proof (cases "c < 16")
  case True
  then show ?thesis by (simp add: class_size_linear)
next
  case False
  then have "c = 16 + 4 * ((c - 16) div 4) + (c - 16) mod 4" by simp
  then have "class_size c = 2 ^ ((c - 16) div 4 + 10) + ((c - 16) mod 4 + 1) * 2 ^ ((c - 16) div 4 + 8)"
    using class_size_group [of "(c - 16) mod 4" "(c - 16) div 4"] by simp
  moreover have "(64::nat) \<le> 2 ^ ((c - 16) div 4 + 10)" by (simp add: power_add)
  ultimately show ?thesis by linarith
qed

lemma class_size_64: "class_size c mod 64 = 0"
proof (cases "c < 16")
  case True
  then show ?thesis by (simp add: class_size_linear)
next
  case False
  then have "c = 16 + 4 * ((c - 16) div 4) + (c - 16) mod 4" by simp
  then have "class_size c = 2 ^ ((c - 16) div 4 + 10) + ((c - 16) mod 4 + 1) * 2 ^ ((c - 16) div 4 + 8)"
    using class_size_group [of "(c - 16) mod 4" "(c - 16) div 4"] by simp
  also have "\<dots> = 64 * (2 ^ ((c - 16) div 4 + 4) + ((c - 16) mod 4 + 1) * 2 ^ ((c - 16) div 4 + 2))"
    by (simp add: power_add)
  finally show ?thesis by simp
qed

lemma tag_class_append [simp]: "tag_class c (xs @ ys) = tag_class c xs + tag_class c ys"
  by (simp add: tag_class_def)

lemma tag_class_simps [simp]: "tag_class c [] = {#}" "tag_class c (p # ps) = add_mset (p, c) (tag_class c ps)"
  by (simp_all add: tag_class_def)

lemma sum_list_upd:
  fixes f :: "nat \<Rightarrow> 'a \<Rightarrow> chunk multiset"
  assumes "i < length xs"
  shows "(\<Sum>j\<in>{..<length xs}. f j (xs[i := y] ! j)) + f i (xs ! i) =
    (\<Sum>j\<in>{..<length xs}. f j (xs ! j)) + f i y"
proof -
  have "(\<Sum>j\<in>{..<length xs}. f j (zs ! j)) = f i (zs ! i) + (\<Sum>j\<in>{..<length xs} - {i}. f j (zs ! j))" for zs
    using assms by (simp add: sum.remove)
  moreover have "(\<Sum>j\<in>{..<length xs} - {i}. f j (xs[i := y] ! j)) = (\<Sum>j\<in>{..<length xs} - {i}. f j (xs ! j))"
    by (rule sum.cong) auto
  ultimately show ?thesis using assms by (simp add: ac_simps)
qed

lemma tag_all_upd:
  "c < length xss \<Longrightarrow> tag_all (xss[c := ys]) + tag_class c (xss ! c) = tag_all xss + tag_class c ys"
  using sum_list_upd [of c xss tag_class ys] by (simp add: tag_all_def)

lemma mag_chunks_upd:
  assumes "t < length ms" and "c < length (ms ! t)"
  shows "mag_chunks (ms[t := (ms ! t)[c := ys]]) + tag_class c (ms ! t ! c) =
    mag_chunks ms + tag_class c ys"
proof -
  let ?A = "mag_chunks (ms[t := (ms ! t)[c := ys]])" and ?X = "tag_all (ms ! t)"
  let ?B = "tag_all ((ms ! t)[c := ys])"
  have 1: "?A + ?X = mag_chunks ms + ?B"
    using sum_list_upd [OF assms(1), of "\<lambda>_. tag_all"] by (simp add: mag_chunks_def)
  have "(?A + tag_class c (ms ! t ! c)) + ?X = (?A + ?X) + tag_class c (ms ! t ! c)"
    by (simp add: ac_simps)
  also have "\<dots> = mag_chunks ms + (?B + tag_class c (ms ! t ! c))" by (simp only: 1 add.assoc)
  also have "\<dots> = (mag_chunks ms + tag_class c ys) + ?X"
    by (simp add: tag_all_upd [OF assms(2)] ac_simps)
  finally show ?thesis by simp
qed

lemma chunks_set_free:
  assumes "c < length (sl_free s)"
  shows "chunks (s\<lparr>sl_free := (sl_free s)[c := ys]\<rparr>) live + tag_class c (sl_free s ! c) =
    chunks s live + tag_class c ys"
  using tag_all_upd [OF assms, of ys] by (simp add: chunks_def ac_simps)

lemma chunks_set_mag:
  assumes "shape s" and "tid < length (sl_mags s)" and "c < CLASSES"
  shows "chunks (set_mag tid c v s) live + tag_class c (mag tid c s) = chunks s live + tag_class c v"
  using mag_chunks_upd [OF assms(2), of c v] assms
  by (simp add: chunks_def set_mag_def mag_def shape_def ac_simps)

lemma shape_upd [simp]:
  "shape s \<Longrightarrow> shape (s\<lparr>sl_free := (sl_free s)[c := ys]\<rparr>)" "shape (s\<lparr>sl_bump := b\<rparr>) = shape s"
  "shape s \<Longrightarrow> tid < length (sl_mags s) \<Longrightarrow> shape (set_mag tid c v s)"
  by (auto simp: shape_def set_mag_def dest!: subsetD [OF set_update_subset_insert])

lemma set_mag_simps [simp]: "sl_bump (set_mag tid c v s) = sl_bump s"
  "length (sl_mags (set_mag tid c v s)) = length (sl_mags s)"
  by (simp_all add: set_mag_def)

lemma mag_set_free [simp]: "mag tid c (s\<lparr>sl_free := f\<rparr>) = mag tid c s"
  "mag tid c (s\<lparr>sl_bump := b\<rparr>) = mag tid c s"
  by (simp_all add: mag_def)

text \<open>The invariant depends on the chunks and the uncarved region alone.\<close>

lemma slab_inv_same:
  "slab_inv s live \<Longrightarrow> shape s' \<Longrightarrow> chunks s' live' = chunks s live \<Longrightarrow> sl_bump s' = sl_bump s \<Longrightarrow>
   slab_inv s' live'"
  by (simp add: slab_inv_def)

lemma span_nonempty: "fst c \<in> span c"
  using class_size_pos [of "snd c"] by (simp add: span_def)

lemma no_overlap_union:
  assumes "no_overlap A" and "no_overlap B" and "\<And>x y. x \<in># A \<Longrightarrow> y \<in># B \<Longrightarrow> span x \<inter> span y = {}"
  shows "no_overlap (A + B)"
proof -
  have "count A x + count B x \<le> 1" for x
  proof -
    have "\<not> (x \<in># A \<and> x \<in># B)" using assms(3) [of x x] span_nonempty [of x] by auto
    then have "count A x = 0 \<or> count B x = 0" by (auto simp: count_eq_zero_iff)
    with assms(1,2) show ?thesis by (cases x) (auto simp: no_overlap_def)
  qed
  moreover have "span x \<inter> span y = {}" if "x \<in># A + B" "y \<in># A + B" "x \<noteq> y" for x y
    using that assms unfolding no_overlap_def by (metis Int_commute union_iff)
  ultimately show ?thesis by (auto simp: no_overlap_def)
qed

lemma no_overlap_carve: "no_overlap (tag_class c (carve cur (class_size c) n))"
proof -
  let ?f = "\<lambda>i. (cur + i * class_size c, c)"
  have inj: "inj ?f" using class_size_pos [of c] by (auto simp: inj_def)
  have m: "tag_class c (carve cur (class_size c) n) = mset (map ?f [0..<n])"
    by (simp add: tag_class_def carve_def comp_def)
  have "distinct (map ?f [0..<n])" using inj by (simp add: distinct_map inj_on_def)
  then have "count (mset (map ?f [0..<n])) x \<le> 1" for x
    by (simp only: distinct_count_atmost_1) simp
  moreover have "span (?f i) \<inter> span (?f j) = {}" if "i < j" for i j
  proof -
    have "(i + 1) * class_size c \<le> j * class_size c" using that by (intro mult_le_mono1) simp
    then show ?thesis by (auto simp: span_def)
  qed
  ultimately have "count (mset (map ?f [0..<n])) x \<le> 1" "i \<noteq> j \<Longrightarrow> span (?f i) \<inter> span (?f j) = {}" for x i j
    by (simp, metis Int_commute linorder_neqE_nat)
  then show ?thesis unfolding no_overlap_def m by auto
qed

lemma carve_span:
  assumes "x \<in># tag_class c (carve cur (class_size c) n)"
  shows "span x \<subseteq> {cur ..< cur + class_size c * n} \<and> snd x = c \<and>
    (cur mod 64 = 0 \<longrightarrow> fst x mod 64 = 0) \<and> cur \<le> fst x"
proof -
  from assms obtain i where i: "i < n" "x = (cur + i * class_size c, c)"
    by (auto simp: tag_class_def carve_def)
  then have "(i + 1) * class_size c \<le> n * class_size c" by (intro mult_le_mono1) simp
  moreover have "(cur + i * class_size c) mod 64 = 0" if "cur mod 64 = 0"
    using that class_size_64 [of c] by (metis add_0 mod_add_left_eq mod_mult_right_eq mult_0_right mod_0)
  ultimately show ?thesis using i by (auto simp: span_def mult.commute)
qed

lemma carve_ok:
  assumes "x \<in># tag_class c (carve cur (class_size c) n)" and "cur mod 64 = 0" and "0 < cur"
    and "c < CLASSES" and "cur + class_size c * n \<le> 2 ^ 47"
  shows "span x \<subseteq> {cur ..< cur + class_size c * n} \<and> chunk_ok x"
proof -
  have x: "span x \<subseteq> {cur ..< cur + class_size c * n}" "snd x = c" "fst x mod 64 = 0" "cur \<le> fst x"
    using carve_span [OF assms(1)] assms(2) by auto
  have "fst x + class_size c - 1 \<in> span x" using x(2) class_size_pos [of c] by (simp add: span_def)
  with x(1) have "fst x + class_size c - 1 < cur + class_size c * n" by auto
  with assms(5) have "fst x + class_size c \<le> 2 ^ 47" by linarith
  with x assms show ?thesis by (simp add: chunk_ok_def)
qed

text \<open>
  What is assumed of the mapping \<open>mmap\<close> delivers at \<open>addr\<close>: \<open>REGION + HUGE\<close> bytes of user
  address space, clear of every chunk the slab already has.
\<close>

definition mmap_ok :: "nat \<Rightarrow> slab \<Rightarrow> chunk multiset \<Rightarrow> bool" where
  "mmap_ok addr s live \<longleftrightarrow> 0 < addr \<and> addr + REGION + HUGE \<le> 2 ^ 47 \<and>
     (\<forall>c \<in># chunks s live. span c \<inter> {addr ..< addr + REGION + HUGE} = {})"

lemma unat_and_not_mask: "unat ((x :: u64) AND NOT (2 ^ n - 1)) = unat x div 2 ^ n * 2 ^ n"
proof -
  have "x AND NOT (mask n) = push_bit n (drop_bit n x)"
    by (rule bit_word_eqI) (auto simp: bit_simps)
  moreover have "unat (push_bit n (drop_bit n x)) = unat x div 2 ^ n * 2 ^ n"
  proof -
    have "unat x div 2 ^ n * 2 ^ n < 2 ^ 64"
      using unsigned_less [of x, where 'a = nat] div_times_less_eq_dividend [of "unat x" "2 ^ n"]
      by (simp del: div_times_less_eq_dividend)
    moreover have "take_bit 64 (unat x) = unat x"
      using unsigned_less [of x, where 'a = nat] by (simp add: take_bit_nat_eq_self)
    ultimately show ?thesis
      by (simp only: unsigned_push_bit_eq unsigned_drop_bit_eq)
        (simp add: push_bit_eq_mult drop_bit_eq_div take_bit_nat_eq_self)
  qed
  ultimately show ?thesis by (simp add: mask_eq_exp_minus_1)
qed

text \<open>The region lies inside the mapping, on a huge-page boundary.\<close>

lemma map_region_bounds:
  assumes "addr + REGION + HUGE \<le> 2 ^ 47"
  shows "addr \<le> map_region addr \<and> map_region addr + REGION \<le> addr + REGION + HUGE \<and>
    map_region addr mod HUGE = 0"
proof -
  let ?n = "addr + HUGE - 1"
  have "of_nat addr + of_nat HUGE - 1 = (of_nat ?n :: u64)" by (simp add: HUGE_def of_nat_diff)
  moreover have "unat (of_nat ?n :: u64) = ?n"
    using assms by (intro unat_of_nat_u64) (simp add: HUGE_def REGION_def)
  moreover have "of_nat HUGE = (2 ^ 21 :: u64)" by (simp add: HUGE_def)
  ultimately have "map_region addr = ?n div 2 ^ 21 * 2 ^ 21"
    unfolding map_region_def by (simp only: unat_and_not_mask)
  then show ?thesis by (simp add: HUGE_def) linarith
qed

lemma batch_fits: "class_size c * batch c \<le> REGION" if "c < CLASSES"
proof -
  have "class_size c \<le> 65536"
  proof (cases "c < 16")
    case False
    then have c: "c = 16 + 4 * ((c - 16) div 4) + (c - 16) mod 4" by simp
    have "(c - 16) div 4 \<le> 5" using that by simp
    then have p: "(2::nat) ^ ((c - 16) div 4) \<le> 2 ^ 5" by (intro power_increasing) simp_all
    have "class_size c = 2 ^ ((c - 16) div 4) * (1024 + ((c - 16) mod 4 + 1) * 256)"
      using class_size_group [of "(c - 16) mod 4" "(c - 16) div 4"] c by (simp add: power_add algebra_simps)
    also have "\<dots> \<le> 2 ^ 5 * (1024 + 4 * 256)" using p by (intro mult_le_mono) simp_all
    finally show ?thesis by simp
  qed (simp add: class_size_linear)
  moreover have "batch c \<le> 32" by (simp add: batch_def)
  ultimately have "class_size c * batch c \<le> 65536 * 32" by (intro mult_le_mono)
  then show ?thesis by (simp add: REGION_def)
qed

text \<open>A refill moves chunks from a free list, or carves new ones that overlap nothing.\<close>

lemma refill_inv:
  assumes "slab_inv s live" and "mmap_ok mmap s live" and "c < CLASSES" and "0 < n"
    and "class_size c * n \<le> REGION" and "refill mmap c n s = (into, s')"
  shows "slab_inv s' (live + tag_class c into) \<and> into \<noteq> [] \<and> sl_mags s' = sl_mags s"
proof (cases "sl_free s ! c = []")
  case False
  let ?at = "length (sl_free s ! c) - min (length (sl_free s ! c)) n"
  from assms(6) False have r: "into = drop ?at (sl_free s ! c)"
      "s' = s\<lparr>sl_free := (sl_free s)[c := take ?at (sl_free s ! c)]\<rparr>"
    by (simp_all add: refill_def Let_def)
  have len: "c < length (sl_free s)" using assms(1,3) by (simp add: slab_inv_def shape_def)
  have "tag_class c (sl_free s ! c) = tag_class c (take ?at (sl_free s ! c)) + tag_class c into"
    by (simp only: r tag_class_append [symmetric] append_take_drop_id)
  with chunks_set_free [OF len, of "take ?at (sl_free s ! c)" live] r(2)
  have "chunks s' (live + tag_class c into) = chunks s live" by (simp add: chunks_def ac_simps)
  moreover have "into \<noteq> []" using length_greater_0_conv [of "sl_free s ! c"] False assms(4) by (auto simp: r(1) min_def)
  ultimately show ?thesis using slab_inv_same [OF assms(1)] assms(1) r(2) by (simp add: slab_inv_def)
next
  case True
  let ?need = "class_size c * n"
  define bump where "bump = (if snd (sl_bump s) - fst (sl_bump s) < ?need
      then (map_region mmap, map_region mmap + REGION) else sl_bump s)"
  from assms(6) True have r: "into = carve (fst bump) (class_size c) n"
      "s' = s\<lparr>sl_bump := (fst bump + ?need, snd bump)\<rparr>"
    by (simp_all add: refill_def Let_def bump_def)
  have need: "0 < ?need" using class_size_pos [of c] assms(4) by simp
  have fits: "fst bump + ?need \<le> snd bump"
  proof (cases "snd (sl_bump s) - fst (sl_bump s) < ?need")
    case False
    with need have "fst (sl_bump s) + ?need \<le> snd (sl_bump s)" by linarith
    with False show ?thesis by (simp add: bump_def)
  qed (use assms(5) in \<open>simp add: bump_def\<close>)
  have reg: "mmap \<le> map_region mmap" "map_region mmap + REGION \<le> mmap + REGION + HUGE"
      "map_region mmap mod 64 = 0"
    using map_region_bounds [of mmap] assms(2) by (auto simp: mmap_ok_def HUGE_def)
  have bump_ok: "fst bump mod 64 = 0 \<and> 0 < fst bump \<and> snd bump \<le> 2 ^ 47 \<and>
      (\<forall>x. x \<in># chunks s live \<longrightarrow> span x \<inter> {fst bump ..< snd bump} = {})"
  proof (cases "snd (sl_bump s) - fst (sl_bump s) < ?need")
    case True
    then have "bump = (map_region mmap, map_region mmap + REGION)" by (simp add: bump_def)
    moreover have "{map_region mmap ..< map_region mmap + REGION} \<subseteq> {mmap ..< mmap + REGION + HUGE}"
      using reg by auto
    ultimately show ?thesis using reg assms(2) unfolding mmap_ok_def by fastforce
  next
    case False
    then have "bump = sl_bump s" by (simp add: bump_def)
    with False need assms(1) show ?thesis by (auto simp: slab_inv_def)
  qed
  have b: "fst bump mod 64 = 0" "0 < fst bump" "fst bump + ?need \<le> snd bump" "snd bump \<le> 2 ^ 47"
      "\<And>x. x \<in># chunks s live \<Longrightarrow> span x \<inter> {fst bump ..< snd bump} = {}"
    using bump_ok fits by blast+
  let ?new = "tag_class c into"
  have new: "\<And>x. x \<in># ?new \<Longrightarrow> span x \<subseteq> {fst bump ..< fst bump + ?need} \<and> chunk_ok x"
    using carve_ok [OF _ b(1,2) assms(3), of _ n] b(3,4) by (simp add: r(1))
  have ch: "chunks s' (live + ?new) = chunks s live + ?new" by (simp add: chunks_def r(2) ac_simps)
  have "no_overlap (chunks s live + ?new)"
  proof (rule no_overlap_union)
    show "no_overlap (chunks s live)" using assms(1) by (simp add: slab_inv_def)
    show "no_overlap ?new" by (simp add: r(1) no_overlap_carve)
    show "span x \<inter> span y = {}" if "x \<in># chunks s live" "y \<in># ?new" for x y
      using b(3) b(5) [OF that(1)] new [OF that(2)] by fastforce
  qed
  moreover have "chunk_ok x \<and> span x \<inter> {fst bump + ?need ..< snd bump} = {}"
    if "x \<in># chunks s live + ?new" for x
    using that b(5) [of x] new [of x] assms(1) by (fastforce simp: slab_inv_def)
  moreover have "(fst bump + ?need) mod 64 = 0" using b(1) class_size_64 [of c]
    by (metis add_0 mod_add_left_eq mod_mult_left_eq mult_0 mod_0)
  ultimately show ?thesis using assms(1,4) b(2,4) ch unfolding slab_inv_def r(2)
    by (simp add: r(1) carve_def)
qed

lemma refill_one: "refill mmap c 1 s = (into, s') \<Longrightarrow> \<exists>p. into = [p]"
proof (cases "sl_free s ! c" rule: rev_cases)
  case (snoc xs x)
  then show "refill mmap c 1 s = (into, s') \<Longrightarrow> \<exists>p. into = [p]" by (auto simp: refill_def Let_def)
qed (auto simp: refill_def Let_def carve_def)

lemma class_of_Some: "class_of sz = Some c \<Longrightarrow> 0 < sz \<Longrightarrow> c < CLASSES \<and> sz \<le> class_size c"
  using class_of_spec [of sz] by simp

text \<open>Taking the last chunk of a magazine hands it out; every other chunk stays where it is.\<close>

lemma pop_inv:
  assumes "slab_inv s (live + tag_class c fresh)" and "tid < length (sl_mags s)" and "c < CLASSES"
    and "v = mag tid c s @ fresh" and "v \<noteq> []"
  shows "slab_inv (set_mag tid c (butlast v) s) (add_mset (last v, c) live)"
proof -
  have sh: "shape s" using assms(1) by (simp add: slab_inv_def)
  have v: "tag_class c v = add_mset (last v, c) (tag_class c (butlast v))"
    using assms(5) by (metis append_butlast_last_id tag_class_append tag_class_simps union_mset_add_mset_right add.right_neutral)
  have "chunks (set_mag tid c (butlast v) s) (add_mset (last v, c) live) + tag_class c (mag tid c s)
      = chunks s (live + tag_class c fresh) + tag_class c (mag tid c s)"
    using chunks_set_mag [OF sh assms(2,3), of "butlast v" "add_mset (last v, c) live"] v
    by (simp add: assms(4) chunks_def ac_simps)
  then show ?thesis using slab_inv_same [OF assms(1)] sh assms(2) by simp
qed

lemma slab_inv_handed:
  assumes "slab_inv s (add_mset (p, c) live)"
  shows "p mod 64 = 0 \<and> 0 < p \<and> p + class_size c \<le> 2 ^ 47 \<and> (\<forall>x \<in># live. span x \<inter> span (p, c) = {})"
proof -
  let ?M = "chunks s (add_mset (p, c) live)"
  have "(p, c) \<in># ?M" and sub: "\<And>x. x \<in># live \<Longrightarrow> x \<in># ?M" by (simp_all add: chunks_def)
  moreover have no: "no_overlap ?M" using assms by (simp add: slab_inv_def)
  moreover have "x \<noteq> (p, c)" if "x \<in># live" for x
  proof
    assume "x = (p, c)"
    with that have "2 \<le> count ?M (p, c)" by (simp add: chunks_def Suc_le_eq)
    with no show False unfolding no_overlap_def by (metis not_less_eq_eq numeral_2_eq_2 One_nat_def)
  qed
  ultimately have "\<forall>x \<in># live. span x \<inter> span (p, c) = {}"
    unfolding no_overlap_def by blast
  moreover from \<open>(p, c) \<in># ?M\<close> assms have "chunk_ok (p, c)" by (simp add: slab_inv_def)
  ultimately show ?thesis by (simp add: chunk_ok_def)
qed

lemma alloc_inv:
  assumes "slab_inv s live" and "mmap_ok mmap s live" and "0 < sz" and "tid < length (sl_mags s)"
    and "alloc mmap tid tls sz s = (Some (p, c), s')"
  shows "slab_inv s' (add_mset (p, c) live) \<and> sz \<le> class_size c"
proof -
  obtain cl where cl: "class_of sz = Some cl" using assms(5) by (auto simp: alloc_def split: option.splits)
  have c: "c = cl" using assms(5) cl by (auto simp: alloc_def Let_def split: if_splits prod.splits)
  note cl = class_of_Some [OF cl assms(3)] cl [folded c]
  have len: "c < length (sl_free s)" using cl c assms(1) by (simp add: slab_inv_def shape_def)
  obtain into s1 where r: "refill mmap c (if tls then batch c else 1) s = (into, s1)" by fastforce
  have "class_size c * (if tls then batch c else 1) \<le> REGION" "0 < (if tls then batch c else 1)"
    using batch_fits [of c] cl c order_trans [of "class_size c" "class_size c * batch c" REGION]
    by (auto simp: batch_def less_max_iff_disj)
  from refill_inv [OF assms(1,2) _ this(2,1) r] cl c
  have ri: "slab_inv s1 (live + tag_class c into)" "into \<noteq> []" "sl_mags s1 = sl_mags s" by auto
  show ?thesis
  proof (cases tls)
    case False
    with assms(5) r cl c ri(2) have "p = into ! 0" "s' = s1" by (auto simp: alloc_def)
    moreover from False r have "into = [into ! 0]" using refill_one [of mmap c s into s1] by auto
    then have "tag_class c into = {#(into ! 0, c)#}" by (metis tag_class_simps)
    ultimately show ?thesis using ri(1) cl c by simp
  next
    case True
    let ?v = "mag tid c s @ (if mag tid c s = [] then into else [])"
    let ?s = "if mag tid c s = [] then s1 else s"
    have "slab_inv ?s (live + tag_class c (if mag tid c s = [] then into else []))"
      using ri(1) assms(1) by simp
    moreover have "mag tid c ?s = mag tid c s" using ri(3) by (simp add: mag_def)
    moreover have "p = last ?v" "s' = set_mag tid c (butlast ?v) ?s"
      using True assms(5) r cl c by (auto simp: alloc_def Let_def split: if_splits)
    ultimately show ?thesis using pop_inv [of ?s live c _ tid ?v] ri(2,3) assms(4) cl c by auto
  qed
qed

text \<open>
  Moving chunks between a magazine, the shared lists and whoever holds them: what the slab has in
  stock and what is handed out together stay the same.
\<close>

lemma add_free_chunks:
  assumes "shape s" and "c < CLASSES"
  shows "chunks (s\<lparr>sl_free := (sl_free s)[c := sl_free s ! c @ ps]\<rparr>) live = chunks s (live + tag_class c ps)"
proof -
  have "c < length (sl_free s)" using assms by (simp add: shape_def)
  from chunks_set_free [OF this, of "sl_free s ! c @ ps" live] show ?thesis by (simp add: chunks_def ac_simps)
qed

lemma set_mag_chunks:
  assumes "shape s" and "tid < length (sl_mags s)" and "c < CLASSES"
    and "tag_class c v + B = tag_class c (mag tid c s) + A"
  shows "chunks (set_mag tid c v s) (live + B) = chunks s (live + A)"
proof -
  have "chunks (set_mag tid c v s) (live + B) + tag_class c (mag tid c s)
      = chunks s live + (tag_class c v + B)"
    using chunks_set_mag [OF assms(1-3), of v "live + B"] by (simp add: chunks_def ac_simps)
  also have "\<dots> = chunks s (live + A) + tag_class c (mag tid c s)"
    unfolding assms(4) by (simp add: chunks_def ac_simps)
  finally show ?thesis by simp
qed

lemma flush_free_fields:
  assumes "flush_free c v keep s = (v', s')"
  shows "v' = take keep v" "s' = s\<lparr>sl_free := (sl_free s)[c := sl_free s ! c @ drop keep v]\<rparr>" "sl_mags s' = sl_mags s"
  using assms by (auto simp: flush_free_def)

lemma flush_mag_chunks:
  assumes "shape s" and "tid < length (sl_mags s)" and "c < CLASSES"
    and "v = mag tid c s @ ps" and "flush_free c v keep s = (v', s')"
  shows "chunks (set_mag tid c v' s') live = chunks s (live + tag_class c ps)"
proof -
  have v: "tag_class c (take keep v) + tag_class c (drop keep v) = tag_class c v"
    by (simp only: tag_class_append [symmetric] append_take_drop_id)
  note f = flush_free_fields(1,2) [OF assms(5)]
  have "set_mag tid c v' s' = (set_mag tid c v' s)\<lparr>sl_free := (sl_free (set_mag tid c v' s))[c := sl_free (set_mag tid c v' s) ! c @ drop keep v]\<rparr>"
    by (cases s) (simp add: f(2) set_mag_def)
  then have "chunks (set_mag tid c v' s') live = chunks (set_mag tid c v' s) (live + tag_class c (drop keep v))"
    using add_free_chunks [of "set_mag tid c v' s" c "drop keep v" live] assms(1-3) by simp
  also have "\<dots> = chunks s (live + tag_class c ps)"
    using v by (intro set_mag_chunks [OF assms(1-3)]) (simp add: f(1) assms(4))
  finally show ?thesis .
qed

lemma free_stock:
  assumes "shape s" and "tid < length (sl_mags s)" and "c < CLASSES"
  shows "chunks (free tid tls p c s) live = chunks s (add_mset (p, c) live)"
    and "shape (free tid tls p c s)" and "sl_bump (free tid tls p c s) = sl_bump s"
    and "length (sl_mags (free tid tls p c s)) = length (sl_mags s)"
proof -
  have "chunks (free tid tls p c s) live = chunks s (live + tag_class c [p])"
    using set_mag_chunks [OF assms, of "mag tid c s @ [p]" "{#}" "tag_class c [p]" live] add_free_chunks [OF assms(1,3), of "[p]"]
      flush_mag_chunks [OF assms refl, of "[p]"]
    by (auto simp: free_def Let_def split: prod.split)
  then show "chunks (free tid tls p c s) live = chunks s (add_mset (p, c) live)" by simp
  show "shape (free tid tls p c s)" "sl_bump (free tid tls p c s) = sl_bump s"
    "length (sl_mags (free tid tls p c s)) = length (sl_mags s)"
    using assms by (simp_all add: free_def Let_def flush_free_def)
qed

lemma free_inv:
  assumes "slab_inv s (add_mset (p, c) live)" and "c < CLASSES" and "tid < length (sl_mags s)"
  shows "slab_inv (free tid tls p c s) live"
  using assms free_stock [of s tid c] by (intro slab_inv_same [OF assms(1)]) (simp_all add: slab_inv_def)

text \<open>A thread's exit, one class after the other.\<close>

lemma exit_class:
  assumes "shape s" and "tid < length (sl_mags s)" and "c < CLASSES"
  defines "s1 \<equiv> (let v = mag tid c s in if v \<noteq> [] then let (v', s') = flush_free c v 0 s in set_mag tid c v' s' else s)"
  shows "chunks s1 live = chunks s live \<and> shape s1 \<and> sl_bump s1 = sl_bump s \<and> length (sl_mags s1) = length (sl_mags s) \<and>
    mag tid c s1 = [] \<and> (\<forall>d. mag tid d s = [] \<longrightarrow> mag tid d s1 = [])"
proof (cases "mag tid c s = []")
  case False
  obtain v' s' where f: "flush_free c (mag tid c s) 0 s = (v', s')" by fastforce
  note e = flush_free_fields [OF f]
  have s1: "s1 = set_mag tid c [] s'" using False f e(1) by (simp add: s1_def)
  have "c < length (sl_mags s ! tid)" using assms(1-3) by (simp add: shape_def)
  then have "mag tid d s1 = (if d = c then [] else mag tid d s)" for d
    using assms(2) e(3) by (simp add: s1 set_mag_def mag_def)
  moreover have "chunks s1 live = chunks s live" using flush_mag_chunks [OF assms(1-3), of _ "[]"] f e(1) by (simp add: s1)
  moreover have "shape s1" "sl_bump s1 = sl_bump s" "length (sl_mags s1) = length (sl_mags s)"
    using assms(1,2) by (simp_all add: s1 e(2))
  ultimately show ?thesis by simp
qed (simp add: assms)

lemma drop_mags_chunks:
  assumes "shape s" and "tid < length (sl_mags s)"
  shows "chunks (drop_mags tid s) live = chunks s live \<and> shape (drop_mags tid s) \<and>
    sl_bump (drop_mags tid s) = sl_bump s \<and> (\<forall>c < CLASSES. mag tid c (drop_mags tid s) = [])"
proof -
  let ?f = "\<lambda>class s. let v = mag tid class s
      in if v \<noteq> [] then let (v', s') = flush_free class v 0 s in set_mag tid class v' s' else s"
  have "chunks (fold ?f cs s) live = chunks s live \<and> shape (fold ?f cs s) \<and> sl_bump (fold ?f cs s) = sl_bump s \<and>
      (\<forall>c. c \<in> set cs \<or> mag tid c s = [] \<longrightarrow> mag tid c (fold ?f cs s) = [])" if "\<forall>c \<in> set cs. c < CLASSES" for cs
    using assms that
  proof (induction cs arbitrary: s)
    case (Cons c cs)
    have st: "chunks (?f c s) live = chunks s live" "shape (?f c s)" "sl_bump (?f c s) = sl_bump s"
        "length (sl_mags (?f c s)) = length (sl_mags s)" "mag tid c (?f c s) = []" "\<And>d. mag tid d s = [] \<Longrightarrow> mag tid d (?f c s) = []"
      using exit_class [OF Cons.prems(1,2), of c live] Cons.prems(3) by simp_all
    have IH: "chunks (fold ?f cs (?f c s)) live = chunks (?f c s) live" "shape (fold ?f cs (?f c s))"
        "sl_bump (fold ?f cs (?f c s)) = sl_bump (?f c s)"
        "\<And>d. d \<in> set cs \<or> mag tid d (?f c s) = [] \<Longrightarrow> mag tid d (fold ?f cs (?f c s)) = []"
      using Cons.IH [OF st(2)] st(4) Cons.prems by auto
    have "mag tid d (fold ?f cs (?f c s)) = []" if "d \<in> set (c # cs) \<or> mag tid d s = []" for d
      using that st(5,6) IH(4) [of d] by auto
    then show ?case using st(1,3) IH(1-3) by simp
  qed simp
  from this [of "[0..<CLASSES]"] show ?thesis unfolding drop_mags_def by auto
qed

lemma drop_mags_inv:
  assumes "slab_inv s live" and "tid < length (sl_mags s)"
  shows "slab_inv (drop_mags tid s) live"
  using assms drop_mags_chunks [of s tid live] by (intro slab_inv_same [OF assms(1)]) (simp_all add: slab_inv_def)

text \<open>
  C34. An allocation gives a chunk of at least the size asked for, on a cache line boundary,
  inside 47 bits of address space, that overlaps no chunk handed out before and not returned,
  whichever thread asks and whether its magazine, the shared lists or a fresh region serves it;
  sizes beyond the slab are declined without a change.
\<close>

theorem alloc_disjoint:
  assumes "slab_inv s live" and "mmap_ok mmap s live" and "0 < sz" and "tid < length (sl_mags s)"
  shows "case alloc mmap tid tls sz s of
     (None, s') \<Rightarrow> MAX_SLAB < sz \<and> s' = s
   | (Some (p, c), s') \<Rightarrow> sz \<le> class_size c \<and> p mod 64 = 0 \<and> 0 < p \<and> p + class_size c \<le> 2 ^ 47 \<and>
       (\<forall>x \<in># live. span x \<inter> span (p, c) = {}) \<and> slab_inv s' (add_mset (p, c) live)"
proof (cases "fst (alloc mmap tid tls sz s)")
  case None
  then have "class_of sz = None" by (auto simp: alloc_def Let_def split: option.splits prod.splits if_splits)
  then show ?thesis using class_of_spec [OF assms(3)] by (simp add: alloc_def)
next
  case (Some pc)
  then obtain p c s' where a: "alloc mmap tid tls sz s = (Some (p, c), s')"
    by (cases "alloc mmap tid tls sz s"; cases pc) auto
  with alloc_inv [OF assms(1-4) a] slab_inv_handed [of s' p c live] show ?thesis by simp
qed

text \<open>
  C35. Returning a chunk, and a thread's exit, lose and duplicate nothing. The stock (the chunks in
  the shared lists and the magazines) after a return is the stock before and the chunk; a thread's
  exit keeps the stock and leaves nothing of it in the thread's magazines, where nobody would
  find it. What is still handed out is as before, and no two chunks overlap afterwards.
\<close>

theorem free_keeps_disjoint:
  assumes "slab_inv s (add_mset (p, c) live)" and "tid < length (sl_mags s)"
  shows "slab_inv (free tid tls p c s) live \<and> chunks (free tid tls p c s) {#} = add_mset (p, c) (chunks s {#}) \<and>
    slab_inv (drop_mags tid (free tid tls p c s)) live \<and>
    chunks (drop_mags tid (free tid tls p c s)) {#} = chunks (free tid tls p c s) {#} \<and>
    (\<forall>class < CLASSES. mag tid class (drop_mags tid (free tid tls p c s)) = [])"
proof -
  have "chunk_ok (p, c)" and sh: "shape s" using assms(1) by (simp_all add: slab_inv_def chunks_def)
  then have c: "c < CLASSES" by (simp add: chunk_ok_def)
  note f = free_inv [OF assms(1) c assms(2), of tls] free_stock [OF sh assms(2) c, of tls p]
  have t: "tid < length (sl_mags (free tid tls p c s))" using f(5) assms(2) by simp
  have "chunks (free tid tls p c s) {#} = add_mset (p, c) (chunks s {#})" using f(2) [of "{#}"] by (simp add: chunks_def)
  with f(1) drop_mags_inv [OF f(1) t] drop_mags_chunks [OF f(3) t, of "{#}"] show ?thesis by blast
qed

lemma slab_inv_init: "slab_inv (slab_init n) {#}"
  by (simp add: slab_inv_def slab_init_def shape_def chunks_def tag_all_def mag_chunks_def no_overlap_def)

lemma chunks_init: "chunks (slab_init n) {#} = {#}"
  by (simp add: slab_init_def chunks_def tag_all_def mag_chunks_def)

lemma mmap_ok_init: "0 < a \<Longrightarrow> a < 2 ^ 40 \<Longrightarrow> mmap_ok a (slab_init n) {#}"
  by (simp add: mmap_ok_def chunks_init REGION_def HUGE_def)

lemma alloc_100:
  "\<exists>p c s'. alloc 4096 0 True 100 (slab_init 2) = (Some (p, c), s') \<and> length (sl_mags s') = 2"
proof -
  have "class_of 100 = Some 1" by (simp add: class_of_def LINEAR_MAX_def div_ceil_def)
  then have "fst (alloc 4096 0 True 100 (slab_init 2)) \<noteq> None"
      "length (sl_mags (snd (alloc 4096 0 True 100 (slab_init 2)))) = 2"
    by (simp_all add: alloc_def Let_def refill_def slab_init_def)
  then show ?thesis by (cases "alloc 4096 0 True 100 (slab_init 2)") auto
qed

theorem alloc_disjoint_witness:
  "\<exists>p c s'. alloc 4096 0 True 100 (slab_init 2) = (Some (p, c), s') \<and> 100 \<le> class_size c \<and> p mod 64 = 0"
proof -
  obtain p c s' where "alloc 4096 0 True 100 (slab_init 2) = (Some (p, c), s')"
    using alloc_100 by blast
  with alloc_disjoint [OF slab_inv_init mmap_ok_init, of 4096 100 0 2 True]
  show ?thesis by (auto simp: slab_init_def)
qed

theorem free_keeps_disjoint_witness:
  "\<exists>p c s'. alloc 4096 0 True 100 (slab_init 2) = (Some (p, c), s') \<and> slab_inv (free 0 True p c s') {#} \<and>
     (p, c) \<in># chunks (drop_mags 0 (free 0 True p c s')) {#} \<and> mag 0 c (drop_mags 0 (free 0 True p c s')) = []"
proof -
  obtain p c s' where a: "alloc 4096 0 True 100 (slab_init 2) = (Some (p, c), s')"
    and l: "length (sl_mags s') = 2"
    using alloc_100 by blast
  have i: "slab_inv s' (add_mset (p, c) {#})"
    using alloc_inv [OF slab_inv_init mmap_ok_init _ _ a] by (simp add: slab_init_def)
  then have "c < CLASSES" by (simp add: slab_inv_def chunks_def chunk_ok_def)
  with free_keeps_disjoint [OF i, of 0 True] a l show ?thesis by (intro exI [of _ p] exI [of _ c] exI [of _ s']) auto
qed

end
