(* ===== verification/Entry.thy ===== *)
theory Entry
  imports Cache_Key Slab
begin

text \<open>
  The cached item of \<^verbatim>\<open>crates/server/src/cache/s3fifo.rs\<close> (\<open>Entry\<close>, \<open>Meta\<close>, \<open>Header\<close>) and
  the memory it lives in. A handle is an address; the heap maps the addresses of allocated
  entries to their contents, with the reference count in the header. Dropping the last handle
  frees the entry and returns its chunk to the slab.

  The memory also holds the handles given to the epoch collector (\<open>retire\<close> of
  \<^verbatim>\<open>cache/table.rs\<close>): the collector is third-party code, of which only this is used, that a
  retired handle is dropped once, at some later point.

  What the environment decides of an allocation is an argument: the address \<open>mmap\<close> would
  return for a fresh slab region, the address the global allocator returns for an entry beyond
  the slab, the thread, and whether its magazines are there.
\<close>

definition FREQ_CAP :: nat where "FREQ_CAP = 3"
definition ENTRY_OVERHEAD :: nat where "ENTRY_OVERHEAD = 128"
definition HEADER :: nat where "HEADER = 64"
definition NT_MIN :: nat where "NT_MIN = 1024"
definition GLIBC_CLASS :: nat where "GLIBC_CLASS = 255"

record entry =
  en_rc :: nat
  en_value :: bytes
  en_key :: key
  en_hash :: u64
  en_freq :: nat
  en_live :: bool
  en_class :: nat

type_synonym heap = "nat \<rightharpoonup> entry"

record memory =
  m_heap :: heap
  m_slab :: slab
  m_retired :: "nat list"

record env =
  ev_mmap :: nat
  ev_glibc :: nat
  ev_tid :: nat
  ev_tls :: bool

text \<open>Reading through a handle. Every use is shown to be on an allocated address.\<close>

definition deref :: "heap \<Rightarrow> nat \<Rightarrow> entry" where
  "deref h p = the (h p)"

definition key_at :: "heap \<Rightarrow> nat \<Rightarrow> bytes" where
  "key_at h p = key_as_slice (en_key (deref h p))"

definition hash_at :: "heap \<Rightarrow> nat \<Rightarrow> u64" where
  "hash_at h p = en_hash (deref h p)"

definition value_at :: "heap \<Rightarrow> nat \<Rightarrow> bytes" where
  "value_at h p = en_value (deref h p)"

definition live_at :: "heap \<Rightarrow> nat \<Rightarrow> bool" where
  "live_at h p = en_live (deref h p)"

definition freq_at :: "heap \<Rightarrow> nat \<Rightarrow> nat" where
  "freq_at h p = en_freq (deref h p)"

definition cost_at :: "heap \<Rightarrow> nat \<Rightarrow> nat" where
  "cost_at h p = length (key_at h p) + length (value_at h p) + ENTRY_OVERHEAD"

text \<open>\<open>Entry::new\<close>.\<close>

definition entry_new :: "env \<Rightarrow> key \<Rightarrow> bytes \<Rightarrow> u64 \<Rightarrow> memory \<Rightarrow> nat \<times> memory" where
  "entry_new ev key value hash m =
     (let (r, slab') = alloc (ev_mmap ev) (ev_tid ev) (ev_tls ev) (HEADER + length value) (m_slab m);
          (p, class) = (case r of Some pc \<Rightarrow> pc | None \<Rightarrow> (ev_glibc ev, GLIBC_CLASS))
      in (p, m\<lparr>m_slab := slab',
               m_heap := (m_heap m)(p \<mapsto>
                 \<lparr>en_rc = 1, en_value = value, en_key = key, en_hash = hash, en_freq = 0,
                  en_live = True, en_class = class\<rparr>)\<rparr>))"

text \<open>\<open>Clone\<close> and \<open>Drop\<close>.\<close>

definition entry_clone :: "nat \<Rightarrow> memory \<Rightarrow> memory" where
  "entry_clone p m =
     m\<lparr>m_heap := (m_heap m)(p \<mapsto> (deref (m_heap m) p)\<lparr>en_rc := en_rc (deref (m_heap m) p) + 1\<rparr>)\<rparr>"

definition entry_drop :: "env \<Rightarrow> nat \<Rightarrow> memory \<Rightarrow> memory" where
  "entry_drop ev p m =
     (let e = deref (m_heap m) p
      in if en_rc e \<noteq> 1 then m\<lparr>m_heap := (m_heap m)(p \<mapsto> e\<lparr>en_rc := en_rc e - 1\<rparr>)\<rparr>
         else let m' = m\<lparr>m_heap := (m_heap m)(p := None)\<rparr>
              in if en_class e = GLIBC_CLASS then m'
                 else m'\<lparr>m_slab := free (ev_tid ev) (ev_tls ev) p (en_class e) (m_slab m')\<rparr>)"

text \<open>The stores to an entry's atomics, and \<open>touch\<close>.\<close>

definition set_freq :: "nat \<Rightarrow> nat \<Rightarrow> memory \<Rightarrow> memory" where
  "set_freq p f m = m\<lparr>m_heap := (m_heap m)(p \<mapsto> (deref (m_heap m) p)\<lparr>en_freq := f\<rparr>)\<rparr>"

definition set_dead :: "nat \<Rightarrow> memory \<Rightarrow> memory" where
  "set_dead p m = m\<lparr>m_heap := (m_heap m)(p \<mapsto> (deref (m_heap m) p)\<lparr>en_live := False\<rparr>)\<rparr>"

definition touch :: "nat \<Rightarrow> memory \<Rightarrow> memory" where
  "touch p m =
     (let f = freq_at (m_heap m) p
      in if f < FREQ_CAP then set_freq p (f + 1) m else m)"

text \<open>Handing a handle to the collector, and the collector dropping one it holds.\<close>

definition retire :: "nat \<Rightarrow> memory \<Rightarrow> memory" where
  "retire p m = m\<lparr>m_retired := m_retired m @ [p]\<rparr>"

definition reclaim :: "env \<Rightarrow> nat \<Rightarrow> memory \<Rightarrow> memory" where
  "reclaim ev p m = entry_drop ev p (m\<lparr>m_retired := remove1 p (m_retired m)\<rparr>)"


section \<open>Reference counts\<close>

text \<open>
  The count of an allocated entry is the number of handles to it, at least one; an address
  without handles is not allocated.
\<close>

definition rc_ok :: "entry option \<Rightarrow> nat \<Rightarrow> bool" where
  "rc_ok x n \<longleftrightarrow> (case x of None \<Rightarrow> n = 0 | Some e \<Rightarrow> en_rc e = n \<and> 0 < n)"

lemma rc_ok_simps [simp]: "rc_ok None n \<longleftrightarrow> n = 0" "rc_ok (Some e) n \<longleftrightarrow> en_rc e = n \<and> 0 < n"
  by (simp_all add: rc_ok_def)

definition mem_ok :: "memory \<Rightarrow> (nat \<Rightarrow> nat) \<Rightarrow> bool" where
  "mem_ok m hc \<longleftrightarrow> (\<forall>p. rc_ok (m_heap m p) (hc p))"

text \<open>Entries are immutable apart from their atomics: what is still allocated keeps its data.\<close>

definition keeps_data :: "heap \<Rightarrow> heap \<Rightarrow> bool" where
  "keeps_data h h' \<longleftrightarrow> (\<forall>p \<in> dom h'. p \<in> dom h \<and> key_at h' p = key_at h p \<and>
     hash_at h' p = hash_at h p \<and> value_at h' p = value_at h p)"

lemmas entry_fields = key_at_def hash_at_def value_at_def live_at_def freq_at_def deref_def

lemma mem_ok_dom: "mem_ok m hc \<Longrightarrow> p \<in> dom (m_heap m) \<longleftrightarrow> 0 < hc p"
  unfolding mem_ok_def by (cases "m_heap m p") (auto simp: rc_ok_def dest!: spec [of _ p])

lemma mem_ok_upd:
  "mem_ok m hc \<Longrightarrow> m_heap m' = (m_heap m)(p := x) \<Longrightarrow> rc_ok x n \<Longrightarrow> mem_ok m' (hc(p := n))"
  by (simp add: mem_ok_def)

lemma mem_ok_entry:
  assumes "mem_ok m hc" and "0 < hc p"
  obtains e where "m_heap m p = Some e" "en_rc e = hc p" "deref (m_heap m) p = e"
proof -
  have "rc_ok (m_heap m p) (hc p)" using assms(1) by (simp add: mem_ok_def)
  with assms(2) that show ?thesis by (cases "m_heap m p") (auto simp: rc_ok_def deref_def)
qed

lemma keeps_data_refl [simp]: "keeps_data h h"
  by (simp add: keeps_data_def)

lemma keeps_data_trans [trans]: "keeps_data h h' \<Longrightarrow> keeps_data h' h'' \<Longrightarrow> keeps_data h h''"
  by (auto simp: keeps_data_def)

lemma keeps_cost: "keeps_data h h' \<Longrightarrow> p \<in> dom h' \<Longrightarrow> cost_at h' p = cost_at h p"
  by (simp add: keeps_data_def cost_at_def)

lemma retire_heap [simp]: "m_heap (retire p m) = m_heap m"
  by (simp add: retire_def)

lemma retire_mem_ok [simp]: "mem_ok (retire p m) hc = mem_ok m hc"
  by (simp add: mem_ok_def)

subsection \<open>Stores to an entry's atomics\<close>

lemma set_dead_fields [simp]:
  "key_at (m_heap (set_dead p m)) q = key_at (m_heap m) q"
  "hash_at (m_heap (set_dead p m)) q = hash_at (m_heap m) q"
  "value_at (m_heap (set_dead p m)) q = value_at (m_heap m) q"
  "cost_at (m_heap (set_dead p m)) q = cost_at (m_heap m) q"
  "live_at (m_heap (set_dead p m)) q = (live_at (m_heap m) q \<and> q \<noteq> p)"
  "freq_at (m_heap (set_dead p m)) q = freq_at (m_heap m) q"
  "m_retired (set_dead p m) = m_retired m"
  by (simp_all add: set_dead_def entry_fields cost_at_def)

lemma set_freq_fields [simp]:
  "key_at (m_heap (set_freq p f m)) q = key_at (m_heap m) q"
  "hash_at (m_heap (set_freq p f m)) q = hash_at (m_heap m) q"
  "value_at (m_heap (set_freq p f m)) q = value_at (m_heap m) q"
  "cost_at (m_heap (set_freq p f m)) q = cost_at (m_heap m) q"
  "live_at (m_heap (set_freq p f m)) q = live_at (m_heap m) q"
  "freq_at (m_heap (set_freq p f m)) q = (if q = p then f else freq_at (m_heap m) q)"
  "m_retired (set_freq p f m) = m_retired m"
  by (simp_all add: set_freq_def entry_fields cost_at_def)

lemma entry_clone_fields [simp]:
  "key_at (m_heap (entry_clone p m)) q = key_at (m_heap m) q"
  "hash_at (m_heap (entry_clone p m)) q = hash_at (m_heap m) q"
  "value_at (m_heap (entry_clone p m)) q = value_at (m_heap m) q"
  "cost_at (m_heap (entry_clone p m)) q = cost_at (m_heap m) q"
  "live_at (m_heap (entry_clone p m)) q = live_at (m_heap m) q"
  "freq_at (m_heap (entry_clone p m)) q = freq_at (m_heap m) q"
  "m_retired (entry_clone p m) = m_retired m"
  by (simp_all add: entry_clone_def entry_fields cost_at_def)

lemma atomics_mem_ok:
  assumes "mem_ok m hc" and "0 < hc p"
  shows "mem_ok (set_dead p m) hc" and "mem_ok (set_freq p f m) hc"
    and "mem_ok (entry_clone p m) (hc(p := hc p + 1))"
proof -
  obtain e where e: "m_heap m p = Some e" "en_rc e = hc p" "deref (m_heap m) p = e"
    using mem_ok_entry [OF assms] .
  have "mem_ok (set_dead p m) (hc(p := hc p))"
    by (rule mem_ok_upd [OF assms(1)]) (use e assms(2) in \<open>simp add: set_dead_def, simp\<close>)
  then show "mem_ok (set_dead p m) hc" by simp
  have "mem_ok (set_freq p f m) (hc(p := hc p))"
    by (rule mem_ok_upd [OF assms(1)]) (use e assms(2) in \<open>simp add: set_freq_def, simp\<close>)
  then show "mem_ok (set_freq p f m) hc" by simp
  show "mem_ok (entry_clone p m) (hc(p := hc p + 1))"
    by (rule mem_ok_upd [OF assms(1)]) (use e assms(2) in \<open>simp add: entry_clone_def, simp\<close>)
qed

lemma atomics_keep:
  assumes "p \<in> dom (m_heap m)"
  shows "keeps_data (m_heap m) (m_heap (set_dead p m))" "keeps_data (m_heap m) (m_heap (set_freq p f m))"
    "keeps_data (m_heap m) (m_heap (entry_clone p m))"
  using assms by (auto simp: keeps_data_def) (auto simp: set_dead_def set_freq_def entry_clone_def split: if_splits)

subsection \<open>Allocating and dropping\<close>

lemma entry_new_spec:
  assumes "entry_new ev k v hash m = (p, m')"
  shows "\<exists>c. m_heap m' = (m_heap m)(p \<mapsto> \<lparr>en_rc = 1, en_value = v, en_key = k, en_hash = hash, en_freq = 0,
      en_live = True, en_class = c\<rparr>)" and "m_retired m' = m_retired m"
  using assms by (auto simp: entry_new_def Let_def split: prod.splits option.splits)

lemma entry_new_mem_ok:
  assumes "mem_ok m hc" and "m_heap m p = None" and "entry_new ev k v hash m = (p, m')"
  shows "mem_ok m' (hc(p := 1))"
  using entry_new_spec(1) [OF assms(3)] mem_ok_upd [OF assms(1)] by auto

lemma entry_drop_heap:
  "m_heap (entry_drop ev p m) = (if en_rc (deref (m_heap m) p) = 1 then (m_heap m)(p := None)
     else (m_heap m)(p \<mapsto> (deref (m_heap m) p)\<lparr>en_rc := en_rc (deref (m_heap m) p) - 1\<rparr>))"
  "m_retired (entry_drop ev p m) = m_retired m"
  by (simp_all add: entry_drop_def Let_def)

lemma entry_drop_mem_ok:
  assumes "mem_ok m hc" and "0 < hc p"
  shows "mem_ok (entry_drop ev p m) (hc(p := hc p - 1))"
proof -
  obtain e where e: "m_heap m p = Some e" "en_rc e = hc p" "deref (m_heap m) p = e"
    using mem_ok_entry [OF assms] .
  then show ?thesis
  proof (cases "hc p = 1")
    case True
    show ?thesis
      by (rule mem_ok_upd [OF assms(1)]) (use e True in \<open>simp add: entry_drop_heap, simp\<close>)
  next
    case False
    show ?thesis
      by (rule mem_ok_upd [OF assms(1)])
        (use e False assms(2) in \<open>simp add: entry_drop_heap, simp\<close>)
  qed
qed

text \<open>Dropping one handle leaves every entry that is still allocated as it was.\<close>

lemma entry_drop_fields:
  assumes "q \<in> dom (m_heap (entry_drop ev p m))"
  shows "key_at (m_heap (entry_drop ev p m)) q = key_at (m_heap m) q"
    "hash_at (m_heap (entry_drop ev p m)) q = hash_at (m_heap m) q"
    "value_at (m_heap (entry_drop ev p m)) q = value_at (m_heap m) q"
    "cost_at (m_heap (entry_drop ev p m)) q = cost_at (m_heap m) q"
    "live_at (m_heap (entry_drop ev p m)) q = live_at (m_heap m) q"
    "freq_at (m_heap (entry_drop ev p m)) q = freq_at (m_heap m) q"
  using assms by (auto simp: entry_drop_heap entry_fields cost_at_def split: if_splits)

lemma entry_drop_keeps:
  assumes "p \<in> dom (m_heap m)"
  shows "keeps_data (m_heap m) (m_heap (entry_drop ev p m))"
proof -
  have "q \<in> dom (m_heap m)" if "q \<in> dom (m_heap (entry_drop ev p m))" for q
    using that assms by (auto simp: entry_drop_heap split: if_splits)
  with entry_drop_fields show ?thesis by (simp add: keeps_data_def)
qed

end
