(* ===== verification/Cuckoo.thy ===== *)
theory Cuckoo
  imports Entry "HOL-Library.Monad_Syntax"
begin

text \<open>
  The cuckoo index of \<^verbatim>\<open>crates/server/src/cache/table.rs\<close>: buckets of eight slot words, each
  packing a 16-bit hash tag with the 48-bit address of an entry; two candidate buckets per key;
  displacement along a random walk; growth by rehashing into a larger table.

  \<open>usize\<close> and \<open>u64\<close> bucket numbers, hashes, seeds and slot words are 64-bit words, with the
  masks, shifts and wrapping multiplications of the source. The displacement loops are bounded
  in the source and are primitive recursive here; the two loops that are not, the retries of
  \<open>grow\<close> and \<open>insert\<close>, are \<open>partial_function (option)\<close>, so that not returning is \<open>None\<close>. A failed
  \<open>assert\<close>, a table too large to allocate and a growth that releases handles it does not own are
  \<open>None\<close> too. Prefetching is a hint to the processor and has no effect to model.
\<close>

definition SLOTS :: nat where "SLOTS = 8"
definition MIN_BUCKETS :: nat where "MIN_BUCKETS = 64"
definition MAX_LOAD_EIGHTHS :: nat where "MAX_LOAD_EIGHTHS = 7"
definition MAX_KICKS :: nat where "MAX_KICKS = 256"
definition PTR_BITS :: nat where "PTR_BITS = 48"
definition PTR_MASK :: u64 where "PTR_MASK = push_bit PTR_BITS 1 - 1"
definition MAX_WALKS :: nat where "MAX_WALKS = 4"

type_synonym slot = "u64 \<times> nat"

record table =
  t_buckets :: "u64 list list"
  t_mask :: u64

definition next_power_of_two :: "nat \<Rightarrow> nat" where
  "next_power_of_two n = (if n \<le> 1 then 1 else 2 ^ (msb_index (n - 1) + 1))"

definition table_new :: "nat \<Rightarrow> table" where
  "table_new n =
     (let b = max (next_power_of_two n) MIN_BUCKETS
      in \<lparr>t_buckets = replicate b (replicate SLOTS 0), t_mask = of_nat (b - 1)\<rparr>)"

text \<open>
  Building a table panics when its bucket array (64 bytes a bucket) would exceed
  \<open>isize::MAX\<close> bytes.
\<close>

definition table_fits :: "nat \<Rightarrow> bool" where
  "table_fits n \<longleftrightarrow> max (next_power_of_two n) MIN_BUCKETS * 64 < 2 ^ 63"

definition home :: "table \<Rightarrow> u64 \<Rightarrow> u64" where
  "home t hash = hash AND t_mask t"

definition alt :: "table \<Rightarrow> u64 \<Rightarrow> u16 \<Rightarrow> u64" where
  "alt t bucket tag =
     (let h = (ucast tag * 0x9E3779B9) OR 1 in (bucket XOR h) AND t_mask t)"

definition tag_of :: "u64 \<Rightarrow> u16" where
  "tag_of hash = ucast (drop_bit 48 hash)"

definition tag_of_word :: "u64 \<Rightarrow> u16" where
  "tag_of_word w = ucast (drop_bit PTR_BITS w)"

definition slot_word :: "u16 \<Rightarrow> nat \<Rightarrow> u64 option" where
  "slot_word tag p =
     (if (of_nat p :: u64) AND NOT PTR_MASK = 0 then Some (push_bit PTR_BITS (ucast tag) OR of_nat p)
      else None)"

definition entry_ptr :: "u64 \<Rightarrow> nat" where
  "entry_ptr w = unat (w AND PTR_MASK)"

definition get_bucket :: "table \<Rightarrow> u64 \<Rightarrow> u64 list" where
  "get_bucket t b = t_buckets t ! unat b"

definition load :: "table \<Rightarrow> slot \<Rightarrow> u64" where
  "load t s = get_bucket t (fst s) ! snd s"

definition store :: "slot \<Rightarrow> u64 \<Rightarrow> table \<Rightarrow> table" where
  "store s w t =
     t\<lparr>t_buckets := (t_buckets t)[unat (fst s) := (get_bucket t (fst s))[snd s := w]]\<rparr>"

definition empty_slot :: "u64 list \<Rightarrow> nat option" where
  "empty_slot b = find (\<lambda>i. b ! i = 0) [0..<length b]"

section \<open>Lookup\<close>

text \<open>The match mask of a bucket, and \<open>trailing_zeros\<close> of a 32-bit word.\<close>

definition match_mask :: "u16 \<Rightarrow> u64 list \<Rightarrow> u32" where
  "match_mask tag ws =
     fold (\<lambda>(i, w) m. m OR push_bit i (of_bool (w \<noteq> 0 \<and> tag_of_word w = tag))) (enumerate 0 ws) 0"

definition ctz :: "u32 \<Rightarrow> nat" where
  "ctz m = length (takeWhile (\<lambda>i. \<not> bit m i) [0..<32])"

function find_masked :: "heap \<Rightarrow> bytes \<Rightarrow> u64 list \<Rightarrow> u32 \<Rightarrow> (nat \<times> u64) option" where
  "find_masked h key ws m =
     (if m = 0 then None
      else let i = ctz m;
               m' = m AND (m - 1);
               w = ws ! i
           in if key_at h (entry_ptr w) = key then Some (i, w) else find_masked h key ws m')"
  by pat_completeness auto
termination
proof (relation "measure (\<lambda>(_, _, _, m). unat m)", goal_cases)
  case (2 h key ws m i m' w)
  then have "m' \<le> m - 1" by (simp add: word_and_le1)
  moreover have "m - 1 < m" using 2 by (simp add: word_less_nat_alt unat_minus_one unat_gt_0)
  ultimately show ?case by (simp add: word_less_nat_alt word_le_nat_alt)
qed simp

declare find_masked.simps [simp del]

definition find_bucket :: "heap \<Rightarrow> table \<Rightarrow> u16 \<Rightarrow> bytes \<Rightarrow> u64 \<Rightarrow> (u64 \<times> nat \<times> u64) option" where
  "find_bucket h t tag key b =
     (let words = map (\<lambda>i. load t (b, i)) [0..<SLOTS]
      in map_option (\<lambda>(i, w). (b, i, w)) (find_masked h key words (match_mask tag words)))"

definition find_key :: "heap \<Rightarrow> table \<Rightarrow> u64 \<Rightarrow> bytes \<Rightarrow> (u64 \<times> nat \<times> u64) option" where
  "find_key h t hash key =
     (let tag = tag_of hash;
          b1 = home t hash;
          b2 = alt t b1 tag
      in case find_bucket h t tag key b1 of
           Some r \<Rightarrow> Some r
         | None \<Rightarrow> find_bucket h t tag key b2)"

section \<open>The index\<close>

record index =
  ix_table :: table
  ix_moving :: u64
  ix_len :: nat
  ix_kick_seed :: u64

definition index_new :: index where
  "index_new = \<lparr>ix_table = table_new MIN_BUCKETS, ix_moving = 0, ix_len = 0, ix_kick_seed = 1\<rparr>"

text \<open>
  One pass of \<open>Index::get\<close>'s loop, the second load of \<open>moving\<close> given: an absent key is only
  reported when no displacement overlapped the lookup.
\<close>

datatype pass = Found nat | Absent | Retry

definition get_pass :: "heap \<Rightarrow> index \<Rightarrow> u64 \<Rightarrow> u64 \<Rightarrow> bytes \<Rightarrow> pass" where
  "get_pass h ix moving' hash key =
     (case find_key h (ix_table ix) hash key of
        Some (_, _, w) \<Rightarrow> Found (entry_ptr w)
      | None \<Rightarrow> if ix_moving ix AND 1 = 0 \<and> moving' = ix_moving ix then Absent else Retry)"

text \<open>\<open>get\<close> with no writer beside it: the second load sees the same value.\<close>

definition index_get :: "heap \<Rightarrow> index \<Rightarrow> u64 \<Rightarrow> bytes \<Rightarrow> nat option" where
  "index_get h ix hash key =
     (case get_pass h ix (ix_moving ix) hash key of Found p \<Rightarrow> Some p | _ \<Rightarrow> None)"

subsection \<open>Displacement\<close>

definition next_seed :: "u64 \<Rightarrow> u64" where
  "next_seed seed = seed * 6364136223846793005 + 1442695040888963407"

text \<open>The inner loop of \<open>find_path\<close>: at most \<open>k\<close> kicks from bucket \<open>b\<close>.\<close>

fun kick :: "table \<Rightarrow> nat \<Rightarrow> u64 \<Rightarrow> slot list \<Rightarrow> u64 \<Rightarrow> u64 \<times> slot list \<times> slot option" where
  "kick t 0 b path seed = (seed, path, None)"
| "kick t (Suc k) b path seed =
     (let seed' = next_seed seed;
          i = unat (drop_bit 33 seed') mod SLOTS
      in if (b, i) \<in> set path then (seed', path, None)
         else let w = load t (b, i);
                  path' = path @ [(b, i)];
                  next = alt t b (tag_of_word w)
              in case empty_slot (get_bucket t next) of
                   Some j \<Rightarrow> (seed', path', Some (next, j))
                 | None \<Rightarrow> kick t k next path' seed')"

fun walks :: "table \<Rightarrow> u64 \<Rightarrow> u64 \<Rightarrow> nat \<Rightarrow> u64 \<Rightarrow> u64 \<times> (slot list \<times> slot) option" where
  "walks t b1 b2 0 seed = (seed, None)"
| "walks t b1 b2 (Suc n) seed =
     (case kick t MAX_KICKS (if seed AND 1 = 0 then b1 else b2) [] seed of
        (seed', path, Some dest) \<Rightarrow> (seed', Some (path, dest))
      | (seed', path, None) \<Rightarrow> walks t b1 b2 n seed')"

definition find_path :: "index \<Rightarrow> table \<Rightarrow> u64 \<Rightarrow> u64 \<Rightarrow> (slot list \<times> slot) option \<times> index" where
  "find_path ix t b1 b2 =
     (let (seed, found) = walks t b1 b2 MAX_WALKS (ix_kick_seed ix)
      in (found, ix\<lparr>ix_kick_seed := seed\<rparr>))"

text \<open>The loop of \<open>place\<close> that applies a path, last hop first.\<close>

definition apply_path :: "slot list \<Rightarrow> slot \<Rightarrow> table \<Rightarrow> slot \<times> table" where
  "apply_path path dest t = fold (\<lambda>s (d, t). (s, store d (load t s) t)) (rev path) (dest, t)"

definition place :: "index \<Rightarrow> table \<Rightarrow> u64 \<Rightarrow> u64 \<Rightarrow> bool \<Rightarrow> bool \<times> table \<times> index" where
  "place ix t hash new_word live =
     (let tag = tag_of hash;
          b1 = home t hash;
          b2 = alt t b1 tag
      in case empty_slot (get_bucket t b1) of
           Some i \<Rightarrow> (True, store (b1, i) new_word t, ix)
         | None \<Rightarrow>
             (case empty_slot (get_bucket t b2) of
                Some i \<Rightarrow> (True, store (b2, i) new_word t, ix)
              | None \<Rightarrow>
                  (case find_path ix t b1 b2 of
                     (None, ix1) \<Rightarrow> (False, t, ix1)
                   | (Some (path, dest), ix1) \<Rightarrow>
                       let (d, t1) = apply_path path dest t;
                           ix2 = (if live then ix1\<lparr>ix_moving := ix_moving ix1 + 1 + 1\<rparr> else ix1)
                       in (True, store d new_word t1, ix2))))"

subsection \<open>Growth\<close>

fun rehash :: "heap \<Rightarrow> u64 list \<Rightarrow> table \<Rightarrow> index \<Rightarrow> bool \<times> table \<times> index" where
  "rehash h [] t ix = (True, t, ix)"
| "rehash h (w # ws) t ix =
     (if w = 0 then rehash h ws t ix
      else case place ix t (hash_at h (entry_ptr w)) w False of
             (ok, t', ix') \<Rightarrow> if ok then rehash h ws t' ix' else (False, t', ix'))"

text \<open>
  The retries of \<open>grow\<close>: the index with its new table, and the half-filled tables given up before it.
\<close>

partial_function (option) grow_loop :: "heap \<Rightarrow> table \<Rightarrow> nat \<Rightarrow> index \<Rightarrow> (index \<times> table list) option" where
  "grow_loop h old n ix =
     (if \<not> table_fits n then None
      else case rehash h (concat (t_buckets old)) (table_new n) ix of
             (ok, t, ix') \<Rightarrow>
               if ok then Some (ix'\<lparr>ix_table := t\<rparr>, [])
               else do { (ix'', lost) \<leftarrow> grow_loop h old (n * 2) ix'; Some (ix'', t # lost) })"

text \<open>
  A table that is given up is dropped with \<open>owns\<close> still set, and releases a handle of every entry
  placed in it so far, while the old table keeps them all: the counts are short from then on and the
  entries are freed too early. What the index is after that is undefined, and \<open>None\<close> here.
\<close>

definition grow :: "heap \<Rightarrow> index \<Rightarrow> index option" where
  "grow h ix =
     do { (ix', lost) \<leftarrow> grow_loop h (ix_table ix) (length (t_buckets (ix_table ix)) * 2) ix;
          if lost = [] then Some ix' else None }"

subsection \<open>Writes\<close>

partial_function (option) insert_loop :: "heap \<Rightarrow> u64 \<Rightarrow> u64 \<Rightarrow> index \<Rightarrow> index option" where
  "insert_loop h hash new_word ix =
     (case place ix (ix_table ix) hash new_word True of
        (ok, t, ix') \<Rightarrow>
          if ok then Some (ix'\<lparr>ix_table := t, ix_len := ix_len ix' + 1\<rparr>)
          else do { ix'' \<leftarrow> grow h ix'; insert_loop h hash new_word ix'' })"

definition index_insert :: "heap \<Rightarrow> u64 \<Rightarrow> nat \<Rightarrow> index \<Rightarrow> (nat option \<times> index) option" where
  "index_insert h hash p ix =
     (let tag = tag_of hash;
          t = ix_table ix
      in case slot_word tag p of
           None \<Rightarrow> None
         | Some new_word \<Rightarrow>
             (case find_key h t hash (key_at h p) of
                Some (b, i, old) \<Rightarrow>
                  Some (Some (entry_ptr old), ix\<lparr>ix_table := store (b, i) new_word t\<rparr>)
              | None \<Rightarrow>
                  do { ix1 \<leftarrow> (if ix_len ix * 8 \<ge> length (t_buckets t) * SLOTS * MAX_LOAD_EIGHTHS
                              then grow h ix else Some ix);
                       ix2 \<leftarrow> insert_loop h hash new_word ix1;
                       Some (None, ix2) }))"

definition index_remove :: "heap \<Rightarrow> u64 \<Rightarrow> bytes \<Rightarrow> index \<Rightarrow> nat option \<times> index" where
  "index_remove h hash key ix =
     (case find_key h (ix_table ix) hash key of
        None \<Rightarrow> (None, ix)
      | Some (b, i, w) \<Rightarrow>
          (Some (entry_ptr w),
           ix\<lparr>ix_table := store (b, i) 0 (ix_table ix), ix_len := ix_len ix - 1\<rparr>))"

definition index_remove_if_same :: "heap \<Rightarrow> u64 \<Rightarrow> nat \<Rightarrow> index \<Rightarrow> nat option \<times> index" where
  "index_remove_if_same h hash p ix =
     (case find_key h (ix_table ix) hash (key_at h p) of
        None \<Rightarrow> (None, ix)
      | Some (b, i, w) \<Rightarrow>
          if entry_ptr w \<noteq> p then (None, ix)
          else (Some (entry_ptr w),
                ix\<lparr>ix_table := store (b, i) 0 (ix_table ix), ix_len := ix_len ix - 1\<rparr>))"


section \<open>The match mask visits the matching slots in order\<close>

lemma ctz_spec:
  assumes "m \<noteq> 0"
  shows "ctz m < 32" "bit m (ctz m)" "\<And>j. j < ctz m \<Longrightarrow> \<not> bit m j"
proof -
  let ?P = "\<lambda>i. \<not> bit m i"
  obtain k where "bit m k" using assms by (auto simp: bit_eq_iff)
  then have k: "k < 32" using bit_imp_le_length [of m k] by simp
  have len: "length (takeWhile ?P [0..<32]) \<noteq> length [0..<32]"
  proof
    assume "length (takeWhile ?P [0..<32]) = length [0..<32]"
    then have "takeWhile ?P [0..<32] = [0..<32]" by (metis takeWhile_eq_take take_all order_refl)
    then have "\<forall>i \<in> set [0..<32]. ?P i" by (metis takeWhile_eq_all_conv)
    with \<open>bit m k\<close> k show False by simp
  qed
  then show lt: "ctz m < 32" using length_takeWhile_le [of ?P "[0..<32]"] by (simp add: ctz_def)
  show "bit m (ctz m)"
    using nth_length_takeWhile [of ?P "[0..<32]"] lt by (simp add: ctz_def)
  show "\<not> bit m j" if "j < ctz m" for j
    using that lt takeWhile_nth [of j ?P "[0..<32]"] set_takeWhileD [of _ ?P "[0..<32]"] nth_mem
    unfolding ctz_def by fastforce
qed

text \<open>\<open>m & (m - 1)\<close> clears exactly the lowest set bit.\<close>

lemma clear_lowest_bit:
  fixes m :: u32
  assumes "m \<noteq> 0"
  shows "bit (m AND (m - 1)) j \<longleftrightarrow> bit m j \<and> j \<noteq> ctz m"
proof -
  let ?i = "ctz m"
  define q where "q = push_bit (Suc (ctz m)) (drop_bit (Suc (ctz m)) m)"
  note i = ctz_spec [OF assms]
  have bq: "bit q j \<longleftrightarrow> ?i < j \<and> bit m j" for j
    by (auto simp: bit_push_bit_iff bit_drop_bit_eq q_def simp del: push_bit_Suc dest: bit_imp_le_length)
  then have q: "bit q j \<Longrightarrow> ?i < j" for j by simp
  have b: "bit m j \<longleftrightarrow> bit q j \<or> j = ?i" for j
    using i(2) i(3) [of j] by (cases j ?i rule: linorder_cases) (auto simp: bq)
  have "m = q + 2 ^ ?i"
  proof -
    have "m = q OR 2 ^ ?i" 
      by (rule bit_word_eqI) (auto simp: b bit_or_iff bit_exp_iff i(1))
    also have "\<dots> = q + 2 ^ ?i"
      by (rule disjunctive_add_eq_or [symmetric]) (auto intro!: bit_word_eqI simp: bit_and_iff bit_exp_iff dest: q)
    finally show ?thesis .
  qed
  then have "m - 1 = q + mask ?i" by (simp add: mask_eq_exp_minus_1)
  also have "\<dots> = q OR mask ?i"
    by (rule disjunctive_add_eq_or) (auto intro!: bit_word_eqI simp: bit_and_iff bit_mask_iff dest!: q)
  finally have "bit (m - 1) j \<longleftrightarrow> bit q j \<or> j < ?i" using i(1) by (auto simp: bit_or_iff bit_mask_iff)
  with b [of j] q [of j] show ?thesis by (auto simp: bit_and_iff)
qed

lemma find_append: "find P (xs @ ys) = (case find P xs of None \<Rightarrow> find P ys | Some x \<Rightarrow> Some x)"
  by (induction xs) auto

lemma find_upt_split:
  assumes "i < n" and "\<And>j. j < i \<Longrightarrow> \<not> P j"
  shows "find P [0..<n] = (if P i then Some i else find P [Suc i..<n])"
proof -
  have "[0..<n] = [0..<i] @ i # [Suc i..<n]"
    using upt_add_eq_append [of 0 i "n - i"] assms(1) by (simp add: upt_conv_Cons)
  moreover have "find P [0..<i] = None" using assms(2) by (simp add: find_None_iff)
  ultimately show ?thesis by (simp add: find_append)
qed

lemma find_masked_eq:
  "find_masked h key ws m =
     map_option (\<lambda>i. (i, ws ! i)) (find (\<lambda>i. bit m i \<and> key_at h (entry_ptr (ws ! i)) = key) [0..<32])"
proof (induction h key ws m rule: find_masked.induct)
  case (1 h key ws m)
  let ?P = "\<lambda>m i. bit m i \<and> key_at h (entry_ptr (ws ! i)) = key"
  show ?case
  proof (cases "m = 0")
    case True
    then show ?thesis by (simp add: find_masked.simps [of _ _ _ 0] find_None_iff [THEN iffD2])
  next
    case False
    note c = ctz_spec [OF False]
    have s: "find (?P m') [0..<32] = (if ?P m' (ctz m) then Some (ctz m) else find (?P m') [Suc (ctz m)..<32])"
      if "\<And>j. bit m' j \<Longrightarrow> bit m j" for m' :: u32
      using c(1,3) that by (intro find_upt_split) auto
    have e: "find (?P (m AND (m - 1))) [Suc (ctz m)..<32] = find (?P m) [Suc (ctz m)..<32]"
      by (rule find_cong) (auto simp: clear_lowest_bit [OF False])
    have m': "find (?P (m AND (m - 1))) [0..<32] = find (?P m) [Suc (ctz m)..<32]"
      unfolding e [symmetric]
      by (subst s) (simp_all only: clear_lowest_bit [OF False] simp_thms if_False)
    show ?thesis
    proof (cases "key_at h (entry_ptr (ws ! ctz m)) = key")
      case True
      with False c s [of m] show ?thesis by (simp add: find_masked.simps [of h key ws m] Let_def)
    next
      case ne: False
      with "1.IH" [OF False refl refl refl] m' s [of m] False show ?thesis
        by (simp add: find_masked.simps [of h key ws m] Let_def)
    qed
  qed
qed

lemma bit_match_mask:
  assumes "length ws \<le> 32"
  shows "bit (match_mask tag ws) i \<longleftrightarrow> i < length ws \<and> ws ! i \<noteq> 0 \<and> tag_of_word (ws ! i) = tag"
  using assms
proof (induction ws rule: rev_induct)
  case (snoc w ws)
  have "match_mask tag (ws @ [w]) =
      match_mask tag ws OR push_bit (length ws) (of_bool (w \<noteq> 0 \<and> tag_of_word w = tag))"
    by (simp add: match_mask_def enumerate_append_eq)
  with snoc show ?case
    by (auto simp: bit_or_iff bit_push_bit_iff nth_append bit_1_iff)
qed (simp add: match_mask_def)

text \<open>
  A bucket lookup is the plain scan: the first of the eight slots that is occupied, has the
  tag and holds the key.
\<close>

definition slot_matches :: "heap \<Rightarrow> table \<Rightarrow> u16 \<Rightarrow> bytes \<Rightarrow> slot \<Rightarrow> bool" where
  "slot_matches h t tag key s \<longleftrightarrow> load t s \<noteq> 0 \<and> tag_of_word (load t s) = tag \<and>
     key_at h (entry_ptr (load t s)) = key"

lemma find_bucket_scan:
  "find_bucket h t tag key b =
     map_option (\<lambda>i. (b, i, load t (b, i))) (find (\<lambda>i. slot_matches h t tag key (b, i)) [0..<SLOTS])"
proof -
  let ?ws = "map (\<lambda>i. load t (b, i)) [0..<SLOTS]"
  let ?P = "\<lambda>i. bit (match_mask tag ?ws) i \<and> key_at h (entry_ptr (?ws ! i)) = key"
  have b: "?P i \<longleftrightarrow> i < SLOTS \<and> slot_matches h t tag key (b, i)" for i
    by (auto simp: bit_match_mask SLOTS_def slot_matches_def)
  have "[0..<32] = [0..<SLOTS] @ [SLOTS..<32]"
    using upt_add_eq_append [of 0 SLOTS 24] by (simp only: SLOTS_def) simp
  then have "find ?P [0..<32] = find ?P ([0..<SLOTS] @ [SLOTS..<32])" by (simp only:)
  also have "\<dots> = find ?P [0..<SLOTS]"
  proof -
    have "find ?P [SLOTS..<32] = None" unfolding b by (simp add: find_None_iff)
    then show ?thesis by (simp add: find_append split: option.split)
  qed
  also have "\<dots> = find (\<lambda>i. slot_matches h t tag key (b, i)) [0..<SLOTS]"
    using b by (intro find_cong refl) (simp only: set_upt atLeastLessThan_iff simp_thms)
  finally have f: "find ?P [0..<32] = find (\<lambda>i. slot_matches h t tag key (b, i)) [0..<SLOTS]" .
  show ?thesis
  proof (cases "find (\<lambda>i. slot_matches h t tag key (b, i)) [0..<SLOTS]")
    case (Some i)
    then have "i < SLOTS" by (auto simp: find_Some_iff)
    with Some show ?thesis by (simp add: find_bucket_def Let_def find_masked_eq f)
  qed (simp add: find_bucket_def Let_def find_masked_eq f)
qed

section \<open>Tables\<close>

text \<open>The shape of a table: a power of two of full-width buckets, masked accordingly.\<close>

definition tab_shape :: "nat \<Rightarrow> table \<Rightarrow> bool" where
  "tab_shape k t \<longleftrightarrow> 6 \<le> k \<and> k < 57 \<and> length (t_buckets t) = 2 ^ k \<and> t_mask t = mask k \<and>
     (\<forall>b \<in> set (t_buckets t). length b = SLOTS)"

definition slots :: "table \<Rightarrow> slot set" where
  "slots t = {s. unat (fst s) < length (t_buckets t) \<and> snd s < SLOTS}"

definition words :: "table \<Rightarrow> u64 set" where
  "words t = {w. w \<noteq> 0 \<and> (\<exists>s \<in> slots t. load t s = w)}"

text \<open>Where an entry's word may lie, and that every word lies there, once.\<close>

definition candidates :: "table \<Rightarrow> u64 \<Rightarrow> u64 set" where
  "candidates t hash = {home t hash, alt t (home t hash) (tag_of hash)}"

definition well_placed :: "heap \<Rightarrow> table \<Rightarrow> slot \<Rightarrow> bool" where
  "well_placed h t s \<longleftrightarrow> tag_of_word (load t s) = tag_of (hash_at h (entry_ptr (load t s))) \<and>
     fst s \<in> candidates t (hash_at h (entry_ptr (load t s)))"

definition tab_ok :: "heap \<Rightarrow> table \<Rightarrow> bool" where
  "tab_ok h t \<longleftrightarrow> (\<exists>k. tab_shape k t) \<and>
     (\<forall>s \<in> slots t. load t s \<noteq> 0 \<longrightarrow> well_placed h t s \<and>
        (\<forall>s' \<in> slots t. load t s' = load t s \<longrightarrow> s' = s))"

lemma tab_shapeD:
  assumes "tab_shape k t" and "unat b < length (t_buckets t)"
  shows "length (get_bucket t b) = SLOTS"
  using assms by (simp add: tab_shape_def get_bucket_def)

lemma unat_and_mask_less: "unat ((x :: u64) AND mask k) < 2 ^ k"
  by (simp only: take_bit_eq_mask [symmetric] unsigned_take_bit_eq take_bit_nat_less_exp)

lemma home_less: "tab_shape k t \<Longrightarrow> unat (home t hash) < length (t_buckets t)"
  by (simp add: tab_shape_def home_def unat_and_mask_less)

lemma alt_less: "tab_shape k t \<Longrightarrow> unat (alt t b tag) < length (t_buckets t)"
  by (simp add: tab_shape_def alt_def unat_and_mask_less)

lemma home_masked: "tab_shape k t \<Longrightarrow> home t hash AND mask k = home t hash"
  by (simp add: tab_shape_def home_def ac_simps)

lemma alt_masked: "tab_shape k t \<Longrightarrow> alt t b tag AND mask k = alt t b tag"
  by (simp add: tab_shape_def alt_def Let_def ac_simps)

text \<open>The alternate of the alternate is the bucket itself.\<close>

lemma alt_alt:
  assumes "tab_shape k t" and "b AND mask k = b"
  shows "alt t (alt t b tag) tag = b"
proof -
  have "((b XOR x) AND mask k XOR x) AND mask k = b AND mask k" for x
    by (rule bit_word_eqI) (auto simp: bit_simps)
  with assms show ?thesis by (simp add: alt_def tab_shape_def Let_def)
qed

lemma masked_less:
  assumes "tab_shape k t" and "unat b < length (t_buckets t)"
  shows "b AND mask k = b"
proof -
  have "unat (b AND mask k) = unat b mod 2 ^ k"
    by (simp only: take_bit_eq_mask [symmetric] unsigned_take_bit_eq) (simp add: take_bit_nat_def)
  also have "\<dots> = unat b" using assms by (simp add: tab_shape_def)
  finally show ?thesis by (simp add: word_unat_eq_iff)
qed

lemma candidates_alt:
  assumes "tab_shape k t" and "b \<in> candidates t hash"
  shows "alt t b (tag_of hash) \<in> candidates t hash"
  using assms alt_alt [OF assms(1) home_masked [OF assms(1)]] by (auto simp: candidates_def)

subsection \<open>Slots as an array\<close>

lemma store_simps [simp]: "t_mask (store s w t) = t_mask t"
  "length (t_buckets (store s w t)) = length (t_buckets t)"
  "slots (store s w t) = slots t" "home (store s w t) = home t" "alt (store s w t) = alt t"
  "candidates (store s w t) = candidates t"
  by (auto simp: store_def slots_def home_def alt_def candidates_def fun_eq_iff)

lemma tab_shape_store: "tab_shape k t \<Longrightarrow> s \<in> slots t \<Longrightarrow> tab_shape k (store s w t)"
  using tab_shapeD [of k t "fst s"]
  by (auto simp: tab_shape_def store_def slots_def get_bucket_def dest!: subsetD [OF set_update_subset_insert])

lemma load_store:
  assumes "tab_shape k t" and "s \<in> slots t" and "s' \<in> slots t"
  shows "load (store s w t) s' = (if s' = s then w else load t s')"
proof -
  have "length (t_buckets t ! unat (fst s)) = SLOTS"
    using tab_shapeD [OF assms(1), of "fst s"] assms(2) by (simp add: slots_def get_bucket_def)
  with assms(2,3) show ?thesis
    by (auto simp: load_def store_def get_bucket_def slots_def nth_list_update prod_eq_iff word_unat_eq_iff)
qed

lemma slotsI: "tab_shape k t \<Longrightarrow> unat b < length (t_buckets t) \<Longrightarrow> i < SLOTS \<Longrightarrow> (b, i) \<in> slots t"
  by (simp add: slots_def)

lemma finite_slots: "finite (slots t)"
proof -
  have "slots t \<subseteq> UNIV \<times> {..<SLOTS}" by (auto simp: slots_def)
  then show ?thesis by (rule finite_subset) simp
qed

lemma finite_words [simp]: "finite (words t)"
proof -
  have "words t \<subseteq> load t ` slots t" by (auto simp: words_def)
  then show ?thesis using finite_slots finite_surj by blast
qed

lemma empty_slot_Some:
  "tab_shape k t \<Longrightarrow> unat b < length (t_buckets t) \<Longrightarrow> empty_slot (get_bucket t b) = Some i \<Longrightarrow>
   (b, i) \<in> slots t \<and> load t (b, i) = 0"
  using tab_shapeD [of k t b] by (auto simp: empty_slot_def find_Some_iff slots_def load_def)

lemma empty_slot_None:
  "tab_shape k t \<Longrightarrow> unat b < length (t_buckets t) \<Longrightarrow> empty_slot (get_bucket t b) = None \<Longrightarrow>
   i < SLOTS \<Longrightarrow> load t (b, i) \<noteq> 0"
  using tab_shapeD [of k t b] by (auto simp: empty_slot_def find_None_iff load_def)

subsection \<open>Filling, clearing and moving\<close>

lemma well_placed_store [simp]:
  assumes "tab_shape k t" and "s \<in> slots t" and "s' \<in> slots t"
  shows "well_placed h (store s w t) s' =
    (if s' = s then tag_of_word w = tag_of (hash_at h (entry_ptr w)) \<and>
         fst s \<in> candidates t (hash_at h (entry_ptr w)) else well_placed h t s')"
  using load_store [OF assms] by (simp add: well_placed_def)

lemma tab_ok_fill:
  assumes "tab_ok h t" and "s \<in> slots t" and "w \<noteq> 0" and "w \<notin> words t - {load t s}"
    and "tag_of_word w = tag_of (hash_at h (entry_ptr w))"
    and "fst s \<in> candidates t (hash_at h (entry_ptr w))"
  shows "tab_ok h (store s w t) \<and> words (store s w t) = insert w (words t - {load t s})"
proof -
  obtain k where k: "tab_shape k t" using assms(1) by (auto simp: tab_ok_def)
  note ls = load_store [OF k assms(2)]
  have "w = load t s \<Longrightarrow> s' \<in> slots t \<Longrightarrow> load t s' = w \<Longrightarrow> s' = s" for s'
    using assms(1-3) by (auto simp: tab_ok_def)
  then have other: "s' \<in> slots t \<Longrightarrow> s' \<noteq> s \<Longrightarrow> load t s' \<noteq> w" for s'
    using assms(3,4) unfolding words_def by blast
  have "tab_ok h (store s w t)"
    using assms(1) tab_shape_store [OF k assms(2)] k assms(2,5,6) other
    unfolding tab_ok_def by (auto simp: ls)
  moreover have "words (store s w t) = insert w (words t - {load t s})"
  proof (rule set_eqI)
    fix v
    have "v \<in> words (store s w t) \<longleftrightarrow> v \<noteq> 0 \<and> (v = w \<or> (\<exists>s' \<in> slots t. s' \<noteq> s \<and> load t s' = v))"
      using assms(2) by (auto simp: words_def ls)
    also have "\<dots> \<longleftrightarrow> v \<in> insert w (words t - {load t s})"
      using assms(1-3) by (auto simp: words_def tab_ok_def)
    finally show "v \<in> words (store s w t) \<longleftrightarrow> v \<in> insert w (words t - {load t s})" .
  qed
  ultimately show ?thesis ..
qed

lemma tab_ok_clear:
  assumes "tab_ok h t" and "s \<in> slots t"
  shows "tab_ok h (store s 0 t) \<and> words (store s 0 t) = words t - {load t s}"
proof -
  obtain k where k: "tab_shape k t" using assms(1) by (auto simp: tab_ok_def)
  note ls = load_store [OF k assms(2)]
  have "tab_ok h (store s 0 t)"
    using assms(1) tab_shape_store [OF k assms(2)] k assms(2) unfolding tab_ok_def by (auto simp: ls)
  moreover have "words (store s 0 t) = words t - {load t s}"
  proof (rule set_eqI)
    fix v
    have "v \<in> words (store s 0 t) \<longleftrightarrow> v \<noteq> 0 \<and> (\<exists>s' \<in> slots t. s' \<noteq> s \<and> load t s' = v)"
      using assms(2) by (auto simp: words_def ls)
    also have "\<dots> \<longleftrightarrow> v \<in> words t - {load t s}"
      using assms by (auto simp: words_def tab_ok_def)
    finally show "v \<in> words (store s 0 t) \<longleftrightarrow> v \<in> words t - {load t s}" .
  qed
  ultimately show ?thesis ..
qed

text \<open>Two tables with the same slots are interchangeable.\<close>

lemma tab_same:
  assumes "tab_shape k t" and "tab_shape k t'" and "\<And>s. s \<in> slots t \<Longrightarrow> load t s = load t' s"
  shows "tab_ok h t = tab_ok h t'" and "words t = words t'"
proof -
  have e: "slots t = slots t'" "candidates t = candidates t'"
    using assms(1,2) by (auto simp: tab_shape_def slots_def candidates_def home_def alt_def fun_eq_iff)
  show "words t = words t'" using assms(3) e by (auto simp: words_def)
  have "well_placed h t s = well_placed h t' s" if "s \<in> slots t" for s
    using assms(3) that e by (simp add: well_placed_def)
  with assms e show "tab_ok h t = tab_ok h t'" unfolding tab_ok_def by (metis (no_types, lifting))
qed

subsection \<open>Displacement\<close>

text \<open>
  A hole is a slot whose word has been copied elsewhere: the table with the hole cleared is
  sound. Copying a word from \<open>s\<close> into the hole \<open>d\<close> moves the hole to \<open>s\<close>.
\<close>

definition hole :: "heap \<Rightarrow> u64 set \<Rightarrow> slot \<Rightarrow> table \<Rightarrow> bool" where
  "hole h W d t \<longleftrightarrow> d \<in> slots t \<and> tab_ok h (store d 0 t) \<and> words (store d 0 t) = W"

lemma tab_ok_shape: "tab_ok h t \<Longrightarrow> \<exists>k. tab_shape k t"
  by (simp add: tab_ok_def)

lemma hole_move:
  assumes k: "tab_shape k t" and "hole h W d t" and "s \<in> slots t" and "s \<noteq> d" and "load t s \<noteq> 0"
    and "fst d = alt t (fst s) (tag_of_word (load t s))"
  shows "hole h W s (store d (load t s) t)"
proof -
  let ?w = "load t s" and ?T = "store d 0 t"
  have d: "d \<in> slots t" and ok: "tab_ok h ?T" and W: "words ?T = W" using assms(2) by (simp_all add: hole_def)
  note ls = load_store [OF k d] and kT = tab_shape_store [OF k d]
  have w: "load ?T s = ?w" "load ?T d = 0" using ls assms(3,4) d by auto
  have wp: "well_placed h ?T s" using ok w assms(3,5) by (auto simp: tab_ok_def)
  have c: "tab_ok h (store s 0 ?T)" "words (store s 0 ?T) = W - {?w}"
    using tab_ok_clear [OF ok, of s] w W assms(3) by auto
  have "tag_of_word ?w = tag_of (hash_at h (entry_ptr ?w))" "fst s \<in> candidates t (hash_at h (entry_ptr ?w))"
    using wp w by (simp_all add: well_placed_def)
  then have cand: "fst d \<in> candidates t (hash_at h (entry_ptr ?w))"
    using candidates_alt [OF k] assms(6) by simp
  have "?w \<in> W" using W w assms(3,5) by (auto simp: words_def)
  moreover have "0 \<notin> W" using W by (auto simp: words_def)
  ultimately have W': "insert ?w (W - {?w} - {0}) = W" by blast
  have l0: "load (store s 0 ?T) d = 0" using w d assms(3) load_store [OF kT, where s = s and s' = d and w = 0] by simp
  have tg: "tag_of_word ?w = tag_of (hash_at h (entry_ptr ?w))" using wp w by (simp add: well_placed_def)
  have "tab_ok h (store d ?w (store s 0 ?T)) \<and>
      words (store d ?w (store s 0 ?T)) = insert ?w (words (store s 0 ?T) - {load (store s 0 ?T) d})"
    by (rule tab_ok_fill [OF c(1) _ assms(5) _ tg]) (use d cand c(2) in simp_all)
  then have f: "tab_ok h (store d ?w (store s 0 ?T))" "words (store d ?w (store s 0 ?T)) = W"
    using W' by (simp_all only: c(2) l0)
  have kS: "tab_shape k (store s 0 ?T)" using kT assms(3) by (simp add: tab_shape_store)
  have kU: "tab_shape k (store d ?w t)" by (rule tab_shape_store [OF k d])
  have "load (store d ?w (store s 0 ?T)) x = load (store s 0 (store d ?w t)) x" if "x \<in> slots t" for x
  proof -
    have "load (store d ?w (store s 0 ?T)) x = (if x = d then ?w else if x = s then 0 else load t x)"
      using d assms(3) that by (simp add: load_store [OF kS] load_store [OF kT] load_store [OF k])
    moreover have "load (store s 0 (store d ?w t)) x = (if x = s then 0 else if x = d then ?w else load t x)"
      using load_store [OF kU, where s = s and s' = x and w = 0] ls [of x ?w] assms(3) d that by auto
    ultimately show ?thesis using assms(4) by simp
  qed
  moreover have "tab_shape k (store d ?w (store s 0 ?T))" "tab_shape k (store s 0 (store d ?w t))"
    using kS kU d assms(3) by (simp_all add: tab_shape_store)
  ultimately show ?thesis using f tab_same [of k "store d ?w (store s 0 ?T)" "store s 0 (store d ?w t)"] assms(3)
    by (simp add: hole_def)
qed

text \<open>
  A path, last hop first: each slot is occupied and its word's other bucket is the one the
  next hop is in; the first hop is in one of the two buckets the walk may start from.
\<close>

fun hops :: "table \<Rightarrow> u64 set \<Rightarrow> slot list \<Rightarrow> u64 \<Rightarrow> bool" where
  "hops t B [] b \<longleftrightarrow> b \<in> B"
| "hops t B (s # rp) b \<longleftrightarrow>
     s \<in> slots t \<and> load t s \<noteq> 0 \<and> alt t (fst s) (tag_of_word (load t s)) = b \<and> hops t B rp (fst s)"

lemma hops_occupied: "hops t B rp b \<Longrightarrow> s \<in> set rp \<Longrightarrow> s \<in> slots t \<and> load t s \<noteq> 0"
  by (induction rp arbitrary: b) auto

lemma hops_store:
  assumes "tab_shape k t" and "d \<in> slots t" and "d \<notin> set rp" and "hops t B rp b"
  shows "hops (store d w t) B rp b"
  using assms(3,4) by (induction rp arbitrary: b) (auto simp: load_store [OF assms(1,2)])

lemma hole_path:
  assumes "tab_shape k t" and "hole h W d t" and "hops t B rp (fst d)" and "distinct rp" and "d \<notin> set rp"
    and "fold (\<lambda>s (d, t). (s, store d (load t s) t)) rp (d, t) = (d', t')"
  shows "tab_shape k t' \<and> hole h W d' t' \<and> fst d' \<in> B \<and> candidates t' = candidates t"
  using assms
proof (induction rp arbitrary: d t)
  case (Cons s rp)
  let ?t = "store d (load t s) t"
  have d: "d \<in> slots t" using Cons.prems(2) by (simp add: hole_def)
  have s: "s \<in> slots t" "load t s \<noteq> 0" "fst d = alt t (fst s) (tag_of_word (load t s))" "hops t B rp (fst s)"
    using Cons.prems(3) by auto
  have "tab_shape k ?t" using Cons.prems(1) d by (simp add: tab_shape_store)
  moreover have "hole h W s ?t" using hole_move [OF Cons.prems(1,2) s(1) _ s(2,3)] Cons.prems(5) by auto
  moreover have "hops ?t B rp (fst s)" using hops_store [OF Cons.prems(1) d _ s(4)] Cons.prems(5) by simp
  ultimately show ?case using Cons.IH [of ?t s] Cons.prems(4,6) by simp
qed simp

text \<open>What a walk that finds an empty slot returns.\<close>

lemma kick_path:
  assumes "tab_shape k t" and "unat b < length (t_buckets t)" and "empty_slot (get_bucket t b) = None"
    and "hops t B (rev path) b" and "distinct path" and "kick t n b path seed = (seed', path', Some dest)"
  shows "distinct path' \<and> hops t B (rev path') (fst dest) \<and> dest \<in> slots t \<and> load t dest = 0"
  using assms(2-)
proof (induction n arbitrary: b path seed)
  case (Suc n)
  let ?i = "unat (drop_bit 33 (next_seed seed)) mod SLOTS"
  let ?w = "load t (b, ?i)" and ?p = "path @ [(b, ?i)]"
  let ?next = "alt t b (tag_of_word ?w)"
  have new: "(b, ?i) \<notin> set path" using Suc.prems(5) by (auto simp: Let_def split: if_splits)
  have i: "?i < SLOTS" by (simp add: SLOTS_def)
  have w: "?w \<noteq> 0" "(b, ?i) \<in> slots t"
    using empty_slot_None [OF assms(1) Suc.prems(1,2) i] slotsI [OF assms(1) Suc.prems(1) i] by simp_all
  have nx: "unat ?next < length (t_buckets t)" by (rule alt_less [OF assms(1)])
  have p: "hops t B (rev ?p) ?next" "distinct ?p" using w Suc.prems(3,4) new by simp_all
  show ?case
  proof (cases "empty_slot (get_bucket t ?next)")
    case None
    with Suc.prems(5) new have "kick t n ?next ?p (next_seed seed) = (seed', path', Some dest)"
      by (simp add: Let_def)
    from Suc.IH [OF nx None p this] show ?thesis .
  next
    case (Some j)
    with Suc.prems(5) new have "path' = ?p" "dest = (?next, j)" by (auto simp: Let_def)
    with p empty_slot_Some [OF assms(1) nx Some] show ?thesis by simp
  qed
qed simp

lemma walks_path:
  assumes "tab_shape k t" and "\<And>b. b \<in> {b1, b2} \<Longrightarrow> unat b < length (t_buckets t) \<and> empty_slot (get_bucket t b) = None"
    and "walks t b1 b2 n seed = (seed', Some (path, dest))"
  shows "distinct path \<and> hops t {b1, b2} (rev path) (fst dest) \<and> dest \<in> slots t \<and> load t dest = 0"
  using assms(3)
proof (induction n arbitrary: seed)
  case (Suc n)
  let ?b = "if seed AND 1 = 0 then b1 else b2"
  obtain s1 p1 r where kk: "kick t MAX_KICKS ?b [] seed = (s1, p1, r)" by (metis prod_cases3)
  show ?case
  proof (cases r)
    case None
    with kk Suc show ?thesis by simp
  next
    case (Some d)
    with kk Suc.prems have "p1 = path" "d = dest" by simp_all
    with kick_path [OF assms(1) _ _ _ _ kk [unfolded Some], of "{b1, b2}"] assms(2) [of ?b] show ?thesis by simp
  qed
qed simp

text \<open>
  Placing a word: the table then holds it besides every word it held, each still in one of its
  two buckets, or nothing changed.
\<close>

lemma store_store_load:
  assumes "tab_shape k t" and "d \<in> slots t"
  shows "tab_ok h (store d w t) = tab_ok h (store d w (store d 0 t)) \<and>
    words (store d w t) = words (store d w (store d 0 t))"
proof -
  have s: "tab_shape k (store d w t)" "tab_shape k (store d 0 t)" "tab_shape k (store d w (store d 0 t))"
    using assms by (simp_all add: tab_shape_store)
  have "load (store d w t) x = load (store d w (store d 0 t)) x" if "x \<in> slots t" for x
    using that assms(2) by (simp add: load_store [OF assms(1)] load_store [OF s(2)])
  with tab_same [OF s(1,3)] show ?thesis by simp
qed

lemma place_spec:
  assumes "tab_shape k t" and "tab_ok h t" and "w \<noteq> 0" and "w \<notin> words t"
    and "tag_of_word w = tag_of hash" and "hash_at h (entry_ptr w) = hash"
    and "place ix t hash w live = (ok, t', ix')"
  shows "tab_shape k t' \<and> (if ok then tab_ok h t' \<and> words t' = insert w (words t) else t' = t)"
proof -
  let ?b1 = "home t hash" and ?b2 = "alt t (home t hash) (tag_of hash)"
  have less: "unat ?b1 < length (t_buckets t)" "unat ?b2 < length (t_buckets t)"
    using home_less [OF assms(1)] alt_less [OF assms(1)] by auto
  have z: "0 \<notin> words t" by (simp add: words_def)
  have fill: "tab_shape k (store (b, i) w t) \<and> tab_ok h (store (b, i) w t) \<and>
      words (store (b, i) w t) = insert w (words t)"
    if "empty_slot (get_bucket t b) = Some i" "b \<in> {?b1, ?b2}" for b i
  proof -
    have bi: "(b, i) \<in> slots t" "load t (b, i) = 0" using empty_slot_Some [OF assms(1) _ that(1)] that(2) less by auto
    with tab_ok_fill [OF assms(2) bi(1) assms(3)] assms(4-6) that(2) z tab_shape_store [OF assms(1) bi(1)]
    show ?thesis by (auto simp: candidates_def)
  qed
  note pl = assms(7) [unfolded place_def Let_def]
  show ?thesis
  proof (cases "empty_slot (get_bucket t ?b1)")
    case (Some i)
    with pl fill show ?thesis by auto
  next
    case n1: None
    show ?thesis
    proof (cases "empty_slot (get_bucket t ?b2)")
      case (Some i)
      with n1 pl fill show ?thesis by auto
    next
      case n2: None
      obtain seed r where wk: "walks t ?b1 ?b2 MAX_WALKS (ix_kick_seed ix) = (seed, r)" by fastforce
      show ?thesis
      proof (cases r)
        case None
        with wk n1 n2 pl assms(1) show ?thesis by (auto simp: find_path_def)
      next
        case (Some pd)
        obtain path dest where pd: "pd = (path, dest)" by (cases pd) auto
        have p: "distinct path" "hops t {?b1, ?b2} (rev path) (fst dest)" "dest \<in> slots t" "load t dest = 0"
          using walks_path [OF assms(1) _ wk [unfolded Some pd]] less n1 n2 by auto
        obtain d t1 where ap: "apply_path path dest t = (d, t1)" by fastforce
        have h0: "hole h (words t) dest t"
          using tab_ok_clear [OF assms(2) p(3)] p(3,4) z by (simp add: hole_def)
        have "dest \<notin> set (rev path)" using hops_occupied [OF p(2)] p(4) by blast
        from hole_path [OF assms(1) h0 p(2) _ this ap [unfolded apply_path_def]] p(1)
        have t1: "tab_shape k t1" "hole h (words t) d t1" "fst d \<in> {?b1, ?b2}" "candidates t1 = candidates t" by auto
        then have d: "d \<in> slots t1" "tab_ok h (store d 0 t1)" "words (store d 0 t1) = words t"
          by (auto simp: hole_def)
        have "load (store d 0 t1) d = 0" using load_store [OF t1(1) d(1) d(1)] by simp
        with tab_ok_fill [OF d(2), of d w] d t1(3,4) assms(3-6) z
        have "tab_ok h (store d w (store d 0 t1)) \<and> words (store d w (store d 0 t1)) = insert w (words t)"
          by (auto simp: candidates_def)
        with store_store_load [OF t1(1) d(1)] tab_shape_store [OF t1(1) d(1)] wk Some pd n1 n2 pl ap
        show ?thesis by (auto simp: find_path_def)
      qed
    qed
  qed
qed

lemma place_index:
  assumes "place ix t hash w live = (ok, t', ix')"
  shows "ix_table ix' = ix_table ix \<and> ix_len ix' = ix_len ix \<and>
    (ix_moving ix' = ix_moving ix \<or> live \<and> ix_moving ix' = ix_moving ix + 2)"
  using assms unfolding place_def find_path_def Let_def
  by (auto split: option.splits prod.splits if_splits)

text \<open>It cannot fail while the home bucket has room.\<close>

lemma place_home_free:
  "empty_slot (get_bucket t (home t hash)) = Some i \<Longrightarrow> \<exists>t' ix'. place ix t hash w live = (True, t', ix')"
  by (simp add: place_def Let_def)

subsection \<open>Growth\<close>

lemma next_power_of_two_pow: "next_power_of_two (2 ^ k) = 2 ^ k"
proof (cases k)
  case (Suc j)
  have "msb_index (2 ^ k - 1) = j"
  proof -
    have "2 ^ j \<le> 2 ^ k - (1::nat)" "2 ^ k - (1::nat) < 2 ^ Suc j" using Suc by simp_all
    moreover have "2 ^ msb_index (2 ^ k - 1) \<le> 2 ^ k - (1::nat)" "2 ^ k - (1::nat) < 2 ^ (msb_index (2 ^ k - 1) + 1)"
      using msb_index_bounds [of "2 ^ k - 1"] one_less_power [of "2::nat" k] Suc by simp_all
    ultimately have "(2::nat) ^ j < 2 ^ (msb_index (2 ^ k - 1) + 1)" "(2::nat) ^ msb_index (2 ^ k - 1) < 2 ^ Suc j"
      by linarith+
    then have "j < msb_index (2 ^ k - 1) + 1" "msb_index (2 ^ k - 1) < Suc j"
      by (simp_all only: power_strict_increasing_iff [of "2::nat"] one_less_numeral_iff semiring_norm)
    then show ?thesis by simp
  qed
  moreover have "\<not> 2 ^ k \<le> (1::nat)" using one_less_power [of "2::nat" k] Suc by simp
  ultimately show ?thesis using Suc by (simp add: next_power_of_two_def)
qed (simp add: next_power_of_two_def)

lemma next_power_of_two_is_pow: "\<exists>k. next_power_of_two n = 2 ^ k"
  unfolding next_power_of_two_def by (metis power_0)

lemma table_new_shape:
  assumes "table_fits n"
  shows "\<exists>k. tab_shape k (table_new n) \<and> 2 ^ k = max (next_power_of_two n) MIN_BUCKETS"
proof -
  obtain j where j: "next_power_of_two n = 2 ^ j" using next_power_of_two_is_pow by blast
  have m64: "MIN_BUCKETS = 2 ^ 6" by (simp add: MIN_BUCKETS_def)
  define k where "k = max j 6"
  have k: "max (next_power_of_two n) MIN_BUCKETS = 2 ^ k" "6 \<le> k"
  proof -
    have "(2::nat) ^ j \<le> 2 ^ 6 \<longleftrightarrow> j \<le> 6"
      by (simp only: power_increasing_iff [of "2::nat"] one_less_numeral_iff semiring_norm)
    then show "max (next_power_of_two n) MIN_BUCKETS = 2 ^ k" unfolding j m64 k_def max_def by simp
  qed (simp add: k_def)
  from assms have "(2::nat) ^ (k + 6) < 2 ^ 63" by (simp add: table_fits_def k power_add)
  then have "k + 6 < 63" by (simp only: power_strict_increasing_iff one_less_numeral_iff semiring_norm)
  then have "k < 57" by simp
  moreover have "of_nat (2 ^ k - 1) = (mask k :: u64)"
    by (simp only: mask_eq_exp_minus_1 [symmetric] of_nat_mask_eq flip: mask_nat_def)
  ultimately show ?thesis using k by (auto simp: tab_shape_def table_new_def Let_def)
qed

lemma load_table_new: "s \<in> slots (table_new n) \<Longrightarrow> load (table_new n) s = 0"
  by (auto simp: slots_def load_def get_bucket_def table_new_def Let_def)

lemma table_new_ok:
  assumes "table_fits n"
  shows "tab_ok h (table_new n) \<and> words (table_new n) = {}"
  using table_new_shape [OF assms] load_table_new [of _ n] by (auto simp: tab_ok_def words_def)


text \<open>The words of a table, in the order the rehash visits them.\<close>

lemma unat_of_nat_bucket:
  "tab_shape k t \<Longrightarrow> i < length (t_buckets t) \<Longrightarrow> unat (of_nat i :: u64) = i"
proof -
  assume "tab_shape k t" and "i < length (t_buckets t)"
  then have "i < 2 ^ k" "k < 64" by (simp_all add: tab_shape_def)
  moreover have "(2::nat) ^ k \<le> 2 ^ 64" using calculation(2) by (intro power_increasing) simp_all
  ultimately show ?thesis by (intro unat_of_nat_u64) linarith
qed

definition positions :: "table \<Rightarrow> slot list" where
  "positions t = List.product (map of_nat [0..<length (t_buckets t)]) [0..<SLOTS]"

lemma set_positions:
  assumes "tab_shape k t"
  shows "set (positions t) = slots t"
proof -
  have "b \<in> of_nat ` {0..<length (t_buckets t)} \<longleftrightarrow> unat b < length (t_buckets t)" for b :: u64
  proof
    assume "unat b < length (t_buckets t)"
    then have "unat b \<in> {0..<length (t_buckets t)}" "b = of_nat (unat b)" by simp_all
    then show "b \<in> of_nat ` {0..<length (t_buckets t)}" by blast
  next
    assume "b \<in> of_nat ` {0..<length (t_buckets t)}"
    then show "unat b < length (t_buckets t)" using unat_of_nat_bucket [OF assms] by auto
  qed
  then show ?thesis by (simp add: positions_def slots_def set_eq_iff)
qed

lemma distinct_positions:
  assumes "tab_shape k t"
  shows "distinct (positions t)"
proof -
  have "inj_on (of_nat :: nat \<Rightarrow> u64) {0..<length (t_buckets t)}"
    using unat_of_nat_bucket [OF assms] by (intro inj_onI) (metis atLeastLessThan_iff)
  then show ?thesis by (auto simp: positions_def distinct_map intro!: distinct_product)
qed

lemma concat_buckets:
  assumes "tab_shape k t"
  shows "concat (t_buckets t) = map (load t) (positions t)"
proof -
  have row: "map (\<lambda>j. load t (of_nat i, j)) [0..<SLOTS] = t_buckets t ! i" if "i < length (t_buckets t)" for i
  proof -
    have "length (t_buckets t ! i) = SLOTS" using assms that by (simp add: tab_shape_def)
    then show ?thesis using map_nth [of "t_buckets t ! i"] unat_of_nat_bucket [OF assms that]
      by (simp add: load_def get_bucket_def)
  qed
  have "map (load t) (positions t) = concat (map (\<lambda>i. map (\<lambda>j. load t (of_nat i, j)) [0..<SLOTS]) [0..<length (t_buckets t)])"
    by (simp add: positions_def product_concat_map map_concat comp_def)
  also have "\<dots> = concat (map (\<lambda>i. t_buckets t ! i) [0..<length (t_buckets t)])"
    using row by (intro arg_cong [of _ _ concat] map_cong_on) simp
  finally show ?thesis by (simp add: map_nth)
qed

lemma rehash_words:
  assumes "tab_ok h t"
  shows "set (filter (\<lambda>w. w \<noteq> 0) (concat (t_buckets t))) = words t"
    and "distinct (filter (\<lambda>w. w \<noteq> 0) (concat (t_buckets t)))"
proof -
  obtain k where k: "tab_shape k t" using assms by (auto simp: tab_ok_def)
  have f: "filter (\<lambda>w. w \<noteq> 0) (concat (t_buckets t)) = map (load t) (filter (\<lambda>s. load t s \<noteq> 0) (positions t))"
    by (simp add: concat_buckets [OF k] filter_map comp_def)
  show "set (filter (\<lambda>w. w \<noteq> 0) (concat (t_buckets t))) = words t"
    by (auto simp: f words_def set_positions [OF k])
  have "inj_on (load t) {s \<in> slots t. load t s \<noteq> 0}"
    using assms unfolding tab_ok_def by (intro inj_onI) auto
  then show "distinct (filter (\<lambda>w. w \<noteq> 0) (concat (t_buckets t)))"
    by (simp add: f distinct_map distinct_positions [OF k] set_positions [OF k])
qed

text \<open>The words whose tag agrees with the hash of their entry: all a sound table ever holds.\<close>

definition tagged :: "heap \<Rightarrow> u64 set \<Rightarrow> bool" where
  "tagged h W \<longleftrightarrow> (\<forall>w \<in> W. w \<noteq> 0 \<and> tag_of_word w = tag_of (hash_at h (entry_ptr w)))"

lemma tab_ok_tagged: "tab_ok h t \<Longrightarrow> tagged h (words t)"
  by (auto simp: tab_ok_def tagged_def words_def well_placed_def)

lemma rehash_spec:
  assumes "tab_shape k t" and "tab_ok h t" and "distinct (filter (\<lambda>w. w \<noteq> 0) ws)"
    and "words t \<inter> set ws = {}" and "tagged h (set ws - {0})" and "rehash h ws t ix = (ok, t', ix')"
  shows "tab_shape k t' \<and> ix_len ix' = ix_len ix \<and> ix_moving ix' = ix_moving ix \<and> ix_table ix' = ix_table ix \<and>
    (ok \<longrightarrow> tab_ok h t' \<and> words t' = words t \<union> (set ws - {0}))"
  using assms
proof (induction ws arbitrary: t ix)
  case (Cons w ws)
  show ?case
  proof (cases "w = 0")
    case True
    with Cons.IH [OF Cons.prems(1,2), of ix] Cons.prems show ?thesis by simp
  next
    case False
    obtain ok1 t1 ix1 where p: "place ix t (hash_at h (entry_ptr w)) w False = (ok1, t1, ix1)"
      by (metis prod_cases3)
    have w: "w \<notin> words t" "tag_of_word w = tag_of (hash_at h (entry_ptr w))"
      using Cons.prems(4,5) False by (auto simp: tagged_def)
    have s: "tab_shape k t1" "if ok1 then tab_ok h t1 \<and> words t1 = insert w (words t) else t1 = t"
      using place_spec [OF Cons.prems(1,2) False w refl p] by auto
    show ?thesis
    proof (cases ok1)
      case True
      have dj: "words t1 \<inter> set ws = {}" using s(2) True Cons.prems(3,4) False by auto
      have "tagged h (set ws - {0})" using Cons.prems(5) by (auto simp: tagged_def)
      from Cons.IH [OF s(1) _ _ dj this, of ix1] True s(2) Cons.prems(3,6) False p place_index [OF p]
      show ?thesis by auto
    next
      case f: False
      with False p Cons.prems(6) s(1) place_index [OF p] show ?thesis by simp
    qed
  qed
qed simp

lemma grow_iff:
  "grow h ix = Some ix' \<longleftrightarrow> table_fits (length (t_buckets (ix_table ix)) * 2) \<and>
     (\<exists>t ix1. rehash h (concat (t_buckets (ix_table ix))) (table_new (length (t_buckets (ix_table ix)) * 2)) ix =
        (True, t, ix1) \<and> ix' = ix1\<lparr>ix_table := t\<rparr>)"
  by (auto simp: grow_def grow_loop.simps [of h "ix_table ix" "length (t_buckets (ix_table ix)) * 2" ix]
      bind_eq_Some_conv split: prod.splits if_splits)

lemma grow_spec:
  assumes "grow h ix = Some ix'" and "tab_ok h (ix_table ix)"
  shows "tab_ok h (ix_table ix') \<and> words (ix_table ix') = words (ix_table ix) \<and>
    ix_len ix' = ix_len ix \<and> ix_moving ix' = ix_moving ix"
proof -
  let ?old = "ix_table ix" and ?n = "length (t_buckets (ix_table ix)) * 2"
  obtain t ix1 where r: "table_fits ?n" "rehash h (concat (t_buckets ?old)) (table_new ?n) ix = (True, t, ix1)"
      "ix' = ix1\<lparr>ix_table := t\<rparr>" using assms(1) by (auto simp: grow_iff)
  then obtain k where k: "tab_shape k (table_new ?n)" using table_new_shape by blast
  have "set (concat (t_buckets ?old)) - {0} = words ?old" using rehash_words(1) [OF assms(2)] by (simp add: set_diff_eq)
  moreover have "tab_ok h (table_new ?n)" "words (table_new ?n) = {}" using table_new_ok [OF r(1)] by simp_all
  ultimately show ?thesis
    using rehash_spec [OF k _ rehash_words(2) [OF assms(2)] _ _ r(2)] tab_ok_tagged [OF assms(2)] r(3) by simp
qed

subsection \<open>Growth ends\<close>

text \<open>
  The candidate buckets of a hash at table size \<open>2 ^ k\<close>, and hashes spread out enough at that
  size: no bucket is a candidate of more entries than it has slots.
\<close>

definition cand :: "nat \<Rightarrow> u64 \<Rightarrow> u64 set" where
  "cand k hash = {hash AND mask k,
     ((hash AND mask k) XOR ((ucast (tag_of hash) * 0x9E3779B9) OR 1)) AND mask k}"

definition spread :: "nat \<Rightarrow> ('a \<Rightarrow> u64) \<Rightarrow> 'a set \<Rightarrow> bool" where
  "spread k f A \<longleftrightarrow> (\<forall>b. card {a \<in> A. b \<in> cand k (f a)} \<le> SLOTS)"

lemma candidates_cand: "tab_shape k t \<Longrightarrow> candidates t hash = cand k hash"
  by (simp add: candidates_def cand_def home_def alt_def tab_shape_def Let_def)

lemma home_cand: "tab_shape k t \<Longrightarrow> home t hash \<in> cand k hash"
  by (simp add: cand_def home_def tab_shape_def)

lemma cand_coarser:
  assumes "j \<le> k" and "b \<in> cand k hash"
  shows "b AND mask j \<in> cand j hash"
proof -
  have m: "(((x AND mask k) XOR y) AND mask k) AND mask j = ((x AND mask j) XOR y) AND mask j" for x y :: u64
    using assms(1) by (intro bit_word_eqI) (auto simp: bit_simps)
  have "(x AND mask k) AND mask j = x AND mask j" for x :: u64
    using assms(1) by (intro bit_word_eqI) (auto simp: bit_simps)
  with m assms(2) show ?thesis by (auto simp: cand_def)
qed

lemma spread_finer:
  assumes "finite A" and "j \<le> k" and "spread j f A"
  shows "spread k f A"
  unfolding spread_def
proof
  fix b
  have "{a \<in> A. b \<in> cand k (f a)} \<subseteq> {a \<in> A. b AND mask j \<in> cand j (f a)}"
    using cand_coarser [OF assms(2)] by auto
  then have "card {a \<in> A. b \<in> cand k (f a)} \<le> card {a \<in> A. b AND mask j \<in> cand j (f a)}"
    using assms(1) by (intro card_mono) auto
  also have "\<dots> \<le> SLOTS" using assms(3) by (simp add: spread_def)
  finally show "card {a \<in> A. b \<in> cand k (f a)} \<le> SLOTS" .
qed

lemma spread_subset:
  assumes "finite B" and "A \<subseteq> B" and "spread k f B"
  shows "spread k f A"
  unfolding spread_def
proof
  fix b
  have "card {a \<in> A. b \<in> cand k (f a)} \<le> card {a \<in> B. b \<in> cand k (f a)}"
    using assms(1,2) by (intro card_mono) auto
  also have "\<dots> \<le> SLOTS" using assms(3) by (simp add: spread_def)
  finally show "card {a \<in> A. b \<in> cand k (f a)} \<le> SLOTS" .
qed

text \<open>A full bucket holds eight words that all have it as a candidate.\<close>

lemma place_succeeds:
  assumes "tab_shape k t" and "tab_ok h t" and "w \<notin> words t"
    and "spread k (\<lambda>w. hash_at h (entry_ptr w)) (insert w (words t))"
  shows "\<exists>t' ix'. place ix t (hash_at h (entry_ptr w)) w live = (True, t', ix')"
proof (cases "empty_slot (get_bucket t (home t (hash_at h (entry_ptr w))))")
  case (Some i)
  then show ?thesis by (rule place_home_free)
next
  case None
  let ?b = "home t (hash_at h (entry_ptr w))" and ?f = "\<lambda>w. hash_at h (entry_ptr w)"
  have b: "unat ?b < length (t_buckets t)" by (rule home_less [OF assms(1)])
  let ?L = "(\<lambda>i. load t (?b, i)) ` {..<SLOTS}"
  have occ: "(?b, i) \<in> slots t \<and> load t (?b, i) \<noteq> 0" if "i < SLOTS" for i
    using empty_slot_None [OF assms(1) b None that] slotsI [OF assms(1) b that] by simp
  have "inj_on (\<lambda>i. load t (?b, i)) {..<SLOTS}"
    using assms(2) occ unfolding tab_ok_def by (intro inj_onI) (metis lessThan_iff prod.inject)
  then have "card ?L = SLOTS" by (simp add: card_image)
  moreover have "?L \<subseteq> words t" using occ by (auto simp: words_def)
  then have "w \<notin> ?L" using assms(3) by blast
  ultimately have "SLOTS < card (insert w ?L)" by simp
  also have "\<dots> \<le> card {a \<in> insert w (words t). ?b \<in> cand k (?f a)}"
  proof (rule card_mono)
    have "?b \<in> cand k (?f (load t (?b, i)))" if "i < SLOTS" for i
      using assms(2) occ [OF that] by (auto simp: tab_ok_def well_placed_def candidates_cand [OF assms(1)])
    with \<open>?L \<subseteq> words t\<close> home_cand [OF assms(1)]
    show "insert w ?L \<subseteq> {a \<in> insert w (words t). ?b \<in> cand k (?f a)}" by auto
  qed simp
  also have "\<dots> \<le> SLOTS" using assms(4) by (simp add: spread_def)
  finally show ?thesis by simp
qed

lemma rehash_succeeds:
  assumes "tab_shape k t" and "tab_ok h t" and "distinct (filter (\<lambda>w. w \<noteq> 0) ws)"
    and "words t \<inter> set ws = {}" and "tagged h (set ws - {0})"
    and "spread k (\<lambda>w. hash_at h (entry_ptr w)) (words t \<union> (set ws - {0}))"
  shows "fst (rehash h ws t ix)"
  using assms
proof (induction ws arbitrary: t ix)
  case (Cons w ws)
  show ?case
  proof (cases "w = 0")
    case True
    with Cons.IH [OF Cons.prems(1,2), of ix] Cons.prems show ?thesis by simp
  next
    case False
    have w: "w \<notin> words t" "tag_of_word w = tag_of (hash_at h (entry_ptr w))"
      using Cons.prems(4,5) False by (auto simp: tagged_def)
    have e: "words t \<union> (set (w # ws) - {0}) = insert w (words t) \<union> (set ws - {0})" using False by auto
    have sub: "spread k (\<lambda>w. hash_at h (entry_ptr w)) (insert w (words t))"
      using Cons.prems(6) unfolding e by (rule spread_subset [rotated 2]) auto
    obtain t1 ix1 where p: "place ix t (hash_at h (entry_ptr w)) w False = (True, t1, ix1)"
      using place_succeeds [OF Cons.prems(1,2) w(1) sub] by blast
    have s: "tab_shape k t1" "tab_ok h t1" "words t1 = insert w (words t)"
      using place_spec [OF Cons.prems(1,2) False w refl p] by auto
    have "words t1 \<inter> set ws = {}" "tagged h (set ws - {0})" "distinct (filter (\<lambda>w. w \<noteq> 0) ws)"
      using s(3) Cons.prems(3-5) False by (auto simp: tagged_def)
    moreover have "spread k (\<lambda>w. hash_at h (entry_ptr w)) (words t1 \<union> (set ws - {0}))"
      using Cons.prems(6) unfolding s(3) e [symmetric] .
    ultimately show ?thesis using Cons.IH [OF s(1,2), of ix1] False p by simp
  qed
qed simp

lemma table_fits_pow: "table_fits (2 ^ k) \<longleftrightarrow> k < 57"
proof -
  have "max (2 ^ k) 64 * 64 < (2::nat) ^ 63 \<longleftrightarrow> (2::nat) ^ (k + 6) < 2 ^ 63"
    by (auto simp: max_def power_add)
  also have "\<dots> \<longleftrightarrow> k < 57"
    by (simp only: power_strict_increasing_iff one_less_numeral_iff semiring_norm) simp
  finally show ?thesis by (simp add: table_fits_def next_power_of_two_pow MIN_BUCKETS_def)
qed

lemma table_new_pow:
  assumes "6 \<le> k" and "k < 57"
  shows "tab_shape k (table_new (2 ^ k))"
proof -
  obtain i where i: "tab_shape i (table_new (2 ^ k))" "2 ^ i = max (next_power_of_two (2 ^ k)) MIN_BUCKETS"
    using table_new_shape [of "2 ^ k"] table_fits_pow [of k] assms(2) by blast
  have "(2::nat) ^ 6 \<le> 2 ^ k" using assms(1) by (intro power_increasing) simp_all
  then have "(2::nat) ^ i = 2 ^ k" using i(2) by (simp add: next_power_of_two_pow MIN_BUCKETS_def)
  then have "i = k" by (simp only: power_inject_exp one_less_numeral_iff semiring_norm)
  with i(1) show ?thesis by simp
qed

text \<open>
  Growing from a table of \<open>2 ^ j\<close> buckets gives one of \<open>2 ^ (j + 1)\<close> at the first attempt as soon as
  that size spreads the hashes.
\<close>

lemma grow_returns:
  assumes "tab_shape j (ix_table ix)" and "tab_ok h (ix_table ix)" and "j + 1 < 57"
    and "spread (j + 1) (\<lambda>w. hash_at h (entry_ptr w)) (words (ix_table ix))"
  shows "\<exists>ix'. grow h ix = Some ix' \<and> tab_shape (j + 1) (ix_table ix')"
proof -
  let ?ws = "concat (t_buckets (ix_table ix))" and ?t = "table_new (2 ^ (j + 1))"
  have n: "length (t_buckets (ix_table ix)) * 2 = 2 ^ (j + 1)" "6 \<le> j" using assms(1) by (simp_all add: tab_shape_def)
  have ws: "set ?ws - {0} = words (ix_table ix)" using rehash_words(1) [OF assms(2)] by (simp add: set_diff_eq)
  have sh: "tab_shape (j + 1) ?t" using table_new_pow [of "j + 1"] n(2) assms(3) by simp
  have fits: "table_fits (2 ^ (j + 1))" using assms(3) by (simp only: table_fits_pow)
  have new: "tab_ok h ?t" "words ?t = {}" using table_new_ok [OF fits] by simp_all
  obtain ok t ix1 where r: "rehash h ?ws ?t ix = (ok, t, ix1)" by (metis prod_cases3)
  have tg: "tagged h (set ?ws - {0})" using tab_ok_tagged [OF assms(2)] ws by simp
  have "spread (j + 1) (\<lambda>w. hash_at h (entry_ptr w)) (words ?t \<union> (set ?ws - {0}))" using assms(4) new(2) ws by simp
  then have ok
    using rehash_succeeds [OF sh new(1) rehash_words(2) [OF assms(2)] _ tg, of ix] r new(2) by simp
  moreover have "tab_shape (j + 1) t" using rehash_spec [OF sh new(1) rehash_words(2) [OF assms(2)] _ tg r] new(2) by simp
  ultimately show ?thesis using r fits by (auto simp: grow_iff n(1))
qed

end
