(* ===== verification/Index_Map.thy ===== *)
theory Index_Map
  imports Cuckoo
begin

text \<open>
  The index as a map from keys to entries: what a lookup, an insertion and a removal of
  \<^verbatim>\<open>crates/server/src/cache/table.rs\<close> mean, the interface a shard uses them through, and the
  properties of the index.
\<close>

section \<open>The index represents a map\<close>

lemma find_bucket_Some:
  assumes "find_bucket h t tag key b = Some r"
  shows "\<exists>i. r = (b, i, load t (b, i)) \<and> i < SLOTS \<and> slot_matches h t tag key (b, i)"
  using assms by (auto simp: find_bucket_scan find_Some_iff)

lemma find_bucket_None:
  assumes "find_bucket h t tag key b = None" and "i < SLOTS"
  shows "\<not> slot_matches h t tag key (b, i)"
  using assms by (auto simp: find_bucket_scan find_None_iff)

lemma find_key_Some:
  assumes "tab_shape k t" and "find_key h t hash key = Some (b, i, w)"
  shows "(b, i) \<in> slots t \<and> load t (b, i) = w \<and> w \<in> words t \<and> key_at h (entry_ptr w) = key"
proof -
  have "b \<in> {home t hash, alt t (home t hash) (tag_of hash)} \<and> i < SLOTS \<and> w = load t (b, i) \<and>
      slot_matches h t (tag_of hash) key (b, i)"
    using assms(2) by (auto simp: find_key_def Let_def split: option.splits dest!: find_bucket_Some)
  moreover from this have "(b, i) \<in> slots t"
    using home_less [OF assms(1)] alt_less [OF assms(1)] by (auto simp: slots_def)
  ultimately show ?thesis by (auto simp: slot_matches_def words_def)
qed

lemma find_key_None:
  assumes "tab_shape k t" and "tab_ok h t" and "find_key h t hash key = None" and "w \<in> words t"
    and "hash_at h (entry_ptr w) = hash"
  shows "key_at h (entry_ptr w) \<noteq> key"
proof -
  from assms(4) obtain b i where s: "(b, i) \<in> slots t" "load t (b, i) = w" "w \<noteq> 0" by (auto simp: words_def)
  have "tag_of_word w = tag_of hash" "b \<in> candidates t hash"
    using assms(2,5) s by (auto simp: tab_ok_def well_placed_def)
  moreover have "i < SLOTS" using s(1) by (simp add: slots_def)
  moreover have "find_bucket h t (tag_of hash) key b' = None" if "b' \<in> candidates t hash" for b'
    using assms(3) that by (auto simp: find_key_def Let_def candidates_def split: option.splits)
  ultimately have "\<not> slot_matches h t (tag_of hash) key (b, i)" "tag_of_word w = tag_of hash"
    using find_bucket_None by blast+
  then show ?thesis using s(2,3) by (simp add: slot_matches_def)
qed

text \<open>A slot word is determined by its tag and its address.\<close>

lemma PTR_MASK_mask: "PTR_MASK = mask 48"
  by (simp add: PTR_MASK_def PTR_BITS_def mask_eq_exp_minus_1)

lemma word_split:
  assumes "tag_of_word w = tag_of_word w'" and "entry_ptr w = entry_ptr w'"
  shows "w = w'"
proof (rule bit_word_eqI)
  fix n assume n: "n < LENGTH(64)"
  have lo: "w AND mask 48 = w' AND mask 48" using assms(2) by (simp add: entry_ptr_def PTR_MASK_mask word_unat_eq_iff)
  have hi: "(ucast (drop_bit 48 w) :: u16) = ucast (drop_bit 48 w')"
    using assms(1) by (simp add: tag_of_word_def PTR_BITS_def)
  show "bit w n \<longleftrightarrow> bit w' n"
  proof (cases "n < 48")
    case True
    with arg_cong [OF lo, of "\<lambda>x. bit x n"] show ?thesis by (simp add: bit_simps)
  next
    case False
    have "n - 48 < 16" using n by simp
    with False arg_cong [OF hi, of "\<lambda>x. bit x (n - 48)"] show ?thesis by (simp add: bit_simps)
  qed
qed

lemma slot_word_Some:
  assumes "p < 2 ^ 48"
  shows "\<exists>w. slot_word tag p = Some w \<and> tag_of_word w = tag \<and> entry_ptr w = p"
proof -
  let ?p = "of_nat p :: u64" and ?t = "push_bit 48 (ucast tag) :: u64"
  have u: "unat ?p = p" using assms by (intro unat_of_nat_u64) simp
  have p: "?p AND mask 48 = ?p"
  proof -
    have "unat (?p AND mask 48) = p mod 2 ^ 48"
      by (simp only: take_bit_eq_mask [symmetric] unsigned_take_bit_eq u) (simp add: take_bit_nat_def)
    then show ?thesis using assms u by (simp add: word_unat_eq_iff)
  qed
  have hb: "\<not> bit ?p n" if "48 \<le> n" for n
    using arg_cong [OF p, of "\<lambda>x. bit x n"] that by (simp add: bit_simps)
  have hb': "bit p n \<Longrightarrow> n < 64 \<Longrightarrow> n < 48" for n
    using hb [of n] by (auto simp: bit_simps not_less [symmetric])
  have "?p AND NOT (mask 48) = 0"
    by (rule bit_word_eqI) (auto simp: bit_simps dest: hb')
  moreover have "(ucast (drop_bit 48 (?t OR ?p)) :: u16) = tag"
    by (rule bit_word_eqI) (auto simp: bit_simps dest: hb')
  moreover have "(?t OR ?p) AND mask 48 = ?p"
    by (rule bit_word_eqI) (auto simp: bit_simps dest: hb')
  ultimately show ?thesis using u
    by (simp add: slot_word_def tag_of_word_def entry_ptr_def PTR_MASK_mask PTR_BITS_def)
qed

text \<open>
  The abstraction: an index represents the map \<open>m\<close> from keys to entry addresses when its words
  are exactly the entries of \<open>m\<close>, filed under the hash \<open>H\<close> of their keys, and counted.
\<close>

definition ix_rep :: "(bytes \<Rightarrow> u64) \<Rightarrow> heap \<Rightarrow> index \<Rightarrow> (bytes \<rightharpoonup> nat) \<Rightarrow> bool" where
  "ix_rep H h ix m \<longleftrightarrow> tab_ok h (ix_table ix) \<and> ix_len ix = card (words (ix_table ix)) \<and>
     ix_moving ix AND 1 = 0 \<and>
     (\<forall>w \<in> words (ix_table ix). hash_at h (entry_ptr w) = H (key_at h (entry_ptr w))) \<and>
     (\<forall>k p. m k = Some p \<longleftrightarrow> (\<exists>w \<in> words (ix_table ix). entry_ptr w = p \<and> key_at h p = k))"

lemma ix_rep_ok: "ix_rep H h ix m \<Longrightarrow> tab_ok h (ix_table ix)"
  by (simp add: ix_rep_def)

lemma ix_rep_word:
  assumes "ix_rep H h ix m" and "w \<in> words (ix_table ix)"
  shows "m (key_at h (entry_ptr w)) = Some (entry_ptr w)"
    and "hash_at h (entry_ptr w) = H (key_at h (entry_ptr w))"
    and "tag_of_word w = tag_of (H (key_at h (entry_ptr w)))"
proof -
  from assms show "m (key_at h (entry_ptr w)) = Some (entry_ptr w)"
    and h: "hash_at h (entry_ptr w) = H (key_at h (entry_ptr w))" unfolding ix_rep_def by blast+
  from tab_ok_tagged [OF ix_rep_ok [OF assms(1)]] assms(2)
  have "tag_of_word w = tag_of (hash_at h (entry_ptr w))" by (simp add: tagged_def)
  then show "tag_of_word w = tag_of (H (key_at h (entry_ptr w)))" by (simp only: h)
qed

lemma ix_rep_unique:
  assumes "ix_rep H h ix m" and "w \<in> words (ix_table ix)" and "w' \<in> words (ix_table ix)"
    and "key_at h (entry_ptr w) = key_at h (entry_ptr w')"
  shows "w = w'"
proof (rule word_split)
  show "tag_of_word w = tag_of_word w'"
    using ix_rep_word(3) [OF assms(1,2)] ix_rep_word(3) [OF assms(1,3)] by (simp only: assms(4))
  have "Some (entry_ptr w) = Some (entry_ptr w')"
    using ix_rep_word(1) [OF assms(1,2)] ix_rep_word(1) [OF assms(1,3)] by (simp only: assms(4))
  then show "entry_ptr w = entry_ptr w'" by simp
qed

lemma ix_rep_find:
  assumes "ix_rep H h ix m"
  shows "case find_key h (ix_table ix) (H key) key of
     None \<Rightarrow> m key = None
   | Some (b, i, w) \<Rightarrow> m key = Some (entry_ptr w) \<and> (b, i) \<in> slots (ix_table ix) \<and>
       load (ix_table ix) (b, i) = w \<and> w \<in> words (ix_table ix) \<and> key_at h (entry_ptr w) = key"
proof -
  obtain k where k: "tab_shape k (ix_table ix)" using ix_rep_ok [OF assms] tab_ok_shape by blast
  show ?thesis
  proof (cases "find_key h (ix_table ix) (H key) key")
    case None
    have "m key = None"
    proof (rule ccontr)
      assume "m key \<noteq> None"
      then obtain w where w: "w \<in> words (ix_table ix)" "key_at h (entry_ptr w) = key"
        using assms by (auto simp: ix_rep_def)
      with find_key_None [OF k ix_rep_ok [OF assms] None w(1)] ix_rep_word(2) [OF assms w(1)] show False by simp
    qed
    with None show ?thesis by simp
  next
    case (Some r)
    obtain b i w where r: "r = (b, i, w)" by (cases r)
    with find_key_Some [OF k] Some ix_rep_word(1) [OF assms, of w] show ?thesis by auto
  qed
qed

lemma ix_rep_get: "ix_rep H h ix m \<Longrightarrow> index_get h ix (H key) key = m key"
proof -
  assume r: "ix_rep H h ix m"
  then have "ix_moving ix AND 1 = 0" by (simp add: ix_rep_def)
  with ix_rep_find [OF r, of key] show ?thesis
    by (cases "find_key h (ix_table ix) (H key) key") (auto simp: index_get_def get_pass_def)
qed

lemma ix_rep_card:
  assumes "ix_rep H h ix m"
  shows "finite (dom m) \<and> ix_len ix = card (dom m)"
proof -
  let ?f = "\<lambda>w. key_at h (entry_ptr w)"
  have "dom m = ?f ` words (ix_table ix)"
    using assms by (force simp: ix_rep_def)
  moreover have "inj_on ?f (words (ix_table ix))" using ix_rep_unique [OF assms] by (intro inj_onI) blast
  moreover have "ix_len ix = card (words (ix_table ix))" using assms by (simp add: ix_rep_def)
  ultimately show ?thesis by (simp add: card_image)
qed

text \<open>The representation reads only the keys and hashes of the indexed entries.\<close>

lemma ix_rep_heap:
  assumes "ix_rep H h ix m"
    and "\<And>p. p \<in> ran m \<Longrightarrow> key_at h' p = key_at h p \<and> hash_at h' p = hash_at h p"
  shows "ix_rep H h' ix m"
proof -
  have w: "key_at h' (entry_ptr w) = key_at h (entry_ptr w)" "hash_at h' (entry_ptr w) = hash_at h (entry_ptr w)"
    if "w \<in> words (ix_table ix)" for w
    using assms(2) ranI [of m] ix_rep_word(1) [OF assms(1) that] by auto
  have "well_placed h' (ix_table ix) s = well_placed h (ix_table ix) s"
    if "s \<in> slots (ix_table ix)" "load (ix_table ix) s \<noteq> 0" for s
  proof -
    have "load (ix_table ix) s \<in> words (ix_table ix)" using that by (auto simp: words_def)
    then show ?thesis by (simp add: well_placed_def w)
  qed
  then have "tab_ok h' (ix_table ix)" using ix_rep_ok [OF assms(1)] by (auto simp: tab_ok_def)
  moreover have "(\<exists>w \<in> words (ix_table ix). entry_ptr w = p \<and> key_at h' p = k) \<longleftrightarrow>
      (\<exists>w \<in> words (ix_table ix). entry_ptr w = p \<and> key_at h p = k)" for p k
    by (rule bex_cong [OF refl]) (auto simp: w)
  ultimately show ?thesis using assms(1) unfolding ix_rep_def by (simp add: w)
qed

subsection \<open>Insertion\<close>

lemma even_moving: "(x :: u64) AND 1 = 0 \<Longrightarrow> (x + 2) AND 1 = 0"
  by (simp add: and_one_eq mod2_eq_if split: if_splits)

lemma insert_loop_spec:
  assumes "insert_loop h hash w ix = Some ix'"
  shows "tab_ok h (ix_table ix) \<and> w \<noteq> 0 \<and> w \<notin> words (ix_table ix) \<and> tag_of_word w = tag_of hash \<and>
      hash_at h (entry_ptr w) = hash \<longrightarrow>
    tab_ok h (ix_table ix') \<and> words (ix_table ix') = insert w (words (ix_table ix)) \<and>
    ix_len ix' = ix_len ix + 1 \<and> (ix_moving ix AND 1 = 0 \<longrightarrow> ix_moving ix' AND 1 = 0)" (is "?P h hash w ix ix'")
proof (rule insert_loop.raw_induct [where P = ?P, OF _ assms])
  fix il :: "heap \<Rightarrow> u64 \<Rightarrow> u64 \<Rightarrow> index \<Rightarrow> index option" and h hash w ix ix'
  assume IH: "\<And>h hash w ix ix'. il h hash w ix = Some ix' \<Longrightarrow> ?P h hash w ix ix'"
    and body: "(case place ix (ix_table ix) hash w True of
        (ok, t, ix') \<Rightarrow> if ok then Some (ix'\<lparr>ix_table := t, ix_len := ix_len ix' + 1\<rparr>)
          else do { ix'' \<leftarrow> grow h ix'; il h hash w ix'' }) = Some ix'"
  obtain ok t ix1 where p: "place ix (ix_table ix) hash w True = (ok, t, ix1)" by (metis prod_cases3)
  note ix1 = place_index [OF p]
  show "?P h hash w ix ix'"
  proof
    assume a: "tab_ok h (ix_table ix) \<and> w \<noteq> 0 \<and> w \<notin> words (ix_table ix) \<and> tag_of_word w = tag_of hash \<and>
      hash_at h (entry_ptr w) = hash"
    then obtain k where k: "tab_shape k (ix_table ix)" using tab_ok_shape by blast
    from a have s: "if ok then tab_ok h t \<and> words t = insert w (words (ix_table ix)) else t = ix_table ix"
      using place_spec [OF k _ _ _ _ _ p] by blast
    show "tab_ok h (ix_table ix') \<and> words (ix_table ix') = insert w (words (ix_table ix)) \<and>
        ix_len ix' = ix_len ix + 1 \<and> (ix_moving ix AND 1 = 0 \<longrightarrow> ix_moving ix' AND 1 = 0)"
    proof (cases ok)
      case True
      with body p have e: "ix' = ix1\<lparr>ix_table := t, ix_len := ix_len ix1 + 1\<rparr>" by simp
      show ?thesis using True s ix1 even_moving by (auto simp: e)
    next
      case False
      with body p obtain ix2 where g: "grow h ix1 = Some ix2" "il h hash w ix2 = Some ix'"
        by (auto simp: bind_eq_Some_conv)
      have g2: "tab_ok h (ix_table ix2)" "words (ix_table ix2) = words (ix_table ix)" "ix_len ix2 = ix_len ix"
          "ix_moving ix2 = ix_moving ix1"
        using grow_spec [OF g(1)] a ix1 by simp_all
      from IH [OF g(2)] a g2 ix1 even_moving show ?thesis by auto
    qed
  qed
qed

lemma insert_loop_returns:
  assumes "tab_shape j (ix_table ix)" and "tab_ok h (ix_table ix)" and "w \<notin> words (ix_table ix)"
    and "w \<noteq> 0" and "tag_of_word w = tag_of (hash_at h (entry_ptr w))"
    and "spread j (\<lambda>w. hash_at h (entry_ptr w)) (insert w (words (ix_table ix)))"
  shows "\<exists>ix'. insert_loop h (hash_at h (entry_ptr w)) w ix = Some ix' \<and> tab_shape j (ix_table ix')"
proof -
  obtain t ix1 where p: "place ix (ix_table ix) (hash_at h (entry_ptr w)) w True = (True, t, ix1)"
    using place_succeeds [OF assms(1-3,6)] by blast
  then have "tab_shape j t" using place_spec [OF assms(1,2,4,3,5) refl] by blast
  with p show ?thesis by (subst insert_loop.simps) simp
qed

lemma insert_loop_grows:
  assumes "tab_shape j (ix_table ix)" and "tab_ok h (ix_table ix)" and "w \<notin> words (ix_table ix)"
    and "w \<noteq> 0" and "tag_of_word w = tag_of (hash_at h (entry_ptr w))" and "j + 1 < 57"
    and "spread (j + 1) (\<lambda>w. hash_at h (entry_ptr w)) (insert w (words (ix_table ix)))"
  shows "\<exists>ix'. insert_loop h (hash_at h (entry_ptr w)) w ix = Some ix' \<and>
    (tab_shape j (ix_table ix') \<or> tab_shape (j + 1) (ix_table ix'))"
proof -
  let ?H = "hash_at h (entry_ptr w)"
  obtain ok t ix1 where p: "place ix (ix_table ix) ?H w True = (ok, t, ix1)" by (metis prod_cases3)
  note ix1 = place_index [OF p]
  show ?thesis
  proof (cases ok)
    case True
    have "tab_shape j t" using place_spec [OF assms(1,2,4,3,5) refl p] by blast
    with p True show ?thesis by (subst insert_loop.simps) simp
  next
    case False
    have "spread (j + 1) (\<lambda>w. hash_at h (entry_ptr w)) (words (ix_table ix))"
      using assms(7) by (rule spread_subset [rotated 2]) auto
    then obtain ix2 where g: "grow h ix1 = Some ix2" "tab_shape (j + 1) (ix_table ix2)"
      using grow_returns [of j ix1 h] assms(1,2,6) ix1 by auto
    have "tab_ok h (ix_table ix2)" "words (ix_table ix2) = words (ix_table ix)"
      using grow_spec [OF g(1)] assms(2) ix1 by simp_all
    then have "\<exists>ix'. insert_loop h ?H w ix2 = Some ix' \<and> tab_shape (j + 1) (ix_table ix')"
      using assms(3-5,7) by (intro insert_loop_returns [OF g(2)]) simp_all
    with p False g(1) show ?thesis by (subst insert_loop.simps) auto
  qed
qed

text \<open>Replacing an entry's word, and adding one.\<close>

lemma ix_rep_insert:
  assumes "ix_rep H h ix m" and "hash_at h p = H (key_at h p)" and "0 < p" and "p < 2 ^ 48"
    and "p \<notin> ran m" and "index_insert h (H (key_at h p)) p ix = Some (old, ix')"
  shows "old = m (key_at h p) \<and> ix_rep H h ix' (m(key_at h p \<mapsto> p))"
proof -
  let ?k = "key_at h p" and ?t = "ix_table ix"
  obtain w where w: "slot_word (tag_of (H ?k)) p = Some w" "tag_of_word w = tag_of (H ?k)" "entry_ptr w = p"
    using slot_word_Some [OF assms(4)] by blast
  have w0: "w \<noteq> 0" using w(3) assms(3) by (auto simp: entry_ptr_def)
  have fresh: "w \<notin> words ?t" using ix_rep_word(1) [OF assms(1)] assms(5) w(3) by (metis ranI)
  have ok: "tab_ok h ?t" using ix_rep_ok [OF assms(1)] .
  have rep': "ix_rep H h ix' (m(?k \<mapsto> p))"
    if "tab_ok h (ix_table ix')" "words (ix_table ix') = insert w (words ?t - X)" "ix_moving ix' AND 1 = 0"
      "ix_len ix' = card (words (ix_table ix'))" "X = {v \<in> words ?t. key_at h (entry_ptr v) = ?k}" for X
  proof -
    have "(m(?k \<mapsto> p)) k = Some q \<longleftrightarrow> (\<exists>v \<in> words (ix_table ix'). entry_ptr v = q \<and> key_at h q = k)" for k q
      using assms(1) unfolding that(2,5) ix_rep_def by (auto simp: w(3))
    moreover have "\<forall>v \<in> words (ix_table ix'). hash_at h (entry_ptr v) = H (key_at h (entry_ptr v))"
      using ix_rep_word(2) [OF assms(1)] assms(2) w(3) that(2) by auto
    ultimately show ?thesis using that(1,3,4) unfolding ix_rep_def by blast
  qed
  show ?thesis
  proof (cases "find_key h ?t (H ?k) ?k")
    case (Some r)
    obtain b i v where r: "r = (b, i, v)" by (cases r)
    from ix_rep_find [OF assms(1), of ?k] Some r
    have v: "m ?k = Some (entry_ptr v)" "(b, i) \<in> slots ?t" "load ?t (b, i) = v" "v \<in> words ?t"
        "key_at h (entry_ptr v) = ?k" by auto
    have ix': "old = Some (entry_ptr v)" "ix' = ix\<lparr>ix_table := store (b, i) w ?t\<rparr>"
      using assms(6) w(1) Some r by (simp_all add: index_insert_def)
    have X: "{u \<in> words ?t. key_at h (entry_ptr u) = ?k} = {v}"
      using ix_rep_unique [OF assms(1)] v(4,5) by auto
    have cand: "b \<in> candidates ?t (hash_at h (entry_ptr w))"
    proof -
      have "well_placed h ?t (b, i)" using ok v by (auto simp: tab_ok_def words_def)
      then show ?thesis using v(3,5) ix_rep_word(2) [OF assms(1) v(4)] assms(2) w(3) by (simp add: well_placed_def)
    qed
    have f: "tab_ok h (store (b, i) w ?t)" "words (store (b, i) w ?t) = insert w (words ?t - {v})"
      using tab_ok_fill [OF ok v(2) w0] fresh w(2,3) assms(2) cand v(3) by simp_all
    have "0 < card (words ?t)" using v(4) by (auto simp: card_gt_0_iff)
    then have "card (words ?t) = card (insert w (words ?t - {v}))"
      using v(4) fresh by (simp add: card_insert_if)
    then have "ix_rep H h ix' (m(?k \<mapsto> p))"
      using assms(1) f X by (intro rep' [of "{v}"]) (simp_all add: ix'(2) ix_rep_def)
    with ix'(1) v(1) show ?thesis by simp
  next
    case None
    then have mk: "m ?k = None" using ix_rep_find [OF assms(1), of ?k] by simp
    have X: "{u \<in> words ?t. key_at h (entry_ptr u) = ?k} = {}"
      using ix_rep_word(1) [OF assms(1)] mk by fastforce
    obtain ix1 where i1: "(if ix_len ix * 8 \<ge> length (t_buckets ?t) * SLOTS * MAX_LOAD_EIGHTHS
          then grow h ix else Some ix) = Some ix1" "insert_loop h (H ?k) w ix1 = Some ix'" "old = None"
      using assms(6) w(1) None by (auto simp: index_insert_def bind_eq_Some_conv)
    have ix1: "tab_ok h (ix_table ix1)" "words (ix_table ix1) = words ?t" "ix_len ix1 = ix_len ix"
        "ix_moving ix1 = ix_moving ix"
      using i1(1) grow_spec [of h ix ix1] ok by (auto split: if_splits)
    have "tab_ok h (ix_table ix')" "words (ix_table ix') = insert w (words ?t)" "ix_len ix' = ix_len ix + 1"
        "ix_moving ix AND 1 = 0 \<longrightarrow> ix_moving ix' AND 1 = 0"
      using insert_loop_spec [OF i1(2)] ix1 w0 fresh w(2,3) assms(2) by simp_all
    with fresh assms(1) X show ?thesis
      using i1(3) mk rep' [of "{}"] by (simp add: ix_rep_def card_insert_if)
  qed
qed

lemma spread_image:
  assumes "inj_on g A" and "g ` A \<subseteq> B" and "finite B" and "\<And>a. a \<in> A \<Longrightarrow> f a = F (g a)" and "spread k F B"
  shows "spread k f A"
  unfolding spread_def
proof
  fix b
  have "card {a \<in> A. b \<in> cand k (f a)} \<le> card {x \<in> B. b \<in> cand k (F x)}"
  proof (rule card_inj_on_le)
    show "inj_on g {a \<in> A. b \<in> cand k (f a)}" using assms(1) by (rule inj_on_subset) auto
    show "g ` {a \<in> A. b \<in> cand k (f a)} \<subseteq> {x \<in> B. b \<in> cand k (F x)}" using assms(2,4) by auto
  qed (simp add: assms(3))
  also have "\<dots> \<le> SLOTS" using assms(5) by (simp add: spread_def)
  finally show "card {a \<in> A. b \<in> cand k (f a)} \<le> SLOTS" .
qed

text \<open>
  Insertion returns and at most doubles the table, if the hashes of the keys, with the new one,
  spread at twice its size, which is allowed.
\<close>

lemma index_insert_returns:
  assumes "ix_rep H h ix m" and "hash_at h p = H (key_at h p)" and "0 < p" and "p < 2 ^ 48"
    and "p \<notin> ran m" and "spread k H (insert (key_at h p) (dom m))"
    and "2 ^ k \<le> 2 * length (t_buckets (ix_table ix))" and "length (t_buckets (ix_table ix)) < 2 ^ 56"
  shows "\<exists>old ix'. index_insert h (H (key_at h p)) p ix = Some (old, ix') \<and>
    length (t_buckets (ix_table ix')) \<le> 2 * length (t_buckets (ix_table ix))"
proof (cases "find_key h (ix_table ix) (H (key_at h p)) (key_at h p)")
  case (Some r)
  with slot_word_Some [OF assms(4), of "tag_of (H (key_at h p))"] show ?thesis
    by (cases r) (auto simp: index_insert_def store_def Let_def)
next
  case None
  let ?k = "key_at h p" and ?t = "ix_table ix" and ?f = "\<lambda>w. hash_at h (entry_ptr w)"
  have mk: "m ?k = None" using ix_rep_find [OF assms(1), of ?k] None by simp
  obtain w where w: "slot_word (tag_of (H ?k)) p = Some w" "tag_of_word w = tag_of (H ?k)" "entry_ptr w = p"
    using slot_word_Some [OF assms(4)] by blast
  have w0: "w \<noteq> 0" using w(3) assms(3) by (auto simp: entry_ptr_def)
  have fresh: "w \<notin> words ?t" using ix_rep_word(1) [OF assms(1)] assms(5) w(3) by (metis ranI)
  have ok: "tab_ok h ?t" using ix_rep_ok [OF assms(1)] .
  then obtain j where j: "tab_shape j ?t" using tab_ok_shape by blast
  have fin: "finite (insert ?k (dom m))" using ix_rep_card [OF assms(1)] by simp
  have sp: "spread k ?f (insert w (words ?t))"
  proof (rule spread_image [OF _ _ fin _ assms(6), where g = "\<lambda>w. key_at h (entry_ptr w)"])
    show "inj_on (\<lambda>w. key_at h (entry_ptr w)) (insert w (words ?t))"
    proof -
      have "inj_on (\<lambda>w. key_at h (entry_ptr w)) (words ?t)"
        using ix_rep_unique [OF assms(1)] by (intro inj_onI) blast
      moreover have "?k \<noteq> key_at h (entry_ptr v)" if "v \<in> words ?t" for v
        using ix_rep_word(1) [OF assms(1) that] mk by (metis option.distinct(1))
      ultimately show ?thesis using w(3) by auto
    qed
    show "(\<lambda>w. key_at h (entry_ptr w)) ` insert w (words ?t) \<subseteq> insert ?k (dom m)"
      using ix_rep_word(1) [OF assms(1)] w(3) by auto
  qed (use ix_rep_word(2) [OF assms(1)] assms(2) w(3) in auto)
  have tag: "tag_of_word w = tag_of (?f w)" using w(2,3) assms(2) by simp
  have jl: "length (t_buckets ?t) = 2 ^ j" using j by (simp add: tab_shape_def)
  have "(2::nat) ^ j < 2 ^ 56" using assms(8) jl by simp
  then have j57: "j + 1 < 57" by (simp only: power_strict_increasing_iff one_less_numeral_iff semiring_norm)
  have "(2::nat) ^ k \<le> 2 ^ (j + 1)" using assms(7) jl by simp
  then have "k \<le> j + 1" by (simp only: power_increasing_iff one_less_numeral_iff semiring_norm)
  then have sp': "spread (j + 1) ?f (insert w (words ?t))" using spread_finer [OF _ _ sp] by simp
  have "\<exists>ix1 ix'. (if ix_len ix * 8 \<ge> length (t_buckets ?t) * SLOTS * MAX_LOAD_EIGHTHS then grow h ix else Some ix) = Some ix1 \<and>
      insert_loop h (?f w) w ix1 = Some ix' \<and> (tab_shape j (ix_table ix') \<or> tab_shape (j + 1) (ix_table ix'))"
  proof (cases "ix_len ix * 8 \<ge> length (t_buckets ?t) * SLOTS * MAX_LOAD_EIGHTHS")
    case True
    have "spread (j + 1) ?f (words ?t)" using spread_subset [OF _ _ sp'] by auto
    then obtain ix1 where g: "grow h ix = Some ix1" "tab_shape (j + 1) (ix_table ix1)"
      using grow_returns [OF j ok j57] by blast
    with True grow_spec [OF g(1) ok] insert_loop_returns [OF g(2), of h w] sp' fresh w0 tag show ?thesis by auto
  next
    case False
    with insert_loop_grows [OF j ok fresh w0 tag j57 sp'] show ?thesis by simp
  qed
  with w None assms(2) jl show ?thesis by (auto simp: index_insert_def tab_shape_def)
qed

subsection \<open>Removal\<close>

lemma ix_rep_clear:
  assumes "ix_rep H h ix m" and "(b, i) \<in> slots (ix_table ix)" and "load (ix_table ix) (b, i) = w"
    and "w \<in> words (ix_table ix)" and "key_at h (entry_ptr w) = key"
  shows "ix_rep H h (ix\<lparr>ix_table := store (b, i) 0 (ix_table ix), ix_len := ix_len ix - 1\<rparr>) (m(key := None))"
proof -
  let ?t = "ix_table ix"
  have c: "tab_ok h (store (b, i) 0 ?t)" "words (store (b, i) 0 ?t) = words ?t - {w}"
    using tab_ok_clear [OF ix_rep_ok [OF assms(1)] assms(2)] assms(3) by simp_all
  have "(m(key := None)) k = Some q \<longleftrightarrow> (\<exists>v \<in> words ?t - {w}. entry_ptr v = q \<and> key_at h q = k)" for k q
  proof (cases "k = key")
    case True
    then show ?thesis using ix_rep_unique [OF assms(1) _ assms(4)] assms(5) by auto
  next
    case False
    then show ?thesis using assms(1,5) unfolding ix_rep_def by auto
  qed
  with assms(1,4) c show ?thesis unfolding ix_rep_def by simp
qed

lemma ix_rep_remove:
  assumes "ix_rep H h ix m" and "index_remove h (H key) key ix = (r, ix')"
  shows "r = m key \<and> ix_rep H h ix' (m(key := None))"
proof (cases "find_key h (ix_table ix) (H key) key")
  case None
  then have "m key = None" using ix_rep_find [OF assms(1), of key] by simp
  moreover from this have "m(key := None) = m" by (simp add: fun_upd_idem)
  ultimately show ?thesis using assms None by (simp add: index_remove_def)
next
  case (Some a)
  obtain b i w where a: "a = (b, i, w)" by (cases a)
  with ix_rep_find [OF assms(1), of key] Some ix_rep_clear [OF assms(1), of b i w key] assms(2)
  show ?thesis by (auto simp: index_remove_def)
qed

lemma ix_rep_remove_if_same:
  assumes "ix_rep H h ix m" and "index_remove_if_same h (H (key_at h p)) p ix = (r, ix')"
  shows "if m (key_at h p) = Some p then r = Some p \<and> ix_rep H h ix' (m(key_at h p := None))
    else r = None \<and> ix' = ix"
proof (cases "find_key h (ix_table ix) (H (key_at h p)) (key_at h p)")
  case None
  with ix_rep_find [OF assms(1), of "key_at h p"] assms show ?thesis by (simp add: index_remove_if_same_def)
next
  case (Some a)
  obtain b i w where a: "a = (b, i, w)" by (cases a)
  with ix_rep_find [OF assms(1), of "key_at h p"] Some ix_rep_clear [OF assms(1), of b i w "key_at h p"] assms(2)
  show ?thesis by (auto simp: index_remove_if_same_def split: if_splits)
qed

lemma ix_rep_new: "ix_rep H h index_new Map.empty"
proof -
  have "table_fits MIN_BUCKETS" using table_fits_pow [of 6] by (simp add: MIN_BUCKETS_def)
  with table_new_ok [of MIN_BUCKETS h] show ?thesis by (simp add: ix_rep_def index_new_def)
qed

lemma index_new_size: "length (t_buckets (ix_table index_new)) = 64"
  using tab_ok_shape [OF ix_rep_ok [OF ix_rep_new]] by (simp add: index_new_def table_new_def MIN_BUCKETS_def next_power_of_two_pow [of 6, simplified])

section \<open>The interface of the index\<close>

text \<open>
  What a shard relies on, over the abstract map an index stands for. \<open>insertable\<close> is what the
  caller owes for an entry it adds.
\<close>

locale entry_index =
  fixes rep :: "heap \<Rightarrow> 'i \<Rightarrow> (bytes \<rightharpoonup> nat) \<Rightarrow> bool"
    and insertable :: "heap \<Rightarrow> nat \<Rightarrow> bool"
    and fetch :: "heap \<Rightarrow> bytes \<Rightarrow> 'i \<Rightarrow> nat option"
    and add :: "heap \<Rightarrow> nat \<Rightarrow> 'i \<Rightarrow> (nat option \<times> 'i) option"
    and del :: "heap \<Rightarrow> bytes \<Rightarrow> 'i \<Rightarrow> nat option \<times> 'i"
    and del_same :: "heap \<Rightarrow> nat \<Rightarrow> 'i \<Rightarrow> nat option \<times> 'i"
    and count :: "'i \<Rightarrow> nat"
  assumes fetch: "rep h i m \<Longrightarrow> fetch h k i = m k"
    and add: "rep h i m \<Longrightarrow> insertable h p \<Longrightarrow> p \<notin> ran m \<Longrightarrow> add h p i = Some (old, i') \<Longrightarrow>
      old = m (key_at h p) \<and> rep h i' (m(key_at h p \<mapsto> p))"
    and del: "rep h i m \<Longrightarrow> del h k i = (r, i') \<Longrightarrow> r = m k \<and> rep h i' (m(k := None))"
    and del_same: "rep h i m \<Longrightarrow> del_same h p i = (r, i') \<Longrightarrow>
      (if m (key_at h p) = Some p then r = Some p \<and> rep h i' (m(key_at h p := None)) else r = None \<and> i' = i)"
    and count: "rep h i m \<Longrightarrow> finite (dom m) \<and> count i = card (dom m)"
    and heap: "rep h i m \<Longrightarrow> (\<And>p. p \<in> ran m \<Longrightarrow> key_at h' p = key_at h p \<and> hash_at h' p = hash_at h p) \<Longrightarrow>
      rep h' i m"
begin

lemma fetch_after_add:
  assumes "rep h i m" and "insertable h p" and "p \<notin> ran m" and "add h p i = Some (old, i')"
  shows "old = fetch h (key_at h p) i \<and> fetch h k i' = (if k = key_at h p then Some p else fetch h k i) \<and>
    count i' = (if old = None then count i + 1 else count i)"
proof -
  have a: "old = m (key_at h p)" "rep h i' (m(key_at h p \<mapsto> p))" using add [OF assms] by simp_all
  then show ?thesis using fetch [OF assms(1)] fetch [OF a(2)] count [OF assms(1)] count [OF a(2)]
    by (cases "m (key_at h p)") (simp_all add: card_insert_if domIff)
qed

lemma fetch_after_del:
  assumes "rep h i m" and "del h k i = (r, i')"
  shows "r = fetch h k i \<and> fetch h k' i' = (if k' = k then None else fetch h k' i) \<and>
    count i' = (if r = None then count i else count i - 1)"
proof -
  have d: "r = m k" "rep h i' (m(k := None))" using del [OF assms] by simp_all
  then show ?thesis using fetch [OF assms(1)] fetch [OF d(2)] count [OF assms(1)] count [OF d(2)]
    by (auto simp: card_Diff_singleton_if)
qed

lemma fetch_after_del_same:
  assumes "rep h i m" and "del_same h p i = (r, i')"
  shows "r = (if fetch h (key_at h p) i = Some p then Some p else None) \<and>
    fetch h k i' = (if k = key_at h p \<and> r \<noteq> None then None else fetch h k i)"
  using del_same [OF assms] fetch [OF assms(1)] fetch [of h i' "m(key_at h p := None)"]
  by (auto split: if_splits)

end

text \<open>What the caller owes: the stored hash is the key's, and the address fits a slot word.\<close>

definition insertable :: "(bytes \<Rightarrow> u64) \<Rightarrow> heap \<Rightarrow> nat \<Rightarrow> bool" where
  "insertable H h p \<longleftrightarrow> hash_at h p = H (key_at h p) \<and> 0 < p \<and> p < 2 ^ 48"

interpretation cuckoo: entry_index "ix_rep H" "insertable H" "\<lambda>h k ix. index_get h ix (H k) k"
  "\<lambda>h p ix. index_insert h (H (key_at h p)) p ix" "\<lambda>h k ix. index_remove h (H k) k ix"
  "\<lambda>h p ix. index_remove_if_same h (H (key_at h p)) p ix" ix_len for H
proof (unfold_locales, goal_cases)
  case 1 then show ?case by (rule ix_rep_get)
next
  case 2 then show ?case using ix_rep_insert by (simp add: insertable_def)
next
  case 3 then show ?case by (rule ix_rep_remove)
next
  case 4 then show ?case by (rule ix_rep_remove_if_same)
next
  case 5 then show ?case by (rule ix_rep_card)
next
  case 6 then show ?case by (rule ix_rep_heap)
qed

section \<open>Properties\<close>

text \<open>
  C16. Inserting an entry never loses one: whatever displacements and however much growth it
  takes, afterwards the index finds the new entry under its key, every other key resolves as
  before, the previous entry for the key is returned, and the count follows.
\<close>

theorem insert_keeps_every_key:
  assumes "ix_rep H h ix m" and "insertable H h p" and "p \<notin> ran m"
    and "index_insert h (H (key_at h p)) p ix = Some (old, ix')"
  shows "ix_rep H h ix' (m(key_at h p \<mapsto> p)) \<and> old = index_get h ix (H (key_at h p)) (key_at h p) \<and>
    index_get h ix' (H k) k = (if k = key_at h p then Some p else index_get h ix (H k) k) \<and>
    ix_len ix' = (if old = None then ix_len ix + 1 else ix_len ix)"
  using cuckoo.add [OF assms] cuckoo.fetch_after_add [OF assms] by blast

text \<open>
  Removing a key makes exactly that key unfindable and hands its entry back; removing by
  identity does so only while the key still maps to that very entry, and otherwise changes
  nothing.
\<close>

lemma remove_exactly_key:
  assumes "ix_rep H h ix m"
  shows "(case index_remove h (H key) key ix of (r, ix') \<Rightarrow>
      r = m key \<and> ix_rep H h ix' (m(key := None)) \<and>
      index_get h ix' (H k) k = (if k = key then None else index_get h ix (H k) k)) \<and>
    (case index_remove_if_same h (H (key_at h p)) p ix of (r, ix') \<Rightarrow>
      if m (key_at h p) = Some p then r = Some p \<and> ix_rep H h ix' (m(key_at h p := None))
      else r = None \<and> ix' = ix)"
proof -
  obtain r ix1 where r: "index_remove h (H key) key ix = (r, ix1)" by fastforce
  obtain r' ix2 where r': "index_remove_if_same h (H (key_at h p)) p ix = (r', ix2)" by fastforce
  show ?thesis
    using cuckoo.del [OF assms r] cuckoo.fetch_after_del [OF assms r] cuckoo.del_same [OF assms r'] r r' by auto
qed

text \<open>
  The branch-free bucket lookup is the plain scan: building the match mask and walking its
  set bits lowest first finds the first slot that is occupied, carries the tag and holds the key.
\<close>

lemma find_bucket_is_scan:
  "find_bucket h t tag key b =
     map_option (\<lambda>i. (b, i, load t (b, i)))
       (find (\<lambda>i. load t (b, i) \<noteq> 0 \<and> tag_of_word (load t (b, i)) = tag \<and>
                key_at h (entry_ptr (load t (b, i))) = key) [0..<SLOTS])"
  unfolding find_bucket_scan slot_matches_def ..

lemma same_hash_slots:
  assumes "tab_ok h t" and "A \<subseteq> words t" and "\<And>w. w \<in> A \<Longrightarrow> hash_at h (entry_ptr w) = hash"
  shows "card A \<le> 2 * SLOTS"
proof -
  define pos where "pos w = (SOME s. s \<in> slots t \<and> load t s = w)" for w
  have pos: "pos w \<in> slots t \<and> load t (pos w) = w \<and> w \<noteq> 0" if "w \<in> A" for w
  proof -
    have "\<exists>s. s \<in> slots t \<and> load t s = w" "w \<noteq> 0" using assms(2) that unfolding words_def by blast+
    then show ?thesis using someI_ex [of "\<lambda>s. s \<in> slots t \<and> load t s = w"] by (simp add: pos_def)
  qed
  have "pos w \<in> candidates t hash \<times> {..<SLOTS}" if "w \<in> A" for w
    using pos [OF that] assms(1) assms(3) [OF that]
    by (cases "pos w") (auto simp: tab_ok_def well_placed_def slots_def)
  moreover have "inj_on pos A" using pos by (intro inj_onI) metis
  moreover have "finite (candidates t hash \<times> {..<SLOTS})" by (simp add: candidates_def)
  ultimately have "card A \<le> card (candidates t hash \<times> {..<SLOTS})"
    by (intro card_inj_on_le [of pos]) blast+
  also have "\<dots> \<le> 2 * SLOTS" by (simp add: candidates_def card_insert_if)
  finally show ?thesis .
qed

text \<open>
  At most sixteen keys of one hash: a key's two buckets depend on its hash alone and have
  eight slots each, so an index never holds more.
\<close>

lemma same_hash_limit:
  assumes "ix_rep H h ix m"
  shows "card {k \<in> dom m. H k = hash} \<le> 16"
proof -
  let ?A = "{w \<in> words (ix_table ix). H (key_at h (entry_ptr w)) = hash}"
  have "card ?A \<le> 2 * SLOTS"
    using ix_rep_word(2) [OF assms] by (intro same_hash_slots [OF ix_rep_ok [OF assms]]) auto
  moreover have "{k \<in> dom m. H k = hash} \<subseteq> (\<lambda>w. key_at h (entry_ptr w)) ` ?A"
    using assms by (force simp: ix_rep_def)
  then have "card {k \<in> dom m. H k = hash} \<le> card ?A" by (intro surj_card_le) auto
  ultimately show ?thesis by (simp add: SLOTS_def)
qed

subsection \<open>Witnesses\<close>

text \<open>An index of one key, with a constant hash.\<close>

definition one_heap :: heap where
  "one_heap = [64 \<mapsto> \<lparr>en_rc = 1, en_value = [1], en_key = key_new [7], en_hash = 5, en_freq = 0,
     en_live = True, en_class = 1\<rparr>]"

lemma one_heap_at: "key_at one_heap 64 = [7]" "insertable (\<lambda>_. 5) one_heap 64"
  by (simp_all add: one_heap_def key_at_def hash_at_def deref_def insertable_def)

lemma one_index:
  "\<exists>old ix'. index_insert one_heap 5 64 index_new = Some (old, ix')"
proof -
  have "card {a \<in> {[7 :: u8]}. b \<in> cand 6 5} \<le> 8" for b
    by (rule order_trans [OF card_mono [of "{[7]}"]]) auto
  then have "spread 6 (\<lambda>_. 5) (insert (key_at one_heap 64) (dom Map.empty))"
    by (simp add: spread_def one_heap_at SLOTS_def)
  with index_insert_returns [OF ix_rep_new, of one_heap 64 "\<lambda>_. 5" 6] one_heap_at(2) index_new_size show ?thesis
    by (auto simp: insertable_def)
qed

theorem insert_keeps_every_key_witness:
  "\<exists>old ix'. index_insert one_heap 5 64 index_new = Some (old, ix') \<and> index_get one_heap ix' 5 [7] = Some 64"
proof -
  obtain old ix' where i: "index_insert one_heap 5 64 index_new = Some (old, ix')" using one_index by blast
  from insert_keeps_every_key [OF ix_rep_new one_heap_at(2), of old ix' "[7]"] i show ?thesis
    by (simp add: one_heap_at)
qed

end
