(* ===== verification/Race.thy ===== *)
theory Race
  imports Index_Map Transition
begin

text \<open>
  Lookups beside a writer: \<open>Index::get\<close> of \<^verbatim>\<open>crates/server/src/cache/table.rs\<close> load by load, while the
  shard's one writer stores slot by slot, and entries that nobody can reach any more are replaced by
  others. Every load and every store of a slot, of \<open>moving\<close> and of the table pointer is a step of its
  own; steps of the reader and the writer alternate in any order.

  The orderings of the source (release stores, acquire loads and the fences of the seqlock) are taken
  to make this interleaving of single accesses the only behaviour. Entries do not change while they
  are reachable, so comparing the keys of a bucket's candidates is one step. Other readers change
  nothing that is modelled here, so there is one.

  A lookup that comes back returns what the key's entry was at some moment between call and return:
  a key that is there all the time is never missed, however it is moved about meanwhile. With nobody
  beside them, the steps of the reader are the lookup of \<open>Cuckoo\<close> and those of the writer its insertion.
\<close>

section \<open>The writer\<close>

text \<open>
  Where the writer is in \<open>insert\<close>: about to grow, about to place a word, applying a path (the hops
  left, last first, the slot to copy into, and the new word), or about to leave the seqlock.
\<close>

datatype wphase =
    Idle
  | Growing u64 u64
  | Placing u64 u64
  | Moving "slot list" slot u64
  | Settling

definition insert_begin :: "heap \<Rightarrow> u64 \<Rightarrow> nat \<Rightarrow> index \<Rightarrow> (index \<times> wphase) option" where
  "insert_begin h hash p ix =
     (let t = ix_table ix
      in case slot_word (tag_of hash) p of
           None \<Rightarrow> None
         | Some new_word \<Rightarrow>
             (case find_key h t hash (key_at h p) of
                Some (b, i, _) \<Rightarrow> Some (ix\<lparr>ix_table := store (b, i) new_word t\<rparr>, Idle)
              | None \<Rightarrow>
                  Some (ix, if ix_len ix * 8 \<ge> length (t_buckets t) * SLOTS * MAX_LOAD_EIGHTHS
                            then Growing hash new_word else Placing hash new_word)))"

text \<open>What the writer does next; a growth builds its table where nobody sees it and then swaps the pointer.\<close>

fun writer_step :: "heap \<Rightarrow> index \<Rightarrow> wphase \<Rightarrow> (index \<times> wphase) option" where
  "writer_step h ix Idle = None"
| "writer_step h ix (Growing hash w) = map_option (\<lambda>ix'. (ix', Placing hash w)) (grow h ix)"
| "writer_step h ix (Placing hash w) =
     (let t = ix_table ix;
          b1 = home t hash;
          b2 = alt t b1 (tag_of hash)
      in case empty_slot (get_bucket t b1) of
           Some i \<Rightarrow> Some (ix\<lparr>ix_table := store (b1, i) w t, ix_len := ix_len ix + 1\<rparr>, Idle)
         | None \<Rightarrow>
             (case empty_slot (get_bucket t b2) of
                Some i \<Rightarrow> Some (ix\<lparr>ix_table := store (b2, i) w t, ix_len := ix_len ix + 1\<rparr>, Idle)
              | None \<Rightarrow>
                  (case find_path ix t b1 b2 of
                     (None, ix1) \<Rightarrow> Some (ix1, Growing hash w)
                   | (Some (path, dest), ix1) \<Rightarrow>
                       Some (ix1\<lparr>ix_moving := ix_moving ix1 + 1\<rparr>, Moving (rev path) dest w))))"
| "writer_step h ix (Moving (s # rp) d w) =
     Some (ix\<lparr>ix_table := store d (load (ix_table ix) s) (ix_table ix)\<rparr>, Moving rp s w)"
| "writer_step h ix (Moving [] d w) = Some (ix\<lparr>ix_table := store d w (ix_table ix)\<rparr>, Settling)"
| "writer_step h ix Settling = Some (ix\<lparr>ix_moving := ix_moving ix + 1, ix_len := ix_len ix + 1\<rparr>, Idle)"

section \<open>The reader\<close>

text \<open>
  Where the reader is in \<open>get\<close>: outside, at the top of the loop, between the loads of \<open>moving\<close> and of
  the table, loading the slots of a bucket (with the value of \<open>moving\<close>, which table, which bucket,
  the words so far and the buckets after it), about to load \<open>moving\<close> again, or back.
\<close>

datatype rphase =
    Outside
  | Top
  | Locating u64
  | Scanning u64 nat u64 "u64 list" "u64 list"
  | Rechecking u64
  | Answered "nat option"

text \<open>
  The state they share, and what is recorded beside it during a lookup: every value the key had, the
  entries that could be reached, and how often \<open>moving\<close> was advanced since it was loaded first.
\<close>

record race =
  ra_heap :: heap
  ra_index :: index
  ra_retired :: "table list"  \<comment> \<open>the tables before the current one, oldest first\<close>
  ra_writer :: wphase
  ra_reader :: rphase
  ra_seen :: "nat option set"
  ra_pinned :: "nat set"
  ra_bumps :: nat

definition table_at :: "race \<Rightarrow> nat \<Rightarrow> table" where
  "table_at s n = (if n < length (ra_retired s) then ra_retired s ! n else ix_table (ra_index s))"

definition reader_step :: "u64 \<Rightarrow> bytes \<Rightarrow> race \<Rightarrow> race" where
  "reader_step hash key s =
     (case ra_reader s of
        Outside \<Rightarrow> s
      | Top \<Rightarrow> s\<lparr>ra_reader := Locating (ix_moving (ra_index s)), ra_bumps := 0\<rparr>
      | Locating seq \<Rightarrow>
          let t = ix_table (ra_index s); b1 = home t hash
          in s\<lparr>ra_reader := Scanning seq (length (ra_retired s)) b1 [] [alt t b1 (tag_of hash)]\<rparr>
      | Scanning seq n b ws bs \<Rightarrow>
          if length ws < SLOTS then s\<lparr>ra_reader := Scanning seq n b (ws @ [load (table_at s n) (b, length ws)]) bs\<rparr>
          else (case find_masked (ra_heap s) key ws (match_mask (tag_of hash) ws) of
                  Some (_, w) \<Rightarrow> s\<lparr>ra_reader := Answered (Some (entry_ptr w))\<rparr>
                | None \<Rightarrow>
                    (case bs of
                       b' # bs' \<Rightarrow> s\<lparr>ra_reader := Scanning seq n b' [] bs'\<rparr>
                     | [] \<Rightarrow> s\<lparr>ra_reader := Rechecking seq\<rparr>))
      | Rechecking seq \<Rightarrow>
          if seq AND 1 = 0 \<and> ix_moving (ra_index s) = seq then s\<lparr>ra_reader := Answered None\<rparr>
          else s\<lparr>ra_reader := Top\<rparr>
      | Answered r \<Rightarrow> s\<lparr>ra_reader := Outside\<rparr>)"

section \<open>Both together\<close>

definition pointers :: "index \<Rightarrow> nat set" where
  "pointers ix = entry_ptr ` words (ix_table ix)"

text \<open>The entry the table has for a key.\<close>

definition look :: "heap \<Rightarrow> table \<Rightarrow> bytes \<Rightarrow> nat option" where
  "look h t key =
     map_option entry_ptr (find (\<lambda>w. w \<noteq> 0 \<and> key_at h (entry_ptr w) = key) (concat (t_buckets t)))"

abbreviation looking :: "rphase \<Rightarrow> bool" where
  "looking r \<equiv> (\<forall>x. r \<noteq> Answered x) \<and> r \<noteq> Outside"

text \<open>Recording, for a reader that is looking for \<open>key\<close>.\<close>

definition observe :: "bytes \<Rightarrow> race \<Rightarrow> race" where
  "observe key s =
     (if looking (ra_reader s)
      then s\<lparr>ra_seen := insert (look (ra_heap s) (ix_table (ra_index s)) key) (ra_seen s),
             ra_pinned := ra_pinned s \<union> pointers (ra_index s)\<rparr>
      else s)"

definition set_index :: "index \<Rightarrow> wphase \<Rightarrow> race \<Rightarrow> race" where
  "set_index ix wp s =
     s\<lparr>ra_index := ix, ra_writer := wp,
       ra_retired := (case ra_writer s of Growing _ _ \<Rightarrow> ra_retired s @ [ix_table (ra_index s)] | _ \<Rightarrow> ra_retired s),
       ra_bumps := ra_bumps s + of_bool (looking (ra_reader s) \<and> ix_moving ix \<noteq> ix_moving (ra_index s))\<rparr>"

fun under_way :: "wphase \<Rightarrow> nat set" where
  "under_way (Growing _ w) = {entry_ptr w}"
| "under_way (Placing _ w) = {entry_ptr w}"
| "under_way (Moving _ _ w) = {entry_ptr w}"
| "under_way _ = {}"

definition same_data :: "nat set \<Rightarrow> heap \<Rightarrow> heap \<Rightarrow> bool" where
  "same_data P h h' \<longleftrightarrow> (\<forall>p \<in> P. key_at h' p = key_at h p \<and> hash_at h' p = hash_at h p)"

text \<open>
  The steps, for a lookup of \<open>key\<close>. Memory may change in any way but one: entries keep their key and
  hash while the index or the writer owns them, and what the reader could reach its guard keeps.
\<close>

inductive rstep :: "(bytes \<Rightarrow> u64) \<Rightarrow> bytes \<Rightarrow> race \<Rightarrow> race \<Rightarrow> bool" for H key where
  call: "ra_reader s = Outside \<Longrightarrow> rstep H key s (observe key (s\<lparr>ra_reader := Top, ra_seen := {}, ra_pinned := {}, ra_bumps := 0\<rparr>))"
| read: "rstep H key s (reader_step (H key) key s)"
| insert: "ra_writer s = Idle \<Longrightarrow> insertable H (ra_heap s) p \<Longrightarrow> p \<notin> pointers (ra_index s) \<Longrightarrow>
    insert_begin (ra_heap s) (H (key_at (ra_heap s) p)) p (ra_index s) = Some (ix, wp) \<Longrightarrow>
    rstep H key s (observe key (set_index ix wp s))"
| writes: "writer_step (ra_heap s) (ra_index s) (ra_writer s) = Some (ix, wp) \<Longrightarrow>
    rstep H key s (observe key (set_index ix wp s))"
| remove: "ra_writer s = Idle \<Longrightarrow> index_remove (ra_heap s) (H k) k (ra_index s) = (r, ix) \<Longrightarrow>
    rstep H key s (observe key (set_index ix Idle s))"
| remove_same: "ra_writer s = Idle \<Longrightarrow>
    index_remove_if_same (ra_heap s) (H (key_at (ra_heap s) p)) p (ra_index s) = (r, ix) \<Longrightarrow>
    rstep H key s (observe key (set_index ix Idle s))"
| reuse: "same_data (pointers (ra_index s) \<union> under_way (ra_writer s) \<union> ra_pinned s) (ra_heap s) h \<Longrightarrow>
    rstep H key s (s\<lparr>ra_heap := h\<rparr>)"

definition race_new :: race where
  "race_new = \<lparr>ra_heap = Map.empty, ra_index = index_new, ra_retired = [], ra_writer = Idle, ra_reader = Outside,
     ra_seen = {}, ra_pinned = {}, ra_bumps = 0\<rparr>"

section \<open>What the writer keeps\<close>

abbreviation unlocked :: "u64 \<Rightarrow> bool" where
  "unlocked m \<equiv> m AND 1 = 0"

lemma unlocked_step: "unlocked (m + 1) \<longleftrightarrow> \<not> unlocked m"
  by (auto simp: and_one_eq mod2_eq_if split: if_splits)

text \<open>The words of a table belong to entries of different keys, filed under their hashes.\<close>

definition words_ok :: "(bytes \<Rightarrow> u64) \<Rightarrow> heap \<Rightarrow> u64 set \<Rightarrow> bool" where
  "words_ok H h W \<longleftrightarrow> (\<forall>w \<in> W. hash_at h (entry_ptr w) = H (key_at h (entry_ptr w))) \<and>
     (\<forall>w \<in> W. \<forall>w' \<in> W. key_at h (entry_ptr w) = key_at h (entry_ptr w') \<longrightarrow> w = w')"

definition fresh_word :: "(bytes \<Rightarrow> u64) \<Rightarrow> heap \<Rightarrow> u64 set \<Rightarrow> u64 \<Rightarrow> u64 \<Rightarrow> bool" where
  "fresh_word H h W hash w \<longleftrightarrow> w \<noteq> 0 \<and> hash_at h (entry_ptr w) = hash \<and> hash = H (key_at h (entry_ptr w)) \<and>
     tag_of_word w = tag_of hash \<and> (\<forall>v \<in> W. key_at h (entry_ptr v) \<noteq> key_at h (entry_ptr w))"

lemma words_ok_insert: "words_ok H h W \<Longrightarrow> fresh_word H h W hash w \<Longrightarrow> words_ok H h (insert w W)"
  by (auto simp: words_ok_def fresh_word_def)

lemma fresh_word_new: "fresh_word H h W hash w \<Longrightarrow> w \<notin> W"
  by (auto simp: fresh_word_def)

definition writer_ok :: "(bytes \<Rightarrow> u64) \<Rightarrow> heap \<Rightarrow> index \<Rightarrow> wphase \<Rightarrow> bool" where
  "writer_ok H h ix wp \<longleftrightarrow> words_ok H h (words (ix_table ix)) \<and> (\<exists>k. tab_shape k (ix_table ix)) \<and>
     (case wp of
        Idle \<Rightarrow> tab_ok h (ix_table ix) \<and> unlocked (ix_moving ix)
      | Growing hash w \<Rightarrow> tab_ok h (ix_table ix) \<and> unlocked (ix_moving ix) \<and> fresh_word H h (words (ix_table ix)) hash w
      | Placing hash w \<Rightarrow> tab_ok h (ix_table ix) \<and> unlocked (ix_moving ix) \<and> fresh_word H h (words (ix_table ix)) hash w
      | Moving rp d w \<Rightarrow> \<not> unlocked (ix_moving ix) \<and> hole h (words (ix_table ix)) d (ix_table ix) \<and> distinct rp \<and> d \<notin> set rp \<and>
          (\<exists>hash. hops (ix_table ix) (candidates (ix_table ix) hash) rp (fst d) \<and> fresh_word H h (words (ix_table ix)) hash w)
      | Settling \<Rightarrow> tab_ok h (ix_table ix) \<and> \<not> unlocked (ix_moving ix))"

text \<open>While no displacement is under way, keys stay in the slot they are in until they are gone.\<close>

definition stays :: "heap \<Rightarrow> u16 \<Rightarrow> bytes \<Rightarrow> table \<Rightarrow> table \<Rightarrow> bool" where
  "stays h tag key t t' \<longleftrightarrow> slots t' = slots t \<and> t_mask t' = t_mask t \<and>
     (\<forall>s \<in> slots t. slot_matches h t tag key s \<longrightarrow> slot_matches h t' tag key s \<or> look h t' key = None)"

lemma set_buckets: "tab_shape k t \<Longrightarrow> set (concat (t_buckets t)) = load t ` slots t"
  by (simp only: concat_buckets set_map set_positions)

lemma look_None: "tab_shape k t \<Longrightarrow> look h t key = None \<longleftrightarrow> (\<forall>w \<in> words t. key_at h (entry_ptr w) \<noteq> key)"
  by (auto simp: look_def find_None_iff words_def set_buckets simp del: set_concat)

lemma look_SomeD:
  assumes "tab_shape k t" and "look h t key = Some p"
  shows "\<exists>w \<in> words t. entry_ptr w = p \<and> key_at h p = key"
proof -
  obtain v where v: "find (\<lambda>w. w \<noteq> 0 \<and> key_at h (entry_ptr w) = key) (concat (t_buckets t)) = Some v" "p = entry_ptr v"
    using assms(2) by (auto simp: look_def)
  then have "v \<in> set (concat (t_buckets t))" "v \<noteq> 0" "key_at h p = key"
    using nth_mem by (fastforce simp: find_Some_iff simp del: set_concat)+
  with v(2) show ?thesis by (auto simp: words_def set_buckets [OF assms(1)] simp del: set_concat)
qed

lemma look_Some:
  assumes "tab_shape k t" and "words_ok H h (words t)" and "w \<in> words t" and "key_at h (entry_ptr w) = key"
  shows "look h t key = Some (entry_ptr w)"
proof -
  obtain p where p: "look h t key = Some p" using assms look_None by (metis option.exhaust)
  then obtain v where "v \<in> words t" "entry_ptr v = p" "key_at h p = key" using look_SomeD [OF assms(1)] by blast
  with assms(2-4) p show ?thesis by (auto simp: words_ok_def)
qed

lemma words_store:
  assumes "tab_shape k t" and "d \<in> slots t"
  shows "words (store d w t) = {v. v \<noteq> 0 \<and> (v = w \<or> (\<exists>s \<in> slots t. s \<noteq> d \<and> load t s = v))}"
  using assms(2) by (auto simp: words_def load_store [OF assms])

lemma stays_fill:
  assumes "tab_shape k t" and "d \<in> slots t" and "load t d = 0"
  shows "stays h tag key t (store d w t)"
  using assms by (auto simp: stays_def slot_matches_def load_store [OF assms(1,2)])

lemma stays_refl [simp]: "stays h tag key t t"
  by (simp add: stays_def)

subsection \<open>Steps within an insertion\<close>

lemma move_ok:
  assumes "writer_ok H h ix (Moving (s # rp) d w)"
  shows "writer_ok H h (ix\<lparr>ix_table := store d (load (ix_table ix) s) (ix_table ix)\<rparr>) (Moving rp s w)"
proof -
  let ?t = "ix_table ix" let ?t' = "store d (load ?t s) ?t"
  obtain k hash where a: "words_ok H h (words ?t)" "tab_shape k ?t" "\<not> unlocked (ix_moving ix)" "hole h (words ?t) d ?t"
      "distinct (s # rp)" "d \<notin> set (s # rp)" "hops ?t (candidates ?t hash) (s # rp) (fst d)" "fresh_word H h (words ?t) hash w"
    using assms by (auto simp: writer_ok_def)
  have d: "d \<in> slots ?t" "words (store d 0 ?t) = words ?t" using a(4) by (simp_all add: hole_def)
  have s: "s \<in> slots ?t" "s \<noteq> d" "load ?t s \<noteq> 0" "fst d = alt ?t (fst s) (tag_of_word (load ?t s))"
      "hops ?t (candidates ?t hash) rp (fst s)" using a(6,7) by auto
  have W: "words ?t' = words ?t"
    using d(2) s(1-3) unfolding words_store [OF a(2) d(1)] by blast
  have "hole h (words ?t) s ?t'" by (rule hole_move [OF a(2,4) s(1-4)])
  moreover have "hops ?t' (candidates ?t hash) rp (fst s)" using hops_store [OF a(2) d(1) _ s(5)] a(6) by simp
  ultimately show ?thesis using a W tab_shape_store [OF a(2) d(1)] by (auto simp: writer_ok_def)
qed

lemma last_move_ok:
  assumes "writer_ok H h ix (Moving [] d w)"
  shows "writer_ok H h (ix\<lparr>ix_table := store d w (ix_table ix)\<rparr>) Settling"
proof -
  let ?t = "ix_table ix"
  obtain k hash where a: "words_ok H h (words ?t)" "tab_shape k ?t" "\<not> unlocked (ix_moving ix)" "hole h (words ?t) d ?t"
      "fst d \<in> candidates ?t hash" "fresh_word H h (words ?t) hash w"
    using assms by (auto simp: writer_ok_def)
  have d: "d \<in> slots ?t" "tab_ok h (store d 0 ?t)" "words (store d 0 ?t) = words ?t" using a(4) by (simp_all add: hole_def)
  have w: "w \<noteq> 0" "w \<notin> words ?t" "tag_of_word w = tag_of (hash_at h (entry_ptr w))" "fst d \<in> candidates ?t (hash_at h (entry_ptr w))"
    using a(5,6) fresh_word_new by (auto simp: fresh_word_def)
  have "load (store d 0 ?t) d = 0" using load_store [OF a(2) d(1) d(1)] by simp
  moreover have "0 \<notin> words ?t" by (simp add: words_def)
  ultimately have "tab_ok h (store d w ?t)" "words (store d w ?t) = insert w (words ?t)"
    using tab_ok_fill [OF d(2), of d w] d w store_store_load [OF a(2) d(1)] by simp_all
  with a words_ok_insert [OF a(1,6)] tab_shape_store [OF a(2) d(1)] show ?thesis by (auto simp: writer_ok_def)
qed

lemma fill_ok:
  assumes "writer_ok H h ix (Placing hash w)" and "b \<in> candidates (ix_table ix) hash"
    and "empty_slot (get_bucket (ix_table ix) b) = Some i"
  shows "writer_ok H h (ix\<lparr>ix_table := store (b, i) w (ix_table ix), ix_len := n\<rparr>) Idle \<and>
    stays h tag key (ix_table ix) (store (b, i) w (ix_table ix))"
proof -
  let ?t = "ix_table ix"
  obtain k where a: "words_ok H h (words ?t)" "tab_shape k ?t" "unlocked (ix_moving ix)" "tab_ok h ?t" "fresh_word H h (words ?t) hash w"
    using assms(1) by (auto simp: writer_ok_def)
  have "unat b < length (t_buckets ?t)" using assms(2) home_less [OF a(2)] alt_less [OF a(2)] by (auto simp: candidates_def)
  then have s: "(b, i) \<in> slots ?t" "load ?t (b, i) = 0" using empty_slot_Some [OF a(2) _ assms(3)] by auto
  have w: "w \<noteq> 0" "w \<notin> words ?t" "tag_of_word w = tag_of (hash_at h (entry_ptr w))" "b \<in> candidates ?t (hash_at h (entry_ptr w))"
    using a(5) assms(2) fresh_word_new by (auto simp: fresh_word_def)
  moreover have "0 \<notin> words ?t" by (simp add: words_def)
  ultimately have "tab_ok h (store (b, i) w ?t)" "words (store (b, i) w ?t) = insert w (words ?t)"
    using tab_ok_fill [OF a(4) s(1), of w] s(2) by simp_all
  with a words_ok_insert [OF a(1,5)] tab_shape_store [OF a(2) s(1)] stays_fill [OF a(2) s] show ?thesis
    by (auto simp: writer_ok_def)
qed

lemma path_ok:
  assumes "writer_ok H h ix (Placing hash w)" and "b1 = home (ix_table ix) hash" and "b2 = alt (ix_table ix) b1 (tag_of hash)"
    and "empty_slot (get_bucket (ix_table ix) b1) = None" and "empty_slot (get_bucket (ix_table ix) b2) = None"
    and "find_path ix (ix_table ix) b1 b2 = (Some (path, dest), ix1)"
  shows "writer_ok H h (ix1\<lparr>ix_moving := ix_moving ix1 + 1\<rparr>) (Moving (rev path) dest w)"
proof -
  let ?t = "ix_table ix"
  obtain k where a: "words_ok H h (words ?t)" "tab_shape k ?t" "unlocked (ix_moving ix)" "tab_ok h ?t" "fresh_word H h (words ?t) hash w"
    using assms(1) by (auto simp: writer_ok_def)
  have ix1: "ix_table ix1 = ?t" "ix_moving ix1 = ix_moving ix"
    and wk: "\<exists>seed. walks ?t b1 b2 MAX_WALKS (ix_kick_seed ix) = (seed, Some (path, dest))"
    using assms(6) by (auto simp: find_path_def split: prod.splits)
  have c: "candidates ?t hash = {b1, b2}" using assms(2,3) by (auto simp: candidates_def)
  have "unat b < length (t_buckets ?t) \<and> empty_slot (get_bucket ?t b) = None" if "b \<in> {b1, b2}" for b
    using that assms(2-5) home_less [OF a(2)] alt_less [OF a(2)] by auto
  with wk walks_path [OF a(2)] have p: "distinct path" "hops ?t {b1, b2} (rev path) (fst dest)" "dest \<in> slots ?t" "load ?t dest = 0"
    by blast+
  have "hole h (words ?t) dest ?t"
    using tab_ok_clear [OF a(4) p(3)] p(3,4) by (auto simp: hole_def words_def)
  moreover have "dest \<notin> set (rev path)" using hops_occupied [OF p(2)] p(4) by blast
  moreover have "hops ?t (candidates ?t hash) (rev path) (fst dest)" using p(2) by (simp only: c)
  then have "\<exists>hash. hops ?t (candidates ?t hash) (rev path) (fst dest) \<and> fresh_word H h (words ?t) hash w" using a(5) by blast
  ultimately show ?thesis using a(1-3) p(1) ix1 by (auto simp: writer_ok_def unlocked_step)
qed

lemma grow_ok:
  assumes "writer_ok H h ix (Growing hash w)" and "grow h ix = Some ix'"
  shows "writer_ok H h ix' (Placing hash w) \<and> ix_moving ix' = ix_moving ix \<and> words (ix_table ix') = words (ix_table ix)"
  using assms grow_spec [OF assms(2)] tab_ok_shape by (auto simp: writer_ok_def)

lemma place_ok:
  assumes "writer_ok H h ix (Placing hash w)" and "writer_step h ix (Placing hash w) = Some (ix', wp')"
  shows "writer_ok H h ix' wp' \<and> slots (ix_table ix') = slots (ix_table ix) \<and>
    (ix_moving ix' = ix_moving ix \<and> stays h tag key (ix_table ix) (ix_table ix') \<or> ix_moving ix' = ix_moving ix + 1)"
proof -
  let ?t = "ix_table ix" let ?b1 = "home ?t hash" let ?b2 = "alt ?t ?b1 (tag_of hash)"
  have c: "?b1 \<in> candidates ?t hash" "?b2 \<in> candidates ?t hash" by (simp_all add: candidates_def)
  note st = assms(2) [simplified, unfolded Let_def]
  consider (home) i where "empty_slot (get_bucket ?t ?b1) = Some i"
    | (alt) i where "empty_slot (get_bucket ?t ?b1) = None" "empty_slot (get_bucket ?t ?b2) = Some i"
    | (stuck) ix1 where "empty_slot (get_bucket ?t ?b1) = None" "empty_slot (get_bucket ?t ?b2) = None"
        "find_path ix ?t ?b1 ?b2 = (None, ix1)"
    | (path) path dest ix1 where "empty_slot (get_bucket ?t ?b1) = None" "empty_slot (get_bucket ?t ?b2) = None"
        "find_path ix ?t ?b1 ?b2 = (Some (path, dest), ix1)"
    by (metis (no_types, opaque_lifting) option.exhaust prod.exhaust)
  then show ?thesis
  proof cases
    case home
    with st fill_ok [OF assms(1) c(1) home] show ?thesis by auto
  next
    case alt
    with st fill_ok [OF assms(1) c(2) alt(2)] show ?thesis by auto
  next
    case stuck
    then have "ix' = ix1" "wp' = Growing hash w" "ix_table ix1 = ?t" "ix_moving ix1 = ix_moving ix"
      using st by (auto simp: find_path_def split: prod.splits)
    with assms(1) show ?thesis by (simp add: writer_ok_def)
  next
    case path
    then have "ix' = ix1\<lparr>ix_moving := ix_moving ix1 + 1\<rparr>" "wp' = Moving (rev path) dest w" "ix_moving ix1 = ix_moving ix"
      "ix_table ix1 = ?t" using st by (auto simp: find_path_def split: prod.splits)
    with path_ok [OF assms(1) refl refl path] show ?thesis by simp
  qed
qed

lemma writer_step_ok:
  assumes "writer_ok H h ix wp" and "writer_step h ix wp = Some (ix', wp')"
  shows "writer_ok H h ix' wp' \<and> (ix_moving ix' = ix_moving ix \<or> ix_moving ix' = ix_moving ix + 1) \<and>
    ((\<forall>x y. wp \<noteq> Growing x y) \<longrightarrow> slots (ix_table ix') = slots (ix_table ix)) \<and>
    (unlocked (ix_moving ix) \<and> ix_moving ix' = ix_moving ix \<and> (\<forall>x y. wp \<noteq> Growing x y) \<longrightarrow>
       stays h tag key (ix_table ix) (ix_table ix'))"
proof (cases wp)
  case Idle
  with assms show ?thesis by simp
next
  case (Growing hash w)
  with assms(2) obtain "grow h ix = Some ix'" "wp' = Placing hash w" by auto
  with grow_ok [OF assms(1) [unfolded Growing]] Growing show ?thesis by auto
next
  case (Placing hash w)
  have n: "ix_moving ix + 1 \<noteq> ix_moving ix" by simp
  from place_ok [OF assms(1) [unfolded Placing] assms(2) [unfolded Placing], of tag key] n show ?thesis by metis
next
  case (Moving rp d w)
  have "\<not> unlocked (ix_moving ix)" using assms(1) Moving by (simp add: writer_ok_def)
  moreover have "writer_ok H h ix' wp' \<and> ix_moving ix' = ix_moving ix \<and> slots (ix_table ix') = slots (ix_table ix)"
  proof (cases rp)
    case Nil
    with assms Moving last_move_ok [of H h ix d w] show ?thesis by auto
  next
    case (Cons s rp')
    with assms Moving move_ok [of H h ix s rp' d w] show ?thesis by auto
  qed
  ultimately show ?thesis by simp
next
  case Settling
  with assms have "ix' = ix\<lparr>ix_moving := ix_moving ix + 1, ix_len := ix_len ix + 1\<rparr>" "wp' = Idle" by auto
  with assms(1) Settling show ?thesis by (simp add: writer_ok_def unlocked_step)
qed

subsection \<open>Operations\<close>

lemma insert_begin_ok:
  assumes "writer_ok H h ix Idle" and "insertable H h p" and "p \<notin> pointers ix"
    and "insert_begin h (H (key_at h p)) p ix = Some (ix', wp')"
  shows "writer_ok H h ix' wp' \<and> ix_moving ix' = ix_moving ix \<and> stays h (tag_of (H key)) key (ix_table ix) (ix_table ix')"
proof -
  let ?t = "ix_table ix" and ?k = "key_at h p"
  obtain k where a: "words_ok H h (words ?t)" "tab_shape k ?t" "unlocked (ix_moving ix)" "tab_ok h ?t"
    using assms(1) by (auto simp: writer_ok_def)
  have p: "hash_at h p = H ?k" "0 < p" "p < 2 ^ 48" using assms(2) by (auto simp: insertable_def)
  obtain w where w: "slot_word (tag_of (H ?k)) p = Some w" "tag_of_word w = tag_of (H ?k)" "entry_ptr w = p"
    using slot_word_Some [OF p(3)] by blast
  have w0: "w \<noteq> 0" using w(3) p(2) by (auto simp: entry_ptr_def)
  have new: "w \<notin> words ?t" using assms(3) w(3) by (auto simp: pointers_def)
  show ?thesis
  proof (cases "find_key h ?t (H ?k) ?k")
    case None
    then have "\<forall>v \<in> words ?t. key_at h (entry_ptr v) \<noteq> ?k"
      using find_key_None [OF a(2,4) None] a(1) unfolding words_ok_def by metis
    with w w0 p a None assms(4) show ?thesis
      by (auto simp: insert_begin_def writer_ok_def fresh_word_def split: if_splits)
  next
    case (Some r)
    obtain b i v where r: "r = (b, i, v)" by (cases r)
    have v: "(b, i) \<in> slots ?t" "load ?t (b, i) = v" "v \<in> words ?t" "key_at h (entry_ptr v) = ?k"
      using find_key_Some [OF a(2) Some [unfolded r]] by auto
    have ix': "ix' = ix\<lparr>ix_table := store (b, i) w ?t\<rparr>" "wp' = Idle" using assms(4) w(1) Some r by (auto simp: insert_begin_def)
    have hv: "hash_at h (entry_ptr v) = H ?k" using a(1) v(3,4) by (auto simp: words_ok_def)
    have "v \<noteq> 0" using v(3) by (simp add: words_def)
    then have "well_placed h ?t (b, i)" using a(4) v(1,2) by (auto simp: tab_ok_def)
    then have "b \<in> candidates ?t (hash_at h (entry_ptr w))" using v(2) hv w(3) p(1) by (simp add: well_placed_def)
    with tab_ok_fill [OF a(4) v(1) w0] new w p(1) v(2)
    have f: "tab_ok h (store (b, i) w ?t)" "words (store (b, i) w ?t) = insert w (words ?t - {v})" by simp_all
    have "\<forall>u \<in> words ?t - {v}. key_at h (entry_ptr u) \<noteq> ?k" using a(1) v(3,4) by (auto simp: words_ok_def)
    then have "words_ok H h (insert w (words ?t - {v}))" using a(1) w(3) p(1) by (auto simp: words_ok_def)
    moreover have "stays h (tag_of (H key)) key ?t (store (b, i) w ?t)"
      using v(2,4) w w0 by (auto simp: stays_def slot_matches_def load_store [OF a(2) v(1)])
    ultimately show ?thesis using a f tab_shape_store [OF a(2) v(1)] ix' by (auto simp: writer_ok_def)
  qed
qed

lemma clear_ok:
  assumes "writer_ok H h ix Idle" and "find_key h (ix_table ix) hash k = Some (b, i, w)"
  shows "writer_ok H h (ix\<lparr>ix_table := store (b, i) 0 (ix_table ix), ix_len := n\<rparr>) Idle \<and>
    stays h tag key (ix_table ix) (store (b, i) 0 (ix_table ix))"
proof -
  let ?t = "ix_table ix"
  obtain j where a: "words_ok H h (words ?t)" "tab_shape j ?t" "unlocked (ix_moving ix)" "tab_ok h ?t"
    using assms(1) by (auto simp: writer_ok_def)
  have v: "(b, i) \<in> slots ?t" "load ?t (b, i) = w" "w \<in> words ?t" "key_at h (entry_ptr w) = k"
    using find_key_Some [OF a(2) assms(2)] by auto
  have c: "tab_ok h (store (b, i) 0 ?t)" "words (store (b, i) 0 ?t) = words ?t - {w}"
    using tab_ok_clear [OF a(4) v(1)] v(2) by simp_all
  note sh = tab_shape_store [OF a(2) v(1), of 0]
  have "look h (store (b, i) 0 ?t) k = None"
    using a(1) v(3,4) c(2) look_None [OF sh, of h k] by (auto simp: words_ok_def)
  then have "stays h tag key ?t (store (b, i) 0 ?t)"
    using v(2,4) by (auto simp: stays_def slot_matches_def load_store [OF a(2) v(1)])
  moreover have "words_ok H h (words ?t - {w})" using a(1) by (auto simp: words_ok_def)
  ultimately show ?thesis using a c sh by (auto simp: writer_ok_def)
qed

lemma remove_ok:
  assumes "writer_ok H h ix Idle" and "index_remove h hash k ix = (r, ix') \<or> index_remove_if_same h hash p ix = (r, ix')"
  shows "writer_ok H h ix' Idle \<and> ix_moving ix' = ix_moving ix \<and> stays h tag key (ix_table ix) (ix_table ix')"
  using assms clear_ok [OF assms(1)]
  by (auto simp: index_remove_def index_remove_if_same_def split: option.splits if_splits)

subsection \<open>Memory\<close>

lemma same_data_mono: "same_data P h h' \<Longrightarrow> Q \<subseteq> P \<Longrightarrow> same_data Q h h'"
  by (auto simp: same_data_def)

lemma same_dataD: "same_data P h h' \<Longrightarrow> p \<in> P \<Longrightarrow> key_at h' p = key_at h p \<and> hash_at h' p = hash_at h p"
  by (simp add: same_data_def)

lemma tab_ok_heap:
  assumes "tab_ok h t" and "same_data (entry_ptr ` words t) h h'"
  shows "tab_ok h' t"
proof -
  have "well_placed h' t s = well_placed h t s" if "s \<in> slots t" "load t s \<noteq> 0" for s
  proof -
    have "load t s \<in> words t" using that by (auto simp: words_def)
    with assms(2) show ?thesis by (simp add: same_data_def well_placed_def)
  qed
  with assms(1) show ?thesis by (auto simp: tab_ok_def)
qed

lemma writer_ok_heap:
  assumes "writer_ok H h ix wp" and "same_data (pointers ix \<union> under_way wp) h h'"
  shows "writer_ok H h' ix wp"
proof -
  let ?W = "words (ix_table ix)"
  have w: "same_data (entry_ptr ` ?W) h h'" using same_data_mono [OF assms(2)] by (simp add: pointers_def)
  then have e: "key_at h' (entry_ptr v) = key_at h (entry_ptr v)" "hash_at h' (entry_ptr v) = hash_at h (entry_ptr v)" if "v \<in> ?W" for v
    using that by (auto simp: same_data_def)
  have ok: "words_ok H h' ?W" using assms(1) e by (auto simp: writer_ok_def words_ok_def)
  have tab: "tab_ok h t \<Longrightarrow> words t = ?W \<Longrightarrow> tab_ok h' t" for t using tab_ok_heap w by metis
  have fresh: "fresh_word H h ?W hash v \<Longrightarrow> entry_ptr v \<in> under_way wp \<Longrightarrow> fresh_word H h' ?W hash v" for hash v
    using same_dataD [OF assms(2), of "entry_ptr v"] e by (auto simp: fresh_word_def)
  have hl: "hole h ?W d (ix_table ix) \<Longrightarrow> hole h' ?W d (ix_table ix)" for d using tab by (auto simp: hole_def)
  show ?thesis
  proof (cases wp)
    case (Moving rp d v)
    with assms(1) obtain hash where m: "\<not> unlocked (ix_moving ix)" "hole h ?W d (ix_table ix)" "distinct rp" "d \<notin> set rp"
        "hops (ix_table ix) (candidates (ix_table ix) hash) rp (fst d)" "fresh_word H h ?W hash v" "\<exists>k. tab_shape k (ix_table ix)"
      by (auto simp: writer_ok_def)
    have "fresh_word H h' ?W hash v" using fresh [OF m(6)] Moving by simp
    with m ok hl [OF m(2)] Moving show ?thesis by (simp add: writer_ok_def) blast
  qed (use assms(1) ok tab fresh in \<open>auto simp: writer_ok_def\<close>)
qed

lemma look_heap:
  assumes "tab_shape k t" and "same_data (entry_ptr ` words t) h h'"
  shows "look h' t key = look h t key"
proof -
  have "find (\<lambda>w. w \<noteq> 0 \<and> key_at h' (entry_ptr w) = key) (concat (t_buckets t)) =
      find (\<lambda>w. w \<noteq> 0 \<and> key_at h (entry_ptr w) = key) (concat (t_buckets t))"
    using assms by (intro find_cong) (auto simp: same_data_def words_def set_buckets simp del: set_concat)
  then show ?thesis by (simp add: look_def)
qed

section \<open>What the reader relies on\<close>

definition wanted :: "heap \<Rightarrow> u16 \<Rightarrow> bytes \<Rightarrow> u64 \<Rightarrow> bool" where
  "wanted h tag key w \<longleftrightarrow> w \<noteq> 0 \<and> tag_of_word w = tag \<and> key_at h (entry_ptr w) = key"

lemma slot_matches_wanted: "slot_matches h t tag key sl \<longleftrightarrow> wanted h tag key (load t sl)"
  by (simp add: slot_matches_def wanted_def)

lemma find_masked_words:
  assumes "length ws \<le> 32"
  shows "case find_masked h key ws (match_mask tag ws) of
      None \<Rightarrow> \<forall>w \<in> set ws. \<not> wanted h tag key w
    | Some (i, w) \<Rightarrow> w \<in> set ws \<and> wanted h tag key w"
proof -
  let ?P = "\<lambda>i. bit (match_mask tag ws) i \<and> key_at h (entry_ptr (ws ! i)) = key"
  have P: "?P i \<longleftrightarrow> i < length ws \<and> wanted h tag key (ws ! i)" for i
    by (auto simp: bit_match_mask [OF assms] wanted_def)
  show ?thesis
  proof (cases "find ?P [0..<32]")
    case None
    then have n: "\<not> ?P i" if "i < 32" for i using that by (auto simp: find_None_iff)
    have "\<not> wanted h tag key (ws ! i)" if "i < length ws" for i using n [of i] that assms P [of i] by linarith
    then have "\<forall>w \<in> set ws. \<not> wanted h tag key w" by (auto simp: in_set_conv_nth)
    with None show ?thesis by (simp add: find_masked_eq)
  next
    case (Some i)
    then have "?P i" by (auto simp: find_Some_iff)
    with Some P show ?thesis by (simp add: find_masked_eq)
  qed
qed

text \<open>
  A word the reader may come upon: its entry is kept, and if it is the one for the key then the key
  had it at some moment of the lookup.
\<close>

definition good :: "bytes \<Rightarrow> race \<Rightarrow> u64 \<Rightarrow> bool" where
  "good key s w \<longleftrightarrow> w \<noteq> 0 \<longrightarrow> entry_ptr w \<in> ra_pinned s \<and>
     (key_at (ra_heap s) (entry_ptr w) = key \<longrightarrow> Some (entry_ptr w) \<in> ra_seen s)"

text \<open>The key was absent for a moment, or its word is among those loaded, or in a slot still to be loaded.\<close>

definition in_reach :: "u64 \<Rightarrow> bytes \<Rightarrow> race \<Rightarrow> nat \<Rightarrow> u64 \<Rightarrow> u64 list \<Rightarrow> u64 list \<Rightarrow> bool" where
  "in_reach hash key s n b ws bs \<longleftrightarrow> None \<in> ra_seen s \<or>
     (\<exists>w \<in> set ws. wanted (ra_heap s) (tag_of hash) key w) \<or>
     (\<exists>sl \<in> slots (table_at s n). slot_matches (ra_heap s) (table_at s n) (tag_of hash) key sl \<and>
        (fst sl \<in> set bs \<or> fst sl = b \<and> length ws \<le> snd sl))"

lemma in_reach_mono:
  assumes "in_reach hash key s n b ws bs" and "ra_heap s' = ra_heap s" and "ra_seen s \<subseteq> ra_seen s'"
    and "table_at s' n = table_at s n \<or>
      stays (ra_heap s) (tag_of hash) key (table_at s n) (table_at s' n) \<and> look (ra_heap s) (table_at s' n) key \<in> ra_seen s'"
  shows "in_reach hash key s' n b ws bs"
  using assms(1) assms(4)
proof (elim disjE)
  assume "table_at s' n = table_at s n"
  with assms(1-3) show ?thesis by (auto simp: in_reach_def)
next
  assume st: "stays (ra_heap s) (tag_of hash) key (table_at s n) (table_at s' n) \<and> look (ra_heap s) (table_at s' n) key \<in> ra_seen s'"
  from assms(1) show ?thesis unfolding in_reach_def
  proof (elim disjE)
    assume "\<exists>sl \<in> slots (table_at s n). slot_matches (ra_heap s) (table_at s n) (tag_of hash) key sl \<and>
        (fst sl \<in> set bs \<or> fst sl = b \<and> length ws \<le> snd sl)"
    then obtain sl where sl: "sl \<in> slots (table_at s n)" "slot_matches (ra_heap s) (table_at s n) (tag_of hash) key sl"
        "fst sl \<in> set bs \<or> fst sl = b \<and> length ws \<le> snd sl" by blast
    with st have "sl \<in> slots (table_at s' n)"
        "slot_matches (ra_heap s) (table_at s' n) (tag_of hash) key sl \<or> None \<in> ra_seen s'"
      unfolding stays_def by metis+
    with sl(3) assms(2) show "None \<in> ra_seen s' \<or> (\<exists>w \<in> set ws. wanted (ra_heap s') (tag_of hash) key w) \<or>
        (\<exists>sl \<in> slots (table_at s' n). slot_matches (ra_heap s') (table_at s' n) (tag_of hash) key sl \<and>
          (fst sl \<in> set bs \<or> fst sl = b \<and> length ws \<le> snd sl))" by auto
  qed (use assms(2,3) in auto)
qed

definition reader_ok :: "u64 \<Rightarrow> bytes \<Rightarrow> race \<Rightarrow> bool" where
  "reader_ok hash key s \<longleftrightarrow>
     (case ra_reader s of
        Outside \<Rightarrow> True
      | Top \<Rightarrow> True
      | Locating seq \<Rightarrow> ix_moving (ra_index s) = seq + of_nat (ra_bumps s)
      | Scanning seq n b ws bs \<Rightarrow>
          ix_moving (ra_index s) = seq + of_nat (ra_bumps s) \<and> n \<le> length (ra_retired s) \<and> length ws \<le> SLOTS \<and>
          set (b # bs) \<times> {..<SLOTS} \<subseteq> slots (table_at s n) \<and>
          (\<forall>sl \<in> slots (table_at s n). good key s (load (table_at s n) sl)) \<and> (\<forall>w \<in> set ws. good key s w) \<and>
          (unlocked seq \<and> ra_bumps s = 0 \<longrightarrow> in_reach hash key s n b ws bs)
      | Rechecking seq \<Rightarrow>
          ix_moving (ra_index s) = seq + of_nat (ra_bumps s) \<and> (unlocked seq \<and> ra_bumps s = 0 \<longrightarrow> None \<in> ra_seen s)
      | Answered r \<Rightarrow> ra_bumps s < 2 ^ 64 \<longrightarrow> r \<in> ra_seen s)"

definition race_ok :: "(bytes \<Rightarrow> u64) \<Rightarrow> bytes \<Rightarrow> race \<Rightarrow> bool" where
  "race_ok H key s \<longleftrightarrow> writer_ok H (ra_heap s) (ra_index s) (ra_writer s) \<and> reader_ok (H key) key s \<and>
     (looking (ra_reader s) \<longrightarrow> look (ra_heap s) (ix_table (ra_index s)) key \<in> ra_seen s \<and> pointers (ra_index s) \<subseteq> ra_pinned s)"

lemma current_good:
  assumes "writer_ok H (ra_heap s) (ra_index s) wp" and "look (ra_heap s) (ix_table (ra_index s)) key \<in> ra_seen s"
    and "pointers (ra_index s) \<subseteq> ra_pinned s" and "sl \<in> slots (ix_table (ra_index s))"
  shows "good key s (load (ix_table (ra_index s)) sl)"
proof -
  let ?t = "ix_table (ra_index s)" let ?w = "load ?t sl"
  obtain k where k: "tab_shape k ?t" "words_ok H (ra_heap s) (words ?t)" using assms(1) by (auto simp: writer_ok_def)
  have "?w \<in> words ?t" if "?w \<noteq> 0" using that assms(4) by (auto simp: words_def)
  with assms(2,3) look_Some [OF k] show ?thesis by (auto simp: good_def pointers_def)
qed

subsection \<open>The writer's steps\<close>

lemma looking_fields:
  assumes "looking (ra_reader s)"
  shows "ra_heap (observe key (set_index ix wp s)) = ra_heap s" "ra_index (observe key (set_index ix wp s)) = ix"
    "ra_reader (observe key (set_index ix wp s)) = ra_reader s" "ra_writer (observe key (set_index ix wp s)) = wp"
    "ra_bumps (observe key (set_index ix wp s)) = ra_bumps s + of_bool (ix_moving ix \<noteq> ix_moving (ra_index s))"
    "ra_seen (observe key (set_index ix wp s)) = insert (look (ra_heap s) (ix_table ix) key) (ra_seen s)"
    "ra_pinned (observe key (set_index ix wp s)) = ra_pinned s \<union> pointers ix"
    "ra_retired (observe key (set_index ix wp s)) =
       (case ra_writer s of Growing _ _ \<Rightarrow> ra_retired s @ [ix_table (ra_index s)] | _ \<Rightarrow> ra_retired s)"
  using assms by (simp_all add: observe_def set_index_def)

text \<open>The table a reader holds is another one only when it is the current one and the writer stored into it.\<close>

lemma held_table:
  assumes "n \<le> length (ra_retired s)" and "looking (ra_reader s)"
  shows "table_at (observe key (set_index ix wp s)) n = table_at s n \<or>
    table_at s n = ix_table (ra_index s) \<and> table_at (observe key (set_index ix wp s)) n = ix_table ix \<and>
    (\<forall>x y. ra_writer s \<noteq> Growing x y)"
proof (cases "n < length (ra_retired s) \<or> (\<exists>x y. ra_writer s = Growing x y)")
  case True
  with assms show ?thesis by (auto simp: table_at_def looking_fields(8) nth_append split: wphase.split)
next
  case False
  with assms have "ra_retired (observe key (set_index ix wp s)) = ra_retired s"
    by (auto simp: looking_fields(8) split: wphase.split)
  with False assms(2) show ?thesis by (simp add: table_at_def looking_fields(2))
qed

lemma scan_index_ok:
  assumes "race_ok H key s" and "writer_ok H (ra_heap s) ix wp" and "ra_reader s = Scanning seq n b ws bs"
    and "(\<forall>x y. ra_writer s \<noteq> Growing x y) \<Longrightarrow> slots (ix_table ix) = slots (ix_table (ra_index s))"
    and "unlocked (ix_moving (ra_index s)) \<Longrightarrow> ix_moving ix = ix_moving (ra_index s) \<Longrightarrow> (\<forall>x y. ra_writer s \<noteq> Growing x y) \<Longrightarrow>
      stays (ra_heap s) (tag_of (H key)) key (ix_table (ra_index s)) (ix_table ix)"
  shows "slots (table_at (observe key (set_index ix wp s)) n) = slots (table_at s n) \<and>
    (\<forall>sl \<in> slots (table_at s n). good key (observe key (set_index ix wp s)) (load (table_at (observe key (set_index ix wp s)) n) sl)) \<and>
    (unlocked seq \<and> ra_bumps (observe key (set_index ix wp s)) = 0 \<longrightarrow> in_reach (H key) key (observe key (set_index ix wp s)) n b ws bs)"
proof -
  let ?s = "observe key (set_index ix wp s)" and ?T = "table_at s n"
  have lk: "looking (ra_reader s)" by (simp add: assms(3))
  note f = looking_fields [OF lk, of key ix wp]
  have r: "ix_moving (ra_index s) = seq + of_nat (ra_bumps s)" "n \<le> length (ra_retired s)"
      "\<forall>sl \<in> slots ?T. good key s (load ?T sl)" "unlocked seq \<and> ra_bumps s = 0 \<longrightarrow> in_reach (H key) key s n b ws bs"
    using assms(1) unfolding race_ok_def reader_ok_def assms(3) by simp_all
  have b0: "ra_bumps s = 0" "ix_moving ix = ix_moving (ra_index s)" if "ra_bumps ?s = 0" using that by (simp_all add: f)
  from held_table [OF r(2) lk, of key ix wp] show ?thesis
  proof (elim disjE conjE)
    assume same: "table_at ?s n = ?T"
    then have "in_reach (H key) key ?s n b ws bs" if "in_reach (H key) key s n b ws bs"
      using in_reach_mono [OF that, of ?s] by (auto simp: f)
    moreover have "good key s w \<Longrightarrow> good key ?s w" for w by (auto simp: good_def f)
    ultimately show ?thesis using same r b0 by metis
  next
    assume cur: "?T = ix_table (ra_index s)" "table_at ?s n = ix_table ix" "\<forall>x y. ra_writer s \<noteq> Growing x y"
    have "in_reach (H key) key ?s n b ws bs" if u: "unlocked seq" "ra_bumps ?s = 0"
    proof -
      have "stays (ra_heap s) (tag_of (H key)) key ?T (table_at ?s n)" using assms(5) b0 [OF u(2)] u(1) r(1) cur by simp
      with r(4) u(1) b0(1) [OF u(2)] cur show ?thesis using in_reach_mono [of "H key" key s n b ws bs ?s] by (auto simp: f)
    qed
    moreover have "good key ?s (load (ix_table ix) sl)" if "sl \<in> slots (ix_table ix)" for sl
      using current_good [of H ?s wp key sl] assms(2) that by (simp add: f)
    ultimately show ?thesis using assms(4) cur by simp
  qed
qed

lemma race_ok_index:
  assumes "race_ok H key s" and "writer_ok H (ra_heap s) ix wp"
    and "ix_moving ix = ix_moving (ra_index s) \<or> ix_moving ix = ix_moving (ra_index s) + 1"
    and "(\<forall>x y. ra_writer s \<noteq> Growing x y) \<Longrightarrow> slots (ix_table ix) = slots (ix_table (ra_index s))"
    and "unlocked (ix_moving (ra_index s)) \<Longrightarrow> ix_moving ix = ix_moving (ra_index s) \<Longrightarrow> (\<forall>x y. ra_writer s \<noteq> Growing x y) \<Longrightarrow>
      stays (ra_heap s) (tag_of (H key)) key (ix_table (ra_index s)) (ix_table ix)"
  shows "race_ok H key (observe key (set_index ix wp s))"
proof (cases "looking (ra_reader s)")
  case False
  then show ?thesis using assms(1,2)
    by (cases "ra_reader s") (auto simp: race_ok_def reader_ok_def observe_def set_index_def)
next
  case True
  let ?s = "observe key (set_index ix wp s)"
  note f = looking_fields [OF True, of key ix wp]
  have mv: "ix_moving ix = seq + of_nat (ra_bumps ?s)" if "ix_moving (ra_index s) = seq + of_nat (ra_bumps s)" for seq
    using that assms(3) by (auto simp: f)
  have b0: "ra_bumps s = 0" if "ra_bumps ?s = 0" using that by (simp add: f)
  have "reader_ok (H key) key ?s"
  proof (cases "ra_reader s")
    case (Scanning seq n b ws bs)
    then have r: "ix_moving (ra_index s) = seq + of_nat (ra_bumps s)" "n \<le> length (ra_retired s)" "length ws \<le> SLOTS"
        "set (b # bs) \<times> {..<SLOTS} \<subseteq> slots (table_at s n)" "\<forall>w \<in> set ws. good key s w"
      using assms(1) unfolding race_ok_def reader_ok_def by simp_all
    have "n \<le> length (ra_retired ?s)" using r(2) f(8) by (auto split: wphase.split)
    moreover have "\<forall>w \<in> set ws. good key ?s w" using r(5) by (simp add: good_def f(1,6,7))
    ultimately have g: "n \<le> length (ra_retired ?s) \<and> (\<forall>w \<in> set ws. good key ?s w)" ..
    have "slots (table_at ?s n) = slots (table_at s n) \<and> (\<forall>sl \<in> slots (table_at s n). good key ?s (load (table_at ?s n) sl)) \<and>
        (unlocked seq \<and> ra_bumps ?s = 0 \<longrightarrow> in_reach (H key) key ?s n b ws bs)"
      by (rule scan_index_ok [OF assms(1,2) Scanning assms(4,5)])
    with g r(3,4) mv [OF r(1)] show ?thesis unfolding reader_ok_def f(3) Scanning by (simp add: f(2))
  next
    case (Locating seq)
    with assms(1) mv show ?thesis by (simp add: race_ok_def reader_ok_def f(2,3))
  next
    case (Rechecking seq)
    then have "ix_moving (ra_index s) = seq + of_nat (ra_bumps s)" "unlocked seq \<and> ra_bumps s = 0 \<longrightarrow> None \<in> ra_seen s"
      using assms(1) by (simp_all add: race_ok_def reader_ok_def)
    with mv b0 show ?thesis unfolding reader_ok_def f(3) Rechecking by (simp add: f(2,6))
  qed (use True in \<open>simp_all add: reader_ok_def f(3)\<close>)
  with assms(2) True show ?thesis by (simp add: race_ok_def f)
qed

lemma race_ok_reuse:
  assumes "race_ok H key s" and "same_data (pointers (ra_index s) \<union> under_way (ra_writer s) \<union> ra_pinned s) (ra_heap s) h"
  shows "race_ok H key (s\<lparr>ra_heap := h\<rparr>)"
proof -
  let ?s = "s\<lparr>ra_heap := h\<rparr>" let ?t = "ix_table (ra_index s)"
  obtain k where k: "tab_shape k ?t" using assms(1) by (auto simp: race_ok_def writer_ok_def)
  have w: "writer_ok H h (ra_index s) (ra_writer s)"
    using assms writer_ok_heap same_data_mono by (fastforce simp: race_ok_def)
  have l: "look h ?t key = look (ra_heap s) ?t key"
    using look_heap [OF k same_data_mono [OF assms(2)]] by (auto simp: pointers_def)
  have pin: "key_at h p = key_at (ra_heap s) p" if "p \<in> ra_pinned s" for p using same_dataD [OF assms(2)] that by simp
  have g: "good key s w \<Longrightarrow> good key ?s w" for w using pin by (auto simp: good_def)
  have wt: "good key s w \<Longrightarrow> wanted h tag key w = wanted (ra_heap s) tag key w" for w tag
    using pin by (auto simp: good_def wanted_def)
  have at [simp]: "table_at ?s n = table_at s n" for n by (simp add: table_at_def)
  have "reader_ok (H key) key ?s"
  proof (cases "ra_reader s")
    case (Scanning seq n b ws bs)
    then have r: "\<forall>sl \<in> slots (table_at s n). good key s (load (table_at s n) sl)" "\<forall>w \<in> set ws. good key s w"
      using assms(1) by (simp_all add: race_ok_def reader_ok_def)
    then have "in_reach (H key) key ?s n b ws bs = in_reach (H key) key s n b ws bs"
      unfolding in_reach_def slot_matches_wanted by (simp add: wt)
    with r g assms(1) Scanning show ?thesis by (simp add: race_ok_def reader_ok_def)
  qed (use assms(1) in \<open>simp_all add: race_ok_def reader_ok_def\<close>)
  with w l assms(1) show ?thesis by (simp add: race_ok_def)
qed

subsection \<open>The reader's own steps\<close>

text \<open>Between displacements a key that is there is in one of its two buckets.\<close>

lemma present_in_candidates:
  assumes "writer_ok H h ix wp" and "unlocked (ix_moving ix)" and "look h (ix_table ix) key \<noteq> None"
  shows "\<exists>sl \<in> slots (ix_table ix). slot_matches h (ix_table ix) (tag_of (H key)) key sl \<and> fst sl \<in> candidates (ix_table ix) (H key)"
proof -
  let ?t = "ix_table ix"
  have ok: "tab_ok h ?t" "words_ok H h (words ?t)" using assms(1,2) by (auto simp: writer_ok_def split: wphase.splits)
  obtain k where "tab_shape k ?t" using assms(1) by (auto simp: writer_ok_def)
  with assms(3) obtain w where w: "w \<in> words ?t" "key_at h (entry_ptr w) = key" using look_None by metis
  then obtain sl where sl: "sl \<in> slots ?t" "load ?t sl = w" "w \<noteq> 0" by (auto simp: words_def)
  with ok(1) have "well_placed h ?t sl" by (auto simp: tab_ok_def)
  moreover have "hash_at h (entry_ptr w) = H key" using ok(2) w by (auto simp: words_ok_def)
  ultimately have "slot_matches h ?t (tag_of (H key)) key sl \<and> fst sl \<in> candidates ?t (H key)"
    using sl w(2) by (simp add: well_placed_def slot_matches_def)
  with sl(1) show ?thesis by blast
qed

lemma locate_ok:
  assumes "race_ok H key s" and "ra_reader s = Locating seq"
  shows "race_ok H key (reader_step (H key) key s)"
proof -
  let ?t = "ix_table (ra_index s)" let ?b1 = "home ?t (H key)" let ?b2 = "alt ?t ?b1 (tag_of (H key))"
  let ?s = "reader_step (H key) key s"
  have s: "?s = s\<lparr>ra_reader := Scanning seq (length (ra_retired s)) ?b1 [] [?b2]\<rparr>"
    by (simp add: reader_step_def assms(2) Let_def)
  have a: "writer_ok H (ra_heap s) (ra_index s) (ra_writer s)" "ix_moving (ra_index s) = seq + of_nat (ra_bumps s)"
      "look (ra_heap s) ?t key \<in> ra_seen s" "pointers (ra_index s) \<subseteq> ra_pinned s"
    using assms by (simp_all add: race_ok_def reader_ok_def)
  obtain k where k: "tab_shape k ?t" using a(1) by (auto simp: writer_ok_def)
  have at: "table_at ?s (length (ra_retired s)) = ?t" by (simp add: s table_at_def)
  have sub: "set [?b1, ?b2] \<times> {..<SLOTS} \<subseteq> slots ?t"
    using home_less [OF k] alt_less [OF k] by (auto simp: slots_def)
  have good: "good key ?s (load ?t sl)" if "sl \<in> slots ?t" for sl
    using current_good [OF a(1,3,4) that] by (simp add: good_def s)
  have "in_reach (H key) key ?s (length (ra_retired s)) ?b1 [] [?b2]" if u: "unlocked seq" "ra_bumps s = 0"
  proof (cases "look (ra_heap s) ?t key")
    case None
    with a(3) show ?thesis by (simp add: in_reach_def s)
  next
    case (Some p)
    with present_in_candidates [OF a(1), of key] a(2) u obtain sl where
        "sl \<in> slots ?t" "slot_matches (ra_heap s) ?t (tag_of (H key)) key sl" "fst sl \<in> candidates ?t (H key)" by auto
    then show ?thesis unfolding in_reach_def at by (auto simp: s candidates_def)
  qed
  with a sub good at show ?thesis unfolding race_ok_def reader_ok_def by (simp add: s)
qed

lemma scan_load_ok:
  assumes "race_ok H key s" and "ra_reader s = Scanning seq n b ws bs" and "length ws < SLOTS"
  shows "race_ok H key (reader_step (H key) key s)"
proof -
  let ?w = "load (table_at s n) (b, length ws)"
  let ?s = "reader_step (H key) key s"
  have s: "?s = s\<lparr>ra_reader := Scanning seq n b (ws @ [?w]) bs\<rparr>" by (simp add: reader_step_def assms(2,3))
  have at [simp]: "table_at ?s m = table_at s m" for m by (simp add: s table_at_def)
  have r: "set (b # bs) \<times> {..<SLOTS} \<subseteq> slots (table_at s n)" "\<forall>sl \<in> slots (table_at s n). good key s (load (table_at s n) sl)"
      "\<forall>w \<in> set ws. good key s w" "unlocked seq \<and> ra_bumps s = 0 \<longrightarrow> in_reach (H key) key s n b ws bs"
    using assms(1,2) by (simp_all add: race_ok_def reader_ok_def)
  have g: "good key ?s = good key s" by (simp add: fun_eq_iff good_def s)
  have "(b, length ws) \<in> slots (table_at s n)" using r(1) assms(3) by auto
  with r(2) have gw: "good key s ?w" by blast
  have "in_reach (H key) key ?s n b (ws @ [?w]) bs" if "in_reach (H key) key s n b ws bs"
    using that unfolding in_reach_def slot_matches_wanted
  proof (elim disjE bexE conjE)
    fix sl assume sl: "sl \<in> slots (table_at s n)" "wanted (ra_heap s) (tag_of (H key)) key (load (table_at s n) sl)"
      "fst sl = b" "length ws \<le> snd sl"
    show "None \<in> ra_seen ?s \<or> (\<exists>w \<in> set (ws @ [?w]). wanted (ra_heap ?s) (tag_of (H key)) key w) \<or>
      (\<exists>sl \<in> slots (table_at ?s n). wanted (ra_heap ?s) (tag_of (H key)) key (load (table_at ?s n) sl) \<and>
        (fst sl \<in> set bs \<or> fst sl = b \<and> length (ws @ [?w]) \<le> snd sl))"
    proof (cases "snd sl = length ws")
      case True
      with sl have "?w = load (table_at s n) sl" by (metis prod.collapse)
      with sl(2) show ?thesis by (simp add: s)
    next
      case False
      with sl have "length (ws @ [?w]) \<le> snd sl" by simp
      with sl show ?thesis unfolding at by (auto simp: s)
    qed
  qed (auto simp: s table_at_def)
  with assms r gw g show ?thesis unfolding race_ok_def reader_ok_def at by (simp add: s)
qed

lemma scan_done_ok:
  assumes "race_ok H key s" and "ra_reader s = Scanning seq n b ws bs" and "length ws = SLOTS"
  shows "race_ok H key (reader_step (H key) key s)"
proof -
  let ?s = "reader_step (H key) key s"
  let ?f = "find_masked (ra_heap s) key ws (match_mask (tag_of (H key)) ws)"
  have r: "ix_moving (ra_index s) = seq + of_nat (ra_bumps s)" "n \<le> length (ra_retired s)"
      "set (b # bs) \<times> {..<SLOTS} \<subseteq> slots (table_at s n)" "\<forall>sl \<in> slots (table_at s n). good key s (load (table_at s n) sl)"
      "\<forall>w \<in> set ws. good key s w" "unlocked seq \<and> ra_bumps s = 0 \<longrightarrow> in_reach (H key) key s n b ws bs"
    using assms(1,2) by (simp_all add: race_ok_def reader_ok_def)
  have "length ws \<le> 32" by (simp add: assms(3) SLOTS_def)
  note f = find_masked_words [OF this, of "ra_heap s" "tag_of (H key)" key]
  show ?thesis
  proof (cases ?f)
    case (Some iw)
    obtain i w where iw: "iw = (i, w)" by (cases iw)
    with f Some have "w \<in> set ws" "wanted (ra_heap s) (tag_of (H key)) key w" by simp_all
    with r(5) have "Some (entry_ptr w) \<in> ra_seen s" by (auto simp: good_def wanted_def)
    with Some iw assms show ?thesis by (simp add: reader_step_def race_ok_def reader_ok_def)
  next
    case None
    with f have no: "\<forall>w \<in> set ws. \<not> wanted (ra_heap s) (tag_of (H key)) key w" by simp
    have bnd: "snd sl < SLOTS" if "sl \<in> slots t" for sl t using that by (auto simp: slots_def)
    have nxt: "None \<in> ra_seen s \<or> (\<exists>sl \<in> slots (table_at s n).
        slot_matches (ra_heap s) (table_at s n) (tag_of (H key)) key sl \<and> fst sl \<in> set bs)" if "unlocked seq \<and> ra_bumps s = 0"
      using r(6) that no bnd assms(3) unfolding in_reach_def by fastforce
    show ?thesis
    proof (cases bs)
      case Nil
      with None assms nxt r(1) show ?thesis by (simp add: reader_step_def race_ok_def reader_ok_def)
    next
      case (Cons b' bs')
      have s: "?s = s\<lparr>ra_reader := Scanning seq n b' [] bs'\<rparr>" using None assms Cons by (simp add: reader_step_def)
      have at: "table_at ?s m = table_at s m" for m by (simp add: s table_at_def)
      have g: "good key ?s = good key s" by (simp add: fun_eq_iff good_def s)
      have "in_reach (H key) key ?s n b' [] bs'" if "unlocked seq \<and> ra_bumps s = 0"
        using nxt [OF that] unfolding in_reach_def at Cons by (auto simp: s)
      moreover have "set (b' # bs') \<times> {..<SLOTS} \<subseteq> slots (table_at s n)" using r(3) by (auto simp: Cons)
      ultimately show ?thesis using r(1,2,4) assms(1,2) unfolding race_ok_def reader_ok_def at g by (simp add: s)
    qed
  qed
qed

lemma recheck_ok:
  assumes "race_ok H key s" and "ra_reader s = Rechecking seq"
  shows "race_ok H key (reader_step (H key) key s)"
proof -
  have a: "ix_moving (ra_index s) = seq + of_nat (ra_bumps s)" "unlocked seq \<and> ra_bumps s = 0 \<longrightarrow> None \<in> ra_seen s"
    using assms by (simp_all add: race_ok_def reader_ok_def)
  have "ra_bumps s = 0" if "ix_moving (ra_index s) = seq" "ra_bumps s < 2 ^ 64"
  proof -
    have "(of_nat (ra_bumps s) :: u64) = 0" using a(1) that(1) by simp
    then have "unat (of_nat (ra_bumps s) :: u64) = 0" by simp
    with that(2) show ?thesis by (simp add: unat_of_nat take_bit_eq_mod)
  qed
  with a assms show ?thesis by (auto simp: reader_step_def race_ok_def reader_ok_def)
qed

lemma reader_step_ok:
  assumes "race_ok H key s"
  shows "race_ok H key (reader_step (H key) key s)"
proof (cases "ra_reader s")
  case (Scanning seq n b ws bs)
  then have "length ws \<le> SLOTS" using assms by (simp add: race_ok_def reader_ok_def)
  with Scanning assms scan_load_ok scan_done_ok show ?thesis by (metis le_neq_implies_less)
qed (use assms locate_ok recheck_ok in \<open>auto simp: reader_step_def race_ok_def reader_ok_def\<close>)


section \<open>Every interleaving\<close>

lemma rstep_ok:
  assumes "rstep H key s s'" and "race_ok H key s"
  shows "race_ok H key s'"
  using assms
proof (induction rule: rstep.induct)
  case (call s)
  then show ?case by (simp add: race_ok_def reader_ok_def observe_def)
next
  case (read s)
  then show ?case by (rule reader_step_ok)
next
  case (insert s p ix wp)
  then have "writer_ok H (ra_heap s) (ra_index s) Idle" by (simp add: race_ok_def)
  from insert_begin_ok [OF this insert(2-4), where key = key] insert(1,5) show ?case
    by (intro race_ok_index) (auto simp: stays_def)
next
  case (writes s ix wp)
  then have "writer_ok H (ra_heap s) (ra_index s) (ra_writer s)" by (simp add: race_ok_def)
  from writer_step_ok [OF this writes(1), of "tag_of (H key)" key] writes(2) show ?case
    by (intro race_ok_index) simp_all
next
  case (remove s k r ix)
  then have "writer_ok H (ra_heap s) (ra_index s) Idle" by (simp add: race_ok_def)
  from remove_ok [OF this disjI1, OF remove(2), of "tag_of (H key)" key] remove(3) show ?case
    by (intro race_ok_index) (simp_all add: stays_def)
next
  case (remove_same s p r ix)
  then have "writer_ok H (ra_heap s) (ra_index s) Idle" by (simp add: race_ok_def)
  from remove_ok [OF this disjI2, OF remove_same(2), of "tag_of (H key)" key] remove_same(3) show ?case
    by (intro race_ok_index) (simp_all add: stays_def)
next
  case (reuse s h)
  then show ?case by (intro race_ok_reuse)
qed

interpretation racing: step_invariant "rstep H key" "race_ok H key" for H key
  by unfold_locales (rule rstep_ok)

lemma race_new_ok: "race_ok H key race_new"
proof -
  have "table_fits MIN_BUCKETS" using table_fits_pow [of 6] by (simp add: MIN_BUCKETS_def)
  with table_new_ok table_new_shape have "tab_ok Map.empty (table_new MIN_BUCKETS)" "words (table_new MIN_BUCKETS) = {}"
      "\<exists>k. tab_shape k (table_new MIN_BUCKETS)" by blast+
  then show ?thesis by (simp add: race_ok_def race_new_def reader_ok_def writer_ok_def index_new_def words_ok_def)
qed


text \<open>The steps within one call: none of them starts outside.\<close>

definition in_call :: "(bytes \<Rightarrow> u64) \<Rightarrow> bytes \<Rightarrow> race \<Rightarrow> race \<Rightarrow> bool" where
  "in_call H key s s' \<longleftrightarrow> rstep H key s s' \<and> ra_reader s \<noteq> Outside"

lemma seen_step:
  assumes "rstep H key s s'" and "ra_reader s' \<noteq> Outside" and "v \<in> ra_seen s'"
  shows "v \<in> ra_seen s \<and> ra_reader s \<noteq> Outside \<or>
    looking (ra_reader s') \<and> v = look (ra_heap s') (ix_table (ra_index s')) key"
  using assms
proof (induction rule: rstep.induct)
  case (read s)
  then show ?case
    by (auto simp: reader_step_def Let_def split: rphase.splits if_splits option.splits list.splits)
qed (auto simp: observe_def set_index_def split: if_splits)

text \<open>What is recorded did happen: every value seen was the key's at a moment of this call.\<close>

lemma seen_moment:
  assumes "(rstep H key)\<^sup>*\<^sup>* race_new s" and "ra_reader s \<noteq> Outside" and "v \<in> ra_seen s"
  shows "\<exists>m. (rstep H key)\<^sup>*\<^sup>* race_new m \<and> looking (ra_reader m) \<and> (in_call H key)\<^sup>*\<^sup>* m s \<and>
    look (ra_heap m) (ix_table (ra_index m)) key = v"
  using assms
proof (induction rule: rtranclp_induct)
  case base
  then show ?case by (simp add: race_new_def)
next
  case (step s s')
  from seen_step [OF step(2,4,5)] show ?case
  proof (elim disjE)
    assume v: "v \<in> ra_seen s \<and> ra_reader s \<noteq> Outside"
    with step(3) obtain m where "(rstep H key)\<^sup>*\<^sup>* race_new m \<and> looking (ra_reader m) \<and> (in_call H key)\<^sup>*\<^sup>* m s \<and>
      look (ra_heap m) (ix_table (ra_index m)) key = v" by blast
    moreover have "in_call H key s s'" using step(2) v by (simp add: in_call_def)
    ultimately show ?thesis using rtranclp.rtrancl_into_rtrancl [of "in_call H key" m s s'] by blast
  next
    assume "looking (ra_reader s') \<and> v = look (ra_heap s') (ix_table (ra_index s')) key"
    moreover have "(rstep H key)\<^sup>*\<^sup>* race_new s'" using step(1,2) by (rule rtranclp.rtrancl_into_rtrancl)
    ultimately show ?thesis by blast
  qed
qed

text \<open>
  C5. A lookup that races with the writer returns what the index held for the key at some moment between
  its call and its return, whatever is inserted, replaced, displaced, removed or grown meanwhile and
  however freed entries are used again: a key that is never absent is never missed, and an entry
  returned was the key's. The seqlock's counter must not go round once within one attempt.
\<close>

theorem lookup_linearizes:
  assumes "(rstep H key)\<^sup>*\<^sup>* race_new s" and "ra_reader s = Answered r" and "ra_bumps s < 2 ^ 64"
  shows "\<exists>m. (rstep H key)\<^sup>*\<^sup>* race_new m \<and> looking (ra_reader m) \<and> (in_call H key)\<^sup>*\<^sup>* m s \<and>
    look (ra_heap m) (ix_table (ra_index m)) key = r"
proof -
  have "r \<in> ra_seen s"
    using racing.reach_inv [OF assms(1) race_new_ok] assms(2,3) by (simp add: race_ok_def reader_ok_def)
  with seen_moment [OF assms(1)] assms(2) show ?thesis by simp
qed

section \<open>Nobody beside them\<close>

lemma scan_bucket:
  assumes "ra_reader s = Scanning seq n b [] bs" and "j \<le> SLOTS"
  shows "(reader_step hash key ^^ j) s = s\<lparr>ra_reader := Scanning seq n b (map (\<lambda>i. load (table_at s n) (b, i)) [0..<j]) bs\<rparr>"
  using assms(2)
proof (induction j)
  case 0
  then show ?case using assms(1) by simp
next
  case (Suc j)
  then show ?case by (simp add: reader_step_def table_at_def)
qed

lemma scan_bucket_whole:
  assumes "ra_reader s = Scanning seq n b [] bs"
  shows "(reader_step hash key ^^ Suc SLOTS) s =
    (case find_bucket (ra_heap s) (table_at s n) (tag_of hash) key b of
       Some (_, _, w) \<Rightarrow> s\<lparr>ra_reader := Answered (Some (entry_ptr w))\<rparr>
     | None \<Rightarrow> (case bs of b' # bs' \<Rightarrow> s\<lparr>ra_reader := Scanning seq n b' [] bs'\<rparr> | [] \<Rightarrow> s\<lparr>ra_reader := Rechecking seq\<rparr>))"
  by (auto simp: scan_bucket [OF assms order_refl] find_bucket_def reader_step_def Let_def split: option.splits list.splits)

text \<open>A lookup beside which the writer rests comes back, with what the undisturbed lookup finds.\<close>

lemma lookup_alone:
  assumes "ra_reader s = Top" and "unlocked (ix_moving (ra_index s))"
  shows "\<exists>n \<le> 21. (reader_step hash key ^^ n) s =
    s\<lparr>ra_reader := Answered (index_get (ra_heap s) (ra_index s) hash key), ra_bumps := 0\<rparr>"
proof -
  let ?R = "reader_step hash key" and ?t = "ix_table (ra_index s)" and ?m = "ix_moving (ra_index s)" and ?l = "length (ra_retired s)"
  let ?b1 = "home ?t hash" let ?b2 = "alt ?t ?b1 (tag_of hash)"
  let ?s = "\<lambda>r. s\<lparr>ra_reader := r, ra_bumps := 0\<rparr>"
  have at: "table_at (?s r) ?l = ?t" for r by (simp add: table_at_def)
  have a: "(?R ^^ 2) s = ?s (Scanning ?m ?l ?b1 [] [?b2])"
    using assms(1) by (simp add: numeral_2_eq_2 reader_step_def Let_def)
  have b: "(?R ^^ 9) (?s (Scanning ?m ?l b [] bs)) =
    (case find_bucket (ra_heap s) ?t (tag_of hash) key b of
       Some (_, _, w) \<Rightarrow> ?s (Answered (Some (entry_ptr w)))
     | None \<Rightarrow> (case bs of b' # bs' \<Rightarrow> ?s (Scanning ?m ?l b' [] bs') | [] \<Rightarrow> ?s (Rechecking ?m)))" for b bs
    using scan_bucket_whole [of "?s (Scanning ?m ?l b [] bs)" ?m ?l b bs hash key]
    by (simp add: SLOTS_def at del: funpow.simps split: option.split list.split)
  have c: "?R (?s (Rechecking ?m)) = ?s (Answered None)" using assms(2) by (simp add: reader_step_def)
  have one: "(?R ^^ 11) s = (?R ^^ 9) ((?R ^^ 2) s)" using funpow_add [of 9 2 ?R] by simp
  have both: "(?R ^^ 20) s = (?R ^^ 9) ((?R ^^ 11) s)" using funpow_add [of 9 11 ?R] by simp
  have miss: "(?R ^^ 21) s = ?R ((?R ^^ 20) s)" using funpow_add [of 1 20 ?R] by simp
  show ?thesis
  proof (cases "find_bucket (ra_heap s) ?t (tag_of hash) key ?b1")
    case (Some r)
    then have "(?R ^^ 11) s = ?s (Answered (index_get (ra_heap s) (ra_index s) hash key))"
      unfolding one a b by (auto simp: index_get_def get_pass_def find_key_def Let_def split: prod.split)
    then show ?thesis by (intro exI [of _ 11]) simp
  next
    case None
    then have s1: "(?R ^^ 11) s = ?s (Scanning ?m ?l ?b2 [] [])" unfolding one a b by simp
    show ?thesis
    proof (cases "find_bucket (ra_heap s) ?t (tag_of hash) key ?b2")
      case (Some r)
      with None have "(?R ^^ 20) s = ?s (Answered (index_get (ra_heap s) (ra_index s) hash key))"
        unfolding both s1 b by (auto simp: index_get_def get_pass_def find_key_def Let_def split: prod.split)
      then show ?thesis by (intro exI [of _ 20]) simp
    next
      case n2: None
      then have "(?R ^^ 20) s = ?s (Rechecking ?m)" unfolding both s1 b by simp
      with None n2 c have "(?R ^^ 21) s = ?s (Answered (index_get (ra_heap s) (ra_index s) hash key))"
        unfolding miss by (simp add: index_get_def get_pass_def find_key_def Let_def)
      then show ?thesis by (intro exI [of _ 21]) simp
    qed
  qed
qed

text \<open>
  The writer's steps one after another are the insertion of the sequential index: whatever that
  returns, they leave.
\<close>

definition writer_run :: "heap \<Rightarrow> index \<times> wphase \<Rightarrow> index \<times> wphase \<Rightarrow> bool" where
  "writer_run h c c' \<longleftrightarrow> writer_step h (fst c) (snd c) = Some c'"

lemma run_path:
  "(writer_run h)\<^sup>*\<^sup>* (ix, Moving rp d w)
     (case fold (\<lambda>s (d, t). (s, store d (load t s) t)) rp (d, ix_table ix) of (d', t) \<Rightarrow>
        (ix\<lparr>ix_moving := ix_moving ix + 1, ix_table := store d' w t, ix_len := ix_len ix + 1\<rparr>, Idle))"
proof (induction rp arbitrary: d ix)
  case Nil
  have "writer_run h (ix, Moving [] d w) (ix\<lparr>ix_table := store d w (ix_table ix)\<rparr>, Settling)"
    "writer_run h (ix\<lparr>ix_table := store d w (ix_table ix)\<rparr>, Settling)
      (ix\<lparr>ix_moving := ix_moving ix + 1, ix_table := store d w (ix_table ix), ix_len := ix_len ix + 1\<rparr>, Idle)"
    by (simp_all add: writer_run_def)
  then show ?case by (auto intro: converse_rtranclp_into_rtranclp)
next
  case (Cons s rp)
  have "writer_run h (ix, Moving (s # rp) d w) (ix\<lparr>ix_table := store d (load (ix_table ix) s) (ix_table ix)\<rparr>, Moving rp s w)"
    by (simp add: writer_run_def)
  from converse_rtranclp_into_rtranclp [of "writer_run h", OF this Cons.IH] show ?case by (simp add: case_prod_unfold)
qed

lemma run_place:
  assumes "place ix (ix_table ix) hash w True = (ok, t, ix')"
  shows "(writer_run h)\<^sup>*\<^sup>* (ix, Placing hash w)
    (if ok then (ix'\<lparr>ix_table := t, ix_len := ix_len ix' + 1\<rparr>, Idle) else (ix', Growing hash w))"
proof -
  let ?t = "ix_table ix" let ?b1 = "home ?t hash" let ?b2 = "alt ?t ?b1 (tag_of hash)"
  show ?thesis
  proof (cases "empty_slot (get_bucket ?t ?b1) = None \<and> empty_slot (get_bucket ?t ?b2) = None")
    case False
    with assms have "writer_run h (ix, Placing hash w) (ix'\<lparr>ix_table := t, ix_len := ix_len ix' + 1\<rparr>, Idle)" "ok"
      by (auto simp: writer_run_def place_def Let_def split: option.splits)
    then show ?thesis by simp
  next
    case True
    obtain f ix1 where f: "find_path ix ?t ?b1 ?b2 = (f, ix1)" by force
    show ?thesis
    proof (cases f)
      case None
      with True f assms have "writer_run h (ix, Placing hash w) (ix', Growing hash w)" "\<not> ok"
        by (auto simp: writer_run_def place_def Let_def)
      then show ?thesis by simp
    next
      case (Some pd)
      obtain path dest where pd: "pd = (path, dest)" by (cases pd)
      have t1: "ix_table ix1 = ?t" using f by (auto simp: find_path_def split: prod.splits)
      have "writer_run h (ix, Placing hash w) (ix1\<lparr>ix_moving := ix_moving ix1 + 1\<rparr>, Moving (rev path) dest w)"
        using True f Some pd by (simp add: writer_run_def Let_def)
      note run = converse_rtranclp_into_rtranclp [of "writer_run h", OF this run_path]
      obtain d u where a: "apply_path path dest ?t = (d, u)" by (cases "apply_path path dest ?t")
      with assms True f Some pd have e: "ok" "t = store d w u" "ix' = ix1\<lparr>ix_moving := ix_moving ix1 + 1 + 1\<rparr>"
        by (simp_all add: place_def Let_def)
      from run a t1 show ?thesis by (simp add: apply_path_def e)
    qed
  qed
qed

lemma run_insert_loop:
  assumes "insert_loop h hash w ix = Some ix'"
  shows "(writer_run h)\<^sup>*\<^sup>* (ix, Placing hash w) (ix', Idle)" (is "?P h hash w ix ix'")
proof (induction rule: insert_loop.raw_induct [where P = ?P, OF _ assms])
  case (1 loop h hash w ix ix')
  obtain ok t ix1 where p: "place ix (ix_table ix) hash w True = (ok, t, ix1)" by (cases "place ix (ix_table ix) hash w True") auto
  note run = run_place [OF p, of h]
  show ?case
  proof (cases ok)
    case True
    with 1(2) p run show ?thesis by simp
  next
    case False
    with 1(2) p obtain ix2 where g: "grow h ix1 = Some ix2" "loop h hash w ix2 = Some ix'" by (auto simp: Option.bind_eq_Some_conv)
    then have "writer_run h (ix1, Growing hash w) (ix2, Placing hash w)" by (simp add: writer_run_def)
    with run False have "(writer_run h)\<^sup>*\<^sup>* (ix, Placing hash w) (ix2, Placing hash w)" by (simp add: rtranclp.rtrancl_into_rtrancl)
    with 1(1) [OF g(2)] show ?thesis by (rule rtranclp_trans [rotated])
  qed
qed

lemma insert_runs:
  assumes "index_insert h hash p ix = Some (r, ix')"
  shows "\<exists>c. insert_begin h hash p ix = Some c \<and> (writer_run h)\<^sup>*\<^sup>* c (ix', Idle)"
proof -
  have g: "(writer_run h)\<^sup>*\<^sup>* (ix, Growing hash w) c" if "grow h ix = Some ix1" "(writer_run h)\<^sup>*\<^sup>* (ix1, Placing hash w) c" for ix1 w c
  proof (rule converse_rtranclp_into_rtranclp [OF _ that(2)])
    show "writer_run h (ix, Growing hash w) (ix1, Placing hash w)" using that(1) by (simp add: writer_run_def)
  qed
  obtain w where w: "slot_word (tag_of hash) p = Some w" using assms by (auto simp: index_insert_def Let_def split: option.splits)
  show ?thesis
  proof (cases "find_key h (ix_table ix) hash (key_at h p)")
    case None
    with w assms obtain ix1 where "(if ix_len ix * 8 \<ge> length (t_buckets (ix_table ix)) * SLOTS * MAX_LOAD_EIGHTHS then grow h ix else Some ix) = Some ix1"
        "insert_loop h hash w ix1 = Some ix'" by (auto simp: index_insert_def Let_def Option.bind_eq_Some_conv)
    with None w g [OF _ run_insert_loop] show ?thesis
      by (auto simp: insert_begin_def dest: run_insert_loop split: if_splits)
  next
    case (Some r)
    with w assms show ?thesis by (auto simp: insert_begin_def index_insert_def Let_def split: prod.splits)
  qed
qed



lemma race_writes:
  assumes "(writer_run (ra_heap s))\<^sup>*\<^sup>* (ra_index s, ra_writer s) c"
  shows "\<exists>s'. (rstep H key)\<^sup>*\<^sup>* s s' \<and> (ra_index s', ra_writer s') = c \<and> ra_heap s' = ra_heap s \<and> ra_reader s' = ra_reader s"
  using assms
proof (induction rule: rtranclp_induct)
  case (step c c')
  then obtain s' where s': "(rstep H key)\<^sup>*\<^sup>* s s'" "(ra_index s', ra_writer s') = c" "ra_heap s' = ra_heap s" "ra_reader s' = ra_reader s"
    by blast
  obtain ix wp where c': "c' = (ix, wp)" by (cases c')
  let ?s = "observe key (set_index ix wp s')"
  have "rstep H key s' ?s" using step(2) s'(2,3) c' by (intro rstep.writes) (auto simp: writer_run_def)
  with s' c' show ?case
    by (intro exI [of _ ?s]) (auto simp: observe_def set_index_def intro: rtranclp.rtrancl_into_rtrancl)
qed auto

text \<open>An insertion of the sequential index is a sequence of steps here, whatever the reader is at.\<close>

lemma race_inserts:
  assumes "ra_writer s = Idle" and "insertable H (ra_heap s) p" and "p \<notin> pointers (ra_index s)"
    and "index_insert (ra_heap s) (H (key_at (ra_heap s) p)) p (ra_index s) = Some (r, ix)"
  shows "\<exists>s'. (rstep H key)\<^sup>*\<^sup>* s s' \<and> ra_index s' = ix \<and> ra_writer s' = Idle \<and> ra_heap s' = ra_heap s \<and> ra_reader s' = ra_reader s"
proof -
  obtain ix1 wp where c: "insert_begin (ra_heap s) (H (key_at (ra_heap s) p)) p (ra_index s) = Some (ix1, wp)"
      "(writer_run (ra_heap s))\<^sup>*\<^sup>* (ix1, wp) (ix, Idle)"
    using insert_runs [OF assms(4)] by (metis prod.collapse)
  let ?s = "observe key (set_index ix1 wp s)"
  have f: "ra_heap ?s = ra_heap s" "ra_index ?s = ix1" "ra_writer ?s = wp" "ra_reader ?s = ra_reader s"
    by (simp_all add: observe_def set_index_def)
  have "rstep H key s ?s" by (rule rstep.insert [OF assms(1-3) c(1)])
  with race_writes [of ?s "(ix, Idle)" H key] c(2) show ?thesis
    unfolding f by (auto intro: converse_rtranclp_into_rtranclp)
qed

lemma race_lookup:
  assumes "ra_reader s = Outside" and "unlocked (ix_moving (ra_index s))"
  shows "\<exists>s'. (rstep H key)\<^sup>*\<^sup>* s s' \<and> ra_reader s' = Answered (index_get (ra_heap s) (ra_index s) (H key) key) \<and> ra_bumps s' = 0"
proof -
  let ?s = "observe key (s\<lparr>ra_reader := Top, ra_seen := {}, ra_pinned := {}, ra_bumps := 0\<rparr>)"
  have f: "ra_reader ?s = Top" "ra_heap ?s = ra_heap s" "ra_index ?s = ra_index s" by (simp_all add: observe_def)
  have "(rstep H key)\<^sup>*\<^sup>* ?s ((reader_step (H key) key ^^ n) ?s)" for n
    by (induction n) (auto intro: rtranclp.rtrancl_into_rtrancl rstep.read)
  moreover have "rstep H key s ?s" by (rule rstep.call [OF assms(1)])
  ultimately have run: "(rstep H key)\<^sup>*\<^sup>* s ((reader_step (H key) key ^^ n) ?s)" for n
    by (meson converse_rtranclp_into_rtranclp)
  obtain n where n: "(reader_step (H key) key ^^ n) ?s =
      ?s\<lparr>ra_reader := Answered (index_get (ra_heap s) (ra_index s) (H key) key), ra_bumps := 0\<rparr>"
    using lookup_alone [OF f(1), of "H key" key] assms(2) unfolding f(2,3) by blast
  show ?thesis by (intro exI [of _ "(reader_step (H key) key ^^ n) ?s"] conjI run) (simp_all add: n)
qed

text \<open>The table's entry for a key is what the index maps it to.\<close>

lemma look_rep: "ix_rep H h ix m \<Longrightarrow> look h (ix_table ix) key = m key"
proof -
  assume r: "ix_rep H h ix m"
  then obtain k where k: "tab_shape k (ix_table ix)" by (auto simp: ix_rep_def tab_ok_def)
  from r have m: "m key = Some p \<longleftrightarrow> (\<exists>w \<in> words (ix_table ix). entry_ptr w = p \<and> key_at h p = key)" for p
    by (simp add: ix_rep_def)
  show ?thesis
  proof (cases "look h (ix_table ix) key")
    case None
    with look_None [OF k] have "\<not> (\<exists>w \<in> words (ix_table ix). entry_ptr w = p \<and> key_at h p = key)" for p by blast
    with m None show ?thesis by (metis option.exhaust)
  next
    case (Some p)
    with look_SomeD [OF k Some] m [of p] show ?thesis by metis
  qed
qed

theorem lookup_linearizes_witness:
  "\<exists>s m. ra_reader s = Answered (Some 64) \<and> (rstep (\<lambda>_. 5) [7])\<^sup>*\<^sup>* race_new m \<and> looking (ra_reader m) \<and>
     (in_call (\<lambda>_. 5) [7])\<^sup>*\<^sup>* m s \<and> look (ra_heap m) (ix_table (ra_index m)) [7] = Some 64"
proof -
  let ?H = "\<lambda>_. 5" and ?s = "race_new\<lparr>ra_heap := one_heap\<rparr>"
  have a: "ra_writer ?s = Idle" "ra_index ?s = index_new" "ra_heap ?s = one_heap" "ra_reader ?s = Outside" by (simp_all add: race_new_def)
  have e: "pointers index_new = {}"
    using table_new_ok [of MIN_BUCKETS Map.empty] table_fits_pow [of 6] by (simp add: pointers_def index_new_def MIN_BUCKETS_def)
  obtain old ix where i: "index_insert one_heap 5 64 index_new = Some (old, ix)" using one_index by blast
  have s1: "rstep ?H [7] race_new ?s" by (intro rstep.reuse) (simp add: same_data_def race_new_def e)
  obtain s2 where s2: "(rstep ?H [7])\<^sup>*\<^sup>* ?s s2" "ra_index s2 = ix" "ra_writer s2 = Idle" "ra_heap s2 = one_heap" "ra_reader s2 = Outside"
    using race_inserts [of ?s ?H 64 old ix "[7]"] one_heap_at(2) e i unfolding a by auto
  have r: "ix_rep ?H one_heap ix [[7] \<mapsto> 64]"
    using cuckoo.add [OF ix_rep_new one_heap_at(2), of old ix] i by (simp add: one_heap_at)
  then have g: "index_get one_heap ix 5 [7] = Some 64" "unlocked (ix_moving ix)"
    using cuckoo.fetch [OF r, of "[7]"] by (simp_all add: ix_rep_def)
  obtain s3 where s3: "(rstep ?H [7])\<^sup>*\<^sup>* s2 s3" "ra_reader s3 = Answered (Some 64)" "ra_bumps s3 = 0"
    using race_lookup [OF s2(5), of ?H "[7]"] s2 g by auto
  have "(rstep ?H [7])\<^sup>*\<^sup>* race_new s3" using s1 s2(1) s3(1) by (meson converse_rtranclp_into_rtranclp rtranclp_trans)
  from lookup_linearizes [OF this s3(2)] s3(2,3) show ?thesis by auto
qed

end
