(* ===== verification/Shard.thy ===== *)
theory Shard
  imports Index_Map
begin

text \<open>
  One S3-FIFO shard of \<^verbatim>\<open>crates/server/src/cache/s3fifo.rs\<close>: the index of its keys, the small and
  main queues and the ghost list that decide what stays, and the byte accounting. The shard and
  the memory its entries live in are passed explicitly; a queue is the list of the handles it
  holds, oldest first.

  The loops of eviction are recursive functions with their termination proved. \<open>set\<close> returns
  \<open>None\<close> exactly when the insertion into the index does not return.
\<close>

definition GHOST_MIN :: nat where "GHOST_MIN = 64"

record too_large =
  tl_cost :: nat
  tl_capacity :: nat

definition too_large_msg :: "too_large \<Rightarrow> bytes" where
  "too_large_msg e = str ''entry of '' @ dec (tl_cost e) @
     str '' bytes exceeds the per-shard capacity of '' @ dec (tl_capacity e) @ str '' bytes''"

record retired =
  rt_small :: nat
  rt_large :: nat
  rt_large_bytes :: nat

definition retired_zero :: retired where
  "retired_zero = \<lparr>rt_small = 0, rt_large = 0, rt_large_bytes = 0\<rparr>"

definition retired_one :: "heap \<Rightarrow> nat \<Rightarrow> retired" where
  "retired_one h p =
     (if length (value_at h p) < NT_MIN then retired_zero\<lparr>rt_small := 1\<rparr>
      else \<lparr>rt_small = 0, rt_large = 1, rt_large_bytes = cost_at h p\<rparr>)"

definition retired_add :: "retired \<Rightarrow> retired \<Rightarrow> retired" where
  "retired_add a b =
     \<lparr>rt_small = rt_small a + rt_small b, rt_large = rt_large a + rt_large b,
      rt_large_bytes = rt_large_bytes a + rt_large_bytes b\<rparr>"

section \<open>The ghost list\<close>

record ghost =
  gh_order :: "u64 list"
  gh_set :: "u64 set"

definition ghost_take :: "u64 \<Rightarrow> ghost \<Rightarrow> bool \<times> ghost" where
  "ghost_take hash g = (hash \<in> gh_set g, g\<lparr>gh_set := gh_set g - {hash}\<rparr>)"

fun ghost_trim :: "nat \<Rightarrow> u64 list \<Rightarrow> u64 set \<Rightarrow> u64 list \<times> u64 set" where
  "ghost_trim limit [] S = ([], S)"
| "ghost_trim limit (old # order) S =
     (if length (old # order) > limit then ghost_trim limit order (S - {old}) else (old # order, S))"

definition ghost_push :: "u64 \<Rightarrow> nat \<Rightarrow> ghost \<Rightarrow> ghost" where
  "ghost_push hash limit g =
     (let g1 = (if hash \<notin> gh_set g
                then g\<lparr>gh_set := insert hash (gh_set g), gh_order := gh_order g @ [hash]\<rparr> else g);
          (order, S) = ghost_trim (max limit GHOST_MIN) (gh_order g1) (gh_set g1)
      in g1\<lparr>gh_order := order, gh_set := S\<rparr>)"

section \<open>The shard\<close>

record shard_stats =
  st_get_hits :: nat
  st_get_misses :: nat
  st_del_hits :: nat
  st_del_misses :: nat
  st_evictions :: nat

text \<open>
  What the shard's mutex guards, and the shard around it; the index writer's token has no
  content of its own.
\<close>

record queues =
  sh_small :: "nat list"
  sh_main :: "nat list"
  sh_ghost :: ghost
  sh_used :: nat
  sh_small_bytes :: nat
  sh_dead_bytes :: nat

record shard = queues +
  sh_index :: index
  sh_capacity :: nat
  sh_small_capacity :: nat
  sh_stats :: shard_stats

definition count_gets :: "nat \<Rightarrow> nat \<Rightarrow> shard \<Rightarrow> shard" where
  "count_gets hits misses s =
     s\<lparr>sh_stats := (sh_stats s)\<lparr>st_get_hits := st_get_hits (sh_stats s) + hits,
                                st_get_misses := st_get_misses (sh_stats s) + misses\<rparr>\<rparr>"

definition count_dels :: "nat \<Rightarrow> nat \<Rightarrow> shard \<Rightarrow> shard" where
  "count_dels hits misses s =
     s\<lparr>sh_stats := (sh_stats s)\<lparr>st_del_hits := st_del_hits (sh_stats s) + hits,
                                st_del_misses := st_del_misses (sh_stats s) + misses\<rparr>\<rparr>"

definition count_eviction :: "shard \<Rightarrow> shard" where
  "count_eviction s = s\<lparr>sh_stats := (sh_stats s)\<lparr>st_evictions := st_evictions (sh_stats s) + 1\<rparr>\<rparr>"

definition shard_new :: "nat \<Rightarrow> shard" where
  "shard_new capacity =
     \<lparr>sh_small = [], sh_main = [], sh_ghost = \<lparr>gh_order = [], gh_set = {}\<rparr>,
      sh_used = 0, sh_small_bytes = 0, sh_dead_bytes = 0, sh_index = index_new, sh_capacity = capacity, sh_small_capacity = capacity div 10,
      sh_stats = \<lparr>st_get_hits = 0, st_get_misses = 0, st_del_hits = 0, st_del_misses = 0,
                  st_evictions = 0\<rparr>\<rparr>"

definition shard_get :: "shard \<Rightarrow> memory \<Rightarrow> u64 \<Rightarrow> bytes \<Rightarrow> nat option" where
  "shard_get s m hash key = index_get (m_heap m) (sh_index s) hash key"

definition shard_len :: "shard \<Rightarrow> nat" where
  "shard_len s = ix_len (sh_index s)"

definition check_fits :: "shard \<Rightarrow> bytes \<Rightarrow> bytes \<Rightarrow> too_large + unit" where
  "check_fits s key val =
     (let cost = length key + length val + ENTRY_OVERHEAD
      in if cost > sh_capacity s then Inl \<lparr>tl_cost = cost, tl_capacity = sh_capacity s\<rparr> else Inr ())"

text \<open>\<open>kill\<close>: an entry removed from the index is marked dead and its budget released.\<close>

definition kill :: "nat \<Rightarrow> shard \<times> memory \<Rightarrow> shard \<times> memory" where
  "kill p = (\<lambda>(s, m).
     if live_at (m_heap m) p
     then let cost = cost_at (m_heap m) p
          in (s\<lparr>sh_used := sh_used s - cost, sh_dead_bytes := sh_dead_bytes s + cost\<rparr>, set_dead p m)
     else (s, m))"

text \<open>Unlinking an evicted entry from the index; its index handle goes to the collector.\<close>

definition unlink :: "nat \<Rightarrow> shard \<times> memory \<Rightarrow> shard \<times> memory" where
  "unlink p = (\<lambda>(s, m).
     let (r, ix) = index_remove_if_same (m_heap m) (hash_at (m_heap m) p) p (sh_index s);
         m1 = (case r of Some q \<Rightarrow> retire q m | None \<Rightarrow> m)
     in (s\<lparr>sh_index := ix\<rparr>, m1))"

definition evict_small :: "env \<Rightarrow> shard \<times> memory \<Rightarrow> (retired \<times> shard \<times> memory) option" where
  "evict_small ev = (\<lambda>(s, m).
     case sh_small s of
       [] \<Rightarrow> None
     | p # rest \<Rightarrow>
         let cost = cost_at (m_heap m) p;
             s1 = s\<lparr>sh_small := rest, sh_small_bytes := sh_small_bytes s - cost\<rparr>
         in if \<not> live_at (m_heap m) p
            then Some (retired_one (m_heap m) p,
                       s1\<lparr>sh_dead_bytes := sh_dead_bytes s1 - cost\<rparr>, entry_drop ev p m)
            else if freq_at (m_heap m) p > 1
            then Some (retired_zero, s1\<lparr>sh_main := sh_main s1 @ [p]\<rparr>, set_freq p 0 m)
            else let (s2, m2) = unlink p (s1, m);
                     m3 = set_dead p m2;
                     s3 = count_eviction (s2\<lparr>sh_used := sh_used s2 - cost\<rparr>);
                     s4 = s3\<lparr>sh_ghost := ghost_push (hash_at (m_heap m3) p) (length (sh_main s3)) (sh_ghost s3)\<rparr>
                 in Some (retired_one (m_heap m3) p, s4, entry_drop ev p m3))"

lemma sum_freq_rotate:
  assumes "0 < freq_at (m_heap m) p"
  shows "sum_list (map (freq_at (m_heap (set_freq p (freq_at (m_heap m) p - 1) m))) (rest @ [p]))
    < sum_list (map (freq_at (m_heap m)) (p # rest))"
proof -
  let ?h = "m_heap (set_freq p (freq_at (m_heap m) p - 1) m)"
  have "freq_at ?h q \<le> freq_at (m_heap m) q" for q
    by (simp add: freq_at_def set_freq_def deref_def)
  then have "sum_list (map (freq_at ?h) rest) \<le> sum_list (map (freq_at (m_heap m)) rest)"
    by (rule sum_list_mono)
  moreover have "freq_at ?h p < freq_at (m_heap m) p"
    using assms by (simp add: freq_at_def set_freq_def deref_def)
  ultimately show ?thesis by simp
qed

function evict_main :: "env \<Rightarrow> shard \<times> memory \<Rightarrow> (retired \<times> shard \<times> memory) option" where
  "evict_main ev (s, m) =
     (case sh_main s of
       [] \<Rightarrow> None
     | p # rest \<Rightarrow>
         let cost = cost_at (m_heap m) p;
             s1 = s\<lparr>sh_main := rest\<rparr>
         in if \<not> live_at (m_heap m) p
            then Some (retired_one (m_heap m) p,
                       s1\<lparr>sh_dead_bytes := sh_dead_bytes s1 - cost\<rparr>, entry_drop ev p m)
            else let f = freq_at (m_heap m) p
                 in if f > 0
                    then evict_main ev (s1\<lparr>sh_main := sh_main s1 @ [p]\<rparr>, set_freq p (f - 1) m)
                    else let (s2, m2) = unlink p (s1, m);
                             m3 = set_dead p m2;
                             s3 = count_eviction (s2\<lparr>sh_used := sh_used s2 - cost\<rparr>)
                         in Some (retired_one (m_heap m3) p, s3, entry_drop ev p m3))"
  by pat_completeness auto
termination
proof (relation "measure (\<lambda>(_, s, m). sum_list (map (freq_at (m_heap m)) (sh_main s)))", goal_cases)
  case (2 ev s m p rest cost s1 f)
  then show ?case using sum_freq_rotate [of m p rest] by simp
qed simp

declare evict_main.simps [simp del]

text \<open>
  One round of the eviction loop of \<open>set\<close>: which queue is tried first depends on whether the
  small queue has its share.
\<close>

definition evict_one :: "env \<Rightarrow> shard \<times> memory \<Rightarrow> (retired \<times> shard \<times> memory) option" where
  "evict_one ev = (\<lambda>(s, m).
     if sh_small_bytes s \<ge> sh_small_capacity s
     then (case evict_small ev (s, m) of Some r \<Rightarrow> Some r | None \<Rightarrow> evict_main ev (s, m))
     else (case evict_main ev (s, m) of Some r \<Rightarrow> Some r | None \<Rightarrow> evict_small ev (s, m)))"

lemma evict_main_length:
  "evict_main ev (s, m) = Some (r, s', m') \<Longrightarrow> sh_small s' = sh_small s \<and> length (sh_main s') < length (sh_main s)"
proof (induction ev "(s, m)" arbitrary: s m rule: evict_main.induct)
  case (1 ev s m)
  show ?case
  proof (cases "sh_main s")
    case Nil
    with "1.prems" show ?thesis by (simp add: evict_main.simps)
  next
    case (Cons p rest)
    show ?thesis
    proof (cases "live_at (m_heap m) p \<and> 0 < freq_at (m_heap m) p")
      case True
      with "1.prems" Cons have "evict_main ev (s\<lparr>sh_main := rest @ [p]\<rparr>, set_freq p (freq_at (m_heap m) p - 1) m)
          = Some (r, s', m')" by (simp add: evict_main.simps [of ev s m])
      with "1.hyps" [OF Cons refl refl _ refl] True Cons show ?thesis by simp
    next
      case False
      with "1.prems" Cons show ?thesis
        by (auto simp: evict_main.simps [of ev s m] unlink_def count_eviction_def Let_def split: if_splits prod.splits)
    qed
  qed
qed

lemma evict_one_decreases:
  "evict_one ev (s, m) = Some (r, s', m') \<Longrightarrow>
   2 * length (sh_small s') + length (sh_main s') < 2 * length (sh_small s) + length (sh_main s)"
  by (auto simp: evict_one_def evict_small_def unlink_def count_eviction_def Let_def
      dest!: evict_main_length split: if_splits option.splits list.splits prod.splits)

function evict_loop :: "env \<Rightarrow> nat \<Rightarrow> retired \<Rightarrow> shard \<times> memory \<Rightarrow> retired \<times> shard \<times> memory" where
  "evict_loop ev cost ret (s, m) =
     (if sh_used s + cost > sh_capacity s
      then (case evict_one ev (s, m) of
              None \<Rightarrow> (ret, s, m)
            | Some (r, s', m') \<Rightarrow> evict_loop ev cost (retired_add ret r) (s', m'))
      else (ret, s, m))"
  by pat_completeness auto
termination
  by (relation "measure (\<lambda>(_, _, _, s, _). 2 * length (sh_small s) + length (sh_main s))")
    (auto dest: evict_one_decreases)

declare evict_loop.simps [simp del]

text \<open>
  \<open>compact\<close>: each live entry is swapped to the next write position, the rest is truncated.
  Returns the queue, the handles dropped by the truncation and the cost kept.
\<close>

definition compact_step :: "heap \<Rightarrow> nat \<Rightarrow> nat list \<times> nat \<times> nat \<Rightarrow> nat list \<times> nat \<times> nat" where
  "compact_step h i = (\<lambda>(s, w, kept).
     let e = s ! i
     in if live_at h e then (s[w := s ! i, i := s ! w], w + 1, kept + cost_at h e) else (s, w, kept))"

definition compact :: "heap \<Rightarrow> nat list \<Rightarrow> nat list \<times> nat list \<times> nat" where
  "compact h q =
     (let (s, w, kept) = fold (compact_step h) [0..<length q] (q, 0, 0)
      in (take w s, drop w s, kept))"

definition maybe_compact :: "env \<Rightarrow> shard \<times> memory \<Rightarrow> shard \<times> memory" where
  "maybe_compact ev = (\<lambda>(s, m).
     if sh_dead_bytes s \<le> sh_capacity s div 4 then (s, m)
     else let (small, gone1, kept) = compact (m_heap m) (sh_small s);
              m1 = fold (entry_drop ev) gone1 m;
              (main, gone2, _) = compact (m_heap m1) (sh_main s);
              m2 = fold (entry_drop ev) gone2 m1
          in (s\<lparr>sh_small_bytes := kept, sh_small := small, sh_main := main, sh_dead_bytes := 0\<rparr>, m2))"

definition shard_set ::
  "env \<Rightarrow> bytes \<Rightarrow> bytes \<Rightarrow> u64 \<Rightarrow> shard \<times> memory \<Rightarrow> (retired \<times> shard \<times> memory) option" where
  "shard_set ev key val hash = (\<lambda>(s, m).
     let (p, m1) = entry_new ev (key_new key) val hash m;
         cost = cost_at (m_heap m1) p;
         m2 = entry_clone p m1
     in case index_insert (m_heap m2) hash p (sh_index s) of
          None \<Rightarrow> None
        | Some (old, ix) \<Rightarrow>
            let s1 = s\<lparr>sh_index := ix\<rparr>;
                (ret, s2, m3) = (case old of
                     Some q \<Rightarrow> (let (s', m') = kill q (s1, m2)
                                in (retired_add retired_zero (retired_one (m_heap m') q), s', retire q m'))
                   | None \<Rightarrow> (retired_zero, s1, m2));
                (ret, s3, m4) = evict_loop ev cost ret (s2, m3);
                s4 = s3\<lparr>sh_used := sh_used s3 + cost\<rparr>;
                (hit, g) = ghost_take hash (sh_ghost s4);
                s5 = s4\<lparr>sh_ghost := g\<rparr>;
                s6 = (if hit then s5\<lparr>sh_main := sh_main s5 @ [p]\<rparr>
                      else s5\<lparr>sh_small_bytes := sh_small_bytes s5 + cost, sh_small := sh_small s5 @ [p]\<rparr>);
                (s7, m5) = maybe_compact ev (s6, m4)
            in Some (ret, s7, m5))"

definition shard_del ::
  "env \<Rightarrow> u64 \<Rightarrow> bytes \<Rightarrow> shard \<times> memory \<Rightarrow> retired option \<times> shard \<times> memory" where
  "shard_del ev hash key = (\<lambda>(s, m).
     case index_remove (m_heap m) hash key (sh_index s) of
       (None, ix) \<Rightarrow> (None, s\<lparr>sh_index := ix\<rparr>, m)
     | (Some p, ix) \<Rightarrow>
         let (s1, m1) = kill p (s\<lparr>sh_index := ix\<rparr>, m);
             r = retired_one (m_heap m1) p;
             m2 = retire p m1;
             (s2, m3) = maybe_compact ev (s1, m2)
         in (Some r, s2, m3))"

end
