(* ===== verification/Memory.thy ===== *)
theory Memory
  imports Entry
begin

text \<open>
  The memory entries live in, as the shards change it: the elementary changes, the memory the
  slab owns, and the agreement between the heap of entries and the slab's books. From that
  agreement an allocation delivers an address no entry has, which is what a shard relies on
  when it stores an entry.
\<close>

section \<open>What an operation may do to the memory\<close>

text \<open>
  The elementary changes other than allocation, each on an allocated entry: one handle more or
  less, a store to an atomic, and the collector's list. Every operation of a shard is a
  sequence of them after at most one allocation.
\<close>

inductive mstep :: "env \<Rightarrow> memory \<Rightarrow> memory \<Rightarrow> bool" for ev :: env where
  clone: "p \<in> dom (m_heap m) \<Longrightarrow> mstep ev m (entry_clone p m)"
| drop: "p \<in> dom (m_heap m) \<Longrightarrow> mstep ev m (entry_drop ev p m)"
| freq: "p \<in> dom (m_heap m) \<Longrightarrow> mstep ev m (set_freq p f m)"
| dead: "p \<in> dom (m_heap m) \<Longrightarrow> mstep ev m (set_dead p m)"
| pending: "mstep ev m (m\<lparr>m_retired := r\<rparr>)"

lemma mstep_keeps: "mstep ev m m' \<Longrightarrow> keeps_data (m_heap m) (m_heap m')"
  by (induction rule: mstep.induct) (auto intro: atomics_keep entry_drop_keeps)

interpretation memory_data: step_preorder "mstep ev" "\<lambda>m m'. keeps_data (m_heap m) (m_heap m')" for ev
  by unfold_locales (auto intro: keeps_data_trans mstep_keeps)

text \<open>A sequence of elementary changes that concerns the entries of \<open>P\<close> only.\<close>

definition changes :: "env \<Rightarrow> nat set \<Rightarrow> memory \<Rightarrow> memory \<Rightarrow> bool" where
  "changes ev P m m' \<longleftrightarrow> (mstep ev)\<^sup>*\<^sup>* m m' \<and> (\<forall>q. q \<notin> P \<longrightarrow>
     m_heap m' q = m_heap m q \<and> count (mset (m_retired m')) q = count (mset (m_retired m)) q)"

lemma changes_refl [simp]: "changes ev P m m"
  by (simp add: changes_def)

lemma changes_trans [trans]: "changes ev P m m' \<Longrightarrow> changes ev P m' m'' \<Longrightarrow> changes ev P m m''"
  by (auto simp: changes_def)

lemma changes_mono: "changes ev P m m' \<Longrightarrow> P \<subseteq> Q \<Longrightarrow> changes ev Q m m'"
  by (auto simp: changes_def)

lemma changes_keeps: "changes ev P m m' \<Longrightarrow> keeps_data (m_heap m) (m_heap m')"
  unfolding changes_def by (blast intro: memory_data.reach_rel)

lemma changes_basic [intro]:
  assumes "p \<in> P" and "p \<in> dom (m_heap m)"
  shows "changes ev P m (entry_drop ev p m)" "changes ev P m (set_freq p f m)" "changes ev P m (set_dead p m)"
    "changes ev P m (entry_clone p m)" "changes ev P m (retire p m)"
proof -
  note st = r_into_rtranclp [of "mstep ev"]
  show "changes ev P m (entry_drop ev p m)" using assms st [OF mstep.drop [OF assms(2)]]
    by (auto simp: changes_def entry_drop_heap)
  show "changes ev P m (set_freq p f m)" using assms st [OF mstep.freq [OF assms(2)]]
    by (auto simp: changes_def set_freq_def)
  show "changes ev P m (set_dead p m)" using assms st [OF mstep.dead [OF assms(2)]]
    by (auto simp: changes_def set_dead_def)
  show "changes ev P m (entry_clone p m)" using assms st [OF mstep.clone [OF assms(2)]]
    by (auto simp: changes_def entry_clone_def)
  show "changes ev P m (retire p m)" using assms st [OF mstep.pending [where r = "m_retired m @ [p]"]]
    by (auto simp: changes_def retire_def)
qed

section \<open>The memory a slab owns\<close>

definition owned :: "slab \<Rightarrow> chunk multiset \<Rightarrow> nat set" where
  "owned s live = (\<Union>c \<in> set_mset (chunks s live). span c) \<union> {fst (sl_bump s) ..< snd (sl_bump s)}"

definition region :: "nat \<Rightarrow> nat set" where
  "region mmap = {map_region mmap ..< map_region mmap + REGION}"

lemma owned_same: "chunks s' live' = chunks s live \<Longrightarrow> sl_bump s' = sl_bump s \<Longrightarrow> owned s' live' = owned s live"
  by (simp add: owned_def)

lemma refill_owned:
  assumes "slab_inv s live" and "c < CLASSES" and "class_size c * n \<le> REGION" and "refill mmap c n s = (into, s')"
  shows "owned s' (live + tag_class c into) \<subseteq> owned s live \<union> region mmap"
proof (cases "sl_free s ! c = []")
  case False
  let ?at = "length (sl_free s ! c) - min (length (sl_free s ! c)) n"
  from assms(4) False have r: "into = drop ?at (sl_free s ! c)"
      "s' = s\<lparr>sl_free := (sl_free s)[c := take ?at (sl_free s ! c)]\<rparr>"
    by (simp_all add: refill_def Let_def)
  have len: "c < length (sl_free s)" using assms(1,2) by (simp add: slab_inv_def shape_def)
  have "tag_class c (sl_free s ! c) = tag_class c (take ?at (sl_free s ! c)) + tag_class c into"
    by (simp only: r tag_class_append [symmetric] append_take_drop_id)
  with chunks_set_free [OF len, of "take ?at (sl_free s ! c)" live] r(2)
  have "chunks s' (live + tag_class c into) = chunks s live" by (simp add: chunks_def ac_simps)
  then show ?thesis using owned_same [of s' _ s live] r(2) by simp
next
  case True
  let ?need = "class_size c * n"
  define bump where "bump = (if snd (sl_bump s) - fst (sl_bump s) < ?need
      then (map_region mmap, map_region mmap + REGION) else sl_bump s)"
  from assms(4) True have r: "into = carve (fst bump) (class_size c) n"
      "s' = s\<lparr>sl_bump := (fst bump + ?need, snd bump)\<rparr>"
    by (simp_all add: refill_def Let_def bump_def)
  have B: "{fst bump ..< snd bump} \<subseteq> owned s live \<union> region mmap" by (auto simp: bump_def owned_def region_def)
  have "?need = 0 \<or> fst bump + ?need \<le> snd bump"
  proof (cases "snd (sl_bump s) - fst (sl_bump s) < ?need")
    case False
    then have "?need = 0 \<or> fst (sl_bump s) + ?need \<le> snd (sl_bump s)" by linarith
    with False show ?thesis by (simp add: bump_def)
  qed (use assms(3) in \<open>simp add: bump_def\<close>)
  then have N: "{fst bump ..< fst bump + ?need} \<subseteq> {fst bump ..< snd bump}" by auto
  have eq: "owned s' (live + tag_class c into) = (\<Union>x \<in> set_mset (chunks s live). span x) \<union>
      (\<Union>x \<in> set_mset (tag_class c into). span x) \<union> {fst bump + ?need ..< snd bump}"
    by (auto simp: owned_def chunks_def r(2))
  show ?thesis unfolding eq
  proof (intro Un_least UN_least)
    show "span x \<subseteq> owned s live \<union> region mmap" if "x \<in># tag_class c into" for x
      using carve_span [of x c "fst bump" n] that N B unfolding r(1) by (meson order_trans)
    show "span x \<subseteq> owned s live \<union> region mmap" if "x \<in># chunks s live" for x
      using that by (auto simp: owned_def)
    have "{fst bump + ?need ..< snd bump} \<subseteq> {fst bump ..< snd bump}" by auto
    with B show "{fst bump + ?need ..< snd bump} \<subseteq> owned s live \<union> region mmap" by (meson order_trans)
  qed
qed

lemma refill_nonempty:
  assumes "refill mmap c n s = (into, s')" and "0 < n"
  shows "into \<noteq> []"
proof (cases "sl_free s ! c = []")
  case False
  then have "0 < length (sl_free s ! c)" by simp
  then have "length (sl_free s ! c) - min (length (sl_free s ! c)) n < length (sl_free s ! c)"
    using assms(2) by linarith
  with assms(1) False show ?thesis by (auto simp: refill_def Let_def)
qed (use assms in \<open>auto simp: refill_def Let_def carve_def\<close>)

lemma chunks_add: "chunks s (live + A) = chunks s live + A"
  by (simp add: chunks_def ac_simps)

lemma alloc_owned:
  assumes "slab_inv s live" and "tid < length (sl_mags s)" and "0 < sz" and "alloc mmap tid tls sz s = (Some (p, c), s')"
  shows "owned s' (add_mset (p, c) live) \<subseteq> owned s live \<union> region mmap" and "p \<in> owned s' (add_mset (p, c) live)"
    and "length (sl_mags s') = length (sl_mags s)"
proof -
  obtain cl where cl0: "class_of sz = Some cl" using assms(4) by (auto simp: alloc_def split: option.splits)
  have c: "c = cl" using assms(4) cl0 by (auto simp: alloc_def Let_def split: if_splits prod.splits)
  have cl: "class_of sz = Some c" "c < CLASSES" using class_of_Some [OF cl0 assms(3)] cl0 c by simp_all
  obtain into s1 where r: "refill mmap c (if tls then batch c else 1) s = (into, s1)" by fastforce
  have "class_size c * (if tls then batch c else 1) \<le> REGION"
    using batch_fits [OF cl(2)] order_trans [of "class_size c" "class_size c * batch c" REGION]
    by (auto simp: batch_def)
  from refill_owned [OF assms(1) cl(2) this r]
  have own: "owned s1 (live + tag_class c into) \<subseteq> owned s live \<union> region mmap" .
  have m1: "sl_mags s1 = sl_mags s" "shape s1"
    using r assms(1) by (auto simp: refill_def Let_def slab_inv_def split: if_splits)
  show "owned s' (add_mset (p, c) live) \<subseteq> owned s live \<union> region mmap"
  proof (cases tls)
    case False
    with assms(4) r cl have e: "p = into ! 0" "s' = s1" by (auto simp: alloc_def)
    moreover from False r have "into = [into ! 0]" using refill_one [of mmap c s into s1] by auto
    then have "tag_class c into = {#(into ! 0, c)#}" by (metis tag_class_simps)
    ultimately show ?thesis using own by simp
  next
    case True
    define fresh where "fresh = (if mag tid c s = [] then into else [])"
    define t where "t = (if mag tid c s = [] then s1 else s)"
    let ?v = "mag tid c s @ fresh"
    have e: "p = last ?v" "s' = set_mag tid c (butlast ?v) t"
      using True assms(4) r cl by (auto simp: alloc_def Let_def fresh_def t_def split: if_splits)
    have "into \<noteq> []" using refill_nonempty [OF r] True by (simp add: batch_def)
    then have "?v \<noteq> []" by (auto simp: fresh_def)
    then have v: "tag_class c ?v = add_mset (last ?v, c) (tag_class c (butlast ?v))"
      by (metis append_butlast_last_id tag_class_append tag_class_simps union_mset_add_mset_right add.right_neutral)
    have t: "shape t" "tid < length (sl_mags t)" "mag tid c t = mag tid c s"
      using assms(1,2) m1 by (auto simp: t_def slab_inv_def mag_def)
    have "chunks s' (add_mset (p, c) live) + tag_class c (mag tid c s) =
        chunks t (live + tag_class c fresh) + tag_class c (mag tid c s)"
      using chunks_set_mag [OF t(1,2) cl(2), of "butlast ?v" "add_mset (last ?v, c) live"] v t(3)
      by (simp add: e chunks_def ac_simps)
    then have "chunks s' (add_mset (p, c) live) = chunks t (live + tag_class c fresh)" by simp
    then have "owned s' (add_mset (p, c) live) = owned t (live + tag_class c fresh)"
      by (rule owned_same) (simp add: e(2))
    also have "\<dots> \<subseteq> owned s live \<union> region mmap" using own by (auto simp: t_def fresh_def)
    finally show ?thesis .
  qed
  show "p \<in> owned s' (add_mset (p, c) live)"
    using span_nonempty [of "(p, c)"] by (force simp: owned_def chunks_def)
  show "length (sl_mags s') = length (sl_mags s)"
    using assms(4) r m1 cl by (auto simp: alloc_def Let_def split: if_splits)
qed

lemma free_chunks:
  assumes "shape s" and "tid < length (sl_mags s)" and "c < CLASSES"
  shows "chunks (free tid tls p c s) live = chunks s (add_mset (p, c) live)"
    and "sl_bump (free tid tls p c s) = sl_bump s" and "length (sl_mags (free tid tls p c s)) = length (sl_mags s)"
proof -
  have len: "c < length (sl_free s)" using assms(1,3) by (simp add: shape_def)
  let ?v = "mag tid c s @ [p]" and ?cap = "2 * batch c"
  show "chunks (free tid tls p c s) live = chunks s (add_mset (p, c) live)"
  proof (cases tls)
    case False
    then show ?thesis using chunks_set_free [OF len, of "sl_free s ! c @ [p]" live] by (simp add: free_def chunks_def ac_simps)
  next
    case tls: True
    show ?thesis
    proof (cases "length ?v > ?cap")
      case False
      then show ?thesis using tls chunks_set_mag [OF assms, of ?v live] by (simp add: free_def Let_def chunks_def ac_simps)
    next
      case True
      let ?s = "s\<lparr>sl_free := (sl_free s)[c := sl_free s ! c @ drop (?cap div 2) ?v]\<rparr>"
      have f: "free tid tls p c s = set_mag tid c (take (?cap div 2) ?v) ?s"
        using tls True by (simp add: free_def Let_def flush_free_def)
      have "chunks (free tid tls p c s) live + tag_class c (mag tid c s) = chunks ?s live + tag_class c (take (?cap div 2) ?v)"
        unfolding f using chunks_set_mag [of ?s tid c "take (?cap div 2) ?v" live] assms by (simp add: mag_def)
      moreover have "chunks ?s live = chunks s live + tag_class c (drop (?cap div 2) ?v)"
        using chunks_set_free [OF len, of "sl_free s ! c @ drop (?cap div 2) ?v" live] by (simp add: ac_simps)
      moreover have "tag_class c (take (?cap div 2) ?v) + tag_class c (drop (?cap div 2) ?v) = tag_class c ?v"
        by (simp only: tag_class_append [symmetric] append_take_drop_id)
      ultimately have "chunks (free tid tls p c s) live + tag_class c (mag tid c s) = chunks s live + tag_class c ?v"
        by (metis (no_types) add.assoc add.commute)
      then show ?thesis by (simp add: chunks_def ac_simps)
    qed
  qed
  show "sl_bump (free tid tls p c s) = sl_bump s" "length (sl_mags (free tid tls p c s)) = length (sl_mags s)"
    by (simp_all add: free_def Let_def flush_free_def)
qed

section \<open>The heap and the slab agree\<close>

text \<open>
  The chunks in use are those of the entries with a slab class; the entries the global
  allocator served lie outside everything the slab owns.
\<close>

definition slab_addrs :: "heap \<Rightarrow> nat set" where
  "slab_addrs h = {p \<in> dom h. en_class (deref h p) \<noteq> GLIBC_CLASS}"

definition heap_chunks :: "heap \<Rightarrow> chunk multiset" where
  "heap_chunks h = image_mset (\<lambda>p. (p, en_class (deref h p))) (mset_set (slab_addrs h))"

definition alloc_ok :: "memory \<Rightarrow> bool" where
  "alloc_ok m \<longleftrightarrow> finite (dom (m_heap m)) \<and> slab_inv (m_slab m) (heap_chunks (m_heap m)) \<and>
     (\<forall>p \<in> dom (m_heap m) - slab_addrs (m_heap m). p \<notin> owned (m_slab m) (heap_chunks (m_heap m)))"

text \<open>
  What is assumed of the environment of an allocation: the thread is known to the slab, a
  mapping \<open>mmap\<close> delivers is memory nobody uses, and so is what the global allocator returns.
\<close>

definition env_ok :: "env \<Rightarrow> memory \<Rightarrow> bool" where
  "env_ok ev m \<longleftrightarrow> ev_tid ev < length (sl_mags (m_slab m)) \<and>
     mmap_ok (ev_mmap ev) (m_slab m) (heap_chunks (m_heap m)) \<and> region (ev_mmap ev) \<inter> dom (m_heap m) = {} \<and>
     0 < ev_glibc ev \<and> ev_glibc ev < 2 ^ 48 \<and>
     ev_glibc ev \<notin> dom (m_heap m) \<union> owned (m_slab m) (heap_chunks (m_heap m))"

lemma heap_chunks_atomic:
  assumes "h p = Some e" and "en_class e' = en_class e"
  shows "heap_chunks (h(p \<mapsto> e')) = heap_chunks h" and "slab_addrs (h(p \<mapsto> e')) = slab_addrs h"
    and "dom (h(p \<mapsto> e')) = dom h"
proof -
  have c: "en_class (deref (h(p \<mapsto> e')) q) = en_class (deref h q)" for q using assms by (simp add: deref_def)
  show d: "dom (h(p \<mapsto> e')) = dom h" using assms(1) by auto
  show s: "slab_addrs (h(p \<mapsto> e')) = slab_addrs h" unfolding slab_addrs_def d c ..
  show "heap_chunks (h(p \<mapsto> e')) = heap_chunks h" unfolding heap_chunks_def s c ..
qed

lemma heap_chunks_new:
  assumes "p \<notin> dom h" and "finite (dom h)"
  shows "heap_chunks (h(p \<mapsto> e)) =
      (if en_class e = GLIBC_CLASS then heap_chunks h else add_mset (p, en_class e) (heap_chunks h))"
    and "slab_addrs (h(p \<mapsto> e)) = (if en_class e = GLIBC_CLASS then slab_addrs h else insert p (slab_addrs h))"
proof -
  have c: "en_class (deref (h(p \<mapsto> e)) q) = en_class (deref h q)" if "q \<in> dom h" for q
    using that assms(1) by (auto simp: deref_def)
  show s: "slab_addrs (h(p \<mapsto> e)) = (if en_class e = GLIBC_CLASS then slab_addrs h else insert p (slab_addrs h))"
  proof (rule set_eqI)
    fix q
    have "q \<in> slab_addrs (h(p \<mapsto> e)) \<longleftrightarrow> (if q = p then en_class e \<noteq> GLIBC_CLASS else q \<in> slab_addrs h)"
      using c [of q] assms(1) by (auto simp: slab_addrs_def deref_def)
    moreover have "p \<notin> slab_addrs h" using assms(1) by (simp add: slab_addrs_def)
    ultimately show "q \<in> slab_addrs (h(p \<mapsto> e)) \<longleftrightarrow>
        q \<in> (if en_class e = GLIBC_CLASS then slab_addrs h else insert p (slab_addrs h))" by auto
  qed
  have fin: "finite (slab_addrs h)" "p \<notin> slab_addrs h" using assms by (auto simp: slab_addrs_def)
  have "image_mset (\<lambda>p'. (p', en_class (deref (h(p \<mapsto> e)) p'))) (mset_set (slab_addrs h)) = heap_chunks h"
    unfolding heap_chunks_def using c fin by (intro image_mset_cong) (auto simp: slab_addrs_def)
  then show "heap_chunks (h(p \<mapsto> e)) =
      (if en_class e = GLIBC_CLASS then heap_chunks h else add_mset (p, en_class e) (heap_chunks h))"
    unfolding heap_chunks_def [of "h(p \<mapsto> e)"] s using fin by (simp add: deref_def)
qed

lemma alloc_ok_chunk:
  assumes "alloc_ok m" and "p \<in> slab_addrs (m_heap m)"
  shows "en_class (deref (m_heap m) p) < CLASSES" "p \<in> owned (m_slab m) (heap_chunks (m_heap m))"
proof -
  have "finite (slab_addrs (m_heap m))" using assms(1) by (simp add: alloc_ok_def slab_addrs_def)
  then have c: "(p, en_class (deref (m_heap m) p)) \<in># chunks (m_slab m) (heap_chunks (m_heap m))"
    using assms(2) by (auto simp: heap_chunks_def chunks_def)
  with assms(1) show "en_class (deref (m_heap m) p) < CLASSES"
    by (auto simp: alloc_ok_def slab_inv_def chunk_ok_def)
  show "p \<in> owned (m_slab m) (heap_chunks (m_heap m))"
    using c span_nonempty [of "(p, en_class (deref (m_heap m) p))"] by (force simp: owned_def)
qed

lemma alloc_ok_atomic:
  assumes "alloc_ok m" and "p \<in> dom (m_heap m)" and "en_class e' = en_class (deref (m_heap m) p)"
    and "m_heap m' = (m_heap m)(p \<mapsto> e')" and "m_slab m' = m_slab m"
  shows "alloc_ok m'"
proof -
  have "m_heap m p = Some (deref (m_heap m) p)" using assms(2) by (auto simp: deref_def)
  from heap_chunks_atomic [of "m_heap m" p, OF this assms(3)] assms(1,4,5) show ?thesis by (simp add: alloc_ok_def)
qed

lemma alloc_ok_drop:
  assumes "alloc_ok m" and "ev_tid ev < length (sl_mags (m_slab m))" and "p \<in> dom (m_heap m)"
  shows "alloc_ok (entry_drop ev p m)" and "length (sl_mags (m_slab (entry_drop ev p m))) = length (sl_mags (m_slab m))"
proof -
  let ?e = "deref (m_heap m) p" and ?m = "entry_drop ev p m" and ?h = "(m_heap m)(p := None)"
  have p: "m_heap m p = Some ?e" using assms(3) by (auto simp: deref_def)
  have up: "?h(p \<mapsto> ?e) = m_heap m" using p by (simp add: fun_eq_iff)
  have fin: "finite (dom ?h)" "p \<notin> dom ?h" using assms(1) by (simp_all add: alloc_ok_def)
  note n = heap_chunks_new [OF fin(2,1), of ?e, unfolded up]
  have ok: "slab_inv (m_slab m) (heap_chunks (m_heap m))" "shape (m_slab m)"
    using assms(1) by (simp_all add: alloc_ok_def slab_inv_def)
  have "alloc_ok ?m \<and> length (sl_mags (m_slab ?m)) = length (sl_mags (m_slab m))"
  proof (cases "en_rc ?e = 1")
    case False
    have "alloc_ok ?m"
      by (rule alloc_ok_atomic [OF assms(1,3), of "?e\<lparr>en_rc := en_rc ?e - 1\<rparr>"])
        (use False in \<open>simp_all add: entry_drop_def Let_def\<close>)
    with False show ?thesis by (simp add: entry_drop_def Let_def)
  next
    case last: True
    have h: "m_heap ?m = ?h" using last by (simp add: entry_drop_heap)
    show ?thesis
    proof (cases "en_class ?e = GLIBC_CLASS")
      case True
      then have sl: "m_slab ?m = m_slab m" using last by (simp add: entry_drop_def Let_def)
      have "heap_chunks ?h = heap_chunks (m_heap m)" "slab_addrs ?h = slab_addrs (m_heap m)" using n True by simp_all
      with assms(1) fin show ?thesis by (auto simp: alloc_ok_def h sl)
    next
      case False
      then have sl: "m_slab ?m = free (ev_tid ev) (ev_tls ev) p (en_class ?e) (m_slab m)"
        using last by (simp add: entry_drop_def Let_def)
      have c: "en_class ?e < CLASSES" using alloc_ok_chunk(1) [OF assms(1), of p] False assms(3) by (simp add: slab_addrs_def)
      have hc: "heap_chunks (m_heap m) = add_mset (p, en_class ?e) (heap_chunks ?h)" using n(1) False by simp
      have inv: "slab_inv (m_slab ?m) (heap_chunks ?h)"
        unfolding sl using ok(1) free_inv [OF _ c assms(2)] by (simp add: hc)
      note fc = free_chunks [OF ok(2) assms(2) c, of "ev_tls ev" p]
      have own: "owned (m_slab ?m) (heap_chunks ?h) = owned (m_slab m) (heap_chunks (m_heap m))"
        unfolding sl using fc(1,2) by (intro owned_same) (simp_all add: hc)
      have "dom ?h - slab_addrs ?h \<subseteq> dom (m_heap m) - slab_addrs (m_heap m)" using n(2) False by auto
      then show ?thesis using assms(1) inv own fin fc(3) by (auto simp: alloc_ok_def h sl)
    qed
  qed
  then show "alloc_ok ?m" "length (sl_mags (m_slab ?m)) = length (sl_mags (m_slab m))" by blast+
qed

lemma mstep_alloc_ok:
  assumes "mstep ev m m'" and "alloc_ok m" and "ev_tid ev < length (sl_mags (m_slab m))"
  shows "alloc_ok m' \<and> length (sl_mags (m_slab m')) = length (sl_mags (m_slab m))"
  using assms
proof (induction rule: mstep.induct)
  case (clone p m)
  then show ?case using alloc_ok_atomic [of m p _ "entry_clone p m"] by (simp add: entry_clone_def)
next
  case (freq p m f)
  then show ?case using alloc_ok_atomic [of m p _ "set_freq p f m"] by (simp add: set_freq_def)
next
  case (dead p m)
  then show ?case using alloc_ok_atomic [of m p _ "set_dead p m"] by (simp add: set_dead_def)
next
  case (drop p m)
  then show ?case using alloc_ok_drop [of m ev p] by simp
qed (simp add: alloc_ok_def)

interpretation memory_books: step_invariant "mstep ev"
  "\<lambda>m. alloc_ok m \<and> ev_tid ev < n \<and> length (sl_mags (m_slab m)) = n" for ev n
  by unfold_locales (auto dest: mstep_alloc_ok)

lemma msteps_alloc_ok:
  assumes "(mstep ev)\<^sup>*\<^sup>* m m'" and "alloc_ok m" and "ev_tid ev < length (sl_mags (m_slab m))"
  shows "alloc_ok m' \<and> length (sl_mags (m_slab m')) = length (sl_mags (m_slab m))"
  using memory_books.reach_inv [OF assms(1), of "length (sl_mags (m_slab m))"] assms(2,3) by simp

text \<open>An allocation delivers an address no entry has, and keeps the agreement.\<close>

lemma entry_new_eq:
  assumes "entry_new ev k v hash m = (p, m')"
  obtains r s where "alloc (ev_mmap ev) (ev_tid ev) (ev_tls ev) (HEADER + length v) (m_slab m) = (r, s)"
    "m_slab m' = s" "m_retired m' = m_retired m"
    "m_heap m' = (m_heap m)(p \<mapsto> \<lparr>en_rc = 1, en_value = v, en_key = k, en_hash = hash, en_freq = 0, en_live = True,
       en_class = (case r of Some (_, c) \<Rightarrow> c | None \<Rightarrow> GLIBC_CLASS)\<rparr>)"
    "p = (case r of Some (a, _) \<Rightarrow> a | None \<Rightarrow> ev_glibc ev)"
proof -
  obtain r s where a: "alloc (ev_mmap ev) (ev_tid ev) (ev_tls ev) (HEADER + length v) (m_slab m) = (r, s)"
    by fastforce
  show thesis
  proof (cases r)
    case None
    have e: "p = fst (entry_new ev k v hash m)" "m' = snd (entry_new ev k v hash m)" using assms by simp_all
    show thesis by (rule that [OF a]) (simp_all add: e entry_new_def a None)
  next
    case (Some pc)
    obtain q c where "pc = (q, c)" by fastforce
    have e: "p = fst (entry_new ev k v hash m)" "m' = snd (entry_new ev k v hash m)" using assms by simp_all
    show thesis by (rule that [OF a]) (simp_all add: e entry_new_def a Some \<open>pc = (q, c)\<close>)
  qed
qed

lemma entry_new_ok:
  assumes "alloc_ok m" and "env_ok ev m" and "entry_new ev k v hash m = (p, m')"
  shows "p \<notin> dom (m_heap m)" and "0 < p" and "p < 2 ^ 48" and "alloc_ok m'"
    and "length (sl_mags (m_slab m')) = length (sl_mags (m_slab m))"
proof -
  let ?live = "heap_chunks (m_heap m)"
  have ok: "slab_inv (m_slab m) ?live" "finite (dom (m_heap m))" "ev_tid ev < length (sl_mags (m_slab m))"
      "mmap_ok (ev_mmap ev) (m_slab m) ?live" "region (ev_mmap ev) \<inter> dom (m_heap m) = {}"
    using assms(1,2) by (auto simp: alloc_ok_def env_ok_def)
  have sz: "0 < HEADER + length v" by (simp add: HEADER_def)
  obtain r s where a: "alloc (ev_mmap ev) (ev_tid ev) (ev_tls ev) (HEADER + length v) (m_slab m) = (r, s)"
    and m': "m_slab m' = s" and h': "m_heap m' = (m_heap m)(p \<mapsto> \<lparr>en_rc = 1, en_value = v, en_key = k, en_hash = hash, en_freq = 0,
       en_live = True, en_class = (case r of Some (_, c) \<Rightarrow> c | None \<Rightarrow> GLIBC_CLASS)\<rparr>)"
    and p: "p = (case r of Some (a, _) \<Rightarrow> a | None \<Rightarrow> ev_glibc ev)"
    using assms(3) by (rule entry_new_eq)
  have "p \<notin> dom (m_heap m) \<and> 0 < p \<and> p < 2 ^ 48 \<and> alloc_ok m' \<and>
    length (sl_mags (m_slab m')) = length (sl_mags (m_slab m))"
  proof (cases r)
    case None
    then have s: "s = m_slab m" using a by (auto simp: alloc_def Let_def split: option.splits prod.splits if_splits)
    have pd: "p \<notin> dom (m_heap m)" "0 < p" "p < 2 ^ 48" "p \<notin> owned (m_slab m) ?live"
      using assms(2) p None by (auto simp: env_ok_def)
    note n = heap_chunks_new [OF pd(1) ok(2)]
    have "alloc_ok m'" using assms(1) pd(4) unfolding alloc_ok_def m' s h' None by (auto simp: n)
    with pd show ?thesis by (simp add: m' s)
  next
    case (Some pc)
    obtain c where r: "r = Some (p, c)" using p Some by (cases pc) simp
    note ai = alloc_inv [OF ok(1,4) sz ok(3) a [unfolded r]] and ao = alloc_owned [OF ok(1,3) sz a [unfolded r]]
    have hd: "0 < p" "p + class_size c \<le> 2 ^ 47" "\<forall>x \<in># ?live. span x \<inter> span (p, c) = {}"
      using slab_inv_handed [of s p c ?live] ai by simp_all
    have cl: "c < CLASSES" using ai by (auto simp: slab_inv_def chunks_def chunk_ok_def)
    then have cg: "c \<noteq> GLIBC_CLASS" by (simp add: GLIBC_CLASS_def)
    have pd: "p \<notin> dom (m_heap m)"
    proof
      assume d: "p \<in> dom (m_heap m)"
      show False
      proof (cases "p \<in> slab_addrs (m_heap m)")
        case True
        then have "(p, en_class (deref (m_heap m) p)) \<in># ?live"
          using ok(2) by (auto simp: heap_chunks_def slab_addrs_def)
        with hd(3) span_nonempty [of "(p, c)"] span_nonempty [of "(p, en_class (deref (m_heap m) p))"] show False by fastforce
      next
        case False
        with d assms(1) have "p \<notin> owned (m_slab m) ?live" by (auto simp: alloc_ok_def)
        moreover have "p \<notin> region (ev_mmap ev)" using ok(5) d by blast
        ultimately show False using ao(1,2) by blast
      qed
    qed
    note n = heap_chunks_new [OF pd ok(2)]
    have "p < 2 ^ 48" using hd(2) by simp
    moreover have "alloc_ok m'"
    proof -
      have hc: "heap_chunks (m_heap m') = add_mset (p, c) ?live" and sa: "slab_addrs (m_heap m') = insert p (slab_addrs (m_heap m))"
        using cg by (simp_all add: h' r n)
      have "q \<notin> owned s (add_mset (p, c) ?live)" if "q \<in> dom (m_heap m) - slab_addrs (m_heap m)" for q
        using that assms(1) ok(5) ao(1) by (auto simp: alloc_ok_def)
      then show ?thesis using ai ok(2) unfolding alloc_ok_def hc sa m' by (auto simp: h')
    qed
    ultimately show ?thesis using pd hd(1) ao(3) by (simp add: m')
  qed
  then show "p \<notin> dom (m_heap m)" "0 < p" "p < 2 ^ 48" "alloc_ok m'"
    "length (sl_mags (m_slab m')) = length (sl_mags (m_slab m))" by blast+
qed

end
