(* ===== verification/Shard_Inv.thy ===== *)
theory Shard_Inv
  imports Shard Memory
begin

text \<open>
  The invariant of an S3-FIFO shard and what each of its operations does to it: which handles
  exist (so that a reference count never lies), the byte accounting of the queues, and the map
  from keys to entries the shard stands for.
\<close>

section \<open>The invariant\<close>

text \<open>
  The queued entries as a set: which handles there are, and the byte accounting. \<open>M\<close> is the
  map the index stands for; \<open>X\<close> holds an entry being inserted, indexed and not yet queued;
  \<open>ext\<close> counts handles held elsewhere (by other shards, and by readers that cloned one).
\<close>

definition hcount :: "(nat \<Rightarrow> nat) \<Rightarrow> nat set \<Rightarrow> memory \<Rightarrow> (bytes \<rightharpoonup> nat) \<Rightarrow> nat \<Rightarrow> nat" where
  "hcount ext S m M p = of_bool (p \<in> ran M) + of_bool (p \<in> S) + count (mset (m_retired m)) p + ext p"

definition live_cost :: "heap \<Rightarrow> nat set \<Rightarrow> nat" where
  "live_cost h S = (\<Sum>p \<in> {p \<in> S. live_at h p}. cost_at h p)"

definition dead_cost :: "heap \<Rightarrow> nat set \<Rightarrow> nat" where
  "dead_cost h S = (\<Sum>p \<in> {p \<in> S. \<not> live_at h p}. cost_at h p)"

definition qcore ::
  "(bytes \<Rightarrow> u64) \<Rightarrow> (nat \<Rightarrow> nat) \<Rightarrow> nat set \<Rightarrow> nat set \<Rightarrow> index \<Rightarrow> memory \<Rightarrow> (bytes \<rightharpoonup> nat) \<Rightarrow> bool" where
  "qcore H ext X S ix m M \<longleftrightarrow> ix_rep H (m_heap m) ix M \<and> mem_ok m (hcount ext S m M) \<and> finite S \<and>
     ran M \<subseteq> S \<union> X \<and> X \<subseteq> ran M \<and> X \<inter> S = {} \<and>
     (\<forall>p \<in> S \<union> X. live_at (m_heap m) p \<longleftrightarrow> M (key_at (m_heap m) p) = Some p) \<and>
     (\<forall>p \<in> ran M. insertable H (m_heap m) p \<and> M (key_at (m_heap m) p) = Some p)"

lemma qcoreD:
  assumes "qcore H ext X S ix m M"
  shows "ix_rep H (m_heap m) ix M" "mem_ok m (hcount ext S m M)" "finite S" "ran M \<subseteq> S \<union> X" "X \<subseteq> ran M"
    "X \<inter> S = {}" "\<And>p. p \<in> S \<union> X \<Longrightarrow> live_at (m_heap m) p \<longleftrightarrow> M (key_at (m_heap m) p) = Some p"
    "\<And>p. p \<in> ran M \<Longrightarrow> insertable H (m_heap m) p" "\<And>p. p \<in> ran M \<Longrightarrow> M (key_at (m_heap m) p) = Some p"
  using assms unfolding qcore_def by blast+

lemma qcoreI:
  "ix_rep H (m_heap m) ix M \<Longrightarrow> mem_ok m (hcount ext S m M) \<Longrightarrow> finite S \<Longrightarrow> ran M \<subseteq> S \<union> X \<Longrightarrow> X \<subseteq> ran M \<Longrightarrow>
   X \<inter> S = {} \<Longrightarrow> (\<And>p. p \<in> S \<union> X \<Longrightarrow> live_at (m_heap m) p \<longleftrightarrow> M (key_at (m_heap m) p) = Some p) \<Longrightarrow>
   (\<And>p. p \<in> ran M \<Longrightarrow> insertable H (m_heap m) p \<and> M (key_at (m_heap m) p) = Some p) \<Longrightarrow> qcore H ext X S ix m M"
  unfolding qcore_def by blast

lemma qcore_key: "qcore H ext X S ix m M \<Longrightarrow> M k = Some p \<Longrightarrow> key_at (m_heap m) p = k"
  using qcoreD(1) unfolding ix_rep_def by blast

lemma qcore_S: "qcore H ext X S ix m M \<Longrightarrow> p \<in> S \<Longrightarrow> 0 < hcount ext S m M p"
  by (simp add: hcount_def)

lemma qcore_dom: "qcore H ext X S ix m M \<Longrightarrow> p \<in> S \<union> ran M \<Longrightarrow> p \<in> dom (m_heap m)"
  using mem_ok_dom [OF qcoreD(2), of H ext X S ix m M p] by (auto simp: hcount_def)

lemma qcore_dead: "qcore H ext X S ix m M \<Longrightarrow> p \<in> S \<Longrightarrow> \<not> live_at (m_heap m) p \<Longrightarrow> p \<notin> ran M"
  using qcoreD(7,9) by blast

lemma live_cost_remove:
  assumes "finite S" and "p \<in> S"
  shows "live_cost h (S - {p}) = (if live_at h p then live_cost h S - cost_at h p else live_cost h S)"
    and "live_at h p \<Longrightarrow> cost_at h p \<le> live_cost h S"
proof -
  show "live_cost h (S - {p}) = (if live_at h p then live_cost h S - cost_at h p else live_cost h S)"
  proof (cases "live_at h p")
    case True
    have "{q \<in> S - {p}. live_at h q} = {q \<in> S. live_at h q} - {p}" by auto
    then show ?thesis using True assms by (simp add: live_cost_def sum_diff1_nat)
  next
    case False
    then have "{q \<in> S - {p}. live_at h q} = {q \<in> S. live_at h q}" by auto
    then show ?thesis using False by (simp add: live_cost_def)
  qed
  show "cost_at h p \<le> live_cost h S" if "live_at h p"
    unfolding live_cost_def using that assms by (intro member_le_sum) auto
qed

lemma dead_cost_remove:
  assumes "finite S" and "p \<in> S"
  shows "dead_cost h (S - {p}) = (if live_at h p then dead_cost h S else dead_cost h S - cost_at h p)"
proof (cases "live_at h p")
  case False
  have "{q \<in> S - {p}. \<not> live_at h q} = {q \<in> S. \<not> live_at h q} - {p}" by auto
  then show ?thesis using False assms by (simp add: dead_cost_def sum_diff1_nat)
next
  case True
  then have "{q \<in> S - {p}. \<not> live_at h q} = {q \<in> S. \<not> live_at h q}" by auto
  then show ?thesis using True by (simp add: dead_cost_def)
qed

lemma cost_cong:
  assumes "\<And>p. p \<in> S \<Longrightarrow> live_at h' p = live_at h p \<and> cost_at h' p = cost_at h p"
  shows "live_cost h' S = live_cost h S" and "dead_cost h' S = dead_cost h S"
proof -
  have "{p \<in> S. live_at h' p} = {p \<in> S. live_at h p}" "{p \<in> S. \<not> live_at h' p} = {p \<in> S. \<not> live_at h p}"
    using assms by auto
  then show "live_cost h' S = live_cost h S" and "dead_cost h' S = dead_cost h S"
    using assms unfolding live_cost_def dead_cost_def by (auto intro!: sum.cong)
qed

text \<open>Dropping the handle of a queued entry that is no longer indexed.\<close>

lemma qcore_drop:
  assumes "qcore H ext X S ix m M" and "p \<in> S" and "\<not> live_at (m_heap m) p"
  shows "qcore H ext X (S - {p}) ix (entry_drop ev p m) M"
    and "\<And>q. q \<in> S - {p} \<Longrightarrow> live_at (m_heap (entry_drop ev p m)) q = live_at (m_heap m) q \<and>
      cost_at (m_heap (entry_drop ev p m)) q = cost_at (m_heap m) q"
    and "changes ev S m (entry_drop ev p m)"
proof -
  let ?m = "entry_drop ev p m"
  have pM: "p \<notin> ran M" using qcore_dead [OF assms] .
  have hc: "(hcount ext S m M)(p := hcount ext S m M p - 1) = hcount ext (S - {p}) ?m M"
    using assms(2) by (auto simp: hcount_def entry_drop_heap fun_eq_iff)
  have ok: "mem_ok ?m (hcount ext (S - {p}) ?m M)"
    unfolding hc [symmetric] using qcoreD(2) [OF assms(1)] qcore_S [OF assms(1,2)] by (rule entry_drop_mem_ok)
  have d: "q \<in> dom (m_heap ?m)" if "q \<in> S - {p} \<union> ran M" for q
    using mem_ok_dom [OF ok, of q] that by (auto simp: hcount_def)
  note f = entry_drop_fields [OF d]
  show "\<And>q. q \<in> S - {p} \<Longrightarrow> live_at (m_heap ?m) q = live_at (m_heap m) q \<and> cost_at (m_heap ?m) q = cost_at (m_heap m) q"
    using f by auto
  show "qcore H ext X (S - {p}) ix ?m M"
  proof (rule qcoreI [OF _ ok])
    show "ix_rep H (m_heap ?m) ix M" using qcoreD(1) [OF assms(1)] by (rule ix_rep_heap) (use f in auto)
    show "ran M \<subseteq> S - {p} \<union> X" using qcoreD(4) [OF assms(1)] pM by blast
    show "live_at (m_heap ?m) q \<longleftrightarrow> M (key_at (m_heap ?m) q) = Some q" if "q \<in> S - {p} \<union> X" for q
      using qcoreD(7) [OF assms(1), of q] f [of q] that qcoreD(5) [OF assms(1)] by auto
    show "insertable H (m_heap ?m) q \<and> M (key_at (m_heap ?m) q) = Some q" if "q \<in> ran M" for q
      using qcoreD(8,9) [OF assms(1) that] f [of q] that by (simp add: insertable_def)
  qed (use qcoreD [OF assms(1)] in blast)+
  show "changes ev S m ?m" using qcore_dom [OF assms(1)] assms(2) by blast
qed

lemma qcore_set_freq:
  assumes "qcore H ext X S ix m M" and "p \<in> S"
  shows "qcore H ext X S ix (set_freq p f m) M" and "changes ev S m (set_freq p f m)"
proof -
  have hc: "hcount ext S (set_freq p f m) M = hcount ext S m M" by (simp add: hcount_def fun_eq_iff)
  have "mem_ok (set_freq p f m) (hcount ext S m M)"
    using qcoreD(2) [OF assms(1)] qcore_S [OF assms] by (rule atomics_mem_ok)
  moreover have "ix_rep H (m_heap (set_freq p f m)) ix M" using qcoreD(1) [OF assms(1)] by (rule ix_rep_heap) simp
  ultimately show "qcore H ext X S ix (set_freq p f m) M"
    using assms(1) unfolding qcore_def hc by (simp add: insertable_def)
  show "changes ev S m (set_freq p f m)" using qcore_dom [OF assms(1)] assms(2) by blast
qed

text \<open>
  Removing a key from the index and marking its queued entry dead: the index handle goes to
  the collector.
\<close>

lemma ran_upd_None:
  assumes "M k = Some p" and "\<And>k'. M k' = Some p \<Longrightarrow> k' = k"
  shows "ran (M(k := None)) = ran M - {p}"
proof (rule set_eqI)
  fix q
  have "q \<in> ran (M(k := None)) \<longleftrightarrow> (\<exists>k'. k' \<noteq> k \<and> M k' = Some q)" by (auto simp: ran_def)
  also have "\<dots> \<longleftrightarrow> (\<exists>k'. M k' = Some q) \<and> q \<noteq> p"
  proof
    assume "\<exists>k'. k' \<noteq> k \<and> M k' = Some q"
    with assms(2) show "(\<exists>k'. M k' = Some q) \<and> q \<noteq> p" by blast
  next
    assume "(\<exists>k'. M k' = Some q) \<and> q \<noteq> p"
    then obtain k' where "M k' = Some q" "q \<noteq> p" by blast
    with assms(1) have "k' \<noteq> k" by auto
    with \<open>M k' = Some q\<close> show "\<exists>k'. k' \<noteq> k \<and> M k' = Some q" by blast
  qed
  finally show "q \<in> ran (M(k := None)) \<longleftrightarrow> q \<in> ran M - {p}" by (simp add: ran_def)
qed

lemma qcore_unindex:
  assumes "qcore H ext X S ix m M" and "p \<in> S" and "M k = Some p" and "ix_rep H (m_heap m) ix' (M(k := None))"
  shows "qcore H ext X S ix' (retire p (set_dead p m)) (M(k := None))"
    and "changes ev S m (retire p (set_dead p m))"
proof -
  let ?m = "retire p (set_dead p m)" and ?M = "M(k := None)"
  have key: "key_at (m_heap m) p = k" using qcore_key [OF assms(1,3)] .
  have rM: "ran ?M = ran M - {p}"
    using assms(3) by (rule ran_upd_None) (use qcore_key [OF assms(1)] key in blast)
  have pM: "p \<in> ran M" using assms(3) by (rule ranI)
  have hc: "hcount ext S ?m ?M = hcount ext S m M"
  proof
    fix q
    show "hcount ext S ?m ?M q = hcount ext S m M q"
      using pM by (cases "q = p") (simp_all add: hcount_def rM retire_def)
  qed
  have ok: "mem_ok ?m (hcount ext S ?m ?M)"
    unfolding retire_mem_ok hc using qcoreD(2) [OF assms(1)] qcore_S [OF assms(1,2)] by (rule atomics_mem_ok)
  have new: "?M (key_at (m_heap m) q) = Some q \<longleftrightarrow> M (key_at (m_heap m) q) = Some q \<and> q \<noteq> p" for q
    using key assms(3) by auto
  show "qcore H ext X S ix' ?m ?M"
  proof (rule qcoreI [OF _ ok])
    show "ix_rep H (m_heap ?m) ix' ?M" using assms(4) by (rule ix_rep_heap) simp
    show "live_at (m_heap ?m) q \<longleftrightarrow> ?M (key_at (m_heap ?m) q) = Some q" if "q \<in> S \<union> X" for q
      using qcoreD(7) [OF assms(1) that] new [of q] by simp
    show "insertable H (m_heap ?m) q \<and> ?M (key_at (m_heap ?m) q) = Some q" if "q \<in> ran ?M" for q
    proof -
      from that have "q \<in> ran M" "q \<noteq> p" by (simp_all add: rM)
      then show ?thesis using qcoreD(8,9) [OF assms(1), of q] new [of q] by (simp add: insertable_def)
    qed
    show "ran ?M \<subseteq> S \<union> X" "X \<subseteq> ran ?M"
      using qcoreD(4-6) [OF assms(1)] assms(2) by (auto simp: rM)
  qed (use qcoreD(3,6) [OF assms(1)] in blast)+
  have "p \<in> dom (m_heap m)" using qcore_dom [OF assms(1)] assms(2) by blast
  then have "changes ev S m (set_dead p m)" "p \<in> dom (m_heap (set_dead p m))"
    using assms(2) by (blast, simp add: set_dead_def)
  then show "changes ev S m ?m" using assms(2) changes_trans changes_basic(5) by blast
qed

text \<open>Evicting a live queued entry.\<close>

lemma retire_set_dead: "set_dead p (retire q m) = retire q (set_dead p m)"
  by (simp add: set_dead_def retire_def)

lemma unlink_spec:
  assumes "qcore H ext X S (sh_index s) m M" and "p \<in> S" and "live_at (m_heap m) p" and "unlink p (s, m) = (s', m')"
  shows "\<exists>ix'. s' = s\<lparr>sh_index := ix'\<rparr> \<and> m' = retire p m \<and>
    ix_rep H (m_heap m) ix' (M(key_at (m_heap m) p := None)) \<and> M (key_at (m_heap m) p) = Some p"
proof -
  have M: "M (key_at (m_heap m) p) = Some p" using qcoreD(7) [OF assms(1)] assms(2,3) by simp
  then have "p \<in> ran M" by (rule ranI)
  then have H: "hash_at (m_heap m) p = H (key_at (m_heap m) p)"
    using qcoreD(8) [OF assms(1)] by (simp add: insertable_def)
  obtain r ix' where r: "index_remove_if_same (m_heap m) (H (key_at (m_heap m) p)) p (sh_index s) = (r, ix')"
    by fastforce
  with cuckoo.del_same [OF qcoreD(1) [OF assms(1)] r] M
  have "r = Some p" "ix_rep H (m_heap m) ix' (M(key_at (m_heap m) p := None))" by simp_all
  with r assms(4) M H show ?thesis by (auto simp: unlink_def)
qed

lemma evict_live:
  assumes "qcore H ext X S (sh_index s) m M" and "p \<in> S" and "live_at (m_heap m) p" and "unlink p (s, m) = (s', m')"
  shows "qcore H ext X (S - {p}) (sh_index s') (entry_drop ev p (set_dead p m')) (M(key_at (m_heap m) p := None))"
    and "\<And>q. q \<in> S - {p} \<Longrightarrow> live_at (m_heap (entry_drop ev p (set_dead p m'))) q = live_at (m_heap m) q \<and>
      cost_at (m_heap (entry_drop ev p (set_dead p m'))) q = cost_at (m_heap m) q"
    and "changes ev S m (entry_drop ev p (set_dead p m'))"
    and "\<exists>ix'. s' = s\<lparr>sh_index := ix'\<rparr>"
proof -
  obtain ix' where u: "s' = s\<lparr>sh_index := ix'\<rparr>" "m' = retire p m"
      "ix_rep H (m_heap m) ix' (M(key_at (m_heap m) p := None))" "M (key_at (m_heap m) p) = Some p"
    using unlink_spec [OF assms] by blast
  let ?m = "retire p (set_dead p m)"
  have q: "qcore H ext X S ix' ?m (M(key_at (m_heap m) p := None))" "changes ev S m ?m"
    using qcore_unindex [OF assms(1,2) u(4,3)] by simp_all
  have dead: "\<not> live_at (m_heap ?m) p" by simp
  note d = qcore_drop [OF q(1) assms(2) dead, where ev = ev]
  have e: "set_dead p m' = ?m" using u(2) by (simp add: retire_set_dead)
  show "qcore H ext X (S - {p}) (sh_index s') (entry_drop ev p (set_dead p m')) (M(key_at (m_heap m) p := None))"
    using d(1) by (simp add: e u(1))
  show "\<exists>ix'. s' = s\<lparr>sh_index := ix'\<rparr>" using u(1) by blast
  show "changes ev S m (entry_drop ev p (set_dead p m'))"
    unfolding e using q(2) d(3) by (rule changes_trans)
  show "live_at (m_heap (entry_drop ev p (set_dead p m'))) x = live_at (m_heap m) x \<and>
      cost_at (m_heap (entry_drop ev p (set_dead p m'))) x = cost_at (m_heap m) x" if "x \<in> S - {p}" for x
    unfolding e using d(2) [OF that] that by simp
qed

section \<open>Eviction keeps the invariant\<close>

abbreviation queued :: "shard \<Rightarrow> nat set" where
  "queued s \<equiv> set (sh_small s) \<union> set (sh_main s)"

definition shard_core ::
  "(bytes \<Rightarrow> u64) \<Rightarrow> (nat \<Rightarrow> nat) \<Rightarrow> nat set \<Rightarrow> shard \<Rightarrow> memory \<Rightarrow> (bytes \<rightharpoonup> nat) \<Rightarrow> bool" where
  "shard_core H ext X s m M \<longleftrightarrow> qcore H ext X (queued s) (sh_index s) m M \<and>
     distinct (sh_small s @ sh_main s) \<and>
     sh_used s = live_cost (m_heap m) (queued s) \<and> sh_dead_bytes s = dead_cost (m_heap m) (queued s) \<and>
     sh_small_bytes s = (\<Sum>p \<in> set (sh_small s). cost_at (m_heap m) p)"

text \<open>
  What eviction may do to a shard: entries leave the index, none is changed or added, none
  being inserted is touched, and the budgets stay.
\<close>

definition evicts :: "env \<Rightarrow> nat set \<Rightarrow> shard \<times> memory \<times> (bytes \<rightharpoonup> nat) \<Rightarrow> shard \<times> memory \<times> (bytes \<rightharpoonup> nat) \<Rightarrow> bool" where
  "evicts ev X a b \<longleftrightarrow> (case (a, b) of ((s, m, M), (s', m', M')) \<Rightarrow>
     M' \<subseteq>\<^sub>m M \<and> (\<forall>k. (\<exists>p \<in> X. M k = Some p) \<longrightarrow> M' k = M k) \<and>
     changes ev (queued s) m m' \<and> queued s' \<subseteq> queued s \<and>
     sh_capacity s' = sh_capacity s \<and> sh_small_capacity s' = sh_small_capacity s)"

lemma evicts_refl [simp]: "evicts ev X a a"
  by (simp add: evicts_def split: prod.split)

lemma evicts_trans:
  assumes "evicts ev X a b" and "evicts ev X b c"
  shows "evicts ev X a c"
proof -
  obtain s m M s1 m1 M1 s2 m2 M2 where e: "a = (s, m, M)" "b = (s1, m1, M1)" "c = (s2, m2, M2)"
    by (metis prod_cases3)
  have "M2 k = M k" if "p \<in> X" "M k = Some p" for k p
    using assms that by (auto simp: evicts_def e)
  moreover have "changes ev (queued s) m m2"
    using assms changes_mono changes_trans unfolding evicts_def e prod.case by meson
  ultimately show ?thesis using assms by (auto simp: evicts_def e intro: map_le_trans)
qed

lemma evicts_remove:
  assumes "qcore H ext X (queued s) ix m M" and "p \<in> queued s" and "M (key_at (m_heap m) p) = Some p"
    and "changes ev (queued s) m m'" and "queued s' \<subseteq> queued s"
    and "sh_capacity s' = sh_capacity s" and "sh_small_capacity s' = sh_small_capacity s"
  shows "evicts ev X (s, m, M) (s', m', M(key_at (m_heap m) p := None))"
proof -
  have "p \<notin> X" using qcoreD(6) [OF assms(1)] assms(2) by blast
  with assms(3-) show ?thesis by (auto simp: evicts_def map_le_def)
qed

lemma shard_coreD:
  assumes "shard_core H ext X s m M"
  shows "qcore H ext X (queued s) (sh_index s) m M" "distinct (sh_small s @ sh_main s)"
    "sh_used s = live_cost (m_heap m) (queued s)" "sh_dead_bytes s = dead_cost (m_heap m) (queued s)"
    "sh_small_bytes s = (\<Sum>p \<in> set (sh_small s). cost_at (m_heap m) p)"
  using assms by (simp_all add: shard_core_def)

text \<open>
  Taking an entry off a queue: the rest of the accounting, given what became of the index and
  the memory.
\<close>

lemma shard_core_pop:
  assumes "shard_core H ext X s m M" and "p \<in> queued s"
    and "qcore H ext X (queued s - {p}) (sh_index s') m' M'"
    and "\<And>q. q \<in> queued s - {p} \<Longrightarrow> live_at (m_heap m') q = live_at (m_heap m) q \<and>
      cost_at (m_heap m') q = cost_at (m_heap m) q"
    and "sh_small s' = remove1 p (sh_small s)" and "sh_main s' = remove1 p (sh_main s)"
    and "sh_used s' = (if live_at (m_heap m) p then sh_used s - cost_at (m_heap m) p else sh_used s)"
    and "sh_dead_bytes s' = (if live_at (m_heap m) p then sh_dead_bytes s else sh_dead_bytes s - cost_at (m_heap m) p)"
    and "sh_small_bytes s' = (if p \<in> set (sh_small s) then sh_small_bytes s - cost_at (m_heap m) p else sh_small_bytes s)"
  shows "shard_core H ext X s' m' M'"
proof -
  note c = shard_coreD [OF assms(1)]
  have fin: "finite (queued s)" by simp
  have sets: "set (sh_small s') = set (sh_small s) - {p}" "set (sh_main s') = set (sh_main s) - {p}"
    using c(2) assms(5,6) by simp_all
  then have S: "queued s' = queued s - {p}" by blast
  have "live_cost (m_heap m') (queued s - {p}) = live_cost (m_heap m) (queued s - {p})"
      "dead_cost (m_heap m') (queued s - {p}) = dead_cost (m_heap m) (queued s - {p})"
    using cost_cong [of "queued s - {p}" "m_heap m'" "m_heap m"] assms(4) by simp_all
  moreover have "(\<Sum>q \<in> set (sh_small s'). cost_at (m_heap m') q) = (\<Sum>q \<in> set (sh_small s) - {p}. cost_at (m_heap m) q)"
    unfolding sets using assms(4) by (intro sum.cong) auto
  moreover have "distinct (sh_small s' @ sh_main s')" using c(2) sets assms(5,6) by auto
  ultimately show ?thesis
    using assms(3,7-9) live_cost_remove(1) [OF fin assms(2)] dead_cost_remove [OF fin assms(2)] c(3-5)
    by (simp add: shard_core_def S sum_diff1_nat)
qed

lemma shard_core_set_freq:
  assumes "shard_core H ext X s m M" and "p \<in> queued s" and "sh_index s' = sh_index s"
    and "queued s' = queued s" and "distinct (sh_small s' @ sh_main s')"
    and "sh_used s' = sh_used s" and "sh_dead_bytes s' = sh_dead_bytes s"
    and "sh_small_bytes s' = (\<Sum>p \<in> set (sh_small s'). cost_at (m_heap m) p)"
  shows "shard_core H ext X s' (set_freq p f m) M"
proof -
  note c = shard_coreD [OF assms(1)]
  have "live_cost (m_heap (set_freq p f m)) (queued s) = live_cost (m_heap m) (queued s)"
      "dead_cost (m_heap (set_freq p f m)) (queued s) = dead_cost (m_heap m) (queued s)"
    by (rule cost_cong; simp)+
  with qcore_set_freq(1) [OF c(1) assms(2), of f] assms(3-) c(3,4) show ?thesis by (simp add: shard_core_def)
qed

lemma evict_small_spec:
  assumes "shard_core H ext X s m M" and "evict_small ev (s, m) = Some (r, s', m')"
  shows "\<exists>M'. shard_core H ext X s' m' M' \<and> evicts ev X (s, m, M) (s', m', M')"
proof -
  note c = shard_coreD [OF assms(1)]
  obtain p rest where small: "sh_small s = p # rest" using assms(2) by (cases "sh_small s") (auto simp: evict_small_def)
  then have pS: "p \<in> queued s" and pm: "p \<notin> set (sh_main s)" "p \<notin> set rest" using c(2) by auto
  let ?cost = "cost_at (m_heap m) p"
  let ?s1 = "s\<lparr>sh_small := rest, sh_small_bytes := sh_small_bytes s - ?cost\<rparr>"
  show ?thesis
  proof (cases "live_at (m_heap m) p")
    case False
    then have e: "s' = ?s1\<lparr>sh_dead_bytes := sh_dead_bytes s - ?cost\<rparr>" "m' = entry_drop ev p m"
      using assms(2) small by (simp_all add: evict_small_def Let_def)
    note d = qcore_drop [OF c(1) pS False, where ev = ev]
    have "shard_core H ext X s' m' M"
      by (rule shard_core_pop [OF assms(1) pS]) (use d(1,2) False small pm in \<open>simp_all add: e remove1_idem\<close>)
    moreover have "evicts ev X (s, m, M) (s', m', M)" using d(3) small by (auto simp: evicts_def e)
    ultimately show ?thesis by blast
  next
    case live: True
    show ?thesis
    proof (cases "freq_at (m_heap m) p > 1")
      case True
      then have e: "s' = ?s1\<lparr>sh_main := sh_main s @ [p]\<rparr>" "m' = set_freq p 0 m"
        using assms(2) small live by (simp_all add: evict_small_def Let_def)
      have "shard_core H ext X s' m' M"
        unfolding e(2) using c(2,5) small pm
        by (intro shard_core_set_freq [OF assms(1) pS]) (auto simp: e(1))
      moreover have "evicts ev X (s, m, M) (s', m', M)"
        using qcore_set_freq(2) [OF c(1) pS] small by (auto simp: evicts_def e)
      ultimately show ?thesis by blast
    next
      case False
      obtain s2 m2 where u: "unlink p (?s1, m) = (s2, m2)" by fastforce
      then have e: "s' = (count_eviction (s2\<lparr>sh_used := sh_used s2 - ?cost\<rparr>))\<lparr>sh_ghost :=
            ghost_push (hash_at (m_heap (set_dead p m2)) p) (length (sh_main s2)) (sh_ghost s2)\<rparr>"
          "m' = entry_drop ev p (set_dead p m2)"
        using assms(2) small live False by (simp_all add: evict_small_def count_eviction_def Let_def)
      have c1: "qcore H ext X (queued s) (sh_index ?s1) m M" using c(1) by simp
      note v = evict_live(1-3) [OF c1 pS live u, where ev = ev] and v4 = evict_live(4) [OF c1 pS live u]
      have Mp: "M (key_at (m_heap m) p) = Some p" using qcoreD(7) [OF c(1), of p] pS live by blast
      have "shard_core H ext X s' m' (M(key_at (m_heap m) p := None))"
        by (rule shard_core_pop [OF assms(1) pS])
          (use v(1,2) v4 live small pm in \<open>auto simp: e count_eviction_def remove1_idem\<close>)
      moreover have "evicts ev X (s, m, M) (s', m', M(key_at (m_heap m) p := None))"
        by (rule evicts_remove [OF c(1) pS Mp]) (use v(3) v4 small in \<open>auto simp: e count_eviction_def\<close>)
      ultimately show ?thesis by blast
    qed
  qed
qed

lemma evict_main_spec:
  assumes "shard_core H ext X s m M" and "evict_main ev (s, m) = Some (r, s', m')"
  shows "\<exists>M'. shard_core H ext X s' m' M' \<and> evicts ev X (s, m, M) (s', m', M')"
  using assms
proof (induction ev "(s, m)" arbitrary: s m rule: evict_main.induct)
  case (1 ev s m)
  note c = shard_coreD [OF "1.prems"(1)]
  note em = evict_main.simps [of ev s m]
  obtain p rest where main: "sh_main s = p # rest" using "1.prems"(2) by (cases "sh_main s") (auto simp: em)
  then have pS: "p \<in> queued s" and pm: "p \<notin> set (sh_small s)" "p \<notin> set rest" using c(2) by auto
  let ?cost = "cost_at (m_heap m) p"
  let ?s1 = "s\<lparr>sh_main := rest\<rparr>"
  consider "\<not> live_at (m_heap m) p" | "live_at (m_heap m) p" "0 < freq_at (m_heap m) p"
    | "live_at (m_heap m) p" "freq_at (m_heap m) p = 0" by blast
  then show ?case
  proof cases
    case 1
    then have e: "s' = ?s1\<lparr>sh_dead_bytes := sh_dead_bytes s - ?cost\<rparr>" "m' = entry_drop ev p m"
      using "1.prems"(2) main by (simp_all add: em Let_def)
    note d = qcore_drop [OF c(1) pS 1, where ev = ev]
    have "shard_core H ext X s' m' M"
      by (rule shard_core_pop [OF "1.prems"(1) pS]) (use d(1,2) 1 main pm in \<open>simp_all add: e remove1_idem\<close>)
    moreover have "evicts ev X (s, m, M) (s', m', M)" using d(3) main by (auto simp: evicts_def e)
    ultimately show ?thesis by blast
  next
    case 2
    let ?s = "?s1\<lparr>sh_main := rest @ [p]\<rparr>" and ?m = "set_freq p (freq_at (m_heap m) p - 1) m"
    have core: "shard_core H ext X ?s ?m M"
      using c(2,5) main pm by (intro shard_core_set_freq [OF "1.prems"(1) pS]) auto
    have "evict_main ev (?s, ?m) = Some (r, s', m')" using "1.prems"(2) main 2 by (simp add: em Let_def)
    with "1.hyps" [OF main refl refl _ refl] 2 core main
    obtain M' where "shard_core H ext X s' m' M'" "evicts ev X (?s, ?m, M) (s', m', M')" by auto
    moreover have "evicts ev X (s, m, M) (?s, ?m, M)" using qcore_set_freq(2) [OF c(1) pS] main by (auto simp: evicts_def)
    ultimately show ?thesis using evicts_trans by blast
  next
    case 3
    obtain s2 m2 where u: "unlink p (?s1, m) = (s2, m2)" by fastforce
    then have e: "s' = count_eviction (s2\<lparr>sh_used := sh_used s2 - ?cost\<rparr>)" "m' = entry_drop ev p (set_dead p m2)"
      using "1.prems"(2) main 3 by (simp_all add: em Let_def)
    have c1: "qcore H ext X (queued s) (sh_index ?s1) m M" using c(1) by simp
    note v = evict_live(1-3) [OF c1 pS 3(1) u, where ev = ev] and v4 = evict_live(4) [OF c1 pS 3(1) u]
    have Mp: "M (key_at (m_heap m) p) = Some p" using qcoreD(7) [OF c(1), of p] pS 3(1) by blast
    have "shard_core H ext X s' m' (M(key_at (m_heap m) p := None))"
      by (rule shard_core_pop [OF "1.prems"(1) pS])
        (use v(1,2) v4 3(1) main pm in \<open>auto simp: e count_eviction_def remove1_idem\<close>)
    moreover have "evicts ev X (s, m, M) (s', m', M(key_at (m_heap m) p := None))"
      by (rule evicts_remove [OF c(1) pS Mp]) (use v(3) v4 main in \<open>auto simp: e count_eviction_def\<close>)
    ultimately show ?thesis by blast
  qed
qed

lemma evict_main_None: "evict_main ev (s, m) = None \<Longrightarrow> sh_main s = []"
proof (induction ev "(s, m)" arbitrary: s m rule: evict_main.induct)
  case (1 ev s m)
  show ?case
  proof (cases "sh_main s")
    case (Cons p rest)
    show ?thesis
    proof (cases "live_at (m_heap m) p \<and> 0 < freq_at (m_heap m) p")
      case True
      let ?s = "s\<lparr>sh_main := rest @ [p]\<rparr>"
      have "evict_main ev (?s, set_freq p (freq_at (m_heap m) p - 1) m) = None"
        using "1.prems" Cons True by (simp add: evict_main.simps [of ev s m] Let_def)
      with "1.hyps" [OF Cons refl refl _ refl] True Cons show ?thesis by auto
    next
      case False
      with "1.prems" Cons show ?thesis
        by (auto simp: evict_main.simps [of ev s m] Let_def split: if_splits prod.splits)
    qed
  qed
qed

lemma evict_small_None: "evict_small ev (s, m) = None \<Longrightarrow> sh_small s = []"
  by (auto simp: evict_small_def Let_def split: list.splits if_splits prod.splits)

lemma evict_one_spec:
  assumes "shard_core H ext X s m M" and "evict_one ev (s, m) = Some (r, s', m')"
  shows "\<exists>M'. shard_core H ext X s' m' M' \<and> evicts ev X (s, m, M) (s', m', M')"
proof -
  have "evict_small ev (s, m) = Some (r, s', m') \<or> evict_main ev (s, m) = Some (r, s', m')"
    using assms(2) by (auto simp: evict_one_def split: if_splits option.splits)
  with evict_small_spec [OF assms(1)] evict_main_spec [OF assms(1)] show ?thesis by blast
qed

lemma evict_one_None: "evict_one ev (s, m) = None \<Longrightarrow> queued s = {}"
  using evict_small_None [of ev s m] evict_main_None [of ev s m]
  by (auto simp: evict_one_def split: if_splits option.splits)

text \<open>
  The eviction loop of \<open>set\<close>: it stops with room for the new entry, or with nothing left to
  evict; with room to begin with it does nothing.
\<close>

lemma evict_loop_spec:
  assumes "shard_core H ext X s m M" and "evict_loop ev cost ret (s, m) = (ret', s', m')"
  shows "\<exists>M'. shard_core H ext X s' m' M' \<and> evicts ev X (s, m, M) (s', m', M') \<and>
    (cost \<le> sh_capacity s \<longrightarrow> sh_used s' + cost \<le> sh_capacity s) \<and>
    (sh_used s + cost \<le> sh_capacity s \<longrightarrow> s' = s \<and> m' = m \<and> M' = M)"
  using assms
proof (induction ev cost ret "(s, m)" arbitrary: s m M rule: evict_loop.induct)
  case (1 ev cost ret s m)
  note el = evict_loop.simps [of ev cost ret s m]
  show ?case
  proof (cases "sh_used s + cost > sh_capacity s")
    case False
    with "1.prems" show ?thesis by (auto simp: el)
  next
    case True
    show ?thesis
    proof (cases "evict_one ev (s, m)")
      case None
      then have "queued s = {}" by (rule evict_one_None)
      then have "sh_used s = 0" using shard_coreD(3) [OF "1.prems"(1)] by (simp add: live_cost_def)
      with True None "1.prems" show ?thesis by (auto simp: el)
    next
      case (Some x)
      obtain r s1 m1 where x: "x = (r, s1, m1)" by (cases x)
      obtain M1 where e: "shard_core H ext X s1 m1 M1" "evicts ev X (s, m, M) (s1, m1, M1)"
        using evict_one_spec [OF "1.prems"(1) Some [unfolded x]] by blast
      have "evict_loop ev cost (retired_add ret r) (s1, m1) = (ret', s', m')"
        using "1.prems"(2) True Some x by (simp add: el)
      from "1.hyps" [OF True Some x [symmetric] refl e(1) this] obtain M2 where
        i: "shard_core H ext X s' m' M2" "evicts ev X (s1, m1, M1) (s', m', M2)"
          "cost \<le> sh_capacity s1 \<longrightarrow> sh_used s' + cost \<le> sh_capacity s1" by blast
      have "sh_capacity s1 = sh_capacity s" using e(2) by (simp add: evicts_def)
      with i True evicts_trans [OF e(2) i(2)] show ?thesis by auto
    qed
  qed
qed

section \<open>Compaction\<close>

text \<open>
  The swap loop is a stable filter: after \<open>i\<close> steps the first \<open>w\<close> places hold the live entries
  of the first \<open>i\<close> in order, and what follows is a permutation of the dead ones, then the rest.
\<close>

lemma compact_step_eq:
  "compact_step h i (s, w, kept) = (if live_at h (s ! i)
     then (s[w := s ! i, i := s ! w], w + 1, kept + cost_at h (s ! i)) else (s, w, kept))"
  by (simp add: compact_step_def Let_def)

lemma compact_loop:
  assumes "i \<le> length q"
  shows "\<exists>d. fold (compact_step h) [0..<i] (q, 0, 0) =
      (filter (live_at h) (take i q) @ d @ drop i q, length (filter (live_at h) (take i q)),
       sum_list (map (cost_at h) (filter (live_at h) (take i q)))) \<and>
    mset d = mset (filter (Not \<circ> live_at h) (take i q))"
  using assms
proof (induction i)
  case (Suc i)
  let ?f = "filter (live_at h) (take i q)" and ?e = "q ! i"
  from Suc obtain d where IH: "fold (compact_step h) [0..<i] (q, 0, 0) =
      (?f @ d @ drop i q, length ?f, sum_list (map (cost_at h) ?f))"
    "mset d = mset (filter (Not \<circ> live_at h) (take i q))" by auto
  have i: "i < length q" using Suc.prems by simp
  have split: "drop i q = ?e # drop (Suc i) q" "take (Suc i) q = take i q @ [?e]"
    using i by (simp_all add: Cons_nth_drop_Suc take_Suc_conv_app_nth)
  have len: "length ?f + length d = i"
  proof -
    have "length d = length (filter (Not \<circ> live_at h) (take i q))" using IH(2) by (metis size_mset)
    then show ?thesis using i sum_length_filter_compl [of "live_at h" "take i q"] by (simp add: comp_def)
  qed
  have at: "(?f @ d @ drop i q) ! i = ?e" using nth_append_length [of "?f @ d" ?e "drop (Suc i) q"] len by (simp add: split(1))
  show ?case
  proof (cases "live_at h ?e")
    case False
    then show ?thesis using IH at by (intro exI [of _ "d @ [?e]"]) (simp add: compact_step_eq split)
  next
    case True
    show ?thesis
    proof (cases d)
      case Nil
      then have "length ?f = i" using len by simp
      then have "(?f @ drop i q)[i := ?e, i := ?e] = ?f @ ?e # drop (Suc i) q"
        by (simp add: split(1) list_update_append)
      with IH True at Nil \<open>length ?f = i\<close> show ?thesis
        by (intro exI [of _ "[]"]) (simp add: compact_step_eq split)
    next
      case (Cons x d')
      have w: "(?f @ d @ drop i q) ! length ?f = x" by (simp add: Cons nth_append)
      have "(?f @ d @ drop i q)[length ?f := ?e, i := x] = ?f @ ?e # (d' @ [x]) @ drop (Suc i) q"
      proof -
        have "i - length ?f = Suc (length d')" "length ?f \<le> i" using len Cons by simp_all
        then show ?thesis by (simp add: Cons split(1) list_update_append)
      qed
      with IH True at w Cons show ?thesis
        by (intro exI [of _ "d' @ [x]"]) (simp add: compact_step_eq split)
    qed
  qed
qed simp

lemma compact_spec:
  assumes "compact h q = (kept, gone, c)"
  shows "kept = filter (live_at h) q" and "mset gone = mset (filter (Not \<circ> live_at h) q)"
    and "c = sum_list (map (cost_at h) kept)" and "set gone = {p \<in> set q. \<not> live_at h p}"
    and "distinct q \<Longrightarrow> distinct gone"
proof -
  show "kept = filter (live_at h) q" and "c = sum_list (map (cost_at h) kept)"
    and m: "mset gone = mset (filter (Not \<circ> live_at h) q)"
    using compact_loop [of "length q" q h] assms by (auto simp: compact_def)
  show "set gone = {p \<in> set q. \<not> live_at h p}" using mset_eq_setD [OF m] by simp
  show "distinct gone" if "distinct q" using mset_eq_imp_distinct_iff [OF m] that by simp
qed

lemma qcore_drops:
  assumes "qcore H ext X S ix m M" and "set gone \<subseteq> S" and "distinct gone"
    and "\<And>p. p \<in> set gone \<Longrightarrow> \<not> live_at (m_heap m) p"
  shows "qcore H ext X (S - set gone) ix (fold (entry_drop ev) gone m) M \<and>
    (\<forall>q \<in> S - set gone. live_at (m_heap (fold (entry_drop ev) gone m)) q = live_at (m_heap m) q \<and>
      cost_at (m_heap (fold (entry_drop ev) gone m)) q = cost_at (m_heap m) q) \<and>
    changes ev S m (fold (entry_drop ev) gone m)"
  using assms
proof (induction gone arbitrary: S m)
  case (Cons p gone)
  have p: "p \<in> S" "\<not> live_at (m_heap m) p" using Cons.prems(2,4) by simp_all
  note d = qcore_drop [OF Cons.prems(1) p, where ev = ev]
  have "set gone \<subseteq> S - {p}" "distinct gone" using Cons.prems(2,3) by auto
  moreover have "\<not> live_at (m_heap (entry_drop ev p m)) q" if "q \<in> set gone" for q
    using that d(2) [of q] Cons.prems(2-4) by auto
  ultimately have IH: "qcore H ext X (S - {p} - set gone) ix (fold (entry_drop ev) gone (entry_drop ev p m)) M \<and>
    (\<forall>q \<in> S - {p} - set gone. live_at (m_heap (fold (entry_drop ev) gone (entry_drop ev p m))) q =
      live_at (m_heap (entry_drop ev p m)) q \<and>
      cost_at (m_heap (fold (entry_drop ev) gone (entry_drop ev p m))) q = cost_at (m_heap (entry_drop ev p m)) q) \<and>
    changes ev (S - {p}) (entry_drop ev p m) (fold (entry_drop ev) gone (entry_drop ev p m))"
    by (intro Cons.IH [OF d(1)])
  have S: "S - {p} - set gone = S - set (p # gone)" by auto
  have keep: "changes ev S m (fold (entry_drop ev) (p # gone) m)"
    using changes_trans [OF d(3)] IH changes_mono [of ev "S - {p}" _ _ S] by fastforce
  have same: "live_at (m_heap (entry_drop ev p m)) q = live_at (m_heap m) q \<and>
      cost_at (m_heap (entry_drop ev p m)) q = cost_at (m_heap m) q" if "q \<in> S - set (p # gone)" for q
    using d(2) [of q] that by auto
  show ?case using IH keep same unfolding S by simp
qed simp

lemma maybe_compact_spec:
  assumes "shard_core H ext X s m M" and "maybe_compact ev (s, m) = (s', m')"
  shows "shard_core H ext X s' m' M" and "evicts ev X (s, m, M) (s', m', M)" and "sh_used s' = sh_used s"
    and "sh_dead_bytes s' \<le> sh_capacity s' div 4"
proof -
  note c = shard_coreD [OF assms(1)]
  have "shard_core H ext X s' m' M \<and> evicts ev X (s, m, M) (s', m', M) \<and> sh_used s' = sh_used s \<and>
    sh_dead_bytes s' \<le> sh_capacity s' div 4"
  proof (cases "sh_dead_bytes s \<le> sh_capacity s div 4")
    case True
    with assms show ?thesis by (simp add: maybe_compact_def)
  next
    case False
    obtain small gone1 kept where c1: "compact (m_heap m) (sh_small s) = (small, gone1, kept)"
      by (cases "compact (m_heap m) (sh_small s)")
    let ?m1 = "fold (entry_drop ev) gone1 m"
    obtain main gone2 kept2 where c2: "compact (m_heap ?m1) (sh_main s) = (main, gone2, kept2)"
      by (cases "compact (m_heap ?m1) (sh_main s)")
    let ?m2 = "fold (entry_drop ev) gone2 ?m1"
    have e: "s' = s\<lparr>sh_small_bytes := kept, sh_small := small, sh_main := main, sh_dead_bytes := 0\<rparr>" "m' = ?m2"
      using assms(2) False c1 c2 by (simp_all add: maybe_compact_def)
    note s1 = compact_spec [OF c1] and s2 = compact_spec [OF c2]
    have g1: "set gone1 = {p \<in> set (sh_small s). \<not> live_at (m_heap m) p}" "distinct gone1"
      using c(2) s1(4,5) by simp_all
    have sub1: "set gone1 \<subseteq> queued s" using g1(1) by blast
    have dead1: "\<not> live_at (m_heap m) p" if "p \<in> set gone1" for p using g1(1) that by blast
    have q1: "qcore H ext X (queued s - set gone1) (sh_index s) ?m1 M"
      "\<And>q. q \<in> queued s - set gone1 \<Longrightarrow> live_at (m_heap ?m1) q = live_at (m_heap m) q \<and>
        cost_at (m_heap ?m1) q = cost_at (m_heap m) q" "changes ev (queued s) m ?m1"
      using qcore_drops [OF c(1) sub1 g1(2) dead1, of ev] by blast+
    have disj: "set (sh_main s) \<inter> set gone1 = {}" using c(2) g1(1) by auto
    have g2: "set gone2 = {p \<in> set (sh_main s). \<not> live_at (m_heap ?m1) p}" "distinct gone2"
      using c(2) s2(4,5) by simp_all
    have sub: "set gone2 \<subseteq> queued s - set gone1" using g2(1) disj by auto
    have dead2: "\<not> live_at (m_heap ?m1) p" if "p \<in> set gone2" for p using g2(1) that by blast
    have q2: "qcore H ext X (queued s - set gone1 - set gone2) (sh_index s) ?m2 M"
      "\<And>q. q \<in> queued s - set gone1 - set gone2 \<Longrightarrow> live_at (m_heap ?m2) q = live_at (m_heap ?m1) q \<and>
        cost_at (m_heap ?m2) q = cost_at (m_heap ?m1) q" "changes ev (queued s - set gone1) ?m1 ?m2"
      using qcore_drops [OF q1(1) sub g2(2) dead2, of ev] by blast+
    have main: "main = filter (live_at (m_heap m)) (sh_main s)"
      unfolding s2(1) using q1(2) disj by (intro filter_cong) auto
    have S: "queued s - set gone1 - set gone2 = {p \<in> queued s. live_at (m_heap m) p}"
      using g1(1) g2(1) q1(2) disj c(2) by auto
    have S': "queued s' = {p \<in> queued s. live_at (m_heap m) p}" by (auto simp: e s1(1) main)
    have same: "live_at (m_heap m') q \<and> cost_at (m_heap m') q = cost_at (m_heap m) q" if "q \<in> queued s'" for q
      using that q1(2) [of q] q2(2) [of q] S S' e(2) by auto
    have "shard_core H ext X s' m' M"
      unfolding shard_core_def
    proof (intro conjI)
      show "qcore H ext X (queued s') (sh_index s') m' M" using q2(1) unfolding S S' by (simp add: e)
      show "distinct (sh_small s' @ sh_main s')" using c(2) by (auto simp: e s1(1) main)
      have "{p \<in> queued s'. live_at (m_heap m') p} = queued s'" using same by blast
      then have "live_cost (m_heap m') (queued s') = (\<Sum>p \<in> queued s'. cost_at (m_heap m) p)"
        unfolding live_cost_def using same by (auto intro!: sum.cong)
      also have "\<dots> = sh_used s" unfolding S' c(3) live_cost_def ..
      finally show "sh_used s' = live_cost (m_heap m') (queued s')" by (simp add: e)
      have "{p \<in> queued s'. \<not> live_at (m_heap m') p} = {}" using same by blast
      then have "dead_cost (m_heap m') (queued s') = 0" unfolding dead_cost_def by (simp only: sum.empty)
      then show "sh_dead_bytes s' = dead_cost (m_heap m') (queued s')" by (simp add: e)
      have "sh_small_bytes s' = (\<Sum>p \<in> set (sh_small s'). cost_at (m_heap m) p)"
        using c(2) s1(1,3) by (simp add: e sum_list_distinct_conv_sum_set)
      also have "\<dots> = (\<Sum>p \<in> set (sh_small s'). cost_at (m_heap m') p)"
        using same by (intro sum.cong) auto
      finally show "sh_small_bytes s' = (\<Sum>p \<in> set (sh_small s'). cost_at (m_heap m') p)" .
    qed
    moreover have "changes ev (queued s) ?m1 ?m2" using q2(3) by (rule changes_mono) blast
    then have "evicts ev X (s, m, M) (s', m', M)"
      using changes_trans [OF q1(3)] S' by (auto simp: evicts_def e)
    ultimately show ?thesis by (simp add: e)
  qed
  then show "shard_core H ext X s' m' M" and "evicts ev X (s, m, M) (s', m', M)" and "sh_used s' = sh_used s"
    and "sh_dead_bytes s' \<le> sh_capacity s' div 4" by blast+
qed

section \<open>Writing\<close>

text \<open>
  An entry on its way in: allocated with two handles, one of which goes into the index, the
  other into a queue.
\<close>

lemma qcore_alloc:
  assumes "qcore H ext {} S ix m M" and "alloc_ok m" and "env_ok ev m" and "entry_new ev (key_new k) v hash m = (p, m1)"
  shows "qcore H (ext(p := 2)) {} S ix (entry_clone p m1) M"
    and "p \<notin> S \<union> ran M" and "ext p = 0" and "0 < p \<and> p < 2 ^ 48"
    and "key_at (m_heap (entry_clone p m1)) p = k" and "value_at (m_heap (entry_clone p m1)) p = v"
    and "hash_at (m_heap (entry_clone p m1)) p = hash" and "live_at (m_heap (entry_clone p m1)) p"
    and "\<And>q. q \<noteq> p \<Longrightarrow> m_heap (entry_clone p m1) q = m_heap m q"
    and "m_retired (entry_clone p m1) = m_retired m" and "m_heap m p = None"
    and "alloc_ok (entry_clone p m1)" and "length (sl_mags (m_slab (entry_clone p m1))) = length (sl_mags (m_slab m))"
proof -
  let ?m = "entry_clone p m1"
  have fresh: "m_heap m p = None" "0 < p \<and> p < 2 ^ 48"
    using entry_new_ok [OF assms(2-4)] by auto
  then show "0 < p \<and> p < 2 ^ 48" "m_heap m p = None" by simp_all
  have hc0: "hcount ext S m M p = 0" using qcoreD(2) [OF assms(1)] fresh(1) by (auto simp: mem_ok_def dest!: spec [of _ p])
  then show pS: "p \<notin> S \<union> ran M" and ext: "ext p = 0" by (auto simp: hcount_def)
  obtain c where h1: "m_heap m1 = (m_heap m)(p \<mapsto> \<lparr>en_rc = 1, en_value = v, en_key = key_new k, en_hash = hash,
      en_freq = 0, en_live = True, en_class = c\<rparr>)" and r1: "m_retired m1 = m_retired m"
    using entry_new_spec [OF assms(4)] by blast
  then show "key_at (m_heap ?m) p = k" "value_at (m_heap ?m) p = v" "hash_at (m_heap ?m) p = hash"
      "live_at (m_heap ?m) p" "m_retired ?m = m_retired m"
    by (simp_all add: entry_fields entry_clone_def)
  have h2: "m_heap ?m = (m_heap m)(p \<mapsto> \<lparr>en_rc = 2, en_value = v, en_key = key_new k, en_hash = hash,
      en_freq = 0, en_live = True, en_class = c\<rparr>)"
    using h1 by (simp add: entry_clone_def deref_def numeral_2_eq_2)
  then show other: "\<And>q. q \<noteq> p \<Longrightarrow> m_heap ?m q = m_heap m q" by simp
  have "mstep ev m1 ?m" using h1 by (intro mstep.clone) simp
  then show "alloc_ok ?m" "length (sl_mags (m_slab ?m)) = length (sl_mags (m_slab m))"
    using mstep_alloc_ok [of ev m1 ?m] entry_new_ok [OF assms(2-4)] assms(3) by (simp_all add: env_ok_def)
  have same: "key_at (m_heap ?m) q = key_at (m_heap m) q" "hash_at (m_heap ?m) q = hash_at (m_heap m) q"
      "live_at (m_heap ?m) q = live_at (m_heap m) q" if "q \<in> S \<union> ran M" for q
  proof -
    have "q \<noteq> p" using that pS by blast
    then show "key_at (m_heap ?m) q = key_at (m_heap m) q" "hash_at (m_heap ?m) q = hash_at (m_heap m) q"
      "live_at (m_heap ?m) q = live_at (m_heap m) q" using other by (simp_all add: entry_fields)
  qed
  have hc: "(hcount ext S m M)(p := 2) = hcount (ext(p := 2)) S ?m M"
    using hc0 r1 by (auto simp: hcount_def fun_eq_iff)
  have ok: "mem_ok ?m (hcount (ext(p := 2)) S ?m M)"
    unfolding hc [symmetric] by (rule mem_ok_upd [OF qcoreD(2) [OF assms(1)] h2]) simp
  show "qcore H (ext(p := 2)) {} S ix ?m M"
  proof (rule qcoreI [OF _ ok])
    show "ix_rep H (m_heap ?m) ix M" using qcoreD(1) [OF assms(1)] by (rule ix_rep_heap) (use same in simp)
    show "live_at (m_heap ?m) q \<longleftrightarrow> M (key_at (m_heap ?m) q) = Some q" if "q \<in> S \<union> {}" for q
      using qcoreD(7) [OF assms(1) that] same [of q] that by simp
    show "insertable H (m_heap ?m) q \<and> M (key_at (m_heap ?m) q) = Some q" if "q \<in> ran M" for q
      using qcoreD(8,9) [OF assms(1) that] same [of q] that by (simp add: insertable_def)
  qed (use qcoreD(3-6) [OF assms(1)] in blast)+
qed

lemma qcore_index:
  assumes "qcore H (ext(p := 2)) {} S ix m M" and "p \<notin> S \<union> ran M" and "M (key_at (m_heap m) p) = None"
    and "insertable H (m_heap m) p" and "live_at (m_heap m) p"
    and "ix_rep H (m_heap m) ix' (M(key_at (m_heap m) p \<mapsto> p))"
  shows "qcore H (ext(p := 1)) {p} S ix' m (M(key_at (m_heap m) p \<mapsto> p))"
proof -
  let ?M = "M(key_at (m_heap m) p \<mapsto> p)"
  have rM: "ran ?M = insert p (ran M)" using assms(3) by simp
  have hc: "hcount (ext(p := 1)) S m ?M = hcount (ext(p := 2)) S m M"
    using assms(2) by (auto simp: hcount_def rM fun_eq_iff)
  show ?thesis
  proof (rule qcoreI [OF assms(6)])
    show "mem_ok m (hcount (ext(p := 1)) S m ?M)" unfolding hc by (rule qcoreD(2) [OF assms(1)])
    show "live_at (m_heap m) q \<longleftrightarrow> ?M (key_at (m_heap m) q) = Some q" if "q \<in> S \<union> {p}" for q
    proof (cases "q = p")
      case True then show ?thesis using assms(5) by simp
    next
      case False
      with that have "q \<in> S \<union> {}" by simp
      from qcoreD(7) [OF assms(1) this] False assms(3) show ?thesis by auto
    qed
    show "insertable H (m_heap m) q \<and> ?M (key_at (m_heap m) q) = Some q" if "q \<in> ran ?M" for q
    proof (cases "q = p")
      case True then show ?thesis using assms(4) by simp
    next
      case False
      with that have "q \<in> ran M" by (simp add: rM)
      from qcoreD(8,9) [OF assms(1) this] assms(3) show ?thesis by auto
    qed
    show "ran ?M \<subseteq> S \<union> {p}" "{p} \<subseteq> ran ?M" "{p} \<inter> S = {}"
      using qcoreD(4) [OF assms(1)] assms(2) by (auto simp: rM)
  qed (rule qcoreD(3) [OF assms(1)])
qed

lemma qcore_enqueue:
  assumes "qcore H (ext(p := 1)) {p} S ix m M" and "ext p = 0"
  shows "qcore H ext {} (insert p S) ix m M" and "live_at (m_heap m) p" and "p \<notin> S"
proof -
  show pS: "p \<notin> S" using qcoreD(6) [OF assms(1)] by blast
  have hc: "hcount ext (insert p S) m M = hcount (ext(p := 1)) S m M"
    using pS assms(2) by (auto simp: hcount_def fun_eq_iff)
  show "qcore H ext {} (insert p S) ix m M"
  proof (rule qcoreI)
    show "mem_ok m (hcount ext (insert p S) m M)" using qcoreD(2) [OF assms(1)] by (simp add: hc)
    show "live_at (m_heap m) q \<longleftrightarrow> M (key_at (m_heap m) q) = Some q" if "q \<in> insert p S \<union> {}" for q
      using that by (intro qcoreD(7) [OF assms(1)]) blast
  qed (use qcoreD [OF assms(1)] in blast)+
  show "live_at (m_heap m) p" using qcoreD(5,7,9) [OF assms(1)] by blast
qed

text \<open>The accounting of \<open>kill\<close>.\<close>

lemma set_dead_costs:
  assumes "finite S" and "p \<in> S" and "live_at (m_heap m) p"
  shows "live_cost (m_heap (set_dead p m)) S = live_cost (m_heap m) S - cost_at (m_heap m) p"
    and "dead_cost (m_heap (set_dead p m)) S = dead_cost (m_heap m) S + cost_at (m_heap m) p"
proof -
  have "{q \<in> S. live_at (m_heap (set_dead p m)) q} = {q \<in> S. live_at (m_heap m) q} - {p}" by auto
  then show "live_cost (m_heap (set_dead p m)) S = live_cost (m_heap m) S - cost_at (m_heap m) p"
    using assms by (simp add: live_cost_def sum_diff1_nat)
  have "{q \<in> S. \<not> live_at (m_heap (set_dead p m)) q} = insert p {q \<in> S. \<not> live_at (m_heap m) q}"
    using assms(2) by auto
  then show "dead_cost (m_heap (set_dead p m)) S = dead_cost (m_heap m) S + cost_at (m_heap m) p"
    using assms by (simp add: dead_cost_def)
qed

lemma kill_spec:
  assumes "shard_core H ext {} s m M" and "M k = Some p" and "ix_rep H (m_heap m) ix' (M(k := None))"
    and "kill p (s\<lparr>sh_index := ix\<rparr>, m) = (s', m')"
  shows "shard_core H ext {} (s'\<lparr>sh_index := ix'\<rparr>) (retire p m') (M(k := None))"
    and "s' = s\<lparr>sh_index := ix, sh_used := sh_used s - cost_at (m_heap m) p,
      sh_dead_bytes := sh_dead_bytes s + cost_at (m_heap m) p\<rparr>" and "m' = set_dead p m"
    and "cost_at (m_heap m) p \<le> sh_used s" and "changes ev (queued s) m (retire p m')" and "p \<in> queued s"
proof -
  note c = shard_coreD [OF assms(1)]
  have "p \<in> ran M" using assms(2) by (rule ranI)
  then show pS: "p \<in> queued s" using qcoreD(4) [OF c(1)] by blast
  have live: "live_at (m_heap m) p"
    using qcoreD(7) [OF c(1), of p] pS qcore_key [OF c(1) assms(2)] assms(2) by blast
  then show e: "s' = s\<lparr>sh_index := ix, sh_used := sh_used s - cost_at (m_heap m) p,
      sh_dead_bytes := sh_dead_bytes s + cost_at (m_heap m) p\<rparr>" "m' = set_dead p m"
    using assms(4) by (simp_all add: kill_def Let_def)
  note q = qcore_unindex [OF c(1) pS assms(2,3)]
  have fin: "finite (queued s)" by simp
  show "cost_at (m_heap m) p \<le> sh_used s" unfolding c(3) using live live_cost_remove(2) [OF fin pS] by blast
  show "changes ev (queued s) m (retire p m')" using q(2) by (simp add: e)
  show "shard_core H ext {} (s'\<lparr>sh_index := ix'\<rparr>) (retire p m') (M(k := None))"
    unfolding shard_core_def using q(1) c(2-5) set_dead_costs [OF fin pS live] by (simp add: e)
qed

text \<open>Queueing the new entry.\<close>

lemma shard_core_push:
  assumes "shard_core H (ext(p := 1)) {p} s m M" and "ext p = 0"
    and "s' = s\<lparr>sh_used := sh_used s + cost_at (m_heap m) p, sh_ghost := g\<rparr>\<lparr>sh_main := sh_main s @ [p]\<rparr> \<or>
      s' = s\<lparr>sh_used := sh_used s + cost_at (m_heap m) p, sh_ghost := g\<rparr>\<lparr>sh_small_bytes := sh_small_bytes s + cost_at (m_heap m) p,
        sh_small := sh_small s @ [p]\<rparr>"
  shows "shard_core H ext {} s' m M"
proof -
  note c = shard_coreD [OF assms(1)]
  note q = qcore_enqueue [OF c(1) assms(2)]
  have S: "queued s' = insert p (queued s)" "sh_index s' = sh_index s" using assms(3) by auto
  have "{q \<in> insert p (queued s). live_at (m_heap m) q} = insert p {q \<in> queued s. live_at (m_heap m) q}"
      "{q \<in> insert p (queued s). \<not> live_at (m_heap m) q} = {q \<in> queued s. \<not> live_at (m_heap m) q}"
    using q(2) by auto
  then have "live_cost (m_heap m) (insert p (queued s)) = live_cost (m_heap m) (queued s) + cost_at (m_heap m) p"
      "dead_cost (m_heap m) (insert p (queued s)) = dead_cost (m_heap m) (queued s)"
    using q(3) by (simp_all add: live_cost_def dead_cost_def)
  with q(1,3) c(2-5) assms(3) show ?thesis unfolding shard_core_def S by auto
qed

text \<open>\<open>set\<close> up to the eviction loop: the new entry is indexed, the one it replaces is not.\<close>

definition replaced_cost :: "heap \<Rightarrow> (bytes \<rightharpoonup> nat) \<Rightarrow> bytes \<Rightarrow> nat" where
  "replaced_cost h M k = (case M k of None \<Rightarrow> 0 | Some q \<Rightarrow> cost_at h q)"

lemma shard_core_alloc:
  assumes "shard_core H ext {} s m M" and "alloc_ok m" and "env_ok ev m" and "entry_new ev (key_new k) v hash m = (p, m1)"
  shows "shard_core H (ext(p := 2)) {} s (entry_clone p m1) M"
proof -
  note c = shard_coreD [OF assms(1)]
  note a = qcore_alloc [OF c(1) assms(2-4)]
  have same: "live_at (m_heap (entry_clone p m1)) q = live_at (m_heap m) q \<and>
      cost_at (m_heap (entry_clone p m1)) q = cost_at (m_heap m) q" if "q \<in> queued s" for q
  proof -
    have "q \<noteq> p" using a(2) that by blast
    from a(9) [OF this] show ?thesis by (simp add: entry_fields cost_at_def)
  qed
  have "(\<Sum>q \<in> set (sh_small s). cost_at (m_heap (entry_clone p m1)) q) = (\<Sum>q \<in> set (sh_small s). cost_at (m_heap m) q)"
    using same by (intro sum.cong) auto
  then show ?thesis using a(1) c(2-5) cost_cong [of "queued s", OF same] by (simp add: shard_core_def)
qed

lemma set_indexes:
  assumes "shard_core H ext {} s m M" and "alloc_ok m" and "env_ok ev m"
    and "entry_new ev (key_new k) v (H k) m = (p, m1)"
    and "index_insert (m_heap (entry_clone p m1)) (H k) p (sh_index s) = Some (old, ix)"
  defines "m2 \<equiv> entry_clone p m1"
  assumes "(case old of Some q \<Rightarrow> (let (s', m') = kill q (s\<lparr>sh_index := ix\<rparr>, m2)
        in (retired_add retired_zero (retired_one (m_heap m') q), s', retire q m'))
      | None \<Rightarrow> (retired_zero, s\<lparr>sh_index := ix\<rparr>, m2)) = (ret, s2, m3)"
  shows "shard_core H (ext(p := 1)) {p} s2 m3 (M(k \<mapsto> p))" and "old = M k"
    and "sh_used s2 = sh_used s - replaced_cost (m_heap m) M k" and "replaced_cost (m_heap m) M k \<le> sh_used s"
    and "changes ev (queued s) m2 m3" and "sh_capacity s2 = sh_capacity s"
    and "sh_small_capacity s2 = sh_small_capacity s"
proof -
  note a = qcore_alloc [OF shard_coreD(1) [OF assms(1)] assms(2-4), folded m2_def]
  have core2: "shard_core H (ext(p := 2)) {} s m2 M" unfolding m2_def by (rule shard_core_alloc [OF assms(1-4)])
  note c2 = shard_coreD [OF core2]
  have ins: "insertable H (m_heap m2) p" using a(4,5,7) by (simp add: insertable_def)
  have pM: "p \<notin> ran M" using a(2) by blast
  have add: "index_insert (m_heap m2) (H (key_at (m_heap m2) p)) p (sh_index s) = Some (old, ix)"
    using assms(5) a(5) by (simp add: m2_def)
  have ix: "ix_rep H (m_heap m2) ix (M(k \<mapsto> p))" "old = M k"
    using cuckoo.add [OF qcoreD(1) [OF c2(1)] ins pM add] a(5) by simp_all
  show "old = M k" by (rule ix(2))
  have "shard_core H (ext(p := 1)) {p} s2 m3 (M(k \<mapsto> p)) \<and> sh_used s2 = sh_used s - replaced_cost (m_heap m) M k \<and>
    replaced_cost (m_heap m) M k \<le> sh_used s \<and> changes ev (queued s) m2 m3 \<and> sh_capacity s2 = sh_capacity s \<and>
    sh_small_capacity s2 = sh_small_capacity s"
  proof (cases "M k")
    case None
    then have e: "s2 = s\<lparr>sh_index := ix\<rparr>" "m3 = m2" using assms(7) ix(2) by simp_all
    have "qcore H (ext(p := 1)) {p} (queued s) ix m2 (M(k \<mapsto> p))"
      using qcore_index [OF c2(1) a(2) _ ins a(8)] ix(1) None by (simp add: a(5))
    then show ?thesis using c2(2-5) None by (simp add: e shard_core_def replaced_cost_def)
  next
    case (Some q)
    obtain s1 m' where kl: "kill q (s\<lparr>sh_index := ix\<rparr>, m2) = (s1, m')" by fastforce
    then have e: "s2 = s1" "m3 = retire q m'" using assms(7) ix(2) Some by simp_all
    obtain r ix0 where rm: "index_remove (m_heap m2) (H k) k (sh_index s) = (r, ix0)" by fastforce
    have ix0: "ix_rep H (m_heap m2) ix0 (M(k := None))" using cuckoo.del [OF qcoreD(1) [OF c2(1)] rm] by simp
    note kk = kill_spec [OF core2 Some ix0 kl]
    have qp: "q \<noteq> p" using Some pM by (auto simp: ran_def)
    have cost: "cost_at (m_heap m2) q = cost_at (m_heap m) q" using a(9) [OF qp] by (simp add: entry_fields cost_at_def)
    note k1 = shard_coreD [OF kk(1)]
    have fields: "key_at (m_heap (retire q m')) x = key_at (m_heap m2) x" "hash_at (m_heap (retire q m')) x = hash_at (m_heap m2) x" for x
      by (simp_all add: kk(3))
    have "qcore H (ext(p := 1)) {p} (queued (s1\<lparr>sh_index := ix0\<rparr>)) ix (retire q m')
        ((M(k := None))(key_at (m_heap (retire q m')) p \<mapsto> p))"
    proof (rule qcore_index [OF k1(1)])
      show "p \<notin> queued (s1\<lparr>sh_index := ix0\<rparr>) \<union> ran (M(k := None))" using a(2) by (auto simp: kk(2) ran_def)
      show "insertable H (m_heap (retire q m')) p" using ins by (simp add: insertable_def kk(3))
      show "live_at (m_heap (retire q m')) p" using a(8) qp by (simp add: kk(3))
      show "(M(k := None)) (key_at (m_heap (retire q m')) p) = None" by (simp only: fields a(5) fun_upd_same)
      have "ix_rep H (m_heap (retire q m')) ix (M(k \<mapsto> p))" using ix(1) by (rule ix_rep_heap) (simp add: kk(3))
      then show "ix_rep H (m_heap (retire q m')) ix ((M(k := None))(key_at (m_heap (retire q m')) p \<mapsto> p))"
        unfolding fields a(5) by (simp only: fun_upd_upd)
    qed
    then have "qcore H (ext(p := 1)) {p} (queued (s1\<lparr>sh_index := ix0\<rparr>)) ix (retire q m') (M(k \<mapsto> p))"
      unfolding fields a(5) by (simp only: fun_upd_upd)
    then have "shard_core H (ext(p := 1)) {p} s2 m3 (M(k \<mapsto> p))"
      using k1(2-5) by (simp add: shard_core_def e kk(2))
    then show ?thesis using kk(2,4,5) Some cost by (simp add: e replaced_cost_def)
  qed
  then show "shard_core H (ext(p := 1)) {p} s2 m3 (M(k \<mapsto> p))" "sh_used s2 = sh_used s - replaced_cost (m_heap m) M k"
    "replaced_cost (m_heap m) M k \<le> sh_used s" "changes ev (queued s) m2 m3" "sh_capacity s2 = sh_capacity s"
    "sh_small_capacity s2 = sh_small_capacity s" by blast+
qed

lemma shard_set_Some:
  assumes "shard_set ev k v hash (s, m) = Some (ret, s', m')"
  obtains p m1 old ix ret2 s2 m3 ret3 s3 m4 g s6 where
    "entry_new ev (key_new k) v hash m = (p, m1)"
    "index_insert (m_heap (entry_clone p m1)) hash p (sh_index s) = Some (old, ix)"
    "(case old of Some q \<Rightarrow> (let (s', m') = kill q (s\<lparr>sh_index := ix\<rparr>, entry_clone p m1)
        in (retired_add retired_zero (retired_one (m_heap m') q), s', retire q m'))
      | None \<Rightarrow> (retired_zero, s\<lparr>sh_index := ix\<rparr>, entry_clone p m1)) = (ret2, s2, m3)"
    "evict_loop ev (cost_at (m_heap m1) p) ret2 (s2, m3) = (ret3, s3, m4)"
    "s6 = s3\<lparr>sh_used := sh_used s3 + cost_at (m_heap m1) p, sh_ghost := g\<rparr>\<lparr>sh_main := sh_main s3 @ [p]\<rparr> \<or>
     s6 = s3\<lparr>sh_used := sh_used s3 + cost_at (m_heap m1) p, sh_ghost := g\<rparr>\<lparr>sh_small_bytes := sh_small_bytes s3 + cost_at (m_heap m1) p,
        sh_small := sh_small s3 @ [p]\<rparr>"
    "maybe_compact ev (s6, m4) = (s', m')"
proof -
  obtain p m1 where new: "entry_new ev (key_new k) v hash m = (p, m1)" by fastforce
  let ?m2 = "entry_clone p m1" and ?cost = "cost_at (m_heap m1) p"
  have "index_insert (m_heap ?m2) hash p (sh_index s) \<noteq> None"
    using assms new by (auto simp: shard_set_def Let_def split: option.splits)
  then obtain old ix where ins: "index_insert (m_heap ?m2) hash p (sh_index s) = Some (old, ix)" by auto
  obtain ret2 s2 m3 where old: "(case old of Some q \<Rightarrow> (let (s', m') = kill q (s\<lparr>sh_index := ix\<rparr>, ?m2)
        in (retired_add retired_zero (retired_one (m_heap m') q), s', retire q m'))
      | None \<Rightarrow> (retired_zero, s\<lparr>sh_index := ix\<rparr>, ?m2)) = (ret2, s2, m3)" by (rule prod_cases3)
  obtain ret3 s3 m4 where ev: "evict_loop ev ?cost ret2 (s2, m3) = (ret3, s3, m4)" by (rule prod_cases3)
  define g where "g = snd (ghost_take hash (sh_ghost s3))"
  let ?s5 = "s3\<lparr>sh_used := sh_used s3 + ?cost, sh_ghost := g\<rparr>"
  define s6 where "s6 = (if fst (ghost_take hash (sh_ghost s3)) then ?s5\<lparr>sh_main := sh_main s3 @ [p]\<rparr>
     else ?s5\<lparr>sh_small_bytes := sh_small_bytes s3 + ?cost, sh_small := sh_small s3 @ [p]\<rparr>)"
  have "maybe_compact ev (s6, m4) = (s', m')"
    using assms unfolding shard_set_def Let_def prod.case new ins option.case old [unfolded Let_def] ev
    by (cases "fst (ghost_take hash (sh_ghost s3))")
      (simp_all add: s6_def g_def case_prod_beta prod_eq_iff)
  then show thesis by (intro that [OF new ins old ev _]) (auto simp: s6_def)
qed

lemma shard_set_spec:
  assumes "shard_core H ext {} s m M" and "alloc_ok m" and "env_ok ev m" and "shard_set ev k v (H k) (s, m) = Some (ret, s', m')"
  defines "cost \<equiv> length k + length v + ENTRY_OVERHEAD"
  obtains p m2 M' where "shard_core H ext {} s' m' M'" "M' k = Some p" "m_heap m p = None"
    "M' \<subseteq>\<^sub>m M(k \<mapsto> p)" "changes ev (insert p (queued s)) m2 m'" "queued s' \<subseteq> insert p (queued s)"
    "value_at (m_heap m2) p = v" "key_at (m_heap m2) p = k" "\<And>q. q \<noteq> p \<Longrightarrow> m_heap m2 q = m_heap m q"
    "m_retired m2 = m_retired m" "alloc_ok m'" "length (sl_mags (m_slab m')) = length (sl_mags (m_slab m))"
    "sh_capacity s' = sh_capacity s" "sh_small_capacity s' = sh_small_capacity s"
    "cost \<le> sh_capacity s \<Longrightarrow> sh_used s' \<le> sh_capacity s" "sh_dead_bytes s' \<le> sh_capacity s div 4"
    "sh_used s - replaced_cost (m_heap m) M k + cost \<le> sh_capacity s \<Longrightarrow> M' = M(k \<mapsto> p)"
    "sh_used s - replaced_cost (m_heap m) M k + cost \<le> sh_capacity s \<Longrightarrow> sh_used s' = sh_used s - replaced_cost (m_heap m) M k + cost"
proof -
  obtain p m1 old ix ret2 s2 m3 ret3 s3 m4 g s6 where
    new: "entry_new ev (key_new k) v (H k) m = (p, m1)" and
    ins: "index_insert (m_heap (entry_clone p m1)) (H k) p (sh_index s) = Some (old, ix)" and
    old: "(case old of Some q \<Rightarrow> (let (s', m') = kill q (s\<lparr>sh_index := ix\<rparr>, entry_clone p m1)
        in (retired_add retired_zero (retired_one (m_heap m') q), s', retire q m'))
      | None \<Rightarrow> (retired_zero, s\<lparr>sh_index := ix\<rparr>, entry_clone p m1)) = (ret2, s2, m3)" and
    ev: "evict_loop ev (cost_at (m_heap m1) p) ret2 (s2, m3) = (ret3, s3, m4)" and
    push: "s6 = s3\<lparr>sh_used := sh_used s3 + cost_at (m_heap m1) p, sh_ghost := g\<rparr>\<lparr>sh_main := sh_main s3 @ [p]\<rparr> \<or>
     s6 = s3\<lparr>sh_used := sh_used s3 + cost_at (m_heap m1) p, sh_ghost := g\<rparr>\<lparr>sh_small_bytes := sh_small_bytes s3 + cost_at (m_heap m1) p,
        sh_small := sh_small s3 @ [p]\<rparr>" and
    cpt: "maybe_compact ev (s6, m4) = (s', m')"
    using assms(4) by (rule shard_set_Some)
  let ?m2 = "entry_clone p m1"
  note a = qcore_alloc [OF shard_coreD(1) [OF assms(1)] assms(2,3) new]
  have cost2: "cost_at (m_heap ?m2) p = cost" using a(5,6) by (simp add: cost_at_def cost_def)
  then have cost: "cost_at (m_heap m1) p = cost" by simp
  note i = set_indexes [OF assms(1-3) new ins old]
  obtain M' where l: "shard_core H (ext(p := 1)) {p} s3 m4 M'" "evicts ev {p} (s2, m3, M(k \<mapsto> p)) (s3, m4, M')"
      "cost \<le> sh_capacity s2 \<longrightarrow> sh_used s3 + cost \<le> sh_capacity s2"
      "sh_used s2 + cost \<le> sh_capacity s2 \<longrightarrow> s3 = s2 \<and> m4 = m3 \<and> M' = M(k \<mapsto> p)"
    using evict_loop_spec [OF i(1) ev] unfolding cost by blast
  have q2: "queued s2 = queued s"
    using old by (cases old) (auto simp: kill_def Let_def split: if_splits prod.splits)
  have keep: "changes ev (queued s) ?m2 m4" "queued s3 \<subseteq> queued s"
    using changes_trans [OF i(5)] l(2) by (auto simp: evicts_def q2)
  have "p \<in> ran M'" using qcoreD(5) [OF shard_coreD(1) [OF l(1)]] by blast
  then have "p \<in> dom (m_heap m4)" using qcore_dom [OF shard_coreD(1) [OF l(1)]] by blast
  then have cost4: "cost_at (m_heap m4) p = cost" using keeps_cost [OF changes_keeps [OF keep(1)]] cost2 by simp
  have core6: "shard_core H ext {} s6 m4 M'"
    by (rule shard_core_push [OF l(1) a(3)]) (use push in \<open>simp add: cost cost4\<close>)
  note mc = maybe_compact_spec [OF core6 cpt]
  have caps: "sh_capacity s6 = sh_capacity s" "sh_small_capacity s6 = sh_small_capacity s" "sh_used s6 = sh_used s3 + cost"
    using push l(2) i(6,7) cost by (auto simp: evicts_def)
  have q6: "queued s6 \<subseteq> insert p (queued s)" using push keep(2) by auto
  have chg: "changes ev (insert p (queued s)) ?m2 m'"
  proof (rule changes_trans)
    show "changes ev (insert p (queued s)) ?m2 m4" using keep(1) by (rule changes_mono) blast
    have "changes ev (queued s6) m4 m'" using mc(2) by (simp add: evicts_def)
    then show "changes ev (insert p (queued s)) m4 m'" using q6 by (rule changes_mono)
  qed
  show ?thesis
  proof (rule that [OF mc(1), of p ?m2])
    show "M' k = Some p" "M' \<subseteq>\<^sub>m M(k \<mapsto> p)" using l(2) by (auto simp: evicts_def)
    show "m_heap m p = None" by (rule a(11))
    show "changes ev (insert p (queued s)) ?m2 m'" by (rule chg)
    show "queued s' \<subseteq> insert p (queued s)" using q6 mc(2) by (auto simp: evicts_def)
    show "value_at (m_heap ?m2) p = v" "key_at (m_heap ?m2) p = k" "m_retired ?m2 = m_retired m" by (rule a)+
    have "(mstep ev)\<^sup>*\<^sup>* ?m2 m'" using chg by (simp add: changes_def)
    from msteps_alloc_ok [OF this a(12)] a(13) assms(3)
    show "alloc_ok m'" "length (sl_mags (m_slab m')) = length (sl_mags (m_slab m))" by (simp_all add: env_ok_def)
    show "m_heap ?m2 q = m_heap m q" if "q \<noteq> p" for q using that by (rule a(9))
    show cap: "sh_capacity s' = sh_capacity s" "sh_small_capacity s' = sh_small_capacity s"
      using mc(2) caps by (simp_all add: evicts_def)
    show "sh_used s' \<le> sh_capacity s" if "cost \<le> sh_capacity s" using that l(3) i(6) caps mc(3) by simp
    show "sh_dead_bytes s' \<le> sh_capacity s div 4" using mc(4) cap(1) by simp
    show "M' = M(k \<mapsto> p)" "sh_used s' = sh_used s - replaced_cost (m_heap m) M k + cost"
      if "sh_used s - replaced_cost (m_heap m) M k + cost \<le> sh_capacity s"
      using that l(4) i(3,6) caps mc(3) by simp_all
  qed
qed

lemma shard_del_spec:
  assumes "shard_core H ext {} s m M" and "shard_del ev (H k) k (s, m) = (r, s', m')"
  shows "shard_core H ext {} s' m' (M(k := None))" and "(r \<noteq> None) = (k \<in> dom M)"
    and "changes ev (queued s) m m'" and "sh_capacity s' = sh_capacity s"
    and "sh_small_capacity s' = sh_small_capacity s" and "sh_used s' = sh_used s - replaced_cost (m_heap m) M k"
    and "sh_dead_bytes s \<le> sh_capacity s div 4 \<Longrightarrow> sh_dead_bytes s' \<le> sh_capacity s div 4"
    and "M k = None \<Longrightarrow> m' = m" and "queued s' \<subseteq> queued s"
proof -
  note c = shard_coreD [OF assms(1)]
  obtain q ix where rm: "index_remove (m_heap m) (H k) k (sh_index s) = (q, ix)" by fastforce
  have d: "q = M k" "ix_rep H (m_heap m) ix (M(k := None))" using cuckoo.del [OF qcoreD(1) [OF c(1)] rm] by simp_all
  have "shard_core H ext {} s' m' (M(k := None)) \<and> (r \<noteq> None) = (k \<in> dom M) \<and> changes ev (queued s) m m' \<and>
    sh_capacity s' = sh_capacity s \<and> sh_small_capacity s' = sh_small_capacity s \<and>
    sh_used s' = sh_used s - replaced_cost (m_heap m) M k \<and>
    (sh_dead_bytes s \<le> sh_capacity s div 4 \<longrightarrow> sh_dead_bytes s' \<le> sh_capacity s div 4) \<and> (M k = None \<longrightarrow> m' = m) \<and>
    queued s' \<subseteq> queued s"
  proof (cases "M k")
    case None
    then have e: "r = None" "s' = s\<lparr>sh_index := ix\<rparr>" "m' = m" and M: "M(k := None) = M"
      using assms(2) rm d(1) by (auto simp: shard_del_def)
    have "qcore H ext {} (queued s) ix m M"
      using d(2) qcoreD [OF c(1)] unfolding M by (intro qcoreI) blast+
    then show ?thesis using c(2-5) None unfolding M by (auto simp: e shard_core_def replaced_cost_def)
  next
    case (Some p)
    obtain s1 m1 where kl: "kill p (s\<lparr>sh_index := ix\<rparr>, m) = (s1, m1)" by fastforce
    obtain s2 m3 where mcp: "maybe_compact ev (s1, retire p m1) = (s2, m3)" by fastforce
    have e: "r \<noteq> None" "s' = s2" "m' = m3" using assms(2) rm d(1) Some kl mcp by (auto simp: shard_del_def Let_def)
    note k = kill_spec [OF assms(1) Some d(2) kl]
    have "s1\<lparr>sh_index := ix\<rparr> = s1" by (simp add: k(2))
    with k(1) have core: "shard_core H ext {} s1 (retire p m1) (M(k := None))" by simp
    note mc = maybe_compact_spec [OF core mcp]
    have q1: "queued s1 = queued s" by (simp add: k(2))
    have "changes ev (queued s) m m3" "queued s2 \<subseteq> queued s" using changes_trans [OF k(5)] mc(2) by (auto simp: evicts_def q1)
    moreover have "sh_capacity s2 = sh_capacity s" using mc(2) k(2) by (simp add: evicts_def)
    ultimately show ?thesis using mc k(2) Some by (auto simp: e evicts_def replaced_cost_def)
  qed
  then show "shard_core H ext {} s' m' (M(k := None))" "(r \<noteq> None) = (k \<in> dom M)" "changes ev (queued s) m m'"
    "sh_capacity s' = sh_capacity s" "sh_small_capacity s' = sh_small_capacity s"
    "sh_used s' = sh_used s - replaced_cost (m_heap m) M k"
    "sh_dead_bytes s \<le> sh_capacity s div 4 \<Longrightarrow> sh_dead_bytes s' \<le> sh_capacity s div 4" "M k = None \<Longrightarrow> m' = m"
    "queued s' \<subseteq> queued s" by blast+
qed

section \<open>Reading, touching, reclaiming\<close>

lemma shard_get_map: "shard_core H ext X s m M \<Longrightarrow> shard_get s m (H k) k = M k"
  unfolding shard_get_def by (rule cuckoo.fetch [OF qcoreD(1) [OF shard_coreD(1)]])

text \<open>
  A change of the memory that leaves the shard's own entries as they are, apart from the
  frequency, is no concern of the shard.
\<close>

lemma shard_core_frame:
  assumes "shard_core H ext X s m M" and "mem_ok m' (hcount ext' (queued s) m' M)"
    and "\<And>q. q \<in> queued s \<union> ran M \<Longrightarrow> key_at (m_heap m') q = key_at (m_heap m) q \<and>
      hash_at (m_heap m') q = hash_at (m_heap m) q \<and> value_at (m_heap m') q = value_at (m_heap m) q \<and>
      live_at (m_heap m') q = live_at (m_heap m) q"
  shows "shard_core H ext' X s m' M"
proof -
  note c = shard_coreD [OF assms(1)] and q = qcoreD [OF shard_coreD(1) [OF assms(1)]]
  have cost: "cost_at (m_heap m') p = cost_at (m_heap m) p" if "p \<in> queued s" for p
    using assms(3) [of p] that unfolding cost_at_def by auto
  have "qcore H ext' X (queued s) (sh_index s) m' M"
  proof (rule qcoreI [OF _ assms(2)])
    show "ix_rep H (m_heap m') (sh_index s) M" using q(1) by (rule ix_rep_heap) (use assms(3) in blast)
    show "live_at (m_heap m') p \<longleftrightarrow> M (key_at (m_heap m') p) = Some p" if "p \<in> queued s \<union> X" for p
      using q(5) q(7) [OF that] assms(3) [of p] that by auto
    show "insertable H (m_heap m') p \<and> M (key_at (m_heap m') p) = Some p" if "p \<in> ran M" for p
      using q(8,9) [OF that] assms(3) [of p] that by (simp add: insertable_def)
  qed (use q in blast)+
  moreover have "live_cost (m_heap m') (queued s) = live_cost (m_heap m) (queued s)"
      "dead_cost (m_heap m') (queued s) = dead_cost (m_heap m) (queued s)"
    using cost_cong [of "queued s" "m_heap m'" "m_heap m"] cost assms(3) by auto
  moreover have "(\<Sum>p \<in> set (sh_small s). cost_at (m_heap m') p) = (\<Sum>p \<in> set (sh_small s). cost_at (m_heap m) p)"
    using cost by (intro sum.cong) auto
  ultimately show ?thesis using c(2-5) by (simp add: shard_core_def)
qed

lemma touch_spec:
  assumes "shard_core H ext X s m M" and "p \<in> dom (m_heap m)"
  shows "shard_core H ext X s (touch p m) M"
proof -
  let ?hc = "hcount ext (queued s) m M"
  note q = qcoreD [OF shard_coreD(1) [OF assms(1)]]
  have ok: "mem_ok (set_freq p f m) (hcount ext (queued s) (set_freq p f m) M)" for f
  proof -
    have "0 < ?hc p" using mem_ok_dom [OF q(2)] assms(2) by blast
    with q(2) have "mem_ok (set_freq p f m) ?hc" by (rule atomics_mem_ok)
    moreover have "hcount ext (queued s) (set_freq p f m) M = ?hc" by (simp add: hcount_def fun_eq_iff)
    ultimately show ?thesis by simp
  qed
  have "shard_core H ext X s (set_freq p f m) M" for f
    using assms(1) ok by (rule shard_core_frame) simp
  with assms(1) show ?thesis by (simp add: touch_def Let_def)
qed

lemma reclaim_spec:
  assumes "shard_core H ext X s m M" and "p \<in> set (m_retired m)"
  shows "shard_core H ext X s (reclaim ev p m) M" and "keeps_data (m_heap m) (m_heap (reclaim ev p m))"
proof -
  let ?m1 = "m\<lparr>m_retired := remove1 p (m_retired m)\<rparr>" and ?hc = "hcount ext (queued s) m M"
  let ?m = "entry_drop ev p ?m1"
  note q = qcoreD [OF shard_coreD(1) [OF assms(1)]]
  have pos: "0 < ?hc p" using assms(2) by (simp add: hcount_def)
  have "mem_ok ?m1 ?hc" using q(2) by (simp add: mem_ok_def)
  then have "mem_ok ?m (?hc(p := ?hc p - 1))" using pos by (rule entry_drop_mem_ok)
  moreover have "?hc(p := ?hc p - 1) = hcount ext (queued s) ?m M"
    using assms(2) by (auto simp: hcount_def entry_drop_heap fun_eq_iff)
  ultimately have ok: "mem_ok ?m (hcount ext (queued s) ?m M)" by simp
  have "x \<in> dom (m_heap ?m)" if "x \<in> queued s \<union> ran M" for x
    using mem_ok_dom [OF ok, of x] that by (auto simp: hcount_def)
  from shard_core_frame [OF assms(1) ok] entry_drop_fields [OF this]
  show "shard_core H ext X s (reclaim ev p m) M" by (simp add: reclaim_def)
  have "p \<in> dom (m_heap ?m1)" using mem_ok_dom [OF q(2), of p] pos by simp
  then show "keeps_data (m_heap m) (m_heap (reclaim ev p m))"
    using entry_drop_keeps [of p ?m1 ev] by (simp add: reclaim_def)
qed

lemma shard_core_new:
  assumes "mem_ok m (hcount ext {} m Map.empty)"
  shows "shard_core H ext {} (shard_new cap) m Map.empty"
  using assms ix_rep_new by (simp add: shard_core_def shard_new_def qcore_def live_cost_def dead_cost_def)

section \<open>What a shard promises\<close>

text \<open>
  The keys a shard answers for, read through \<open>get\<close>, and its invariant stated over them. With
  entries that fit, the live bytes stay within the budget and the dead ones within a quarter
  of it.
\<close>

definition shard_map :: "(bytes \<Rightarrow> u64) \<Rightarrow> shard \<Rightarrow> memory \<Rightarrow> (bytes \<rightharpoonup> nat)" where
  "shard_map H s m = (\<lambda>k. shard_get s m (H k) k)"

definition shard_ok :: "(bytes \<Rightarrow> u64) \<Rightarrow> (nat \<Rightarrow> nat) \<Rightarrow> shard \<Rightarrow> memory \<Rightarrow> bool" where
  "shard_ok H ext s m \<longleftrightarrow> shard_core H ext {} s m (shard_map H s m)"

definition within_budget :: "shard \<Rightarrow> bool" where
  "within_budget s \<longleftrightarrow> sh_used s \<le> sh_capacity s \<and> sh_dead_bytes s \<le> sh_capacity s div 4"

lemma shard_ok_map: "shard_core H ext {} s m M \<Longrightarrow> shard_map H s m = M \<and> shard_ok H ext s m"
proof -
  assume c: "shard_core H ext {} s m M"
  then have "shard_map H s m = M" by (simp add: shard_map_def fun_eq_iff shard_get_map)
  with c show ?thesis by (simp add: shard_ok_def)
qed

lemma shard_ok_used:
  assumes "shard_ok H ext s m"
  shows "sh_used s = (\<Sum>p \<in> ran (shard_map H s m). cost_at (m_heap m) p)"
proof -
  note c = shard_coreD [OF assms [unfolded shard_ok_def]]
  note q = qcoreD [OF c(1)]
  have "{p \<in> queued s. live_at (m_heap m) p} = ran (shard_map H s m)"
    using q(4,7,9) by (auto simp: ran_def)
  then show ?thesis using c(3) by (simp add: live_cost_def)
qed

lemma changes_value:
  assumes "changes ev P m m'" and "p \<in> dom (m_heap m')"
  shows "value_at (m_heap m') p = value_at (m_heap m) p" "key_at (m_heap m') p = key_at (m_heap m) p"
  using changes_keeps [OF assms(1)] assms(2) by (simp_all add: keeps_data_def)

text \<open>
  C12. After a \<open>set\<close> the key reads back as the value written, and no other key has changed: one
  that is still found has the very entry and value it had. The invariant holds again, so no
  reference count, byte account or index slot is wrong.
\<close>

theorem shard_set_get:
  assumes "shard_ok H ext s m" and "alloc_ok m" and "env_ok ev m"
    and "shard_set ev k v (H k) (s, m) = Some (ret, s', m')"
  shows "shard_ok H ext s' m' \<and> alloc_ok m' \<and>
    (\<exists>p. shard_get s' m' (H k) k = Some p \<and> key_at (m_heap m') p = k \<and> value_at (m_heap m') p = v) \<and>
    (k' \<noteq> k \<longrightarrow> shard_get s' m' (H k') k' = Some q \<longrightarrow>
       shard_get s m (H k') k' = Some q \<and> value_at (m_heap m') q = value_at (m_heap m) q)"
proof -
  obtain p m2 M' where s: "shard_core H ext {} s' m' M'" "M' k = Some p" "m_heap m p = None"
    "M' \<subseteq>\<^sub>m (shard_map H s m)(k \<mapsto> p)" "changes ev (insert p (queued s)) m2 m'" 
    "value_at (m_heap m2) p = v" "key_at (m_heap m2) p = k" "\<And>q. q \<noteq> p \<Longrightarrow> m_heap m2 q = m_heap m q" "alloc_ok m'"
    using assms(1) [unfolded shard_ok_def] assms(2-4) by (rule shard_set_spec) blast
  note q = qcoreD [OF shard_coreD(1) [OF s(1)]]
  have dom: "x \<in> dom (m_heap m')" if "M' y = Some x" for x y
    using qcore_dom [OF shard_coreD(1) [OF s(1)], of x] that by (auto simp: ran_def)
  have "shard_get s m (H k') k' = Some q \<and> value_at (m_heap m') q = value_at (m_heap m) q"
    if ne: "k' \<noteq> k" and g: "M' k' = Some q"
  proof -
    have old: "shard_map H s m k' = Some q" using s(4) ne g by (metis domI fun_upd_other map_le_def)
    have "q \<noteq> p" using qcore_key [OF shard_coreD(1) [OF s(1)]] g s(2) ne by blast
    then have "value_at (m_heap m2) q = value_at (m_heap m) q" using s(8) by (simp add: value_at_def deref_def)
    with changes_value(1) [OF s(5) dom [OF g]] old show ?thesis by (simp add: shard_map_def)
  qed
  then show ?thesis using shard_ok_map [OF s(1)] s(2,6,7,9) changes_value [OF s(5) dom [OF s(2)]]
    by (simp add: shard_get_map [OF s(1)])
qed

text \<open>
  C7. The budget: an entry that \<open>check_fits\<close> admits leaves the shard within it. The live bytes,
  which are exactly the costs of the entries that can be read, do not exceed the capacity, and
  dead entries still queued hold at most a quarter of it. Deleting keeps both.
\<close>

theorem shard_within_budget:
  assumes "shard_ok H ext s m" and "within_budget s"
  shows "sh_used s = (\<Sum>p \<in> ran (shard_map H s m). cost_at (m_heap m) p) \<and>
    (alloc_ok m \<and> env_ok ev m \<and> check_fits s k v = Inr () \<and> shard_set ev k v (H k) (s, m) = Some (ret, s', m') \<longrightarrow>
       within_budget s' \<and> sh_capacity s' = sh_capacity s) \<and>
    (shard_del ev (H k) k (s, m) = (r, s', m') \<longrightarrow> within_budget s' \<and> sh_capacity s' = sh_capacity s)"
proof (intro conjI impI)
  show "sh_used s = (\<Sum>p \<in> ran (shard_map H s m). cost_at (m_heap m) p)" using assms(1) by (rule shard_ok_used)
next
  assume a: "alloc_ok m \<and> env_ok ev m \<and> check_fits s k v = Inr () \<and> shard_set ev k v (H k) (s, m) = Some (ret, s', m')"
  then have fits: "length k + length v + ENTRY_OVERHEAD \<le> sh_capacity s"
    by (simp add: check_fits_def Let_def split: if_splits)
  show "within_budget s'" "sh_capacity s' = sh_capacity s"
    using shard_set_spec [OF assms(1) [unfolded shard_ok_def], of ev k v ret s' m'] a fits
    unfolding within_budget_def by metis+
next
  assume d: "shard_del ev (H k) k (s, m) = (r, s', m')"
  note ds = shard_del_spec [OF assms(1) [unfolded shard_ok_def] d]
  show "within_budget s'" "sh_capacity s' = sh_capacity s"
    using ds(4,6,7) assms(2) by (auto simp: within_budget_def)
qed

text \<open>
  Replacing does not evict: when the new entry fits in what the shard has left after the
  entry it replaces is released, every other key stays.
\<close>

lemma shard_set_keeps_others:
  assumes "shard_ok H ext s m" and "alloc_ok m" and "env_ok ev m"
    and "shard_set ev k v (H k) (s, m) = Some (ret, s', m')"
    and "sh_used s - replaced_cost (m_heap m) (shard_map H s m) k + (length k + length v + ENTRY_OVERHEAD) \<le> sh_capacity s"
  shows "\<exists>p. shard_map H s' m' = (shard_map H s m)(k \<mapsto> p)"
  using shard_set_spec [OF assms(1) [unfolded shard_ok_def] assms(2-4)] shard_ok_map assms(5) by metis

text \<open>
  \<open>del\<close> removes exactly its key, says whether it was there, and leaves every other key with
  its entry and value.
\<close>

lemma shard_del_exact:
  assumes "shard_ok H ext s m" and "shard_del ev (H k) k (s, m) = (r, s', m')"
  shows "shard_ok H ext s' m' \<and> shard_map H s' m' = (shard_map H s m)(k := None) \<and>
    (r = None \<longleftrightarrow> shard_get s m (H k) k = None) \<and>
    (shard_get s' m' (H k') k' = Some q \<longrightarrow> value_at (m_heap m') q = value_at (m_heap m) q)"
proof -
  note d = shard_del_spec [OF assms(1) [unfolded shard_ok_def] assms(2)]
  have "q \<in> dom (m_heap m')" if "shard_get s' m' (H k') k' = Some q"
    using qcore_dom [OF shard_coreD(1) [OF d(1)], of q] that shard_get_map [OF d(1), of k'] by (auto simp: ran_def)
  then show ?thesis using shard_ok_map [OF d(1)] d(2) changes_value(1) [OF d(3)]
    by (auto simp: shard_map_def)
qed

text \<open>
  C15. The collector is safe: dropping any handle it holds, whenever it does so, and a reader's
  \<open>touch\<close>, leave the invariant, every key and every value that can be read as they were; what
  is freed is never an entry the index or a queue still refers to.
\<close>

theorem shard_reclaim_safe:
  assumes "shard_ok H ext s m" and "p \<in> set (m_retired m)"
  shows "shard_ok H ext s (reclaim ev p m) \<and> shard_map H s (reclaim ev p m) = shard_map H s m \<and>
    shard_ok H ext s (touch p m) \<and> shard_map H s (touch p m) = shard_map H s m \<and>
    (\<forall>q. q \<in> queued s \<union> ran (shard_map H s m) \<longrightarrow> q \<in> dom (m_heap (reclaim ev p m)) \<and>
       value_at (m_heap (reclaim ev p m)) q = value_at (m_heap m) q)"
proof -
  note r = reclaim_spec [OF assms(1) [unfolded shard_ok_def] assms(2)]
  have "p \<in> dom (m_heap m)"
    using mem_ok_dom [OF qcoreD(2) [OF shard_coreD(1) [OF assms(1) [unfolded shard_ok_def]]], of p] assms(2)
    by (simp add: hcount_def)
  note t = touch_spec [OF assms(1) [unfolded shard_ok_def] this]
  have "q \<in> dom (m_heap (reclaim ev p m)) \<and> value_at (m_heap (reclaim ev p m)) q = value_at (m_heap m) q"
    if "q \<in> queued s \<union> ran (shard_map H s m)" for q
    using qcore_dom [OF shard_coreD(1) [OF r(1)], of q] that r(2) by (auto simp: keeps_data_def)
  then show ?thesis using shard_ok_map [OF r(1)] shard_ok_map [OF t] by blast
qed

lemma shard_set_terminates:
  assumes "shard_ok H ext s m" and "alloc_ok m" and "env_ok ev m"
    and "spread b H (insert k (dom (shard_map H s m)))"
    and "2 ^ b \<le> 2 * length (t_buckets (ix_table (sh_index s)))" and "length (t_buckets (ix_table (sh_index s))) < 2 ^ 56"
  shows "\<exists>r. shard_set ev k v (H k) (s, m) = Some r"
proof -
  obtain p m1 where new: "entry_new ev (key_new k) v (H k) m = (p, m1)" by fastforce
  note c = shard_coreD(1) [OF assms(1) [unfolded shard_ok_def]]
  note a = qcore_alloc [OF c assms(2,3) new]
  let ?h = "m_heap (entry_clone p m1)"
  have "\<exists>old ix. index_insert ?h (H (key_at ?h p)) p (sh_index s) = Some (old, ix)"
    using index_insert_returns [OF qcoreD(1) [OF a(1)], of p b] a(2,4,5,7) assms(4-6) by auto
  then show ?thesis using new a(5) by (auto simp: shard_set_def Let_def split: prod.split)
qed

text \<open>
  C33. \<open>set\<close> returns, whenever the hashes of the keys, with the new one, spread over a table of at
  most twice the size the index has, within the allocation limit: no bucket of it is a candidate of
  more than eight of them. A growth then succeeds at once; one that has to be retried with a larger
  table counts as not returning.
\<close>

theorem shard_set_returns:
  assumes "shard_ok H ext s m" and "alloc_ok m" and "env_ok ev m"
    and "spread b H (insert k (dom (shard_map H s m)))"
    and "2 ^ b \<le> 2 * length (t_buckets (ix_table (sh_index s)))" and "length (t_buckets (ix_table (sh_index s))) < 2 ^ 56"
  shows "\<exists>r. shard_set ev k v (H k) (s, m) = Some r"
  using assms by (rule shard_set_terminates)

subsection \<open>A shard in use\<close>

text \<open>A new shard of a thousand bytes, one thread, and a hash that sends every key to one place.\<close>

definition mem_new :: "nat \<Rightarrow> memory" where
  "mem_new threads = \<lparr>m_heap = Map.empty, m_slab = slab_init threads, m_retired = []\<rparr>"

definition demo_env :: env where
  "demo_env = \<lparr>ev_mmap = 4096, ev_glibc = 2 ^ 44, ev_tid = 0, ev_tls = True\<rparr>"

lemma shard_new_fields [simp]: "sh_used (shard_new c) = 0" "sh_capacity (shard_new c) = c" "sh_dead_bytes (shard_new c) = 0"
  by (simp_all add: shard_new_def)

lemma mem_new_ok: "alloc_ok (mem_new n)" "mem_ok (mem_new n) (\<lambda>_. 0)"
  using slab_inv_init by (simp_all add: alloc_ok_def mem_new_def heap_chunks_def slab_addrs_def mem_ok_def)

lemma demo_env_ok: "env_ok demo_env (mem_new 1)"
  using mmap_ok_init [of 4096 1]
  by (simp add: env_ok_def demo_env_def mem_new_def heap_chunks_def slab_addrs_def owned_def chunks_init)
    (simp add: slab_init_def)

lemma shard_ok_new: "shard_ok H (\<lambda>_. 0) (shard_new cap) (mem_new n)"
proof -
  have "hcount (\<lambda>_. 0) {} (mem_new n) Map.empty = (\<lambda>_. 0)" by (simp add: hcount_def mem_new_def fun_eq_iff)
  with shard_core_new [of "mem_new n" "\<lambda>_. 0" H cap] mem_new_ok shard_ok_map show ?thesis by metis
qed

lemma shard_map_new: "shard_map H (shard_new cap) (mem_new n) = Map.empty"
proof -
  have "hcount (\<lambda>_. 0) {} (mem_new n) Map.empty = (\<lambda>_. 0)" by (simp add: hcount_def mem_new_def fun_eq_iff)
  with shard_core_new [of "mem_new n" "\<lambda>_. 0" H cap] mem_new_ok shard_ok_map show ?thesis by metis
qed

lemma spread_one: "spread 6 H {k}"
proof -
  have "card {a \<in> {k}. b \<in> cand 6 (H a)} \<le> 1" for b
    by (rule order_trans [OF card_mono [of "{k}"]]) auto
  then show ?thesis unfolding spread_def SLOTS_def by (meson order_trans one_le_numeral)
qed

lemma shard_new_size: "length (t_buckets (ix_table (sh_index (shard_new c)))) = 64"
  by (simp add: shard_new_def index_new_size)

lemma demo_set:
  obtains ret s' m' where "shard_set demo_env [7] [1] 5 (shard_new 1000, mem_new 1) = Some (ret, s', m')"
  using shard_set_terminates [OF shard_ok_new mem_new_ok(1) demo_env_ok, of 6 "\<lambda>_. 5" "[7]" 1000 "[1]"] that
  by (auto simp: shard_map_new spread_one shard_new_size)

theorem shard_set_get_witness:
  "\<exists>ret s' m' p. shard_set demo_env [7] [1] 5 (shard_new 1000, mem_new 1) = Some (ret, s', m') \<and>
     shard_get s' m' 5 [7] = Some p \<and> value_at (m_heap m') p = [1]"
proof -
  obtain ret s' m' where s: "shard_set demo_env [7] [1] 5 (shard_new 1000, mem_new 1) = Some (ret, s', m')" by (rule demo_set)
  have "\<exists>p. shard_get s' m' 5 [7] = Some p \<and> key_at (m_heap m') p = [7] \<and> value_at (m_heap m') p = [1]"
    using shard_set_get [OF shard_ok_new mem_new_ok(1) demo_env_ok, of "[7]" "[1]" "\<lambda>_. 5" 1000 ret s' m'] s by simp
  with s show ?thesis by blast
qed

theorem shard_within_budget_witness:
  "\<exists>ret s' m'. shard_set demo_env [7] [1] 5 (shard_new 1000, mem_new 1) = Some (ret, s', m') \<and> sh_used s' \<le> 1000"
proof -
  obtain ret s' m' where s: "shard_set demo_env [7] [1] 5 (shard_new 1000, mem_new 1) = Some (ret, s', m')" by (rule demo_set)
  have "within_budget (shard_new 1000)" "check_fits (shard_new 1000) [7] [1] = Inr ()"
    by (simp_all add: within_budget_def check_fits_def ENTRY_OVERHEAD_def)
  with shard_within_budget [OF shard_ok_new, of 1000 1 "\<lambda>_. 5" demo_env "[7]" "[1]" ret s' m'] s mem_new_ok(1) demo_env_ok
  have "within_budget s' \<and> sh_capacity s' = 1000" by auto
  with s show ?thesis by (auto simp: within_budget_def)
qed

theorem shard_set_returns_witness:
  "\<exists>r. shard_set demo_env [7] [1] 5 (shard_new 1000, mem_new 1) = Some r"
  using shard_set_returns [OF shard_ok_new mem_new_ok(1) demo_env_ok, of 6 "\<lambda>_. 5" "[7]" 1000 "[1]"]
  by (auto simp: shard_map_new spread_one shard_new_size)

lemma maybe_compact_retired: "maybe_compact ev (s, m) = (s', m') \<Longrightarrow> m_retired m' = m_retired m"
proof -
  have "m_retired (fold (entry_drop ev) ps x) = m_retired x" for ps x
    by (induction ps arbitrary: x) (simp_all add: entry_drop_heap)
  then show "maybe_compact ev (s, m) = (s', m') \<Longrightarrow> m_retired m' = m_retired m"
    by (auto simp: maybe_compact_def Let_def split: if_splits prod.splits)
qed

lemma shard_del_retires:
  assumes "shard_ok H ext s m" and "shard_get s m (H k) k = Some p" and "shard_del ev (H k) k (s, m) = (r, s', m')"
  shows "p \<in> set (m_retired m')"
proof -
  note c = shard_coreD [OF assms(1) [unfolded shard_ok_def]]
  obtain q ix where rm: "index_remove (m_heap m) (H k) k (sh_index s) = (q, ix)" by fastforce
  have "q = Some p" using cuckoo.del [OF qcoreD(1) [OF c(1)] rm] assms(2) by (simp add: shard_map_def)
  moreover obtain s1 m1 where "kill p (s\<lparr>sh_index := ix\<rparr>, m) = (s1, m1)" by fastforce
  ultimately have "maybe_compact ev (s1, retire p m1) = (s', m')"
    using assms(3) rm by (auto simp: shard_del_def Let_def split: prod.splits)
  from maybe_compact_retired [OF this] show ?thesis by (simp add: retire_def)
qed

theorem shard_reclaim_safe_witness:
  "\<exists>s m p. p \<in> set (m_retired m) \<and> shard_map (\<lambda>_. 5) s (reclaim demo_env p m) = shard_map (\<lambda>_. 5) s m"
proof -
  obtain ret s m where s: "shard_set demo_env [7] [1] 5 (shard_new 1000, mem_new 1) = Some (ret, s, m)" by (rule demo_set)
  obtain p m2 M where 1: "shard_core (\<lambda>_. 5) (\<lambda>_. 0) {} s m M" "M [7] = Some p"
    using shard_set_spec [OF shard_ok_new [unfolded shard_ok_def] mem_new_ok(1) demo_env_ok, of "[7]" "[1]" "\<lambda>_. 5" 1000 ret s m] s
    by metis
  then have ok: "shard_ok (\<lambda>_. 5) (\<lambda>_. 0) s m" "shard_get s m 5 [7] = Some p"
    using shard_ok_map [OF 1(1)] shard_get_map [OF 1(1)] by auto
  obtain r s' m' where d: "shard_del demo_env 5 [7] (s, m) = (r, s', m')" by (rule prod_cases3)
  have "shard_ok (\<lambda>_. 5) (\<lambda>_. 0) s' m'"
    using shard_del_spec(1) [OF ok(1) [unfolded shard_ok_def], of demo_env "[7]"] d shard_ok_map by blast
  moreover have "p \<in> set (m_retired m')" using shard_del_retires [OF ok(1), of "[7]"] ok(2) d by blast
  ultimately show ?thesis using shard_reclaim_safe by blast
qed

end
