(* ===== verification/Cache.thy ===== *)
theory Cache
  imports Shard_Inv
begin

text \<open>
  The sharded cache of \<^verbatim>\<open>crates/server/src/cache/mod.rs\<close>. The hash function is third-party code
  and a parameter, \<open>H\<close>; the top bits of a key's hash pick its shard. The epoch pin and the
  prefetches have no effect on results. What the world around decides is the argument \<open>W\<close>: the
  thread that runs, and what an allocation would get in a given state of the memory, or that
  there is none to be had, which aborts the process.

  A thread's count of retirements it has not flushed yet is passed explicitly; whether a call
  flushes the collector is part of its result.
\<close>

section \<open>The cache\<close>

record world =
  wo_env :: env
  wo_alloc :: "memory \<Rightarrow> (nat \<times> nat) option"

definition alloc_env :: "world \<Rightarrow> memory \<Rightarrow> env option" where
  "alloc_env W m = map_option (\<lambda>(a, b). (wo_env W)\<lparr>ev_mmap := a, ev_glibc := b\<rparr>) (wo_alloc W m)"

record cache =
  ca_shards :: "shard list"
  ca_shift :: nat
  ca_capacity :: nat

record stats =
  cs_get_hits :: nat
  cs_get_misses :: nat
  cs_del_hits :: nat
  cs_del_misses :: nat
  cs_evictions :: nat
  cs_items :: nat
  cs_used_bytes :: nat
  cs_capacity :: nat

definition next_power_of_two :: "nat \<Rightarrow> nat" where
  "next_power_of_two n = (if n \<le> 1 then 1 else 2 ^ (msb_index (n - 1) + 1))"

definition cache_new :: "nat \<Rightarrow> nat \<Rightarrow> cache" where
  "cache_new capacity shards =
     (let n = next_power_of_two shards;
          per = capacity div n
      in \<lparr>ca_shards = map (\<lambda>_. shard_new per) [0..<n], ca_shift = 64 - trailing_zeros n,
          ca_capacity = capacity\<rparr>)"

definition locate :: "(bytes \<Rightarrow> u64) \<Rightarrow> cache \<Rightarrow> bytes \<Rightarrow> nat \<times> u64" where
  "locate H c key =
     (let hash = H key;
          idx = (if ca_shift c = 64 then 0 else unat (drop_bit (ca_shift c) hash))
      in (idx, hash))"

definition on_shard :: "nat \<Rightarrow> (shard \<Rightarrow> shard) \<Rightarrow> cache \<Rightarrow> cache" where
  "on_shard i f c = c\<lparr>ca_shards := (ca_shards c)[i := f (ca_shards c ! i)]\<rparr>"

section \<open>Reading\<close>

definition get_in :: "(bytes \<Rightarrow> u64) \<Rightarrow> bytes \<Rightarrow> cache \<times> memory \<Rightarrow> nat option \<times> cache \<times> memory" where
  "get_in H key = (\<lambda>(c, m).
     let (i, hash) = locate H c key
     in case shard_get (ca_shards c ! i) m hash key of
          None \<Rightarrow> (None, on_shard i (count_gets 0 1) c, m)
        | Some e \<Rightarrow> (Some e, on_shard i (count_gets 1 0) c, touch e m))"

definition cache_get :: "(bytes \<Rightarrow> u64) \<Rightarrow> bytes \<Rightarrow> cache \<times> memory \<Rightarrow> nat option \<times> cache \<times> memory" where
  "cache_get H key cm =
     (case get_in H key cm of
        (None, c, m) \<Rightarrow> (None, c, m)
      | (Some e, c, m) \<Rightarrow> (Some e, c, entry_clone e m))"

text \<open>The lookup loop of a batch: hits, results in key order, and the memory after the touches.\<close>

fun find_all :: "shard list \<Rightarrow> (nat \<times> u64 \<times> bytes) list \<Rightarrow> memory \<Rightarrow> nat \<times> nat option list \<times> memory" where
  "find_all ss [] m = (0, [], m)"
| "find_all ss ((i, hash, k) # located) m =
     (let e = shard_get (ss ! i) m hash k;
          m1 = (case e of Some p \<Rightarrow> touch p m | None \<Rightarrow> m);
          (hits, found, m2) = find_all ss located m1
      in ((if e = None then hits else hits + 1), e # found, m2))"

definition get_many ::
  "(bytes \<Rightarrow> u64) \<Rightarrow> bytes list \<Rightarrow> cache \<times> memory \<Rightarrow> nat option list \<times> cache \<times> memory" where
  "get_many H keys = (\<lambda>(c, m).
     let located = map (\<lambda>k. let (i, hash) = locate H c k in (i, hash, k)) keys;
         (hits, found, m1) = find_all (ca_shards c) located m;
         c1 = (case located of
                 [] \<Rightarrow> c
               | (i, _, _) # _ \<Rightarrow> on_shard i (count_gets hits (length found - hits)) c)
     in (found, c1, m1))"

section \<open>Writing\<close>

definition FLUSH_ENTRIES :: nat where "FLUSH_ENTRIES = 256"
definition FLUSH_BYTES :: nat where "FLUSH_BYTES = 2 ^ 20"

text \<open>\<open>collect\<close>: whether the collector is flushed, and the thread's unflushed count after.\<close>

definition collect :: "retired \<Rightarrow> nat \<times> nat \<Rightarrow> bool \<times> nat \<times> nat" where
  "collect retired pending =
     (if rt_small retired > 0 then (True, 0, 0)
      else if rt_large retired = 0 then (False, pending)
      else let n = fst pending + rt_large retired;
               b = snd pending + rt_large_bytes retired
           in if n \<ge> FLUSH_ENTRIES \<or> b \<ge> FLUSH_BYTES then (True, 0, 0) else (False, n, b))"

definition set_on ::
  "world \<Rightarrow> nat \<Rightarrow> u64 \<Rightarrow> bytes \<Rightarrow> bytes \<Rightarrow> cache \<times> memory \<Rightarrow> (retired \<times> cache \<times> memory) option" where
  "set_on W i hash k v = (\<lambda>(c, m).
     case alloc_env W m of
       None \<Rightarrow> None
     | Some ev \<Rightarrow>
         (case shard_set ev k v hash (ca_shards c ! i, m) of
            None \<Rightarrow> None
          | Some (r, s, m1) \<Rightarrow> Some (r, on_shard i (\<lambda>_. s) c, m1)))"

fun set_all ::
  "world \<Rightarrow> (nat \<times> u64 \<times> bytes \<times> bytes) list \<Rightarrow> retired \<Rightarrow> cache \<times> memory \<Rightarrow>
     (retired \<times> cache \<times> memory) option" where
  "set_all W [] ret (c, m) = Some (ret, c, m)"
| "set_all W ((i, hash, k, v) # located) ret (c, m) =
     (case set_on W i hash k v (c, m) of
        None \<Rightarrow> None
      | Some (r, c1, m1) \<Rightarrow> set_all W located (retired_add ret r) (c1, m1))"

text \<open>The first loop of \<open>set_many\<close>: every entry is checked before anything is written.\<close>

fun locate_sets ::
  "(bytes \<Rightarrow> u64) \<Rightarrow> cache \<Rightarrow> (bytes \<times> bytes) list \<Rightarrow> too_large + (nat \<times> u64 \<times> bytes \<times> bytes) list" where
  "locate_sets H c [] = Inr []"
| "locate_sets H c ((k, v) # entries) =
     (case check_fits (ca_shards c ! 0) k v of
        Inl e \<Rightarrow> Inl e
      | Inr _ \<Rightarrow>
          let (i, hash) = locate H c k
          in case locate_sets H c entries of Inl e \<Rightarrow> Inl e | Inr l \<Rightarrow> Inr ((i, hash, k, v) # l))"

type_synonym pending = "nat \<times> nat"

definition set_many ::
  "(bytes \<Rightarrow> u64) \<Rightarrow> world \<Rightarrow> (bytes \<times> bytes) list \<Rightarrow> cache \<times> memory \<Rightarrow> pending \<Rightarrow>
     ((too_large + bool) \<times> (cache \<times> memory) \<times> pending) option" where
  "set_many H W entries cm pending =
     (case locate_sets H (fst cm) entries of
        Inl e \<Rightarrow> Some (Inl e, cm, pending)
      | Inr located \<Rightarrow>
          (case set_all W located retired_zero cm of
             None \<Rightarrow> None
           | Some (retired, cm1) \<Rightarrow>
               let (flushed, pending1) = collect retired pending
               in Some (Inr flushed, cm1, pending1)))"

definition cache_set ::
  "(bytes \<Rightarrow> u64) \<Rightarrow> world \<Rightarrow> bytes \<Rightarrow> bytes \<Rightarrow> cache \<times> memory \<Rightarrow> pending \<Rightarrow>
     ((too_large + bool) \<times> (cache \<times> memory) \<times> pending) option" where
  "cache_set H W key value = set_many H W [(key, value)]"

definition del_on ::
  "env \<Rightarrow> nat \<Rightarrow> u64 \<Rightarrow> bytes \<Rightarrow> cache \<times> memory \<Rightarrow> retired option \<times> cache \<times> memory" where
  "del_on ev i hash k = (\<lambda>(c, m).
     let (r, s, m1) = shard_del ev hash k (ca_shards c ! i, m)
     in (r, on_shard i (\<lambda>_. s) c, m1))"

text \<open>The delete loop: what was retired, the answers in key order, and the state after.\<close>

fun del_all ::
  "world \<Rightarrow> (nat \<times> u64 \<times> bytes) list \<Rightarrow> retired \<Rightarrow> cache \<times> memory \<Rightarrow>
     retired \<times> bool list \<times> cache \<times> memory" where
  "del_all W [] ret (c, m) = (ret, [], c, m)"
| "del_all W ((i, hash, k) # located) ret (c, m) =
     (let (found, c1, m1) = del_on (wo_env W) i hash k (c, m);
          ret1 = (case found of Some r \<Rightarrow> retired_add ret r | None \<Rightarrow> ret);
          (ret2, fs, c2, m2) = del_all W located ret1 (c1, m1)
      in (ret2, (found \<noteq> None) # fs, c2, m2))"

definition del_many ::
  "(bytes \<Rightarrow> u64) \<Rightarrow> world \<Rightarrow> bytes list \<Rightarrow> cache \<times> memory \<Rightarrow> pending \<Rightarrow>
     bool list \<times> bool \<times> (cache \<times> memory) \<times> pending" where
  "del_many H W keys = (\<lambda>(c, m) pending.
     let located = map (\<lambda>k. let (i, hash) = locate H c k in (i, hash, k)) keys;
         (retired, fs, c1, m1) = del_all W located retired_zero (c, m);
         hits = length (filter id fs);
         c2 = (if located = [] then c1
               else on_shard (fst (last located)) (count_dels hits (length fs - hits)) c1);
         (flushed, pending1) = collect retired pending
     in (fs, flushed, (c2, m1), pending1))"

definition cache_del ::
  "(bytes \<Rightarrow> u64) \<Rightarrow> world \<Rightarrow> bytes \<Rightarrow> cache \<times> memory \<Rightarrow> pending \<Rightarrow>
     bool \<times> bool \<times> (cache \<times> memory) \<times> pending" where
  "cache_del H W key cm pending =
     (let (fs, rest) = del_many H W [key] cm pending
      in (last (False # fs), rest))"

section \<open>Counting\<close>

definition cache_len :: "cache \<Rightarrow> nat" where
  "cache_len c = sum_list (map shard_len (ca_shards c))"

definition cache_is_empty :: "cache \<Rightarrow> bool" where
  "cache_is_empty c = (cache_len c = 0)"

definition cache_used_bytes :: "cache \<Rightarrow> nat" where
  "cache_used_bytes c = sum_list (map sh_used (ca_shards c))"

definition add_stats :: "shard \<Rightarrow> stats \<Rightarrow> stats" where
  "add_stats sh s =
     s\<lparr>cs_get_hits := cs_get_hits s + st_get_hits (sh_stats sh),
       cs_get_misses := cs_get_misses s + st_get_misses (sh_stats sh),
       cs_del_hits := cs_del_hits s + st_del_hits (sh_stats sh),
       cs_del_misses := cs_del_misses s + st_del_misses (sh_stats sh),
       cs_evictions := cs_evictions s + st_evictions (sh_stats sh),
       cs_items := cs_items s + shard_len sh,
       cs_used_bytes := cs_used_bytes s + sh_used sh\<rparr>"

definition cache_stats :: "cache \<Rightarrow> stats" where
  "cache_stats c =
     fold add_stats (ca_shards c)
       \<lparr>cs_get_hits = 0, cs_get_misses = 0, cs_del_hits = 0, cs_del_misses = 0, cs_evictions = 0,
        cs_items = 0, cs_used_bytes = 0, cs_capacity = ca_capacity c\<rparr>"

end
