(* ===== verification/Cache_Inv.thy ===== *)
theory Cache_Inv
  imports Cache
begin

text \<open>
  The invariant of the sharded cache and the contract its front ends rely on: over the keys and
  values that can be read, a cache is a map that may forget.
\<close>

section \<open>The shards together\<close>

text \<open>
  The handles a shard does not hold itself: those of the other shards, and those readers hold
  (\<open>rd\<close>).
\<close>

definition ext_of :: "(nat \<Rightarrow> nat) \<Rightarrow> shard list \<Rightarrow> (nat \<Rightarrow> bytes \<rightharpoonup> nat) \<Rightarrow> nat \<Rightarrow> nat \<Rightarrow> nat" where
  "ext_of rd ss Ms i p =
     rd p + (\<Sum>j \<in> {..<length ss} - {i}. of_bool (p \<in> ran (Ms j)) + of_bool (p \<in> queued (ss ! j)))"

definition cache_core ::
  "(bytes \<Rightarrow> u64) \<Rightarrow> (bytes \<Rightarrow> nat) \<Rightarrow> (nat \<Rightarrow> nat) \<Rightarrow> shard list \<Rightarrow> memory \<Rightarrow> (nat \<Rightarrow> bytes \<rightharpoonup> nat) \<Rightarrow> bool" where
  "cache_core H loc rd ss m Ms \<longleftrightarrow> (\<forall>i < length ss. shard_core H (ext_of rd ss Ms i) {} (ss ! i) m (Ms i) \<and>
     (\<forall>p \<in> queued (ss ! i). loc (key_at (m_heap m) p) = i))"

lemma cache_coreD:
  assumes "cache_core H loc rd ss m Ms" and "i < length ss"
  shows "shard_core H (ext_of rd ss Ms i) {} (ss ! i) m (Ms i)"
    "\<And>p. p \<in> queued (ss ! i) \<Longrightarrow> loc (key_at (m_heap m) p) = i"
  using assms by (auto simp: cache_core_def)

lemma ext_of_other:
  "ext_of rd (ss[i := s]) (Ms(i := M)) i = ext_of rd ss Ms i"
proof
  fix p
  have "(\<Sum>j \<in> {..<length ss} - {i}. of_bool (p \<in> ran ((Ms(i := M)) j)) + of_bool (p \<in> queued (ss[i := s] ! j))) =
      (\<Sum>j \<in> {..<length ss} - {i}. of_bool (p \<in> ran (Ms j)) + (of_bool (p \<in> queued (ss ! j)) :: nat))"
    by (rule sum.cong) auto
  then show "ext_of rd (ss[i := s]) (Ms(i := M)) i p = ext_of rd ss Ms i p" by (simp only: ext_of_def length_list_update)
qed

text \<open>All shards see the same number of handles to an entry.\<close>

lemma hcount_total:
  assumes "i < length ss"
  shows "hcount (ext_of rd ss Ms i) (queued (ss ! i)) m (Ms i) p =
    (\<Sum>j < length ss. of_bool (p \<in> ran (Ms j)) + of_bool (p \<in> queued (ss ! j))) + count (mset (m_retired m)) p + rd p"
proof -
  have "(\<Sum>j < length ss. of_bool (p \<in> ran (Ms j)) + of_bool (p \<in> queued (ss ! j))) =
      of_bool (p \<in> ran (Ms i)) + of_bool (p \<in> queued (ss ! i)) +
      (\<Sum>j \<in> {..<length ss} - {i}. of_bool (p \<in> ran (Ms j)) + (of_bool (p \<in> queued (ss ! j)) :: nat))"
    using assms by (intro sum.remove) auto
  then show ?thesis unfolding hcount_def ext_of_def by linarith
qed

lemma hcount_agree:
  assumes "i < length ss" and "j < length ss"
  shows "hcount (ext_of rd ss Ms i) (queued (ss ! i)) m (Ms i) = hcount (ext_of rd ss Ms j) (queued (ss ! j)) m (Ms j)"
  by (rule ext) (simp only: hcount_total [OF assms(1)] hcount_total [OF assms(2)])

text \<open>
  One shard moves, the others stand still: it suffices that their entries are untouched.
\<close>

lemma cache_core_step:
  assumes "cache_core H loc rd ss m Ms" and "i < length ss"
    and "shard_core H (ext_of rd ss Ms i) {} s' m' M'"
    and "\<And>j q. j < length ss \<Longrightarrow> j \<noteq> i \<Longrightarrow> q \<in> queued (ss ! j) \<Longrightarrow> m_heap m' q = m_heap m q"
    and "\<And>q. q \<in> queued s' \<Longrightarrow> loc (key_at (m_heap m') q) = i"
  shows "cache_core H loc rd (ss[i := s']) m' (Ms(i := M'))"
  unfolding cache_core_def
proof (intro allI impI)
  fix j assume "j < length (ss[i := s'])"
  then have j: "j < length ss" by simp
  let ?ss = "ss[i := s']" and ?Ms = "Ms(i := M')"
  have self: "shard_core H (ext_of rd ?ss ?Ms i) {} (?ss ! i) m' (?Ms i)"
    using assms(2,3) by (simp add: ext_of_other)
  show "shard_core H (ext_of rd ?ss ?Ms j) {} (?ss ! j) m' (?Ms j) \<and>
      (\<forall>p \<in> queued (?ss ! j). loc (key_at (m_heap m') p) = j)"
  proof (cases "j = i")
    case True
    with self assms(2,5) show ?thesis by simp
  next
    case False
    note c = cache_coreD [OF assms(1) j]
    have e: "?ss ! j = ss ! j" "?Ms j = Ms j" using False by simp_all
    have same: "m_heap m' q = m_heap m q" if "q \<in> queued (ss ! j) \<union> ran (Ms j)" for q
      using assms(4) [OF j False] qcoreD(4) [OF shard_coreD(1) [OF c(1)]] that by blast
    have "mem_ok m' (hcount (ext_of rd ?ss ?Ms i) (queued (?ss ! i)) m' (?Ms i))"
      by (rule qcoreD(2) [OF shard_coreD(1) [OF self]])
    then have ok: "mem_ok m' (hcount (ext_of rd ?ss ?Ms j) (queued (ss ! j)) m' (Ms j))"
      using hcount_agree [of i ?ss j rd ?Ms m'] assms(2) j e by simp
    have "shard_core H (ext_of rd ?ss ?Ms j) {} (ss ! j) m' (Ms j)"
      by (rule shard_core_frame [OF c(1) ok]) (use same in \<open>simp add: entry_fields\<close>)
    moreover have "loc (key_at (m_heap m') p) = j" if "p \<in> queued (ss ! j)" for p
      using c(2) [OF that] same [of p] that by (auto simp: entry_fields)
    ultimately show ?thesis by (simp only: e) blast
  qed
qed

section \<open>The invariant of the cache\<close>

definition shape_ok :: "cache \<Rightarrow> bool" where
  "shape_ok c \<longleftrightarrow> ca_shift c \<le> 64 \<and> length (ca_shards c) = 2 ^ (64 - ca_shift c)"

definition cache_rep ::
  "(bytes \<Rightarrow> u64) \<Rightarrow> (nat \<Rightarrow> nat) \<Rightarrow> cache \<Rightarrow> memory \<Rightarrow> (nat \<Rightarrow> bytes \<rightharpoonup> nat) \<Rightarrow> bool" where
  "cache_rep H rd c m Ms \<longleftrightarrow> shape_ok c \<and> alloc_ok m \<and>
     (\<forall>s \<in> set (ca_shards c). within_budget s \<and> sh_capacity s = sh_capacity (ca_shards c ! 0)) \<and>
     cache_core H (\<lambda>k. fst (locate H c k)) rd (ca_shards c) m Ms"

definition cache_find :: "(bytes \<Rightarrow> u64) \<Rightarrow> cache \<Rightarrow> memory \<Rightarrow> bytes \<rightharpoonup> nat" where
  "cache_find H c m k = (case locate H c k of (i, hash) \<Rightarrow> shard_get (ca_shards c ! i) m hash k)"

definition cache_view :: "(bytes \<Rightarrow> u64) \<Rightarrow> cache \<Rightarrow> memory \<Rightarrow> bytes \<rightharpoonup> bytes" where
  "cache_view H c m k = map_option (value_at (m_heap m)) (cache_find H c m k)"

lemma cache_repD:
  assumes "cache_rep H rd c m Ms"
  shows "shape_ok c" "alloc_ok m" "\<And>s. s \<in> set (ca_shards c) \<Longrightarrow> within_budget s"
    "\<And>s. s \<in> set (ca_shards c) \<Longrightarrow> sh_capacity s = sh_capacity (ca_shards c ! 0)"
    "cache_core H (\<lambda>k. fst (locate H c k)) rd (ca_shards c) m Ms"
  using assms by (simp_all add: cache_rep_def)

text \<open>The unchecked index of \<open>locate\<close> is in range.\<close>

lemma locate_range:
  assumes "shape_ok c"
  shows "fst (locate H c k) < length (ca_shards c)"
proof (cases "ca_shift c = 64")
  case False
  have "unat (drop_bit (ca_shift c) (H k)) < 2 ^ (64 - ca_shift c)"
  proof -
    have "unat (H k) < 2 ^ 64" using unsigned_less [of "H k", where 'a = nat] by simp
    also have "(2 :: nat) ^ 64 = 2 ^ (64 - ca_shift c) * 2 ^ ca_shift c"
      using assms by (simp add: shape_ok_def flip: power_add)
    finally have "unat (H k) div 2 ^ ca_shift c < 2 ^ (64 - ca_shift c)" by (rule less_mult_imp_div_less)
    moreover have "unat (drop_bit (ca_shift c) (H k)) = unat (H k) div 2 ^ ca_shift c"
    proof -
      have "take_bit 64 (unat (H k)) = unat (H k)"
        using unsigned_less [of "H k", where 'a = nat] by (simp add: take_bit_nat_eq_self)
      then show ?thesis by (simp only: unsigned_drop_bit_eq) (simp add: drop_bit_eq_div)
    qed
    ultimately show ?thesis by simp
  qed
  with False assms show ?thesis by (simp add: locate_def shape_ok_def Let_def)
qed (use assms in \<open>simp add: locate_def shape_ok_def Let_def\<close>)

lemma on_shard_fields [simp]:
  "ca_shift (on_shard i f c) = ca_shift c" "ca_capacity (on_shard i f c) = ca_capacity c"
  "length (ca_shards (on_shard i f c)) = length (ca_shards c)"
  "locate H (on_shard i f c) k = locate H c k" "shape_ok (on_shard i f c) = shape_ok c"
  by (simp_all add: on_shard_def locate_def shape_ok_def Let_def)

lemma cache_find_map:
  assumes "cache_rep H rd c m Ms"
  shows "cache_find H c m k = Ms (fst (locate H c k)) k"
proof -
  have "snd (locate H c k) = H k" by (simp add: locate_def Let_def)
  moreover have "shard_core H (ext_of rd (ca_shards c) Ms (fst (locate H c k))) {}
      (ca_shards c ! fst (locate H c k)) m (Ms (fst (locate H c k)))"
    using cache_repD(5) [OF assms] locate_range [OF cache_repD(1) [OF assms]] by (rule cache_coreD)
  ultimately show ?thesis by (simp add: cache_find_def case_prod_unfold shard_get_map)
qed

text \<open>A shard holds keys of its own only, so no two shards share an entry.\<close>

lemma cache_own_keys:
  assumes "cache_rep H rd c m Ms" and "i < length (ca_shards c)" and "Ms i k = Some p"
  shows "fst (locate H c k) = i" and "p \<in> queued (ca_shards c ! i)" and "key_at (m_heap m) p = k"
proof -
  note q = shard_coreD(1) [OF cache_coreD(1) [OF cache_repD(5) [OF assms(1)] assms(2)]]
  show key: "key_at (m_heap m) p = k" using q assms(3) by (rule qcore_key)
  show "p \<in> queued (ca_shards c ! i)" using qcoreD(4) [OF q] assms(3) by (auto simp: ran_def)
  then show "fst (locate H c k) = i" using cache_coreD(2) [OF cache_repD(5) [OF assms(1)] assms(2)] key by auto
qed

lemma queues_disjoint:
  assumes "cache_rep H rd c m Ms" and "i < length (ca_shards c)" and "j < length (ca_shards c)"
    and "p \<in> queued (ca_shards c ! i)" and "p \<in> queued (ca_shards c ! j)"
  shows "i = j"
  using cache_coreD(2) [OF cache_repD(5) [OF assms(1)] assms(2,4)]
    cache_coreD(2) [OF cache_repD(5) [OF assms(1)] assms(3,5)] by simp

lemma cache_entry_dom:
  assumes "cache_rep H rd c m Ms" and "i < length (ca_shards c)" and "p \<in> queued (ca_shards c ! i) \<union> ran (Ms i)"
  shows "p \<in> dom (m_heap m)"
  using qcore_dom [OF shard_coreD(1) [OF cache_coreD(1) [OF cache_repD(5) [OF assms(1)] assms(2)]]] assms(3) .

text \<open>Moving one shard of the cache.\<close>

lemma cache_rep_step:
  assumes "cache_rep H rd c m Ms" and "i < length (ca_shards c)" and "alloc_ok m'"
    and "shard_core H (ext_of rd (ca_shards c) Ms i) {} s' m' M'"
    and "within_budget s'" and "sh_capacity s' = sh_capacity (ca_shards c ! i)"
    and "\<And>j q. j < length (ca_shards c) \<Longrightarrow> j \<noteq> i \<Longrightarrow> q \<in> queued (ca_shards c ! j) \<Longrightarrow> m_heap m' q = m_heap m q"
    and "\<And>q. q \<in> queued s' \<Longrightarrow> fst (locate H c (key_at (m_heap m') q)) = i"
  shows "cache_rep H rd (on_shard i (\<lambda>_. s') c) m' (Ms(i := M'))"
proof -
  let ?c = "on_shard i (\<lambda>_. s') c"
  have ss: "ca_shards ?c = (ca_shards c)[i := s']" by (simp add: on_shard_def)
  have core: "cache_core H (\<lambda>k. fst (locate H c k)) rd ((ca_shards c)[i := s']) m' (Ms(i := M'))"
    using cache_repD(5) [OF assms(1)] assms(2,4,7,8) by (rule cache_core_step)
  have cap: "sh_capacity s' = sh_capacity (ca_shards c ! 0)"
    using assms(6) cache_repD(4) [OF assms(1)] assms(2) nth_mem by metis
  then have cap0: "sh_capacity ((ca_shards c)[i := s'] ! 0) = sh_capacity (ca_shards c ! 0)"
    using assms(2) by (cases "i = 0") simp_all
  have "within_budget s \<and> sh_capacity s = sh_capacity (ca_shards c ! 0)" if "s \<in> set ((ca_shards c)[i := s'])" for s
    using that set_update_subset_insert [of "ca_shards c" i s'] cache_repD(3,4) [OF assms(1), of s] assms(5) cap by auto
  with core cache_repD(1) [OF assms(1)] assms(3) cap0 show ?thesis by (simp add: cache_rep_def ss)
qed

text \<open>The counters are no part of the invariant.\<close>

lemma shard_core_count [simp]:
  "shard_core H ext X (count_gets a b s) m M = shard_core H ext X s m M"
  "shard_core H ext X (count_dels a b s) m M = shard_core H ext X s m M"
  "within_budget (count_gets a b s) = within_budget s" "within_budget (count_dels a b s) = within_budget s"
  "sh_capacity (count_gets a b s) = sh_capacity s" "sh_capacity (count_dels a b s) = sh_capacity s"
  "shard_get (count_gets a b s) = shard_get s" "shard_get (count_dels a b s) = shard_get s"
  "sh_small (count_gets a b s) = sh_small s" "sh_small (count_dels a b s) = sh_small s"
  "sh_main (count_gets a b s) = sh_main s" "sh_main (count_dels a b s) = sh_main s"
  by (simp_all add: shard_core_def count_gets_def count_dels_def within_budget_def shard_get_def fun_eq_iff)

lemma on_shard_const: "on_shard i f c = on_shard i (\<lambda>_. f (ca_shards c ! i)) c"
  by (simp add: on_shard_def)

lemma cache_rep_count:
  assumes "cache_rep H rd c m Ms" and "i < length (ca_shards c)"
  shows "cache_rep H rd (on_shard i (count_gets a b) c) m Ms" "cache_rep H rd (on_shard i (count_dels a b) c) m Ms"
proof -
  let ?s = "ca_shards c ! i"
  have st: "cache_rep H rd (on_shard i (\<lambda>_. s') c) m (Ms(i := Ms i))"
    if "s' = count_gets a b ?s \<or> s' = count_dels a b ?s" for s'
  proof (rule cache_rep_step [OF assms cache_repD(2) [OF assms(1)]])
    show "shard_core H (ext_of rd (ca_shards c) Ms i) {} s' m (Ms i)"
      using that cache_coreD(1) [OF cache_repD(5) [OF assms(1)] assms(2)] by auto
    show "within_budget s'" "sh_capacity s' = sh_capacity ?s"
      using that cache_repD(3) [OF assms(1)] assms(2) by auto
    show "fst (locate H c (key_at (m_heap m) q)) = i" if "q \<in> queued s'" for q
      using \<open>s' = count_gets a b ?s \<or> s' = count_dels a b ?s\<close> that
        cache_coreD(2) [OF cache_repD(5) [OF assms(1)] assms(2), of q] by auto
  qed simp
  show "cache_rep H rd (on_shard i (count_gets a b) c) m Ms" "cache_rep H rd (on_shard i (count_dels a b) c) m Ms"
    using st [of "count_gets a b ?s"] st [of "count_dels a b ?s"]
      on_shard_const [of i "count_gets a b" c] on_shard_const [of i "count_dels a b" c] by simp_all
qed

section \<open>Every operation keeps it\<close>

lemma within_budget_set:
  assumes "cache_rep H rd c m Ms" and "i < length (ca_shards c)" and "check_fits (ca_shards c ! 0) k v = Inr ()"
  shows "length k + length v + ENTRY_OVERHEAD \<le> sh_capacity (ca_shards c ! i)"
  using assms(3) cache_repD(4) [OF assms(1) nth_mem [OF assms(2)]]
  by (simp add: check_fits_def Let_def split: if_splits)

text \<open>What a write may do to the keys: the one written has its value, others may be gone.\<close>

lemma cache_view_other_shard:
  assumes "cache_rep H rd c m Ms" and "cache_rep H rd c' m' (Ms(i := M'))"
    and "\<And>k. locate H c' k = locate H c k" and "fst (locate H c k) \<noteq> i"
    and "\<And>j q. j < length (ca_shards c) \<Longrightarrow> j \<noteq> i \<Longrightarrow> q \<in> queued (ca_shards c ! j) \<Longrightarrow> m_heap m' q = m_heap m q"
  shows "cache_view H c' m' k = cache_view H c m k"
proof -
  let ?j = "fst (locate H c k)"
  have f: "cache_find H c' m' k = Ms ?j k" "cache_find H c m k = Ms ?j k"
    using cache_find_map [OF assms(2), of k] cache_find_map [OF assms(1), of k] assms(3,4) by simp_all
  have "value_at (m_heap m') p = value_at (m_heap m) p" if "Ms ?j k = Some p" for p
  proof -
    have j: "?j < length (ca_shards c)" by (rule locate_range [OF cache_repD(1) [OF assms(1)]])
    have "m_heap m' p = m_heap m p" by (rule assms(5) [OF j assms(4) cache_own_keys(2) [OF assms(1) j that]])
    then show ?thesis by (simp add: value_at_def deref_def)
  qed
  then show ?thesis by (cases "Ms ?j k") (simp_all add: cache_view_def f)
qed

text \<open>
  The world is fair: the thread is known to the slab, and what an allocation gets is memory
  nobody uses.
\<close>

definition world_ok :: "world \<Rightarrow> memory \<Rightarrow> bool" where
  "world_ok W m \<longleftrightarrow> ev_tid (wo_env W) < length (sl_mags (m_slab m)) \<and>
     (\<forall>m' ev. alloc_ok m' \<and> length (sl_mags (m_slab m')) = length (sl_mags (m_slab m)) \<and>
        alloc_env W m' = Some ev \<longrightarrow> env_ok ev m')"

lemma world_ok_mags: "world_ok W m \<Longrightarrow> length (sl_mags (m_slab m')) = length (sl_mags (m_slab m)) \<Longrightarrow> world_ok W m'"
  by (simp add: world_ok_def)

text \<open>What an entry is charged, and that a batch fits beside what every shard it touches already holds.\<close>

definition entry_cost :: "bytes \<Rightarrow> bytes \<Rightarrow> nat" where
  "entry_cost k v = length k + length v + ENTRY_OVERHEAD"

definition has_room :: "(bytes \<Rightarrow> u64) \<Rightarrow> cache \<Rightarrow> (bytes \<times> bytes) list \<Rightarrow> bool" where
  "has_room H c es \<longleftrightarrow> (\<forall>i < length (ca_shards c).
     sh_used (ca_shards c ! i) + sum_list (map (case_prod entry_cost) (filter (\<lambda>e. fst (locate H c (fst e)) = i) es)) \<le> sh_capacity (ca_shards c ! i))"

lemma has_room_step:
  assumes "has_room H c ((k, v) # es)" and "fst (locate H c k) = i" and "i < length (ca_shards c)"
  shows "sh_used (ca_shards c ! i) + entry_cost k v \<le> sh_capacity (ca_shards c ! i)"
    and "sh_used s' \<le> sh_used (ca_shards c ! i) + entry_cost k v \<Longrightarrow> sh_capacity s' = sh_capacity (ca_shards c ! i) \<Longrightarrow>
      has_room H (on_shard i (\<lambda>_. s') c) es"
proof -
  have all: "sh_used (ca_shards c ! j) + sum_list (map (case_prod entry_cost) (filter (\<lambda>e. fst (locate H c (fst e)) = j) ((k, v) # es)))
      \<le> sh_capacity (ca_shards c ! j)" if "j < length (ca_shards c)" for j
    using assms(1) that unfolding has_room_def by blast
  show "sh_used (ca_shards c ! i) + entry_cost k v \<le> sh_capacity (ca_shards c ! i)"
    using all [OF assms(3)] assms(2) by simp
  show "has_room H (on_shard i (\<lambda>_. s') c) es"
    if "sh_used s' \<le> sh_used (ca_shards c ! i) + entry_cost k v" "sh_capacity s' = sh_capacity (ca_shards c ! i)"
    unfolding has_room_def on_shard_fields
  proof (intro allI impI)
    fix j assume "j < length (ca_shards c)"
    then show "sh_used (ca_shards (on_shard i (\<lambda>_. s') c) ! j) + sum_list (map (case_prod entry_cost) (filter (\<lambda>e. fst (locate H c (fst e)) = j) es))
        \<le> sh_capacity (ca_shards (on_shard i (\<lambda>_. s') c) ! j)"
      using all [of j] assms(2) that by (cases "j = i") (auto simp: on_shard_def)
  qed
qed

lemma set_on_spec:
  assumes "cache_rep H rd c m Ms" and "world_ok W m" and "locate H c k = (i, hash)"
    and "check_fits (ca_shards c ! 0) k v = Inr ()" and "set_on W i hash k v (c, m) = Some (r, c', m')"
  shows "\<exists>M'. cache_rep H rd c' m' (Ms(i := M'))" and "cache_view H c' m' k = Some v"
    and "cache_view H c' m' \<subseteq>\<^sub>m (cache_view H c m)(k \<mapsto> v)"
    and "locate H c' k' = locate H c k'" and "sh_capacity (ca_shards c' ! 0) = sh_capacity (ca_shards c ! 0)"
    and "length (sl_mags (m_slab m')) = length (sl_mags (m_slab m))"
    and "ca_capacity c' = ca_capacity c \<and> length (ca_shards c') = length (ca_shards c)"
    and "\<And>q. 0 < rd q \<Longrightarrow> value_at (m_heap m') q = value_at (m_heap m) q"
    and "has_room H c ((k, v) # es) \<Longrightarrow> cache_view H c' m' = (cache_view H c m)(k \<mapsto> v) \<and> has_room H c' es"
    and "\<And>q. q \<in> dom (m_heap m) \<Longrightarrow> q \<in> dom (m_heap m') \<Longrightarrow> value_at (m_heap m') q = value_at (m_heap m) q"
proof -
  have i: "i < length (ca_shards c)" using locate_range [OF cache_repD(1) [OF assms(1)], of H k] assms(3) by simp
  have hash: "hash = H k" using assms(3) by (simp add: locate_def Let_def)
  let ?s = "ca_shards c ! i"
  obtain ev s' where ev: "alloc_env W m = Some ev" and set: "shard_set ev k v (H k) (?s, m) = Some (r, s', m')"
    and c': "c' = on_shard i (\<lambda>_. s') c"
    using assms(5) hash by (auto simp: set_on_def split: option.splits)
  have env: "env_ok ev m" using assms(2) ev cache_repD(2) [OF assms(1)] by (simp add: world_ok_def)
  note core = cache_coreD [OF cache_repD(5) [OF assms(1)] i]
  obtain p m2 M' where s: "shard_core H (ext_of rd (ca_shards c) Ms i) {} s' m' M'" "M' k = Some p" "m_heap m p = None"
    "M' \<subseteq>\<^sub>m (Ms i)(k \<mapsto> p)" "changes ev (insert p (queued ?s)) m2 m'" "queued s' \<subseteq> insert p (queued ?s)"
    "value_at (m_heap m2) p = v" "key_at (m_heap m2) p = k" "\<And>q. q \<noteq> p \<Longrightarrow> m_heap m2 q = m_heap m q"
    "alloc_ok m'" "length (sl_mags (m_slab m')) = length (sl_mags (m_slab m))"
    "sh_capacity s' = sh_capacity ?s" "length k + length v + ENTRY_OVERHEAD \<le> sh_capacity ?s \<Longrightarrow> sh_used s' \<le> sh_capacity ?s"
    "sh_dead_bytes s' \<le> sh_capacity ?s div 4" and room: "sh_used ?s + entry_cost k v \<le> sh_capacity ?s \<Longrightarrow>
      M' = (Ms i)(k \<mapsto> p) \<and> sh_used s' \<le> sh_used ?s + entry_cost k v"
    using core(1) cache_repD(2) [OF assms(1)] env set by (rule shard_set_spec) (simp add: entry_cost_def)
  have kd: "keeps_data (m_heap m2) (m_heap m')" using s(5) by (rule changes_keeps)
  have frame: "m_heap m' q = m_heap m q" if "j < length (ca_shards c)" "j \<noteq> i" "q \<in> queued (ca_shards c ! j)" for j q
  proof -
    have "q \<notin> queued ?s" using queues_disjoint [OF assms(1) that(1) i that(3)] that(2) by blast
    moreover have "q \<noteq> p" using cache_entry_dom [OF assms(1) that(1)] that(3) s(3) by auto
    ultimately show ?thesis using s(5) s(9) [of q] by (simp add: changes_def)
  qed
  have dom': "q \<in> dom (m_heap m')" if "q \<in> queued s' \<union> ran M'" for q
    using qcore_dom [OF shard_coreD(1) [OF s(1)] that] .
  have loc: "fst (locate H c (key_at (m_heap m') q)) = i" if "q \<in> queued s'" for q
  proof -
    have "key_at (m_heap m') q = key_at (m_heap m2) q" using kd dom' that unfolding keeps_data_def by blast
    also have "\<dots> = (if q = p then k else key_at (m_heap m) q)" using s(8) s(9) [of q] by (simp add: key_at_def deref_def)
    finally show ?thesis using that s(6) core(2) [of q] assms(3) by auto
  qed
  have rep: "cache_rep H rd c' m' (Ms(i := M'))"
    unfolding c' using assms(1) i s(10,1)
  proof (rule cache_rep_step)
    show "within_budget s'" using s(12-14) within_budget_set [OF assms(1) i assms(4)] by (simp add: within_budget_def)
  qed (use s(12) frame loc in simp_all)
  then show "\<exists>M'. cache_rep H rd c' m' (Ms(i := M'))" by blast
  show loc': "\<And>k'. locate H c' k' = locate H c k'" by (simp add: c')
  have val: "value_at (m_heap m') q = (if q = p then v else value_at (m_heap m) q)" if "q \<in> dom (m_heap m')" for q
    using kd that s(7) s(9) [of q] by (auto simp: keeps_data_def value_at_def deref_def)
  have find: "cache_find H c' m' k' = M' k'" "cache_find H c m k' = Ms i k'" if "fst (locate H c k') = i" for k'
    using cache_find_map [OF rep, of k'] cache_find_map [OF assms(1), of k'] that loc' by simp_all
  show at_k: "cache_view H c' m' k = Some v"
  proof -
    have "p \<in> dom (m_heap m')" using dom' [of p] ranI [of M', OF s(2)] by blast
    from val [OF this] show ?thesis using find(1) [of k] assms(3) s(2) by (simp add: cache_view_def)
  qed
  show le: "cache_view H c' m' \<subseteq>\<^sub>m (cache_view H c m)(k \<mapsto> v)"
    unfolding map_le_def
  proof
    fix k' assume d: "k' \<in> dom (cache_view H c' m')"
    show "cache_view H c' m' k' = ((cache_view H c m)(k \<mapsto> v)) k'"
    proof (cases "k' = k \<or> fst (locate H c k') \<noteq> i")
      case True
      then show ?thesis
        using at_k cache_view_other_shard [OF assms(1) rep loc' _ frame, of k'] by auto
    next
      case False
      then obtain q where q: "M' k' = Some q" using d find(1) [of k'] by (auto simp: cache_view_def)
      have old: "Ms i k' = Some q" using s(4) False q by (metis domI fun_upd_other map_le_def)
      have "q \<noteq> p" using qcore_key [OF shard_coreD(1) [OF s(1)]] q s(2) False by blast
      moreover have "q \<in> dom (m_heap m')" using dom' [of q] ranI [of M', OF q] by blast
      ultimately show ?thesis using q old val find [of k'] False by (simp add: cache_view_def)
    qed
  qed
  show "sh_capacity (ca_shards c' ! 0) = sh_capacity (ca_shards c ! 0)"
    using s(12) i by (cases "i = 0") (simp_all add: c' on_shard_def)
  show "value_at (m_heap m') q = value_at (m_heap m) q" if "q \<in> dom (m_heap m)" "q \<in> dom (m_heap m')" for q
    using val [OF that(2)] that(1) s(3) by auto
  show "cache_view H c' m' = (cache_view H c m)(k \<mapsto> v) \<and> has_room H c' es" if "has_room H c ((k, v) # es)"
  proof
    have "fst (locate H c k) = i" using assms(3) by simp
    note hr = has_room_step [OF that this i]
    then show "has_room H c' es" using room s(12) unfolding c' by blast
    show "cache_view H c' m' = (cache_view H c m)(k \<mapsto> v)"
    proof (rule map_le_antisym [OF le])
      have M': "M' = (Ms i)(k \<mapsto> p)" using room hr(1) by blast
      have "k' \<in> dom (cache_view H c' m')" if "k' \<in> dom ((cache_view H c m)(k \<mapsto> v))" for k'
      proof (cases "k' = k \<or> fst (locate H c k') \<noteq> i")
        case True
        then show ?thesis using that at_k cache_view_other_shard [OF assms(1) rep loc' _ frame, of k'] by auto
      next
        case False
        then show ?thesis using that find [of k'] by (auto simp: cache_view_def M')
      qed
      then show "(cache_view H c m)(k \<mapsto> v) \<subseteq>\<^sub>m cache_view H c' m'" using le by (metis map_le_def)
    qed
  qed
  show "length (sl_mags (m_slab m')) = length (sl_mags (m_slab m))" by (rule s(11))
  show "ca_capacity c' = ca_capacity c \<and> length (ca_shards c') = length (ca_shards c)" by (simp add: c')
  show "value_at (m_heap m') q = value_at (m_heap m) q" if "0 < rd q" for q
  proof -
    have ext: "0 < ext_of rd (ca_shards c) Ms i q" using that by (simp add: ext_of_def)
    have "q \<in> dom (m_heap m')"
      using mem_ok_dom [OF qcoreD(2) [OF shard_coreD(1) [OF s(1)]], of q] ext by (simp add: hcount_def)
    moreover have "q \<in> dom (m_heap m)"
      using mem_ok_dom [OF qcoreD(2) [OF shard_coreD(1) [OF core(1)]], of q] ext by (simp add: hcount_def)
    then have "q \<noteq> p" using s(3) by auto
    ultimately show ?thesis using val by simp
  qed
qed

lemma cache_reader_dom:
  assumes "cache_rep H rd c m Ms" and "0 < rd q"
  shows "q \<in> dom (m_heap m)"
proof -
  have "0 < length (ca_shards c)" using cache_repD(1) [OF assms(1)] by (simp add: shape_ok_def)
  from mem_ok_dom [OF qcoreD(2) [OF shard_coreD(1) [OF cache_coreD(1) [OF cache_repD(5) [OF assms(1)] this]]], of q] assms(2)
  show ?thesis by (simp add: hcount_def ext_of_def)
qed

lemma del_on_spec:
  assumes "cache_rep H rd c m Ms" and "ev_tid ev < length (sl_mags (m_slab m))" and "locate H c k = (i, hash)"
    and "del_on ev i hash k (c, m) = (r, c', m')"
  shows "\<exists>M'. cache_rep H rd c' m' (Ms(i := M'))" and "cache_view H c' m' = (cache_view H c m)(k := None)"
    and "r \<noteq> None \<longleftrightarrow> k \<in> dom (cache_view H c m)" and "locate H c' k' = locate H c k'"
    and "sh_capacity (ca_shards c' ! 0) = sh_capacity (ca_shards c ! 0)"
    and "length (sl_mags (m_slab m')) = length (sl_mags (m_slab m))"
    and "ca_capacity c' = ca_capacity c \<and> length (ca_shards c') = length (ca_shards c)"
    and "\<And>q. 0 < rd q \<Longrightarrow> value_at (m_heap m') q = value_at (m_heap m) q"
    and "\<And>q. q \<in> dom (m_heap m') \<Longrightarrow> value_at (m_heap m') q = value_at (m_heap m) q"
proof -
  have i: "i < length (ca_shards c)" using locate_range [OF cache_repD(1) [OF assms(1)], of H k] assms(3) by simp
  have hash: "hash = H k" using assms(3) by (simp add: locate_def Let_def)
  let ?s = "ca_shards c ! i"
  obtain s' where del: "shard_del ev (H k) k (?s, m) = (r, s', m')" and c': "c' = on_shard i (\<lambda>_. s') c"
    using assms(4) hash by (auto simp: del_on_def split: prod.splits)
  note core = cache_coreD [OF cache_repD(5) [OF assms(1)] i]
  note d = shard_del_spec [OF core(1) del]
  let ?M = "(Ms i)(k := None)"
  have kd: "keeps_data (m_heap m) (m_heap m')" using d(3) by (rule changes_keeps)
  have frame: "m_heap m' q = m_heap m q" if "j < length (ca_shards c)" "j \<noteq> i" "q \<in> queued (ca_shards c ! j)" for j q
  proof -
    have "q \<notin> queued ?s" using queues_disjoint [OF assms(1) that(1) i that(3)] that(2) by blast
    then show ?thesis using d(3) by (simp add: changes_def)
  qed
  have st: "(mstep ev)\<^sup>*\<^sup>* m m'" using d(3) by (simp add: changes_def)
  note ao = msteps_alloc_ok [OF st cache_repD(2) [OF assms(1)] assms(2)]
  then show "length (sl_mags (m_slab m')) = length (sl_mags (m_slab m))" by blast
  have dom': "q \<in> dom (m_heap m')" if "q \<in> queued s' \<union> ran ?M" for q
    using qcore_dom [OF shard_coreD(1) [OF d(1)] that] .
  have rep: "cache_rep H rd c' m' (Ms(i := ?M))"
    unfolding c' using assms(1) i ao [THEN conjunct1] d(1)
  proof (rule cache_rep_step)
    show "within_budget s'" using d(4,6,7) cache_repD(3) [OF assms(1) nth_mem [OF i]] by (auto simp: within_budget_def)
    show "fst (locate H c (key_at (m_heap m') q)) = i" if "q \<in> queued s'" for q
    proof -
      have "key_at (m_heap m') q = key_at (m_heap m) q" using kd dom' that unfolding keeps_data_def by blast
      moreover have "q \<in> queued ?s" using that d(9) by blast
      ultimately show ?thesis using core(2) by simp
    qed
  qed (use d(4) frame in simp_all)
  then show "\<exists>M'. cache_rep H rd c' m' (Ms(i := M'))" by blast
  show loc': "\<And>k'. locate H c' k' = locate H c k'" by (simp add: c')
  have find: "cache_find H c' m' k' = ?M k'" "cache_find H c m k' = Ms i k'" if "fst (locate H c k') = i" for k'
    using cache_find_map [OF rep, of k'] cache_find_map [OF assms(1), of k'] that loc' by simp_all
  show "r \<noteq> None \<longleftrightarrow> k \<in> dom (cache_view H c m)" using d(2) find(2) [of k] assms(3) by (auto simp: cache_view_def)
  show "cache_view H c' m' = (cache_view H c m)(k := None)"
  proof
    fix k'
    show "cache_view H c' m' k' = ((cache_view H c m)(k := None)) k'"
    proof (cases "fst (locate H c k') = i")
      case False
      moreover from False have "k' \<noteq> k" using assms(3) by auto
      ultimately show ?thesis using cache_view_other_shard [OF assms(1) rep loc' _ frame, of k'] by simp
    next
      case True
      show ?thesis
      proof (cases "?M k'")
        case (Some q)
        then have "q \<in> dom (m_heap m')" using dom' [of q] ranI [of ?M, OF Some] by blast
        then have "value_at (m_heap m') q = value_at (m_heap m) q" using kd by (simp add: keeps_data_def)
        then show ?thesis using Some find [OF True] by (auto simp: cache_view_def split: if_splits)
      qed (use find [OF True] in \<open>auto simp: cache_view_def split: if_splits\<close>)
    qed
  qed
  show "sh_capacity (ca_shards c' ! 0) = sh_capacity (ca_shards c ! 0)"
    using d(4) i by (cases "i = 0") (simp_all add: c' on_shard_def)
  show "ca_capacity c' = ca_capacity c \<and> length (ca_shards c') = length (ca_shards c)" by (simp add: c')
  show val: "value_at (m_heap m') q = value_at (m_heap m) q" if "q \<in> dom (m_heap m')" for q
    using that kd by (simp add: keeps_data_def)
  show "value_at (m_heap m') q = value_at (m_heap m) q" if "0 < rd q" for q
    using val cache_reader_dom [OF rep that] .
qed

text \<open>
  Changes of the memory alone: a reader's touch, the collector dropping a handle, a reader
  taking or dropping one. The keys and their values stay.
\<close>

lemma cache_mem_step:
  assumes "cache_rep H rd c m Ms" and "alloc_ok m'"
    and "\<And>i. i < length (ca_shards c) \<Longrightarrow>
      mem_ok m' (hcount (ext_of rd' (ca_shards c) Ms i) (queued (ca_shards c ! i)) m' (Ms i))"
    and "keeps_data (m_heap m) (m_heap m')"
    and "\<And>q. q \<in> dom (m_heap m') \<Longrightarrow> live_at (m_heap m') q = live_at (m_heap m) q"
  shows "cache_rep H rd' c m' Ms" and "cache_view H c m' = cache_view H c m"
proof -
  have n: "0 < length (ca_shards c)" using cache_repD(1) [OF assms(1)] by (simp add: shape_ok_def)
  have dom': "q \<in> dom (m_heap m')" if "i < length (ca_shards c)" "q \<in> queued (ca_shards c ! i) \<union> ran (Ms i)" for i q
    using mem_ok_dom [OF assms(3) [OF that(1)], of q] that(2) by (auto simp: hcount_def)
  have "shard_core H (ext_of rd' (ca_shards c) Ms i) {} (ca_shards c ! i) m' (Ms i) \<and>
      (\<forall>p \<in> queued (ca_shards c ! i). fst (locate H c (key_at (m_heap m') p)) = i)" if i: "i < length (ca_shards c)" for i
  proof
    note core = cache_coreD [OF cache_repD(5) [OF assms(1)] i]
    show "shard_core H (ext_of rd' (ca_shards c) Ms i) {} (ca_shards c ! i) m' (Ms i)"
      using core(1) assms(3) [OF i]
    proof (rule shard_core_frame)
      fix q assume "q \<in> queued (ca_shards c ! i) \<union> ran (Ms i)"
      then have "q \<in> dom (m_heap m')" by (rule dom' [OF i])
      then show "key_at (m_heap m') q = key_at (m_heap m) q \<and> hash_at (m_heap m') q = hash_at (m_heap m) q \<and>
          value_at (m_heap m') q = value_at (m_heap m) q \<and> live_at (m_heap m') q = live_at (m_heap m) q"
        using assms(4,5) by (simp add: keeps_data_def)
    qed
    show "\<forall>p \<in> queued (ca_shards c ! i). fst (locate H c (key_at (m_heap m') p)) = i"
    proof
      fix p assume p: "p \<in> queued (ca_shards c ! i)"
      then have "p \<in> dom (m_heap m')" using dom' [OF i] by blast
      then have "key_at (m_heap m') p = key_at (m_heap m) p" using assms(4) by (simp add: keeps_data_def)
      with core(2) [OF p] show "fst (locate H c (key_at (m_heap m') p)) = i" by simp
    qed
  qed
  then show rep: "cache_rep H rd' c m' Ms"
    using cache_repD(1,3,4) [OF assms(1)] assms(2) by (simp add: cache_rep_def cache_core_def)
  show "cache_view H c m' = cache_view H c m"
  proof
    fix k
    let ?i = "fst (locate H c k)"
    have i: "?i < length (ca_shards c)" by (rule locate_range [OF cache_repD(1) [OF assms(1)]])
    have "value_at (m_heap m') p = value_at (m_heap m) p" if "Ms ?i k = Some p" for p
    proof -
      have "p \<in> dom (m_heap m')" using dom' [OF i] ranI [of "Ms ?i", OF that] by blast
      then show ?thesis using assms(4) by (simp add: keeps_data_def)
    qed
    then show "cache_view H c m' k = cache_view H c m k"
      using cache_find_map [OF rep, of k] cache_find_map [OF assms(1), of k] by (cases "Ms ?i k") (simp_all add: cache_view_def)
  qed
qed

lemma cache_mem_ok:
  assumes "cache_rep H rd c m Ms" and "i < length (ca_shards c)"
  shows "mem_ok m (hcount (ext_of rd (ca_shards c) Ms i) (queued (ca_shards c ! i)) m (Ms i))"
  by (rule qcoreD(2) [OF shard_coreD(1) [OF cache_coreD(1) [OF cache_repD(5) [OF assms(1)] assms(2)]]])

lemma cache_touch:
  assumes "cache_rep H rd c m Ms" and "p \<in> dom (m_heap m)"
  shows "cache_rep H rd c (touch p m) Ms" and "cache_view H c (touch p m) = cache_view H c m"
    and "length (sl_mags (m_slab (touch p m))) = length (sl_mags (m_slab m))"
    and "value_at (m_heap (touch p m)) q = value_at (m_heap m) q"
proof -
  have st: "cache_rep H rd c (set_freq p f m) Ms \<and> cache_view H c (set_freq p f m) = cache_view H c m" for f
  proof -
    have al: "alloc_ok (set_freq p f m)"
      using assms(2) by (intro alloc_ok_atomic [OF cache_repD(2) [OF assms(1)], of p]) (simp_all add: set_freq_def)
    have ok: "mem_ok (set_freq p f m) (hcount (ext_of rd (ca_shards c) Ms i) (queued (ca_shards c ! i)) (set_freq p f m) (Ms i))"
      if "i < length (ca_shards c)" for i
    proof -
      note mo = cache_mem_ok [OF assms(1) that]
      have "hcount (ext_of rd (ca_shards c) Ms i) (queued (ca_shards c ! i)) (set_freq p f m) (Ms i) =
          hcount (ext_of rd (ca_shards c) Ms i) (queued (ca_shards c ! i)) m (Ms i)" by (simp add: hcount_def fun_eq_iff)
      then show ?thesis using atomics_mem_ok(2) [OF mo] mem_ok_dom [OF mo] assms(2) by simp
    qed
    from cache_mem_step [OF assms(1) al ok atomics_keep(2) [OF assms(2)]] show ?thesis by simp
  qed
  then show "cache_rep H rd c (touch p m) Ms" "cache_view H c (touch p m) = cache_view H c m"
    using assms(1) by (simp_all add: touch_def Let_def)
  show "length (sl_mags (m_slab (touch p m))) = length (sl_mags (m_slab m))"
    "value_at (m_heap (touch p m)) q = value_at (m_heap m) q"
    by (simp_all add: touch_def Let_def set_freq_def entry_fields)
qed

lemma cache_reclaim:
  assumes "cache_rep H rd c m Ms" and "p \<in> set (m_retired m)" and "ev_tid ev < length (sl_mags (m_slab m))"
  shows "cache_rep H rd c (reclaim ev p m) Ms" and "cache_view H c (reclaim ev p m) = cache_view H c m"
    and "length (sl_mags (m_slab (reclaim ev p m))) = length (sl_mags (m_slab m))"
    and "0 < rd q \<Longrightarrow> value_at (m_heap (reclaim ev p m)) q = value_at (m_heap m) q"
proof -
  let ?m1 = "m\<lparr>m_retired := remove1 p (m_retired m)\<rparr>"
  let ?m = "entry_drop ev p ?m1"
  have r: "reclaim ev p m = ?m" by (simp add: reclaim_def)
  let ?hc = "\<lambda>i m. hcount (ext_of rd (ca_shards c) Ms i) (queued (ca_shards c ! i)) m (Ms i)"
  have ok: "mem_ok ?m (?hc i ?m)" if "i < length (ca_shards c)" for i
  proof -
    have pos: "0 < ?hc i m p" using assms(2) by (simp add: hcount_def)
    have "mem_ok ?m1 (?hc i m)" using cache_mem_ok [OF assms(1) that] by (simp add: mem_ok_def)
    then have "mem_ok ?m ((?hc i m)(p := ?hc i m p - 1))" using pos by (rule entry_drop_mem_ok)
    moreover have "(?hc i m)(p := ?hc i m p - 1) = ?hc i ?m"
      using assms(2) by (auto simp: hcount_def entry_drop_heap fun_eq_iff)
    ultimately show ?thesis by simp
  qed
  have n: "0 < length (ca_shards c)" using cache_repD(1) [OF assms(1)] by (simp add: shape_ok_def)
  have pd: "p \<in> dom (m_heap ?m1)" using mem_ok_dom [OF cache_mem_ok [OF assms(1) n], of p] assms(2) by (simp add: hcount_def)
  have "alloc_ok ?m1" using cache_repD(2) [OF assms(1)] by (simp add: alloc_ok_def)
  then have al: "alloc_ok ?m" "length (sl_mags (m_slab ?m)) = length (sl_mags (m_slab m))"
    using alloc_ok_drop [of ?m1 ev p] pd assms(3) by simp_all
  have kd: "keeps_data (m_heap m) (m_heap ?m)" using entry_drop_keeps [OF pd, of ev] by simp
  note s = cache_mem_step [OF assms(1) al(1) ok kd]
  show rep: "cache_rep H rd c (reclaim ev p m) Ms" "cache_view H c (reclaim ev p m) = cache_view H c m"
    unfolding r using s entry_drop_fields(5) [of _ ev p ?m1] by simp_all
  show "length (sl_mags (m_slab (reclaim ev p m))) = length (sl_mags (m_slab m))" unfolding r by (rule al)
  show "value_at (m_heap (reclaim ev p m)) q = value_at (m_heap m) q" if "0 < rd q"
    using cache_reader_dom [OF rep(1) that] kd by (simp add: r keeps_data_def)
qed

lemma ext_of_reader: "ext_of (rd(p := x)) ss Ms i = (ext_of rd ss Ms i)(p := ext_of rd ss Ms i p - rd p + x)"
  by (auto simp: ext_of_def fun_eq_iff)

lemma cache_reader_clone:
  assumes "cache_rep H rd c m Ms" and "p \<in> dom (m_heap m)"
  shows "cache_rep H (rd(p := rd p + 1)) c (entry_clone p m) Ms" and "cache_view H c (entry_clone p m) = cache_view H c m"
    and "length (sl_mags (m_slab (entry_clone p m))) = length (sl_mags (m_slab m))"
proof -
  let ?m = "entry_clone p m"
  have ok: "mem_ok ?m (hcount (ext_of (rd(p := rd p + 1)) (ca_shards c) Ms i) (queued (ca_shards c ! i)) ?m (Ms i))"
    if "i < length (ca_shards c)" for i
  proof -
    let ?hc = "hcount (ext_of rd (ca_shards c) Ms i) (queued (ca_shards c ! i)) m (Ms i)"
    note mo = cache_mem_ok [OF assms(1) that]
    have "hcount (ext_of (rd(p := rd p + 1)) (ca_shards c) Ms i) (queued (ca_shards c ! i)) ?m (Ms i) = ?hc(p := ?hc p + 1)"
      by (auto simp: hcount_def ext_of_def fun_eq_iff)
    then show ?thesis using atomics_mem_ok(3) [OF mo] mem_ok_dom [OF mo] assms(2) by simp
  qed
  have al: "alloc_ok ?m"
    using assms(2) by (intro alloc_ok_atomic [OF cache_repD(2) [OF assms(1)], of p]) (simp_all add: entry_clone_def)
  from cache_mem_step [OF assms(1) al ok atomics_keep(3) [OF assms(2)]]
  show "cache_rep H (rd(p := rd p + 1)) c ?m Ms" "cache_view H c ?m = cache_view H c m" by simp_all
  show "length (sl_mags (m_slab ?m)) = length (sl_mags (m_slab m))" by (simp add: entry_clone_def)
qed

lemma cache_reader_drop:
  assumes "cache_rep H rd c m Ms" and "0 < rd p" and "ev_tid ev < length (sl_mags (m_slab m))"
  shows "cache_rep H (rd(p := rd p - 1)) c (entry_drop ev p m) Ms" and "cache_view H c (entry_drop ev p m) = cache_view H c m"
    and "length (sl_mags (m_slab (entry_drop ev p m))) = length (sl_mags (m_slab m))"
    and "0 < (rd(p := rd p - 1)) q \<Longrightarrow> value_at (m_heap (entry_drop ev p m)) q = value_at (m_heap m) q"
proof -
  let ?m = "entry_drop ev p m" and ?rd = "rd(p := rd p - 1)"
  have pd: "p \<in> dom (m_heap m)" by (rule cache_reader_dom [OF assms(1,2)])
  have ok: "mem_ok ?m (hcount (ext_of ?rd (ca_shards c) Ms i) (queued (ca_shards c ! i)) ?m (Ms i))"
    if "i < length (ca_shards c)" for i
  proof -
    let ?hc = "hcount (ext_of rd (ca_shards c) Ms i) (queued (ca_shards c ! i)) m (Ms i)"
    note mo = cache_mem_ok [OF assms(1) that]
    have "hcount (ext_of ?rd (ca_shards c) Ms i) (queued (ca_shards c ! i)) ?m (Ms i) = ?hc(p := ?hc p - 1)"
      using assms(2) by (auto simp: hcount_def ext_of_def entry_drop_heap fun_eq_iff)
    then show ?thesis using entry_drop_mem_ok [OF mo, of p ev] mem_ok_dom [OF mo] pd by simp
  qed
  note al = alloc_ok_drop [OF cache_repD(2) [OF assms(1)] assms(3) pd]
  note s = cache_mem_step [OF assms(1) al(1) ok entry_drop_keeps [OF pd]]
  show rep: "cache_rep H ?rd c ?m Ms" "cache_view H c ?m = cache_view H c m"
    using s entry_drop_fields(5) [of _ ev p m] by simp_all
  show "length (sl_mags (m_slab ?m)) = length (sl_mags (m_slab m))" by (rule al)
  show "value_at (m_heap ?m) q = value_at (m_heap m) q" if "0 < ?rd q"
    using cache_reader_dom [OF rep(1) that] entry_drop_keeps [OF pd, of ev] by (simp add: keeps_data_def)
qed

section \<open>Batches\<close>

definition cache_inv :: "(bytes \<Rightarrow> u64) \<Rightarrow> (nat \<Rightarrow> nat) \<Rightarrow> world \<Rightarrow> cache \<times> memory \<Rightarrow> bool" where
  "cache_inv H rd W cm \<longleftrightarrow> (\<exists>Ms. cache_rep H rd (fst cm) (snd cm) Ms) \<and> world_ok W (snd cm)"

abbreviation view_of :: "(bytes \<Rightarrow> u64) \<Rightarrow> cache \<times> memory \<Rightarrow> bytes \<rightharpoonup> bytes" where
  "view_of H cm \<equiv> cache_view H (fst cm) (snd cm)"

text \<open>What the entries readers hold show, before and after.\<close>

definition readers_see :: "(nat \<Rightarrow> nat) \<Rightarrow> memory \<Rightarrow> memory \<Rightarrow> bool" where
  "readers_see rd m m' \<longleftrightarrow> (\<forall>q. 0 < rd q \<longrightarrow> value_at (m_heap m') q = value_at (m_heap m) q)"

lemma readers_see_refl [simp]: "readers_see rd m m"
  by (simp add: readers_see_def)

lemma readers_see_trans [trans]: "readers_see rd m m' \<Longrightarrow> readers_see rd m' m'' \<Longrightarrow> readers_see rd m m''"
  by (simp add: readers_see_def)

lemma cache_view_count:
  "cache_view H (on_shard i (count_gets a b) c) m = cache_view H c m"
  "cache_view H (on_shard i (count_dels a b) c) m = cache_view H c m"
proof -
  have st: "shard_get (ca_shards (on_shard i f c) ! j) = shard_get (ca_shards c ! j)"
    if "\<And>s. shard_get (f s) = shard_get s" for f j
    using that by (cases "i < length (ca_shards c)"; cases "j = i") (simp_all add: on_shard_def list_update_beyond)
  show "cache_view H (on_shard i (count_gets a b) c) m = cache_view H c m"
    "cache_view H (on_shard i (count_dels a b) c) m = cache_view H c m"
    by (rule ext, simp add: cache_view_def cache_find_def st)+
qed

abbreviation located :: "(bytes \<Rightarrow> u64) \<Rightarrow> cache \<Rightarrow> bytes \<Rightarrow> nat \<times> u64 \<times> bytes" where
  "located H c k \<equiv> (let (i, hash) = locate H c k in (i, hash, k))"

lemma find_all_spec:
  assumes "cache_rep H rd c m Ms" and "find_all (ca_shards c) (map (located H c) keys) m = (hits, found, m')"
  shows "cache_rep H rd c m' Ms \<and> cache_view H c m' = cache_view H c m \<and>
    length (sl_mags (m_slab m')) = length (sl_mags (m_slab m)) \<and> found = map (cache_find H c m) keys \<and>
    (\<forall>q. value_at (m_heap m') q = value_at (m_heap m) q) \<and> hits = length (filter (\<lambda>e. e \<noteq> None) found)"
  using assms
proof (induction keys arbitrary: m hits found m')
  case (Cons k keys)
  obtain i hash where l: "locate H c k = (i, hash)" by fastforce
  define e where "e = shard_get (ca_shards c ! i) m hash k"
  define m1 where "m1 = (case e of Some p \<Rightarrow> touch p m | None \<Rightarrow> m)"
  obtain h2 f2 m2 where r: "find_all (ca_shards c) (map (located H c) keys) m1 = (h2, f2, m2)" by (rule prod_cases3)
  have eq: "hits = (if e = None then h2 else h2 + 1)" "found = e # f2" "m' = m2"
    using Cons.prems(2) l r by (simp_all add: e_def m1_def Let_def)
  have e: "e = cache_find H c m k" by (simp add: e_def cache_find_def l)
  have 1: "cache_rep H rd c m1 Ms \<and> cache_view H c m1 = cache_view H c m \<and>
      length (sl_mags (m_slab m1)) = length (sl_mags (m_slab m)) \<and> (\<forall>q. value_at (m_heap m1) q = value_at (m_heap m) q)"
  proof (cases e)
    case (Some p)
    then have "Ms (fst (locate H c k)) k = Some p" using e cache_find_map [OF Cons.prems(1)] by simp
    then have "p \<in> ran (Ms (fst (locate H c k)))" by (rule ranI)
    then have "p \<in> dom (m_heap m)"
      using cache_entry_dom [OF Cons.prems(1) locate_range [OF cache_repD(1) [OF Cons.prems(1)]]] by blast
    from cache_touch [OF Cons.prems(1) this] Some show ?thesis by (simp add: m1_def)
  qed (use Cons.prems(1) in \<open>simp add: m1_def\<close>)
  have "cache_find H c m1 = cache_find H c m"
    using cache_find_map [OF Cons.prems(1)] cache_find_map [of H rd c m1 Ms] 1 by (simp add: fun_eq_iff)
  with Cons.IH [OF _ r] 1 show ?case by (auto simp: eq e)
qed simp

lemma get_many_spec:
  assumes "cache_inv H rd W cm" and "get_many H keys cm = (found, cm')"
  shows "cache_inv H rd W cm'" and "view_of H cm' = view_of H cm" and "readers_see rd (snd cm) (snd cm')"
    and "map (map_option (value_at (m_heap (snd cm')))) found = map (view_of H cm) keys"
    and "found = map (cache_find H (fst cm) (snd cm)) keys"
proof -
  obtain c m where cm: "cm = (c, m)" by fastforce
  obtain Ms where rep: "cache_rep H rd c m Ms" and w: "world_ok W m" using assms(1) by (auto simp: cache_inv_def cm)
  obtain hits f m1 where fa: "find_all (ca_shards c) (map (located H c) keys) m = (hits, f, m1)" by (rule prod_cases3)
  note s = find_all_spec [OF rep fa]
  define c1 where "c1 = (case map (located H c) keys of [] \<Rightarrow> c
      | (i, _, _) # _ \<Rightarrow> on_shard i (count_gets hits (length f - hits)) c)"
  have eq: "found = f" "cm' = (c1, m1)"
    using assms(2) unfolding cm get_many_def prod.case Let_def fa [unfolded Let_def] c1_def by simp_all
  have "cache_rep H rd c1 m1 Ms \<and> cache_view H c1 m1 = cache_view H c m1"
  proof (cases keys)
    case (Cons k ks)
    have "fst (locate H c k) < length (ca_shards c)" by (rule locate_range [OF cache_repD(1) [OF rep]])
    then show ?thesis using cache_rep_count(1) s
      by (simp add: c1_def Cons case_prod_unfold cache_view_count Let_def)
  qed (use s in \<open>simp add: c1_def\<close>)
  then show "cache_inv H rd W cm'" "view_of H cm' = view_of H cm"
    using s world_ok_mags [OF w, of m1] by (auto simp: cache_inv_def eq cm)
  show "readers_see rd (snd cm) (snd cm')" using s by (simp add: readers_see_def eq cm)
  show f: "found = map (cache_find H (fst cm) (snd cm)) keys" using s by (simp add: eq cm)
  show "map (map_option (value_at (m_heap (snd cm')))) found = map (view_of H cm) keys"
  proof -
    have "value_at (m_heap m1) = value_at (m_heap m)" using s by (simp add: fun_eq_iff)
    then show ?thesis unfolding f by (simp add: eq cm cache_view_def)
  qed
qed

text \<open>The reference: a map that forgets nothing.\<close>

definition ref_sets :: "(bytes \<times> bytes) list \<Rightarrow> (bytes \<rightharpoonup> bytes) \<Rightarrow> (bytes \<rightharpoonup> bytes)" where
  "ref_sets es R = fold (\<lambda>(k, v) R. R(k \<mapsto> v)) es R"

definition ref_dels :: "bytes list \<Rightarrow> (bytes \<rightharpoonup> bytes) \<Rightarrow> (bytes \<rightharpoonup> bytes)" where
  "ref_dels ks R = fold (\<lambda>k R. R(k := None)) ks R"

fun del_answers :: "bytes list \<Rightarrow> (bytes \<rightharpoonup> bytes) \<Rightarrow> bool list" where
  "del_answers [] R = []"
| "del_answers (k # ks) R = (k \<in> dom R) # del_answers ks (R(k := None))"

lemma ref_simps [simp]:
  "ref_sets [] R = R" "ref_sets ((k, v) # es) R = ref_sets es (R(k \<mapsto> v))"
  "ref_dels [] R = R" "ref_dels (k # ks) R = ref_dels ks (R(k := None))"
  by (simp_all add: ref_sets_def ref_dels_def)

lemma ref_sets_mono: "R \<subseteq>\<^sub>m R' \<Longrightarrow> ref_sets es R \<subseteq>\<^sub>m ref_sets es R'"
proof (induction es arbitrary: R R')
  case (Cons e es)
  obtain k v where e: "e = (k, v)" by fastforce
  have "R(k \<mapsto> v) \<subseteq>\<^sub>m R'(k \<mapsto> v)" using Cons.prems by (auto simp: map_le_def)
  then have "ref_sets es (R(k \<mapsto> v)) \<subseteq>\<^sub>m ref_sets es (R'(k \<mapsto> v))" by (rule Cons.IH)
  then show ?case by (simp only: e ref_simps)
qed simp

lemma ref_dels_mono: "R \<subseteq>\<^sub>m R' \<Longrightarrow> ref_dels ks R \<subseteq>\<^sub>m ref_dels ks R'"
proof (induction ks arbitrary: R R')
  case (Cons k ks)
  have "R(k := None) \<subseteq>\<^sub>m R'(k := None)" using Cons.prems by (auto simp: map_le_def)
  then have "ref_dels ks (R(k := None)) \<subseteq>\<^sub>m ref_dels ks (R'(k := None))" by (rule Cons.IH)
  then show ?case by (simp only: ref_simps)
qed simp

abbreviation fits :: "cache \<Rightarrow> bytes \<times> bytes \<Rightarrow> bool" where
  "fits c e \<equiv> check_fits (ca_shards c ! 0) (fst e) (snd e) = Inr ()"

lemma fits_cong: "sh_capacity (ca_shards c' ! 0) = sh_capacity (ca_shards c ! 0) \<Longrightarrow> fits c' e = fits c e"
  by (simp add: check_fits_def Let_def)

abbreviation located_set :: "(bytes \<Rightarrow> u64) \<Rightarrow> cache \<Rightarrow> bytes \<times> bytes \<Rightarrow> nat \<times> u64 \<times> bytes \<times> bytes" where
  "located_set H c e \<equiv> (fst (locate H c (fst e)), snd (locate H c (fst e)), fst e, snd e)"

text \<open>Entries stored one after the other, each by a \<open>set\<close> of its own that succeeds.\<close>

fun sets_in_turn :: "(bytes \<Rightarrow> u64) \<Rightarrow> world \<Rightarrow> (bytes \<times> bytes) list \<Rightarrow> cache \<times> memory \<Rightarrow> (cache \<times> memory) option" where
  "sets_in_turn H W [] cm = Some cm"
| "sets_in_turn H W ((k, v) # es) cm =
     (case cache_set H W k v cm (0, 0) of
        Some (Inr _, cm1, _) \<Rightarrow> sets_in_turn H W es cm1
      | _ \<Rightarrow> None)"

lemma cache_set_single:
  assumes "check_fits (ca_shards c ! 0) k v = Inr ()" and "locate H c k = (i, hash)" and "set_on W i hash k v (c, m) = Some (r, c1, m1)"
  shows "\<exists>b pend'. cache_set H W k v (c, m) pend = Some (Inr b, (c1, m1), pend')"
  using assms by (simp add: cache_set_def set_many_def Let_def split: prod.split)

lemma set_all_spec:
  assumes "cache_inv H rd W (c, m)" and "list_all (fits c) es"
    and "set_all W (map (located_set H c) es) ret (c, m) = Some (ret', c', m')"
  shows "cache_inv H rd W (c', m') \<and> cache_view H c' m' \<subseteq>\<^sub>m ref_sets es (cache_view H c m) \<and>
    (es \<noteq> [] \<longrightarrow> cache_view H c' m' (fst (last es)) = Some (snd (last es))) \<and> readers_see rd m m' \<and>
    locate H c' = locate H c \<and> sh_capacity (ca_shards c' ! 0) = sh_capacity (ca_shards c ! 0) \<and>
    sets_in_turn H W es (c, m) = Some (c', m') \<and>
    (has_room H c es \<longrightarrow> cache_view H c' m' = ref_sets es (cache_view H c m))"
  using assms
proof (induction es arbitrary: c m ret)
  case (Cons e es)
  obtain k v where e: "e = (k, v)" by fastforce
  obtain i hash where l: "locate H c k = (i, hash)" by fastforce
  obtain r c1 m1 where s1: "set_on W i hash k v (c, m) = Some (r, c1, m1)"
    and rest: "set_all W (map (located_set H c) es) (retired_add ret r) (c1, m1) = Some (ret', c', m')"
    using Cons.prems(3) l by (auto simp: e split: option.splits)
  obtain Ms where rep: "cache_rep H rd c m Ms" and w: "world_ok W m" using Cons.prems(1) by (auto simp: cache_inv_def)
  have fit: "check_fits (ca_shards c ! 0) k v = Inr ()" using Cons.prems(2) by (simp add: e)
  note s = set_on_spec [OF rep w l fit s1]
  have inv1: "cache_inv H rd W (c1, m1)" using s(1) world_ok_mags [OF w s(6)] by (auto simp: cache_inv_def)
  have loc: "locate H c1 = locate H c" using s(4) by (simp add: fun_eq_iff)
  have "list_all (fits c1) es" using Cons.prems(2) fits_cong [OF s(5)] by (simp add: list_all_iff)
  moreover have "set_all W (map (located_set H c1) es) (retired_add ret r) (c1, m1) = Some (ret', c', m')"
    using rest by (simp add: loc)
  ultimately have IH: "cache_inv H rd W (c', m')" "cache_view H c' m' \<subseteq>\<^sub>m ref_sets es (cache_view H c1 m1)"
      "es \<noteq> [] \<longrightarrow> cache_view H c' m' (fst (last es)) = Some (snd (last es))" "readers_see rd m1 m'"
      "locate H c' = locate H c1" "sh_capacity (ca_shards c' ! 0) = sh_capacity (ca_shards c1 ! 0)"
      "sets_in_turn H W es (c1, m1) = Some (c', m')" "has_room H c1 es \<longrightarrow> cache_view H c' m' = ref_sets es (cache_view H c1 m1)"
    using Cons.IH [OF inv1] by blast+
  have "sets_in_turn H W (e # es) (c, m) = Some (c', m')" using IH(7) cache_set_single [OF fit l s1, of "(0, 0)"] by (auto simp: e)
  moreover have "has_room H c (e # es) \<longrightarrow> cache_view H c' m' = ref_sets (e # es) (cache_view H c m)"
    using s(9) [of es] IH(8) by (simp add: e)
  moreover
  have sub: "cache_view H c' m' \<subseteq>\<^sub>m ref_sets (e # es) (cache_view H c m)"
    using map_le_trans [OF IH(2) ref_sets_mono [OF s(3)]] by (simp only: e ref_simps)
  have "es = [] \<Longrightarrow> cache_view H c' m' k = Some v" using rest s(2) by auto
  moreover have "readers_see rd m m'" using s(8) readers_see_trans [OF _ IH(4)] by (simp add: readers_see_def)
  ultimately show ?case using IH(1,3,5,6) sub loc s(5) by (auto simp: e)
qed simp

lemma locate_sets_Inr:
  "locate_sets H c es = Inr l \<longleftrightarrow> list_all (fits c) es \<and> l = map (located_set H c) es"
proof (induction es arbitrary: l)
  case (Cons e es)
  obtain k v where e: "e = (k, v)" by fastforce
  show ?case
  proof (cases "locate_sets H c es")
    case (Inl x)
    then have "\<not> list_all (fits c) es" using Cons.IH by force
    then show ?thesis using Inl by (auto simp: e case_prod_unfold Let_def split: sum.splits)
  next
    case (Inr l')
    then have "list_all (fits c) es" "l' = map (located_set H c) es" using Cons.IH by blast+
    then show ?thesis using Inr by (cases "check_fits (ca_shards c ! 0) k v") (auto simp: e case_prod_unfold Let_def)
  qed
qed auto

lemma locate_sets_Inl:
  "locate_sets H c es = Inl x \<Longrightarrow>
   \<exists>e. find (\<lambda>e. \<not> fits c e) es = Some e \<and> check_fits (ca_shards c ! 0) (fst e) (snd e) = Inl x"
proof (induction es)
  case (Cons e es)
  obtain k v where e: "e = (k, v)" by fastforce
  show ?case
  proof (cases "check_fits (ca_shards c ! 0) k v")
    case (Inl y)
    with Cons.prems show ?thesis by (simp add: e)
  next
    case (Inr y)
    with Cons.prems have "locate_sets H c es = Inl x"
      by (simp add: e case_prod_unfold Let_def split: sum.splits)
    with Cons.IH Inr show ?thesis by (simp add: e)
  qed
qed simp

lemma set_many_spec:
  assumes "cache_inv H rd W cm" and "set_many H W es cm pend = Some (res, cm', pend')"
  shows "case res of
      Inl x \<Rightarrow> cm' = cm \<and> pend' = pend \<and> (\<exists>e. find (\<lambda>e. \<not> fits (fst cm) e) es = Some e \<and>
        check_fits (ca_shards (fst cm) ! 0) (fst e) (snd e) = Inl x)
    | Inr _ \<Rightarrow> list_all (fits (fst cm)) es \<and> view_of H cm' \<subseteq>\<^sub>m ref_sets es (view_of H cm) \<and>
        (es \<noteq> [] \<longrightarrow> view_of H cm' (fst (last es)) = Some (snd (last es))) \<and> sets_in_turn H W es cm = Some cm' \<and>
        (has_room H (fst cm) es \<longrightarrow> view_of H cm' = ref_sets es (view_of H cm))"
    and "cache_inv H rd W cm'" and "readers_see rd (snd cm) (snd cm')"
    and "sh_capacity (ca_shards (fst cm') ! 0) = sh_capacity (ca_shards (fst cm) ! 0)"
proof -
  obtain c m where cm: "cm = (c, m)" by fastforce
  have "(case res of
      Inl x \<Rightarrow> cm' = cm \<and> pend' = pend \<and> (\<exists>e. find (\<lambda>e. \<not> fits (fst cm) e) es = Some e \<and>
        check_fits (ca_shards (fst cm) ! 0) (fst e) (snd e) = Inl x)
    | Inr _ \<Rightarrow> list_all (fits (fst cm)) es \<and> view_of H cm' \<subseteq>\<^sub>m ref_sets es (view_of H cm) \<and>
        (es \<noteq> [] \<longrightarrow> view_of H cm' (fst (last es)) = Some (snd (last es))) \<and> sets_in_turn H W es cm = Some cm' \<and>
        (has_room H (fst cm) es \<longrightarrow> view_of H cm' = ref_sets es (view_of H cm))) \<and>
    cache_inv H rd W cm' \<and> readers_see rd (snd cm) (snd cm') \<and>
    sh_capacity (ca_shards (fst cm') ! 0) = sh_capacity (ca_shards (fst cm) ! 0)"
  proof (cases "locate_sets H c es")
    case (Inl x)
    then have "res = Inl x" "cm' = cm" "pend' = pend" using assms(2) by (simp_all add: set_many_def cm)
    with locate_sets_Inl [OF Inl] assms(1) show ?thesis by (simp add: cm)
  next
    case (Inr l)
    then have l: "list_all (fits c) es" "l = map (located_set H c) es" by (simp_all only: locate_sets_Inr)
    obtain ret c' m' where sa: "set_all W (map (located_set H c) es) retired_zero (c, m) = Some (ret, c', m')"
      and e: "cm' = (c', m')" "\<exists>b. res = Inr b"
      using assms(2) Inr unfolding l(2) by (auto simp: set_many_def cm split: option.splits prod.splits)
    from set_all_spec [OF assms(1) [unfolded cm] l(1) sa] l(1) e(1) show ?thesis using e(2) by (elim exE) (simp add: cm)
  qed
  then show "case res of
      Inl x \<Rightarrow> cm' = cm \<and> pend' = pend \<and> (\<exists>e. find (\<lambda>e. \<not> fits (fst cm) e) es = Some e \<and>
        check_fits (ca_shards (fst cm) ! 0) (fst e) (snd e) = Inl x)
    | Inr _ \<Rightarrow> list_all (fits (fst cm)) es \<and> view_of H cm' \<subseteq>\<^sub>m ref_sets es (view_of H cm) \<and>
        (es \<noteq> [] \<longrightarrow> view_of H cm' (fst (last es)) = Some (snd (last es))) \<and> sets_in_turn H W es cm = Some cm' \<and>
        (has_room H (fst cm) es \<longrightarrow> view_of H cm' = ref_sets es (view_of H cm))"
    "cache_inv H rd W cm'" "readers_see rd (snd cm) (snd cm')"
    "sh_capacity (ca_shards (fst cm') ! 0) = sh_capacity (ca_shards (fst cm) ! 0)" by blast+
qed

lemma del_all_spec:
  assumes "cache_inv H rd W (c, m)" and "del_all W (map (located H c) ks) ret (c, m) = (ret', fs, c', m')"
  shows "cache_inv H rd W (c', m') \<and> cache_view H c' m' = ref_dels ks (cache_view H c m) \<and>
    fs = del_answers ks (cache_view H c m) \<and> readers_see rd m m' \<and> locate H c' = locate H c \<and>
    length (ca_shards c') = length (ca_shards c) \<and>
    sh_capacity (ca_shards c' ! 0) = sh_capacity (ca_shards c ! 0)"
  using assms
proof (induction ks arbitrary: c m ret fs)
  case (Cons k ks)
  obtain i hash where l: "locate H c k = (i, hash)" by fastforce
  obtain r c1 m1 where d: "del_on (wo_env W) i hash k (c, m) = (r, c1, m1)" by (rule prod_cases3)
  obtain fs2 where rest: "del_all W (map (located H c) ks) (case r of Some r \<Rightarrow> retired_add ret r | None \<Rightarrow> ret) (c1, m1)
      = (ret', fs2, c', m')" and fs: "fs = (r \<noteq> None) # fs2"
    using Cons.prems(2) l d by (auto simp: Let_def split: prod.splits)
  obtain Ms where rep: "cache_rep H rd c m Ms" and w: "world_ok W m" using Cons.prems(1) by (auto simp: cache_inv_def)
  have tid: "ev_tid (wo_env W) < length (sl_mags (m_slab m))" using w by (simp add: world_ok_def)
  note s = del_on_spec [OF rep tid l d]
  have inv1: "cache_inv H rd W (c1, m1)" using s(1) world_ok_mags [OF w s(6)] by (auto simp: cache_inv_def)
  have loc: "locate H c1 = locate H c" using s(4) by (simp add: fun_eq_iff)
  have rs: "readers_see rd m m1" using s(8) by (simp add: readers_see_def)
  note IH = Cons.IH [OF inv1, unfolded loc, OF rest, unfolded s(2)]
  have fs': "fs = del_answers (k # ks) (cache_view H c m)"
    unfolding fs del_answers.simps using IH s(3) by (simp del: fun_upd_apply)
  have "readers_see rd m m'" using rs IH readers_see_trans by blast
  moreover have "cache_view H c' m' = ref_dels (k # ks) (cache_view H c m)" unfolding ref_simps using IH by blast
  ultimately show ?case using IH fs' s(5,7) by metis
qed simp

lemma del_many_spec:
  assumes "cache_inv H rd W cm" and "del_many H W ks cm pend = (fs, flushed, cm', pend')"
  shows "cache_inv H rd W cm'" and "view_of H cm' = ref_dels ks (view_of H cm)"
    and "fs = del_answers ks (view_of H cm)" and "readers_see rd (snd cm) (snd cm')"
    and "sh_capacity (ca_shards (fst cm') ! 0) = sh_capacity (ca_shards (fst cm) ! 0)"
proof -
  obtain c m where cm: "cm = (c, m)" by fastforce
  obtain ret f c1 m1 where da: "del_all W (map (located H c) ks) retired_zero (c, m) = (ret, f, c1, m1)"
    by (rule prod_cases4)
  note s = del_all_spec [OF assms(1) [unfolded cm] da]
  let ?L = "map (located H c) ks" and ?hits = "length (filter id f)"
  define c2 where "c2 = (if ?L = [] then c1 else on_shard (fst (last ?L)) (count_dels ?hits (length f - ?hits)) c1)"
  have e: "fs = f" "cm' = (c2, m1)"
    using assms(2) unfolding cm del_many_def prod.case Let_def da [unfolded Let_def] c2_def by (auto split: prod.splits)
  obtain Ms where rep: "cache_rep H rd c1 m1 Ms" and w: "world_ok W m1" using s by (auto simp: cache_inv_def)
  have "cache_rep H rd c2 m1 Ms \<and> cache_view H c2 m1 = cache_view H c1 m1 \<and>
    sh_capacity (ca_shards c2 ! 0) = sh_capacity (ca_shards c1 ! 0)"
  proof (cases ks rule: rev_cases)
    case (snoc ks' k)
    have i: "fst (locate H c1 k) < length (ca_shards c1)" by (rule locate_range [OF cache_repD(1) [OF rep]])
    have c2: "c2 = on_shard (fst (locate H c1 k)) (count_dels ?hits (length f - ?hits)) c1"
      using s by (simp add: c2_def snoc case_prod_unfold Let_def)
    have "sh_capacity (ca_shards c2 ! 0) = sh_capacity (ca_shards c1 ! 0)"
      using i by (cases "fst (locate H c1 k) = 0") (simp_all add: c2 on_shard_def)
    then show ?thesis using cache_rep_count(2) [OF rep i] cache_view_count(2) by (simp add: c2)
  qed (use rep in \<open>simp add: c2_def\<close>)
  then show "cache_inv H rd W cm'" "view_of H cm' = ref_dels ks (view_of H cm)" "fs = del_answers ks (view_of H cm)"
    "readers_see rd (snd cm) (snd cm')" "sh_capacity (ca_shards (fst cm') ! 0) = sh_capacity (ca_shards (fst cm) ! 0)"
    using s w by (auto simp: cache_inv_def e cm)
qed

lemma get_in_spec:
  assumes "cache_inv H rd W cm" and "get_in H k cm = (r, cm')"
  shows "cache_inv H rd W cm'" and "view_of H cm' = view_of H cm" and "readers_see rd (snd cm) (snd cm')"
    and "map_option (value_at (m_heap (snd cm'))) r = view_of H cm k" and "r = cache_find H (fst cm) (snd cm) k"
    and "r = Some p \<Longrightarrow> p \<in> dom (m_heap (snd cm'))"
proof -
  obtain c m where cm: "cm = (c, m)" by fastforce
  obtain Ms where rep: "cache_rep H rd c m Ms" and w: "world_ok W m" using assms(1) by (auto simp: cache_inv_def cm)
  obtain i hash where l: "locate H c k = (i, hash)" by fastforce
  have i: "i < length (ca_shards c)" using locate_range [OF cache_repD(1) [OF rep], of H k] l by simp
  have f: "cache_find H c m k = shard_get (ca_shards c ! i) m hash k" by (simp add: cache_find_def l)
  have "cache_inv H rd W cm' \<and> view_of H cm' = view_of H cm \<and> readers_see rd (snd cm) (snd cm') \<and>
    map_option (value_at (m_heap (snd cm'))) r = view_of H cm k \<and> r = cache_find H (fst cm) (snd cm) k \<and>
    (\<forall>p. r = Some p \<longrightarrow> p \<in> dom (m_heap (snd cm')))"
  proof (cases "shard_get (ca_shards c ! i) m hash k")
    case None
    then have e: "r = None" "cm' = (on_shard i (count_gets 0 1) c, m)" using assms(2) by (simp_all add: cm get_in_def l)
    show ?thesis using cache_rep_count(1) [OF rep i] w None
      by (auto simp: e cm cache_inv_def cache_view_count cache_view_def f)
  next
    case (Some p)
    then have e: "r = Some p" "cm' = (on_shard i (count_gets 1 0) c, touch p m)" using assms(2) by (simp_all add: cm get_in_def l)
    have "Ms i k = Some p" using cache_find_map [OF rep, of k] Some f l by simp
    then have pr: "p \<in> ran (Ms i)" by (rule ranI)
    have pd: "p \<in> dom (m_heap m)" using cache_entry_dom [OF rep i] pr by blast
    note t = cache_touch [OF rep pd]
    have "p \<in> dom (m_heap (touch p m))" using cache_entry_dom [OF t(1) i] pr by blast
    then show ?thesis using cache_rep_count(1) [OF t(1) i] t(2-4) world_ok_mags [OF w t(3)] Some
      by (auto simp: e cm cache_inv_def cache_view_count cache_view_def f readers_see_def)
  qed
  then show "cache_inv H rd W cm'" "view_of H cm' = view_of H cm" "readers_see rd (snd cm) (snd cm')"
    "map_option (value_at (m_heap (snd cm'))) r = view_of H cm k" "r = cache_find H (fst cm) (snd cm) k"
    "r = Some p \<Longrightarrow> p \<in> dom (m_heap (snd cm'))" by blast+
qed

section \<open>The contract\<close>

text \<open>
  What a front end relies on: over what can be read, a cache behaves as a map that may forget.
  A lookup changes nothing, a store leaves nothing that a map would not have, a delete is
  exact. Stores of a batch that cannot all fit are refused before anything is written.
\<close>

locale forgetful_map =
  fixes inv :: "'s \<Rightarrow> bool" and view :: "'s \<Rightarrow> bytes \<rightharpoonup> bytes"
    and gets :: "bytes list \<Rightarrow> 's \<Rightarrow> bytes option list \<times> 's"
    and sets :: "(bytes \<times> bytes) list \<Rightarrow> 's \<Rightarrow> ((too_large + bool) \<times> 's) option"
    and dels :: "bytes list \<Rightarrow> 's \<Rightarrow> bool list \<times> 's"
  assumes gets: "inv s \<Longrightarrow> gets ks s = (vs, s') \<Longrightarrow> inv s' \<and> view s' = view s \<and> vs = map (view s) ks"
    and sets: "inv s \<Longrightarrow> sets es s = Some (res, s') \<Longrightarrow>
      inv s' \<and> (case res of Inl _ \<Rightarrow> s' = s | Inr _ \<Rightarrow> view s' \<subseteq>\<^sub>m ref_sets es (view s))"
    and dels: "inv s \<Longrightarrow> dels ks s = (fs, s') \<Longrightarrow>
      inv s' \<and> view s' = ref_dels ks (view s) \<and> fs = del_answers ks (view s)"
begin

text \<open>A history of calls with their answers, and the map an unbounded store would hold.\<close>

inductive history :: "'s \<Rightarrow> (bytes \<rightharpoonup> bytes) \<Rightarrow> 's \<Rightarrow> (bytes \<rightharpoonup> bytes) \<Rightarrow> bool" where
  start: "history s R s R"
| get: "history s R s1 R1 \<Longrightarrow> gets ks s1 = (vs, s2) \<Longrightarrow> history s R s2 R1"
| set: "history s R s1 R1 \<Longrightarrow> sets es s1 = Some (Inr b, s2) \<Longrightarrow> history s R s2 (ref_sets es R1)"
| refused: "history s R s1 R1 \<Longrightarrow> sets es s1 = Some (Inl e, s2) \<Longrightarrow> history s R s2 R1"
| del: "history s R s1 R1 \<Longrightarrow> dels ks s1 = (fs, s2) \<Longrightarrow> history s R s2 (ref_dels ks R1)"

lemma history_refines:
  assumes "history s R s' R'" and "inv s" and "view s \<subseteq>\<^sub>m R"
  shows "inv s' \<and> view s' \<subseteq>\<^sub>m R'"
  using assms
proof (induction rule: history.induct)
  case (get s R s1 R1 ks vs s2)
  then show ?case using gets [OF _ get.hyps(2)] by auto
next
  case (set s R s1 R1 es b s2)
  then have "inv s1" "view s1 \<subseteq>\<^sub>m R1" by simp_all
  with sets [OF _ set.hyps(2)] ref_sets_mono show ?case by (auto intro: map_le_trans)
next
  case (refused s R s1 R1 es e s2)
  then show ?case using sets [OF _ refused.hyps(2)] by auto
next
  case (del s R s1 R1 ks fs s2)
  then show ?case using dels [OF _ del.hyps(2)] ref_dels_mono by auto
qed simp

lemma answers_refine:
  assumes "history s R s1 R1" and "inv s" and "view s \<subseteq>\<^sub>m R" and "gets ks s1 = (vs, s2)"
  shows "list_all2 (\<lambda>k v. v = None \<or> v = R1 k) ks vs"
proof -
  have "inv s1" "view s1 \<subseteq>\<^sub>m R1" using history_refines [OF assms(1-3)] by simp_all
  with gets [OF _ assms(4)] have "vs = map (view s1) ks" by simp
  moreover have "view s1 k = None \<or> view s1 k = R1 k" for k
    using \<open>view s1 \<subseteq>\<^sub>m R1\<close> by (auto simp: map_le_def dom_def)
  ultimately show ?thesis by (simp add: list_all2_map2 list_all2_same)
qed

end

text \<open>The cache keeps the contract; its state here includes the thread's unflushed count.\<close>

type_synonym cstate = "(cache \<times> memory) \<times> pending"

definition cache_gets :: "(bytes \<Rightarrow> u64) \<Rightarrow> bytes list \<Rightarrow> cstate \<Rightarrow> bytes option list \<times> cstate" where
  "cache_gets H ks = (\<lambda>(cm, pend). let (found, cm') = get_many H ks cm
     in (map (map_option (value_at (m_heap (snd cm')))) found, (cm', pend)))"

definition cache_sets ::
  "(bytes \<Rightarrow> u64) \<Rightarrow> world \<Rightarrow> (bytes \<times> bytes) list \<Rightarrow> cstate \<Rightarrow> ((too_large + bool) \<times> cstate) option" where
  "cache_sets H W es = (\<lambda>(cm, pend). set_many H W es cm pend)"

definition cache_dels :: "(bytes \<Rightarrow> u64) \<Rightarrow> world \<Rightarrow> bytes list \<Rightarrow> cstate \<Rightarrow> bool list \<times> cstate" where
  "cache_dels H W ks = (\<lambda>(cm, pend). let (fs, _, st) = del_many H W ks cm pend in (fs, st))"

interpretation store: forgetful_map "\<lambda>st. cache_inv H rd W (fst st)" "\<lambda>st. view_of H (fst st)"
  "cache_gets H" "cache_sets H W" "cache_dels H W"
  for H rd W
proof (unfold_locales, goal_cases)
  case (1 s ks vs s')
  then show ?case using get_many_spec [of H rd W "fst s" ks]
    by (cases s) (auto simp: cache_gets_def split: prod.splits)
next
  case (2 s es res s')
  then show ?case using set_many_spec [of H rd W "fst s" es "snd s" res "fst s'" "snd s'"]
    by (cases s; cases s'; cases res) (auto simp: cache_sets_def)
next
  case (3 s ks fs s')
  then show ?case using del_many_spec [of H rd W "fst s" ks "snd s"]
    by (cases s; cases s') (auto simp: cache_dels_def split: prod.splits)
qed

section \<open>A new cache\<close>

lemma next_power_of_two_spec:
  "0 < n \<Longrightarrow> \<exists>b. next_power_of_two n = 2 ^ b \<and> n \<le> 2 ^ b \<and> (n = 1 \<and> b = 0 \<or> 2 ^ b < 2 * n)"
proof (cases "n \<le> 1")
  case True
  assume "0 < n"
  with True show ?thesis by (intro exI [of _ 0]) (auto simp: next_power_of_two_def)
next
  case False
  let ?k = "msb_index (n - 1)"
  have "2 ^ ?k \<le> n - 1" "n - 1 < 2 ^ (?k + 1)" using msb_index_bounds [of "n - 1"] False by auto
  then have "n \<le> 2 ^ (?k + 1)" "2 ^ (?k + 1) < 2 * n" using False by auto
  with False show ?thesis by (intro exI [of _ "?k + 1"]) (simp add: next_power_of_two_def)
qed

lemma trailing_zeros_power: "trailing_zeros (2 ^ b) = b"
  by (induction b) (simp_all add: trailing_zeros.simps)

lemma cache_new_rep:
  assumes "0 < n" and "n \<le> 2 ^ 63"
  shows "cache_rep H (\<lambda>_. 0) (cache_new cap n) (mem_new t) (\<lambda>_. Map.empty)"
    and "cache_view H (cache_new cap n) (mem_new t) = Map.empty"
    and "\<And>s. s \<in> set (ca_shards (cache_new cap n)) \<Longrightarrow> sh_capacity s = cap div next_power_of_two n"
    and "length (ca_shards (cache_new cap n)) = next_power_of_two n"
proof -
  let ?c = "cache_new cap n" and ?N = "next_power_of_two n"
  obtain b where b: "?N = 2 ^ b" "n \<le> 2 ^ b" "n = 1 \<and> b = 0 \<or> 2 ^ b < 2 * n" using next_power_of_two_spec [OF assms(1)] by blast
  have "b \<le> 64"
  proof (rule ccontr)
    assume "\<not> b \<le> 64"
    then have "(2 :: nat) ^ 64 < 2 ^ b" by (intro power_strict_increasing) simp_all
    with b(3) assms(2) show False by auto
  qed
  then have shape: "shape_ok ?c" using b(1) by (simp add: shape_ok_def cache_new_def Let_def trailing_zeros_power)
  show len: "length (ca_shards ?c) = ?N" by (simp add: cache_new_def Let_def)
  have nth: "ca_shards ?c ! i = shard_new (cap div ?N)" if "i < length (ca_shards ?c)" for i
    using that by (simp add: cache_new_def Let_def)
  show caps: "\<And>s. s \<in> set (ca_shards ?c) \<Longrightarrow> sh_capacity s = cap div ?N" by (auto simp: cache_new_def Let_def)
  have ext: "hcount (ext_of (\<lambda>_. 0) (ca_shards ?c) (\<lambda>_. Map.empty) i) {} (mem_new t) Map.empty = (\<lambda>_. 0)" for i
    by (auto simp: hcount_def ext_of_def mem_new_def fun_eq_iff nth shard_new_def)
  have core: "cache_core H loc (\<lambda>_. 0) (ca_shards ?c) (mem_new t) (\<lambda>_. Map.empty)" for loc
    using shard_core_new mem_new_ok(2) ext by (auto simp: cache_core_def nth) (simp_all add: shard_new_def)
  have "0 < length (ca_shards ?c)" using shape by (simp add: shape_ok_def)
  then have "\<forall>s \<in> set (ca_shards ?c). within_budget s \<and> sh_capacity s = sh_capacity (ca_shards ?c ! 0)"
    using caps nth [of 0] by (auto simp: cache_new_def Let_def within_budget_def)
  with shape core mem_new_ok(1) show rep: "cache_rep H (\<lambda>_. 0) ?c (mem_new t) (\<lambda>_. Map.empty)" by (simp add: cache_rep_def)
  show "cache_view H ?c (mem_new t) = Map.empty" using cache_find_map [OF rep] by (simp add: cache_view_def fun_eq_iff)
qed

section \<open>Threads, readers and the collector\<close>

text \<open>
  A cache in use by many threads. A step is one critical section or one lock-free action: a
  write or delete of one key, a lookup, a reader keeping or giving back a handle, the collector
  dropping one. \<open>rd\<close> counts the handles readers hold; \<open>R\<close> is the map an unbounded store would
  hold after the same writes.
\<close>

type_synonym shared_cache = "cache \<times> memory \<times> (nat \<Rightarrow> nat) \<times> (bytes \<rightharpoonup> bytes)"

inductive cstep :: "(bytes \<Rightarrow> u64) \<Rightarrow> shared_cache \<Rightarrow> shared_cache \<Rightarrow> bool" for H where
  put: "world_ok W m \<Longrightarrow> locate H c k = (i, hash) \<Longrightarrow> check_fits (ca_shards c ! 0) k v = Inr () \<Longrightarrow>
    set_on W i hash k v (c, m) = Some (r, c', m') \<Longrightarrow> cstep H (c, m, rd, R) (c', m', rd, R(k \<mapsto> v))"
| delete: "world_ok W m \<Longrightarrow> locate H c k = (i, hash) \<Longrightarrow> del_on (wo_env W) i hash k (c, m) = (r, c', m') \<Longrightarrow>
    cstep H (c, m, rd, R) (c', m', rd, R(k := None))"
| look: "get_in H k (c, m) = (r, c', m') \<Longrightarrow> cstep H (c, m, rd, R) (c', m', rd, R)"
| keep: "cache_get H k (c, m) = (Some p, c', m') \<Longrightarrow> cstep H (c, m, rd, R) (c', m', rd(p := rd p + 1), R)"
| give_back: "world_ok W m \<Longrightarrow> 0 < rd p \<Longrightarrow>
    cstep H (c, m, rd, R) (c, entry_drop (wo_env W) p m, rd(p := rd p - 1), R)"
| reclaims: "world_ok W m \<Longrightarrow> p \<in> set (m_retired m) \<Longrightarrow> cstep H (c, m, rd, R) (c, reclaim (wo_env W) p m, rd, R)"

definition shared_ok :: "(bytes \<Rightarrow> u64) \<Rightarrow> shared_cache \<Rightarrow> bool" where
  "shared_ok H = (\<lambda>(c, m, rd, R). (\<exists>Ms. cache_rep H rd c m Ms) \<and> cache_view H c m \<subseteq>\<^sub>m R \<and>
     length (ca_shards c) * sh_capacity (ca_shards c ! 0) \<le> ca_capacity c)"

lemma get_in_rep:
  assumes "cache_rep H rd c m Ms" and "get_in H k (c, m) = (r, c', m')"
  shows "cache_rep H rd c' m' Ms" and "cache_view H c' m' = cache_view H c m"
    and "map_option (value_at (m_heap m')) r = cache_view H c m k" and "r = Some p \<Longrightarrow> p \<in> dom (m_heap m')"
    and "ca_capacity c' = ca_capacity c \<and> length (ca_shards c') = length (ca_shards c) \<and>
      sh_capacity (ca_shards c' ! 0) = sh_capacity (ca_shards c ! 0)"
    and "length (sl_mags (m_slab m')) = length (sl_mags (m_slab m)) \<and> (\<forall>q. value_at (m_heap m') q = value_at (m_heap m) q)"
proof -
  obtain i hash where l: "locate H c k = (i, hash)" by fastforce
  have i: "i < length (ca_shards c)" using locate_range [OF cache_repD(1) [OF assms(1)], of H k] l by simp
  have f: "cache_find H c m k = shard_get (ca_shards c ! i) m hash k" by (simp add: cache_find_def l)
  have cap: "sh_capacity (ca_shards (on_shard i (count_gets a b) c) ! 0) = sh_capacity (ca_shards c ! 0)" for a b
    using i by (cases "i = 0") (simp_all add: on_shard_def)
  have "cache_rep H rd c' m' Ms \<and> cache_view H c' m' = cache_view H c m \<and>
    map_option (value_at (m_heap m')) r = cache_view H c m k \<and> (\<forall>p. r = Some p \<longrightarrow> p \<in> dom (m_heap m')) \<and>
    ca_capacity c' = ca_capacity c \<and> length (ca_shards c') = length (ca_shards c) \<and>
      sh_capacity (ca_shards c' ! 0) = sh_capacity (ca_shards c ! 0) \<and>
      length (sl_mags (m_slab m')) = length (sl_mags (m_slab m)) \<and> (\<forall>q. value_at (m_heap m') q = value_at (m_heap m) q)"
  proof (cases "shard_get (ca_shards c ! i) m hash k")
    case None
    then have e: "r = None" "c' = on_shard i (count_gets 0 1) c" "m' = m" using assms(2) by (simp_all add: get_in_def l)
    show ?thesis using cache_rep_count(1) [OF assms(1) i] None cap
      by (auto simp: e cache_view_count cache_view_def f)
  next
    case (Some q)
    then have e: "r = Some q" "c' = on_shard i (count_gets 1 0) c" "m' = touch q m" using assms(2) by (simp_all add: get_in_def l)
    have "Ms i k = Some q" using cache_find_map [OF assms(1), of k] Some f l by simp
    then have qr: "q \<in> ran (Ms i)" by (rule ranI)
    have qd: "q \<in> dom (m_heap m)" using cache_entry_dom [OF assms(1) i] qr by blast
    note t = cache_touch [OF assms(1) qd]
    have "q \<in> dom (m_heap (touch q m))" using cache_entry_dom [OF t(1) i] qr by blast
    then show ?thesis using cache_rep_count(1) [OF t(1) i] t(2-4) Some cap
      by (auto simp: e cache_view_count cache_view_def f)
  qed
  then show "cache_rep H rd c' m' Ms" "cache_view H c' m' = cache_view H c m"
    "map_option (value_at (m_heap m')) r = cache_view H c m k" "r = Some p \<Longrightarrow> p \<in> dom (m_heap m')"
    "ca_capacity c' = ca_capacity c \<and> length (ca_shards c') = length (ca_shards c) \<and>
      sh_capacity (ca_shards c' ! 0) = sh_capacity (ca_shards c ! 0)"
    "length (sl_mags (m_slab m')) = length (sl_mags (m_slab m)) \<and> (\<forall>q. value_at (m_heap m') q = value_at (m_heap m) q)" by blast+
qed

lemma cstep_ok:
  assumes "cstep H a b" and "shared_ok H a"
  shows "shared_ok H b"
  using assms
proof (induction rule: cstep.induct)
  case (put W m c k i hash v r c' m' rd R)
  then obtain Ms where rep: "cache_rep H rd c m Ms" and sub: "cache_view H c m \<subseteq>\<^sub>m R"
    and cap: "length (ca_shards c) * sh_capacity (ca_shards c ! 0) \<le> ca_capacity c" by (auto simp: shared_ok_def)
  note s = set_on_spec [OF rep put.hyps]
  have "(cache_view H c m)(k \<mapsto> v) \<subseteq>\<^sub>m R(k \<mapsto> v)" using sub by (auto simp: map_le_def)
  from map_le_trans [OF s(3) this] s(1,5,7) cap show ?case by (auto simp: shared_ok_def)
next
  case (delete W m c k i hash r c' m' rd R)
  then obtain Ms where rep: "cache_rep H rd c m Ms" and sub: "cache_view H c m \<subseteq>\<^sub>m R"
    and cap: "length (ca_shards c) * sh_capacity (ca_shards c ! 0) \<le> ca_capacity c" by (auto simp: shared_ok_def)
  have tid: "ev_tid (wo_env W) < length (sl_mags (m_slab m))" using delete.hyps(1) by (simp add: world_ok_def)
  note s = del_on_spec [OF rep tid delete.hyps(2,3)]
  have "(cache_view H c m)(k := None) \<subseteq>\<^sub>m R(k := None)" using sub by (auto simp: map_le_def)
  then have "cache_view H c' m' \<subseteq>\<^sub>m R(k := None)" unfolding s(2) .
  with s(1,5,7) cap show ?case by (auto simp: shared_ok_def)
next
  case (look k c m r c' m' rd R)
  then show ?case using get_in_rep [of H rd c m _ k] by (fastforce simp: shared_ok_def)
next
  case (keep k c m p c' m' rd R)
  then obtain Ms where rep: "cache_rep H rd c m Ms" and sub: "cache_view H c m \<subseteq>\<^sub>m R"
    and cap: "length (ca_shards c) * sh_capacity (ca_shards c ! 0) \<le> ca_capacity c" by (auto simp: shared_ok_def)
  obtain m1 where g: "get_in H k (c, m) = (Some p, c', m1)" "m' = entry_clone p m1"
    using keep.hyps by (auto simp: cache_get_def split: prod.splits option.splits)
  note s = get_in_rep [OF rep g(1)]
  note q = cache_reader_clone [OF s(1) s(4) [OF refl]]
  show ?case using q(1,2) s(2,5) sub cap by (auto simp: shared_ok_def g(2))
next
  case (give_back W m rd p c R)
  then obtain Ms where rep: "cache_rep H rd c m Ms" and sub: "cache_view H c m \<subseteq>\<^sub>m R"
    and cap: "length (ca_shards c) * sh_capacity (ca_shards c ! 0) \<le> ca_capacity c" by (auto simp: shared_ok_def)
  have "ev_tid (wo_env W) < length (sl_mags (m_slab m))" using give_back.hyps(1) by (simp add: world_ok_def)
  from cache_reader_drop [OF rep give_back.hyps(2) this] sub cap show ?case by (auto simp: shared_ok_def)
next
  case (reclaims W m p c rd R)
  then obtain Ms where rep: "cache_rep H rd c m Ms" and sub: "cache_view H c m \<subseteq>\<^sub>m R"
    and cap: "length (ca_shards c) * sh_capacity (ca_shards c ! 0) \<le> ca_capacity c" by (auto simp: shared_ok_def)
  have "ev_tid (wo_env W) < length (sl_mags (m_slab m))" using reclaims.hyps(1) by (simp add: world_ok_def)
  from cache_reclaim [OF rep reclaims.hyps(2) this] sub cap show ?case by (auto simp: shared_ok_def)
qed

text \<open>
  What a step of any thread leaves alone: the capacity, the threads' magazines, and the value of every
  entry that is allocated before and after it.
\<close>

lemma cstep_keeps:
  assumes "cstep H (c, m, rd, R) (c', m', rd', R')" and "cache_rep H rd c m Ms"
  shows "sh_capacity (ca_shards c' ! 0) = sh_capacity (ca_shards c ! 0)"
    and "length (sl_mags (m_slab m')) = length (sl_mags (m_slab m))"
    and "\<And>q. q \<in> dom (m_heap m) \<Longrightarrow> q \<in> dom (m_heap m') \<Longrightarrow> value_at (m_heap m') q = value_at (m_heap m) q"
proof -
  have drop: "value_at (m_heap (entry_drop ev p m)) q = value_at (m_heap m) q" if "p \<in> dom (m_heap m)" "q \<in> dom (m_heap (entry_drop ev p m))" for ev p q m
    using entry_drop_keeps [OF that(1)] that(2) by (simp add: keeps_data_def)
  have "sh_capacity (ca_shards c' ! 0) = sh_capacity (ca_shards c ! 0) \<and> length (sl_mags (m_slab m')) = length (sl_mags (m_slab m)) \<and>
    (\<forall>q. q \<in> dom (m_heap m) \<longrightarrow> q \<in> dom (m_heap m') \<longrightarrow> value_at (m_heap m') q = value_at (m_heap m) q)"
    using assms(1)
  proof (cases rule: cstep.cases)
    case (put W k i hash v r)
    then show ?thesis using set_on_spec(5,6,10) [OF assms(2) put(3-6)] by simp
  next
    case (delete W k i hash r)
    then have "ev_tid (wo_env W) < length (sl_mags (m_slab m))" by (simp add: world_ok_def)
    then show ?thesis using del_on_spec(5,6,9) [OF assms(2) _ delete(4,5)] by simp
  next
    case (look k r)
    then show ?thesis using get_in_rep(5,6) [OF assms(2)] by simp
  next
    case (keep k p)
    obtain m1 where g: "get_in H k (c, m) = (Some p, c', m1)" "m' = entry_clone p m1"
      using keep(3) by (auto simp: cache_get_def split: prod.splits option.splits)
    have "value_at (m_heap (entry_clone p m1)) q = value_at (m_heap m1) q" for q
      by (simp add: entry_clone_def value_at_def deref_def)
    then show ?thesis using get_in_rep(5,6) [OF assms(2) g(1)] by (simp add: g(2)) (simp add: entry_clone_def)
  next
    case (give_back W p)
    then have "ev_tid (wo_env W) < length (sl_mags (m_slab m))" by (simp add: world_ok_def)
    then show ?thesis using cache_reader_drop(3) [OF assms(2) \<open>0 < rd p\<close>] drop cache_reader_dom [OF assms(2)] give_back by simp
  next
    case (reclaims W p)
    then have w: "ev_tid (wo_env W) < length (sl_mags (m_slab m))" by (simp add: world_ok_def)
    have "0 < length (ca_shards c)" using cache_repD(1) [OF assms(2)] by (simp add: shape_ok_def)
    then have "p \<in> dom (m_heap m)" using mem_ok_dom [OF cache_mem_ok [OF assms(2)], of 0 p] \<open>p \<in> set (m_retired m)\<close> by (simp add: hcount_def)
    then show ?thesis using cache_reclaim(3) [OF assms(2) \<open>p \<in> set (m_retired m)\<close> w] drop [of p "m\<lparr>m_retired := remove1 p (m_retired m)\<rparr>"] reclaims
      by (simp add: reclaim_def)
  qed
  then show "sh_capacity (ca_shards c' ! 0) = sh_capacity (ca_shards c ! 0)"
    "length (sl_mags (m_slab m')) = length (sl_mags (m_slab m))"
    "\<And>q. q \<in> dom (m_heap m) \<Longrightarrow> q \<in> dom (m_heap m') \<Longrightarrow> value_at (m_heap m') q = value_at (m_heap m) q" by blast+
qed

interpretation shared: step_invariant "cstep H" "shared_ok H" for H
  by unfold_locales (rule cstep_ok)

lemma shared_ok_new:
  assumes "0 < n" and "n \<le> 2 ^ 63"
  shows "shared_ok H (cache_new cap n, mem_new t, \<lambda>_. 0, Map.empty)"
proof -
  note n = cache_new_rep(1,2) [OF assms, where t = t and cap = cap] cache_new_rep(3,4) [OF assms, where cap = cap]
  have "0 < next_power_of_two n" using next_power_of_two_spec [OF assms(1)] by auto
  then have "sh_capacity (ca_shards (cache_new cap n) ! 0) = cap div next_power_of_two n" using n(3,4) by simp
  moreover have "next_power_of_two n * (cap div next_power_of_two n) \<le> cap" by simp
  moreover have "ca_capacity (cache_new cap n) = cap" by (simp add: cache_new_def Let_def)
  ultimately show ?thesis using n(1,2,4) by (auto simp: shared_ok_def)
qed

lemma cache_value_fits:
  assumes "cache_inv H rd W cm" and "view_of H cm k = Some v"
  shows "length v \<le> sh_capacity (ca_shards (fst cm) ! 0)"
proof -
  obtain c m Ms where cm: "cm = (c, m)" "cache_rep H rd c m Ms" using assms(1) by (cases cm) (auto simp: cache_inv_def)
  define i where "i = fst (locate H c k)"
  have i: "i < length (ca_shards c)" unfolding i_def by (rule locate_range [OF cache_repD(1) [OF cm(2)]])
  obtain p where p: "Ms i k = Some p" "v = value_at (m_heap m) p"
    using assms(2) cache_find_map [OF cm(2)] by (auto simp: cm cache_view_def i_def)
  note s = shard_coreD [OF cache_coreD(1) [OF cache_repD(5) [OF cm(2)] i]]
  note q = qcoreD [OF s(1)]
  have "p \<in> {p \<in> queued (ca_shards c ! i). live_at (m_heap m) p}" using q(4,7,9) p by (auto simp: ran_def)
  then have "cost_at (m_heap m) p \<le> live_cost (m_heap m) (queued (ca_shards c ! i))"
    unfolding live_cost_def using q(3) by (intro member_le_sum) auto
  moreover have "sh_used (ca_shards c ! i) \<le> sh_capacity (ca_shards c ! 0)"
    using cache_repD(3,4) [OF cm(2) nth_mem [OF i]] by (simp add: within_budget_def)
  ultimately show ?thesis using s(3) by (simp add: cm(1) p(2) cost_at_def)
qed

lemma cache_used_bound:
  assumes "cache_rep H rd c m Ms" and "length (ca_shards c) * sh_capacity (ca_shards c ! 0) \<le> ca_capacity c"
  shows "cache_used_bytes c \<le> ca_capacity c"
proof -
  have "sh_used s \<le> sh_capacity (ca_shards c ! 0)" if "s \<in> set (ca_shards c)" for s
    using cache_repD(3,4) [OF assms(1) that] by (simp add: within_budget_def)
  then have "sum_list (map sh_used (ca_shards c)) \<le> sum_list (map (\<lambda>_. sh_capacity (ca_shards c ! 0)) (ca_shards c))"
    by (rule sum_list_mono)
  with assms(2) show ?thesis by (simp add: cache_used_bytes_def sum_list_triv)
qed

text \<open>
  C1. However threads, readers and the collector interleave, a cache never answers wrongly: from
  a new cache on, a lookup that finds a key returns exactly the value an unbounded map would
  hold after the same writes, an entry a reader keeps stays allocated, and the bytes held never
  exceed the configured capacity.
\<close>

theorem cache_refines_map:
  assumes "0 < n" and "n \<le> 2 ^ 63"
    and "(cstep H)\<^sup>*\<^sup>* (cache_new cap n, mem_new t, \<lambda>_. 0, Map.empty) (c, m, rd, R)"
  shows "(case get_in H k (c, m) of (r, c', m') \<Rightarrow> \<forall>p. r = Some p \<longrightarrow> R k = Some (value_at (m_heap m') p)) \<and>
    (\<forall>q. 0 < rd q \<longrightarrow> q \<in> dom (m_heap m)) \<and> cache_used_bytes c \<le> ca_capacity c"
proof -
  obtain Ms where rep: "cache_rep H rd c m Ms" and sub: "cache_view H c m \<subseteq>\<^sub>m R"
    and cap: "length (ca_shards c) * sh_capacity (ca_shards c ! 0) \<le> ca_capacity c"
    using shared.reach_inv [OF assms(3) shared_ok_new [OF assms(1,2)]] by (auto simp: shared_ok_def)
  obtain r c' m' where g: "get_in H k (c, m) = (r, c', m')" by (rule prod_cases3)
  have "R k = Some (value_at (m_heap m') p)" if "r = Some p" for p
  proof -
    have "cache_view H c m k = Some (value_at (m_heap m') p)" using get_in_rep(3) [OF rep g] that by simp
    then show ?thesis using sub by (metis domI map_le_def)
  qed
  with g cache_reader_dom [OF rep] cache_used_bound [OF rep cap] show ?thesis by auto
qed

text \<open>
  C32. Batches. A lookup of many keys answers for each what the cache holds and changes nothing. A
  store of many entries is refused as a whole, naming the first entry that can never fit, before
  anything is written; or it leaves exactly the cache that storing its entries one after the other
  would leave: nothing a map would not hold, the last entry readable, and, when every shard has
  room for the batch's entries beside what it holds, exactly the contents of a map into which they
  were put. A delete of many keys answers and acts as one delete after the other on a map would.
\<close>

theorem cache_batches:
  assumes "cache_inv H rd W cm"
  shows "(get_many H ks cm = (found, cm1) \<longrightarrow>
      map (map_option (value_at (m_heap (snd cm1)))) found = map (view_of H cm) ks \<and> view_of H cm1 = view_of H cm) \<and>
    (set_many H W es cm pend = Some (res, cm2, pend2) \<longrightarrow> (case res of
      Inl x \<Rightarrow> cm2 = cm \<and> (\<exists>e. find (\<lambda>e. \<not> fits (fst cm) e) es = Some e \<and>
        check_fits (ca_shards (fst cm) ! 0) (fst e) (snd e) = Inl x)
    | Inr _ \<Rightarrow> sets_in_turn H W es cm = Some cm2 \<and> view_of H cm2 \<subseteq>\<^sub>m ref_sets es (view_of H cm) \<and>
        (es \<noteq> [] \<longrightarrow> view_of H cm2 (fst (last es)) = Some (snd (last es))) \<and>
        (has_room H (fst cm) es \<longrightarrow> view_of H cm2 = ref_sets es (view_of H cm)))) \<and>
    (del_many H W ks cm pend = (fs, flushed, cm3, pend3) \<longrightarrow>
      fs = del_answers ks (view_of H cm) \<and> view_of H cm3 = ref_dels ks (view_of H cm))"
proof (intro conjI impI)
  assume "set_many H W es cm pend = Some (res, cm2, pend2)"
  from set_many_spec(1) [OF assms this] show "case res of
      Inl x \<Rightarrow> cm2 = cm \<and> (\<exists>e. find (\<lambda>e. \<not> fits (fst cm) e) es = Some e \<and>
        check_fits (ca_shards (fst cm) ! 0) (fst e) (snd e) = Inl x)
    | Inr _ \<Rightarrow> sets_in_turn H W es cm = Some cm2 \<and> view_of H cm2 \<subseteq>\<^sub>m ref_sets es (view_of H cm) \<and>
        (es \<noteq> [] \<longrightarrow> view_of H cm2 (fst (last es)) = Some (snd (last es))) \<and>
        (has_room H (fst cm) es \<longrightarrow> view_of H cm2 = ref_sets es (view_of H cm))"
    by (cases res) simp_all
qed (simp_all add: get_many_spec(2,4) [OF assms] del_many_spec(2,3) [OF assms])

text \<open>A cache of one shard, and a world in which one allocation succeeds.\<close>

definition demo_world :: world where
  "demo_world = \<lparr>wo_env = demo_env, wo_alloc = (\<lambda>m. if m = mem_new 1 then Some (4096, 2 ^ 44) else None)\<rparr>"

lemma demo_world_ok: "world_ok demo_world (mem_new 1)"
  using demo_env_ok unfolding world_ok_def
  by (auto simp: demo_world_def alloc_env_def demo_env_def mem_new_def slab_init_def split: if_splits)

lemma cache_new_1: "ca_shards (cache_new cap 1) = [shard_new cap]" "locate H (cache_new cap 1) k = (0, H k)"
  using trailing_zeros_power [of 0] by (simp_all add: cache_new_def locate_def next_power_of_two_def Let_def)

lemma demo_put:
  obtains r c m where "set_on demo_world 0 5 [7] [1] (cache_new 1000 1, mem_new 1) = Some (r, c, m)"
proof -
  obtain ret s' m' where s: "shard_set demo_env [7] [1] 5 (shard_new 1000, mem_new 1) = Some (ret, s', m')" by (rule demo_set)
  have "alloc_env demo_world (mem_new 1) = Some demo_env" by (simp add: alloc_env_def demo_world_def demo_env_def)
  with s that show thesis by (simp add: set_on_def cache_new_1 del: One_nat_def)
qed

lemma demo_inv: "cache_inv H (\<lambda>_. 0) demo_world (cache_new cap 1, mem_new 1)"
  using cache_new_rep(1) [of 1 H cap 1] demo_world_ok by (auto simp: cache_inv_def)

theorem cache_refines_map_witness:
  "\<exists>r c m. set_on demo_world 0 5 [7] [1] (cache_new 1000 1, mem_new 1) = Some (r, c, m) \<and>
     (case get_in (\<lambda>_. 5) [7] (c, m) of (r, c', m') \<Rightarrow> \<forall>p. r = Some p \<longrightarrow> value_at (m_heap m') p = [1])"
proof -
  obtain r c m where s: "set_on demo_world 0 5 [7] [1] (cache_new 1000 1, mem_new 1) = Some (r, c, m)" by (rule demo_put)
  have "check_fits (ca_shards (cache_new 1000 1) ! 0) [7] [1] = Inr ()"
    by (simp add: cache_new_1 check_fits_def ENTRY_OVERHEAD_def del: One_nat_def)
  from cstep.put [OF demo_world_ok cache_new_1(2) this s]
  have "(cstep (\<lambda>_. 5))\<^sup>*\<^sup>* (cache_new 1000 1, mem_new 1, \<lambda>_. 0, Map.empty) (c, m, \<lambda>_. 0, [[7] \<mapsto> [1]])" by blast
  from cache_refines_map [OF _ _ this, of "[7]"] s show ?thesis by (auto split: prod.splits)
qed

lemma demo_set_many:
  obtains b cm pend where
    "set_many (\<lambda>_. 5) demo_world [([7], [1])] (cache_new 1000 1, mem_new 1) (0, 0) = Some (Inr b, cm, pend)"
    "has_room (\<lambda>_. 5) (cache_new 1000 1) [([7], [1])]"
proof -
  have fits: "check_fits (ca_shards (cache_new 1000 1) ! 0) [7] [1] = Inr ()"
    by (simp add: cache_new_1 check_fits_def ENTRY_OVERHEAD_def del: One_nat_def)
  obtain r c m where "set_on demo_world 0 5 [7] [1] (cache_new 1000 1, mem_new 1) = Some (r, c, m)" by (rule demo_put)
  from cache_set_single [OF fits cache_new_1(2) this, of "(0, 0)"] that show thesis
    by (auto simp: cache_set_def has_room_def cache_new_1 entry_cost_def ENTRY_OVERHEAD_def shard_new_def simp del: One_nat_def)
qed

theorem cache_batches_witness:
  "\<exists>b cm pend. set_many (\<lambda>_. 5) demo_world [([7], [1])] (cache_new 1000 1, mem_new 1) (0, 0) = Some (Inr b, cm, pend) \<and>
     view_of (\<lambda>_. 5) cm = [[7] \<mapsto> [1]] \<and>
     (case get_many (\<lambda>_. 5) [[7], [8]] cm of (found, cm1) \<Rightarrow>
        map (map_option (value_at (m_heap (snd cm1)))) found = [Some [1], None]) \<and>
     (case del_many (\<lambda>_. 5) demo_world [[7], [7], [8]] cm pend of (fs, _, cm3, _) \<Rightarrow>
        fs = [True, False, False] \<and> view_of (\<lambda>_. 5) cm3 = Map.empty)"
proof -
  let ?H = "\<lambda>_. 5 :: u64"
  obtain b cm pend where s: "set_many ?H demo_world [([7], [1])] (cache_new 1000 1, mem_new 1) (0, 0) = Some (Inr b, cm, pend)"
    and r: "has_room ?H (cache_new 1000 1) [([7], [1])]" by (rule demo_set_many)
  have v: "view_of ?H cm = [[7] \<mapsto> [1]]"
    using conjunct1 [OF conjunct2 [OF cache_batches [OF demo_inv, of ?H]], rule_format, OF s] r cache_new_rep(2) [of 1 ?H 1000 1]
    by (simp del: One_nat_def)
  have inv: "cache_inv ?H (\<lambda>_. 0) demo_world cm" using set_many_spec(2) [OF demo_inv s] .
  obtain found cm1 where g: "get_many ?H [[7], [8]] cm = (found, cm1)" by (rule prod.exhaust)
  obtain fs fl cm3 pend3 where d: "del_many ?H demo_world [[7], [7], [8]] cm pend = (fs, fl, cm3, pend3)" by (rule prod_cases4)
  have "map (map_option (value_at (m_heap (snd cm1)))) found = [Some [1], None]"
    using conjunct1 [OF cache_batches [OF inv], rule_format, OF g] v by simp
  moreover have "fs = [True, False, False] \<and> view_of ?H cm3 = Map.empty"
    using conjunct2 [OF conjunct2 [OF cache_batches [OF inv]], rule_format, OF d] v by simp
  ultimately show ?thesis using s v g d by auto
qed

end
