(* ===== verification/Policy.thy ===== *)
theory Policy
  imports Shard_Inv
begin

text \<open>
  What S3-FIFO evicts, of \<^verbatim>\<open>crates/server/src/cache/s3fifo.rs\<close>. The loop of \<open>evict_main\<close> pops entries and
  puts touched ones back with one chance less; in one stroke it is a clock: the hand stops at the
  first entry with the fewest chances left.
\<close>

section \<open>The clock\<close>

text \<open>
  How often the hand passes an entry before it takes it: a dead one never, a live one as often as
  its frequency says.
\<close>

definition rank :: "heap \<Rightarrow> nat \<Rightarrow> nat" where
  "rank h p = (if live_at h p then freq_at h p else 0)"

definition first_min :: "(nat \<Rightarrow> nat) \<Rightarrow> nat list \<Rightarrow> nat \<Rightarrow> bool" where
  "first_min f q i \<longleftrightarrow> i < length q \<and> (\<forall>j < length q. f (q ! i) \<le> f (q ! j)) \<and> (\<forall>j < i. f (q ! i) < f (q ! j))"

text \<open>
  The hand has gone round as often as the least rank says and then on to the first entry with it,
  which is gone; everything else is in the order of the ring, starting behind it.
\<close>

definition clock_turn :: "(nat \<Rightarrow> nat) \<Rightarrow> nat list \<Rightarrow> nat \<Rightarrow> nat list \<Rightarrow> (nat \<Rightarrow> nat) \<Rightarrow> bool" where
  "clock_turn f q i q' f' \<longleftrightarrow> first_min f q i \<and> q' = drop (Suc i) q @ take i q \<and>
     (\<forall>j < length q. j \<noteq> i \<longrightarrow> f' (q ! j) = f (q ! j) - f (q ! i) - of_bool (j < i))"

lemma clock_turn_stop:
  "f p = 0 \<Longrightarrow> p \<notin> set rest \<Longrightarrow> (\<And>q. q \<noteq> p \<Longrightarrow> f' q = f q) \<Longrightarrow> clock_turn f (p # rest) 0 rest f'"
  by (auto simp: clock_turn_def first_min_def nth_Cons in_set_conv_nth split: nat.splits)

lemma first_min_rotate:
  assumes "p \<notin> set rest" and "0 < f p" and "first_min (f(p := f p - 1)) (rest @ [p]) i"
  shows "if i = length rest then first_min f (p # rest) 0 else i < length rest \<and> first_min f (p # rest) (Suc i)"
proof -
  let ?g = "f(p := f p - 1)"
  have at: "?g ((rest @ [p]) ! j) = (if j < length rest then f (rest ! j) else f p - 1)" if "j \<le> length rest" for j
    using that assms(1) by (auto simp: nth_append)
  have i: "i \<le> length rest" using assms(3) by (simp add: first_min_def)
  have le: "?g ((rest @ [p]) ! i) \<le> (if j < length rest then f (rest ! j) else f p - 1)" if "j \<le> length rest" for j
    using assms(3) that unfolding first_min_def at [OF that, symmetric] by simp
  have lt: "?g ((rest @ [p]) ! i) < f (rest ! j)" if "j < i" for j
    using assms(3) at [of j] that i unfolding first_min_def by (metis less_imp_le_nat less_le_trans)
  show ?thesis
  proof (cases "i = length rest")
    case True
    have "f p \<le> f (rest ! j)" if "j < length rest" for j using lt [of j] at [of i] True that assms(2) by auto
    then have "f p \<le> f ((p # rest) ! j)" if "j < length (p # rest)" for j using that by (cases j) auto
    with True show ?thesis by (simp add: first_min_def)
  next
    case False
    with i have i': "i < length rest" by simp
    then have g: "?g ((rest @ [p]) ! i) = f (rest ! i)" using at [of i] by simp
    have "f (rest ! i) < f p" using le [of "length rest"] assms(2) g by auto
    then have "f (rest ! i) \<le> f ((p # rest) ! j)" if "j < length (p # rest)" for j
      using that le [of "j - 1"] g by (cases j) auto
    moreover have "f (rest ! i) < f ((p # rest) ! j)" if "j < Suc i" for j
      using that lt [of "j - 1"] g \<open>f (rest ! i) < f p\<close> by (cases j) auto
    ultimately show ?thesis using False i' by (simp add: first_min_def)
  qed
qed

lemma clock_turn_rotate:
  assumes "p \<notin> set rest" and "0 < f p" and "clock_turn (f(p := f p - 1)) (rest @ [p]) i q' f'"
  shows "\<exists>i'. clock_turn f (p # rest) i' q' f' \<and> (p # rest) ! i' = (rest @ [p]) ! i"
proof -
  let ?g = "f(p := f p - 1)"
  have c: "first_min ?g (rest @ [p]) i" "q' = drop (Suc i) (rest @ [p]) @ take i (rest @ [p])"
    using assms(3) by (simp_all add: clock_turn_def)
  have r: "f' ((rest @ [p]) ! j) = ?g ((rest @ [p]) ! j) - ?g ((rest @ [p]) ! i) - of_bool (j < i)"
    if "j \<le> length rest" "j \<noteq> i" for j
    using assms(3) that by (auto simp: clock_turn_def)
  note m = first_min_rotate [OF assms(1,2) c(1)]
  have g: "?g ((rest @ [p]) ! j) = f (rest ! j)" "(rest @ [p]) ! j = rest ! j" if "j < length rest" for j
    using that assms(1) by (auto simp: nth_append)
  show ?thesis
  proof (cases "i = length rest")
    case True
    have "f' (rest ! j) = f (rest ! j) - f p" if "j < length rest" for j
      using r [of j] g [OF that] that True assms(2) by simp
    with m c True have "clock_turn f (p # rest) 0 q' f'" by (auto simp: clock_turn_def nth_Cons split: nat.splits)
    with True show ?thesis by (intro exI [of _ 0]) simp
  next
    case False
    with m have i: "i < length rest" "first_min f (p # rest) (Suc i)" by auto
    have "f' p = f p - f (rest ! i) - 1" using r [of "length rest"] i g [OF i(1)] by simp
    moreover have "f' (rest ! j) = f (rest ! j) - f (rest ! i) - of_bool (j < i)" if "j < length rest" "j \<noteq> i" for j
      using r [of j] g [OF that(1)] g [OF i(1)] that by simp
    ultimately have "clock_turn f (p # rest) (Suc i) q' f'"
      using i c(2) by (auto simp: clock_turn_def nth_Cons split: nat.splits)
    with i show ?thesis by (intro exI [of _ "Suc i"]) (simp add: nth_append)
  qed
qed

section \<open>Eviction from the main queue\<close>

lemma rank_set_freq:
  "live_at (m_heap m) p \<Longrightarrow> rank (m_heap (set_freq p x m)) = (rank (m_heap m))(p := x)"
  by (auto simp: rank_def fun_eq_iff)

lemma entry_drop_other: "q \<noteq> p \<Longrightarrow> m_heap (entry_drop ev p m) q = m_heap m q"
  by (simp add: entry_drop_heap)

lemma rank_cong: "h q = h' q \<Longrightarrow> rank h q = rank h' q"
  by (simp add: rank_def live_at_def freq_at_def deref_def)

lemma unlink_frame: "unlink p (s, m) = (s', m') \<Longrightarrow> \<exists>ix. s' = s\<lparr>sh_index := ix\<rparr> \<and> m_heap m' = m_heap m"
  by (auto simp: unlink_def Let_def split: prod.splits option.splits)


lemma set_dead_other: "q \<noteq> p \<Longrightarrow> m_heap (set_dead p m) q = m_heap m q"
  by (simp add: set_dead_def)

lemma retired_one_fields [simp]:
  "retired_one (m_heap (set_dead p m)) q = retired_one (m_heap m) q"
  "retired_one (m_heap (set_freq p x m)) q = retired_one (m_heap m) q"
  by (simp_all add: retired_one_def)

text \<open>The entry at the hand: dropped, after leaving the index if it was live.\<close>

lemma evict_main_head:
  assumes "sh_main s = p # rest" and "\<not> (live_at (m_heap m) p \<and> 0 < freq_at (m_heap m) p)"
    and "evict_main ev (s, m) = Some (r, s', m')"
  shows "r = retired_one (m_heap m) p" and "sh_main s' = rest" and "\<And>q. q \<noteq> p \<Longrightarrow> m_heap m' q = m_heap m q"
    and "sh_small s' = sh_small s" and "sh_ghost s' = sh_ghost s"
    and "sh_used s' = sh_used s - (if live_at (m_heap m) p then cost_at (m_heap m) p else 0)"
    and "sh_dead_bytes s' = sh_dead_bytes s - (if live_at (m_heap m) p then 0 else cost_at (m_heap m) p)"
    and "st_evictions (sh_stats s') = st_evictions (sh_stats s) + of_bool (live_at (m_heap m) p)"
  using assms
  by (auto simp: evict_main.simps [of ev s m] Let_def count_eviction_def entry_drop_other set_dead_other
      dest!: unlink_frame split: if_splits prod.splits)

lemma evict_main_rotates:
  assumes "sh_main s = p # rest" and "live_at (m_heap m) p" and "0 < freq_at (m_heap m) p"
  shows "evict_main ev (s, m) = evict_main ev (s\<lparr>sh_main := rest @ [p]\<rparr>, set_freq p (freq_at (m_heap m) p - 1) m)"
  using assms by (simp add: evict_main.simps [of ev s m])

text \<open>
  C14. The main queue is a clock. Evicting from it takes the first of the entries with the fewest
  chances left (none if it is dead, else its frequency), whatever the loop did on the way: the
  others stay in the order of the ring from there on, each with as many chances less as the hand
  has passed it; what is retired, and the change to the byte counts and to the number of evictions
  are those of that one entry; the small queue and the ghost list are left alone.
\<close>

theorem evict_main_is_clock:
  assumes "distinct (sh_main s)" and "evict_main ev (s, m) = Some (r, s', m')"
  shows "\<exists>i. clock_turn (rank (m_heap m)) (sh_main s) i (sh_main s') (rank (m_heap m')) \<and>
    (let v = sh_main s ! i; live = live_at (m_heap m) v; cost = cost_at (m_heap m) v
     in r = retired_one (m_heap m) v \<and>
        sh_used s' = sh_used s - (if live then cost else 0) \<and>
        sh_dead_bytes s' = sh_dead_bytes s - (if live then 0 else cost) \<and>
        st_evictions (sh_stats s') = st_evictions (sh_stats s) + of_bool live) \<and>
    sh_small s' = sh_small s \<and> sh_ghost s' = sh_ghost s"
  using assms
proof (induction ev "(s, m)" arbitrary: s m rule: evict_main.induct)
  case (1 ev s m)
  obtain p rest where q: "sh_main s = p # rest"
    using "1.prems"(2) by (cases "sh_main s") (auto simp: evict_main.simps)
  have p: "p \<notin> set rest" using "1.prems"(1) q by simp
  show ?case
  proof (cases "live_at (m_heap m) p \<and> 0 < freq_at (m_heap m) p")
    case True
    let ?m = "set_freq p (freq_at (m_heap m) p - 1) m"
    have f: "rank (m_heap ?m) = (rank (m_heap m))(p := rank (m_heap m) p - 1)" "0 < rank (m_heap m) p"
      using True by (simp_all add: rank_set_freq) (simp_all add: rank_def)
    have "\<not> \<not> live_at (m_heap m) p" "freq_at (m_heap m) p > 0" using True by simp_all
    note ih = "1.hyps" [OF q refl refl this(1) refl this(2)]
    have "evict_main ev (s\<lparr>sh_main := rest @ [p]\<rparr>, ?m) = Some (r, s', m')"
      using "1.prems"(2) True q by (simp add: evict_main_rotates)
    with ih q p "1.prems"(1) obtain i where
      i: "clock_turn (rank (m_heap ?m)) (rest @ [p]) i (sh_main s') (rank (m_heap m'))"
      and e: "let v = (rest @ [p]) ! i; live = live_at (m_heap ?m) v; cost = cost_at (m_heap ?m) v
         in r = retired_one (m_heap ?m) v \<and>
            sh_used s' = sh_used s - (if live then cost else 0) \<and>
            sh_dead_bytes s' = sh_dead_bytes s - (if live then 0 else cost) \<and>
            st_evictions (sh_stats s') = st_evictions (sh_stats s) + of_bool live"
      and same: "sh_small s' = sh_small s" "sh_ghost s' = sh_ghost s" by auto
    obtain i' where i': "clock_turn (rank (m_heap m)) (p # rest) i' (sh_main s') (rank (m_heap m'))"
      "(p # rest) ! i' = (rest @ [p]) ! i"
      using clock_turn_rotate [OF p f(2) i [unfolded f(1)]] by blast
    show ?thesis unfolding q using i' e same by (intro exI [of _ i']) simp
  next
    case False
    note h = evict_main_head [OF q False "1.prems"(2)]
    have "clock_turn (rank (m_heap m)) (p # rest) 0 rest (rank (m_heap m'))"
    proof (rule clock_turn_stop [OF _ p])
      show "rank (m_heap m) p = 0" using False by (simp add: rank_def)
      show "rank (m_heap m') q = rank (m_heap m) q" if "q \<noteq> p" for q using h(3) [OF that] by (rule rank_cong)
    qed
    with h q show ?thesis by (intro exI [of _ 0]) (simp add: Let_def)
  qed
qed

section \<open>Scans do not reach the main queue\<close>

lemma evict_small_frame:
  assumes "evict_small ev (s, m) = Some (r, s', m')"
  obtains p where "sh_small s = p # sh_small s'" "sh_main s' = sh_main s \<or> sh_main s' = sh_main s @ [p]"
    "sh_small_bytes s' = sh_small_bytes s - cost_at (m_heap m) p" "sh_small_capacity s' = sh_small_capacity s"
    "\<And>q. q \<noteq> p \<Longrightarrow> m_heap m' q = m_heap m q"
proof -
  obtain p rest where p: "sh_small s = p # rest" using assms by (cases "sh_small s") (auto simp: evict_small_def)
  show thesis
    by (rule that [of p])
      (use assms p in \<open>auto simp: evict_small_def Let_def count_eviction_def entry_drop_other set_dead_other set_freq_def
        dest!: unlink_frame split: if_splits prod.splits\<close>)
qed

lemma evict_main_frame:
  "evict_main ev (s, m) = Some (r, s', m') \<Longrightarrow>
   sh_small_bytes s' = sh_small_bytes s \<and> sh_small_capacity s' = sh_small_capacity s"
proof (induction ev "(s, m)" arbitrary: s m rule: evict_main.induct)
  case (1 ev s m)
  obtain p rest where q: "sh_main s = p # rest"
    using "1.prems" by (cases "sh_main s") (auto simp: evict_main.simps)
  show ?case
  proof (cases "live_at (m_heap m) p \<and> 0 < freq_at (m_heap m) p")
    case True
    then have "\<not> \<not> live_at (m_heap m) p" "freq_at (m_heap m) p > 0" by simp_all
    from "1.hyps" [OF q refl refl this(1) refl this(2)] "1.prems" True q show ?thesis by (simp add: evict_main_rotates)
  next
    case False
    with "1.prems" q show ?thesis
      by (auto simp: evict_main.simps [of ev s m] Let_def count_eviction_def dest!: unlink_frame split: if_splits prod.splits)
  qed
qed

lemma evict_one_bytes:
  assumes "evict_one ev (s, m) = Some (r, s', m')"
  shows "sh_small_bytes s' \<le> sh_small_bytes s" and "sh_small_capacity s' = sh_small_capacity s"
proof -
  have "evict_small ev (s, m) = Some (r, s', m') \<or> evict_main ev (s, m) = Some (r, s', m')"
    using assms by (auto simp: evict_one_def split: if_splits option.splits)
  then have "sh_small_bytes s' \<le> sh_small_bytes s \<and> sh_small_capacity s' = sh_small_capacity s"
    by (auto dest: evict_main_frame elim: evict_small_frame)
  then show "sh_small_bytes s' \<le> sh_small_bytes s" and "sh_small_capacity s' = sh_small_capacity s" by simp_all
qed

text \<open>
  While the small queue has its share, the loop takes from it alone: what is in the main queue
  stays as it is, and what was read more than once joins it.
\<close>

lemma evict_loop_bytes:
  "evict_loop ev cost ret (s, m) = (ret', s', m') \<Longrightarrow> sh_small_bytes s' \<le> sh_small_bytes s"
proof (induction ev cost ret "(s, m)" arbitrary: s m rule: evict_loop.induct)
  case (1 ev cost ret s m)
  then show ?case
    using evict_one_bytes(1) [of ev s m]
    by (auto simp: evict_loop.simps [of ev cost ret s m] split: if_splits option.splits) (meson order_trans)
qed

lemma evict_loop_spares_main:
  assumes "shard_core H ext X s m M" and "evict_loop ev cost ret (s, m) = (ret', s', m')"
    and "0 < sh_small_capacity s" and "sh_small_capacity s \<le> sh_small_bytes s'" and "q \<in> set (sh_main s)"
  shows "q \<in> set (sh_main s') \<and> m_heap m' q = m_heap m q"
  using assms
proof (induction ev cost ret "(s, m)" arbitrary: s m M rule: evict_loop.induct)
  case (1 ev cost ret s m)
  note el = evict_loop.simps [of ev cost ret s m]
  show ?case
  proof (cases "sh_used s + cost > sh_capacity s \<and> evict_one ev (s, m) \<noteq> None")
    case False
    then have "(ret', s', m') = (ret, s, m)" using "1.prems"(2) by (cases "evict_one ev (s, m)") (simp_all add: el split: if_splits)
    with "1.prems"(5) show ?thesis by simp
  next
    case True
    then obtain r s1 m1 where o: "evict_one ev (s, m) = Some (r, s1, m1)" by auto
    have l: "evict_loop ev cost (retired_add ret r) (s1, m1) = (ret', s', m')"
      using "1.prems"(2) True o by (simp add: el)
    have "sh_small_capacity s \<le> sh_small_bytes s"
      using evict_loop_bytes [OF l] evict_one_bytes(1) [OF o] "1.prems"(4) by simp
    moreover have "sh_small s \<noteq> []" using calculation "1.prems"(3) shard_coreD(5) [OF "1.prems"(1)] by auto
    ultimately have "evict_small ev (s, m) = Some (r, s1, m1)"
      using o evict_small_None [of ev s m] by (auto simp: evict_one_def split: option.splits)
    then obtain p where p: "sh_small s = p # sh_small s1" "sh_main s1 = sh_main s \<or> sh_main s1 = sh_main s @ [p]"
      "\<And>q. q \<noteq> p \<Longrightarrow> m_heap m1 q = m_heap m q" by (rule evict_small_frame) blast
    have "q \<noteq> p" using shard_coreD(2) [OF "1.prems"(1)] p(1) "1.prems"(5) by auto
    moreover obtain M1 where "shard_core H ext X s1 m1 M1" using evict_one_spec [OF "1.prems"(1) o] by blast
    moreover have "q \<in> set (sh_main s1)" using p(2) "1.prems"(5) by auto
    ultimately show ?thesis
      using "1.hyps" [of "(r, s1, m1)" r "(s1, m1)" s1 m1 M1] True o l p(3) "1.prems"(3,4) evict_one_bytes(2) [OF o] by simp
  qed
qed

lemma maybe_compact_bytes:
  assumes "shard_core H ext X s m M" and "maybe_compact ev (s, m) = (s', m')"
  shows "sh_small_bytes s' \<le> sh_small_bytes s" and "set (sh_small s') \<subseteq> set (sh_small s)"
proof -
  have "sh_small_bytes s' \<le> sh_small_bytes s \<and> set (sh_small s') \<subseteq> set (sh_small s)"
  proof (cases "sh_dead_bytes s \<le> sh_capacity s div 4")
    case True
    with assms(2) show ?thesis by (simp add: maybe_compact_def)
  next
    case False
    obtain small gone c where k: "compact (m_heap m) (sh_small s) = (small, gone, c)"
      by (cases "compact (m_heap m) (sh_small s)")
    then have e: "sh_small_bytes s' = c" "sh_small s' = small"
      using assms(2) False by (auto simp: maybe_compact_def Let_def split: prod.splits)
    note sp = compact_spec [OF k]
    have "distinct small" using shard_coreD(2) [OF assms(1)] sp(1) by simp
    then have "c = (\<Sum>p \<in> set small. cost_at (m_heap m) p)" using sp(3) by (simp add: sum_list_distinct_conv_sum_set)
    also have "\<dots> \<le> (\<Sum>p \<in> set (sh_small s). cost_at (m_heap m) p)" using sp(1) by (intro sum_mono2) auto
    also have "\<dots> = sh_small_bytes s" using shard_coreD(5) [OF assms(1)] by simp
    finally show ?thesis using e sp(1) by auto
  qed
  then show "sh_small_bytes s' \<le> sh_small_bytes s" and "set (sh_small s') \<subseteq> set (sh_small s)" by simp_all
qed

lemma replace_frame:
  assumes "(case old of Some q \<Rightarrow> (let (s', m') = kill q (s\<lparr>sh_index := ix\<rparr>, m2)
        in (retired_add retired_zero (retired_one (m_heap m') q), s', retire q m'))
      | None \<Rightarrow> (retired_zero, s\<lparr>sh_index := ix\<rparr>, m2)) = (ret, s', m')"
  shows "sh_main s' = sh_main s" and "sh_small s' = sh_small s" and "sh_small_bytes s' = sh_small_bytes s"
    and "sh_ghost s' = sh_ghost s" and "sh_small_capacity s' = sh_small_capacity s"
    and "old \<noteq> Some q \<Longrightarrow> m_heap m' q = m_heap m2 q" and "old = None \<Longrightarrow> sh_dead_bytes s' = sh_dead_bytes s"
  using assms
  by (auto simp: kill_def Let_def set_dead_other split: option.splits if_splits prod.splits)

text \<open>
  The stages of a \<open>set\<close>: the entry \<open>p\<close> is indexed in place of the old one (\<open>s2\<close>), the loop has made
  room (\<open>s3\<close>), \<open>p\<close> is queued (\<open>s6\<close>), and the queues are compacted.
\<close>

lemma shard_set_stages:
  assumes "shard_core H ext {} s m M" and "alloc_ok m" and "env_ok ev m" and "shard_set ev k v (H k) (s, m) = Some (ret, s', m')"
  defines "cost \<equiv> length k + length v + ENTRY_OVERHEAD"
  obtains p ret2 s2 m3 ret3 s3 m4 g s6 M' where
    "shard_core H (ext(p := 1)) {p} s2 m3 (M(k \<mapsto> p))" "sh_main s2 = sh_main s" "sh_small s2 = sh_small s"
    "sh_small_bytes s2 = sh_small_bytes s" "sh_small_capacity s2 = sh_small_capacity s" "sh_capacity s2 = sh_capacity s"
    "sh_ghost s2 = sh_ghost s" "sh_used s2 = sh_used s - replaced_cost (m_heap m) M k"
    "\<And>q. q \<noteq> p \<Longrightarrow> M k \<noteq> Some q \<Longrightarrow> m_heap m3 q = m_heap m q" "p \<notin> queued s"
    "M k = None \<longrightarrow> sh_dead_bytes s2 = sh_dead_bytes s" "evict_loop ev cost ret2 (s2, m3) = (ret3, s3, m4)"
    "s6 = (let s5 = s3\<lparr>sh_used := sh_used s3 + cost, sh_ghost := g\<rparr>
           in if H k \<in> gh_set (sh_ghost s3) then s5\<lparr>sh_main := sh_main s3 @ [p]\<rparr>
              else s5\<lparr>sh_small_bytes := sh_small_bytes s3 + cost, sh_small := sh_small s3 @ [p]\<rparr>)"
    "shard_core H ext {} s6 m4 M'" "maybe_compact ev (s6, m4) = (s', m')"
proof -
  obtain p m1 where new: "entry_new ev (key_new k) v (H k) m = (p, m1)" by fastforce
  let ?m2 = "entry_clone p m1"
  have "index_insert (m_heap ?m2) (H k) p (sh_index s) \<noteq> None"
    using assms(4) new by (auto simp: shard_set_def Let_def split: option.splits)
  then obtain old ix where ins: "index_insert (m_heap ?m2) (H k) p (sh_index s) = Some (old, ix)" by auto
  obtain ret2 s2 m3 where old: "(case old of Some q \<Rightarrow> (let (s', m') = kill q (s\<lparr>sh_index := ix\<rparr>, ?m2)
        in (retired_add retired_zero (retired_one (m_heap m') q), s', retire q m'))
      | None \<Rightarrow> (retired_zero, s\<lparr>sh_index := ix\<rparr>, ?m2)) = (ret2, s2, m3)" by (rule prod_cases3)
  note a = qcore_alloc [OF shard_coreD(1) [OF assms(1)] assms(2,3) new]
  note i = set_indexes [OF assms(1-3) new ins old] and rf = replace_frame [OF old]
  have cost: "cost_at (m_heap m1) p = cost" using a(5,6) by (simp add: cost_at_def cost_def)
  obtain ret3 s3 m4 where ev: "evict_loop ev cost ret2 (s2, m3) = (ret3, s3, m4)" by (rule prod_cases3)
  define g where "g = snd (ghost_take (H k) (sh_ghost s3))"
  define s6 where "s6 = (let s5 = s3\<lparr>sh_used := sh_used s3 + cost, sh_ghost := g\<rparr>
           in if H k \<in> gh_set (sh_ghost s3) then s5\<lparr>sh_main := sh_main s3 @ [p]\<rparr>
              else s5\<lparr>sh_small_bytes := sh_small_bytes s3 + cost, sh_small := sh_small s3 @ [p]\<rparr>)"
  have cpt: "maybe_compact ev (s6, m4) = (s', m')"
    using assms(4) unfolding shard_set_def Let_def prod.case new ins option.case old [unfolded Let_def] cost ev
    by (auto simp: s6_def g_def ghost_take_def Let_def split: if_splits prod.splits)
  obtain M' where l: "shard_core H (ext(p := 1)) {p} s3 m4 M'" "evicts ev {p} (s2, m3, M(k \<mapsto> p)) (s3, m4, M')"
    using evict_loop_spec [OF i(1) ev] by blast
  have "p \<in> ran M'" using qcoreD(5) [OF shard_coreD(1) [OF l(1)]] by blast
  then have "p \<in> dom (m_heap m4)" using qcore_dom [OF shard_coreD(1) [OF l(1)]] by blast
  moreover have "changes ev (queued s) ?m2 m4" using changes_trans [OF i(5)] l(2) rf(1,2) by (auto simp: evicts_def)
  ultimately have cost4: "cost_at (m_heap m4) p = cost" using keeps_cost [OF changes_keeps] cost by fastforce
  have core6: "shard_core H ext {} s6 m4 M'"
    by (rule shard_core_push [OF l(1) a(3), where g = g]) (simp add: s6_def cost4 Let_def)
  show thesis
  proof (rule that [OF i(1) rf(1-3,5) i(6) rf(4) i(3) _ _ _ ev s6_def core6 cpt])
    show "m_heap m3 q = m_heap m q" if "q \<noteq> p" "M k \<noteq> Some q" for q using rf(6) a(9) i(2) that by simp
    show "p \<notin> queued s" using a(2) by blast
    show "M k = None \<longrightarrow> sh_dead_bytes s2 = sh_dead_bytes s" using rf(7) i(2) by simp
  qed
qed

text \<open>
  C13. A scan does not reach the main queue. If after a \<open>set\<close> the small queue holds its share of the
  budget (which is not zero) besides what was just written, then a key that was found in the main queue is found there
  still, with the same entry: however much had to be evicted was taken from the small queue.
\<close>

theorem set_spares_main:
  assumes "shard_ok H ext s m" and "alloc_ok m" and "env_ok ev m"
    and "shard_set ev k v (H k) (s, m) = Some (ret, s', m')"
    and "0 < sh_small_capacity s"
    and "sh_small_capacity s + (length k + length v + ENTRY_OVERHEAD) \<le> sh_small_bytes s'"
    and "shard_get s m (H k') k' = Some q" and "q \<in> set (sh_main s)" and "k' \<noteq> k"
  shows "shard_get s' m' (H k') k' = Some q \<and> q \<in> set (sh_main s')"
proof -
  let ?M = "shard_map H s m"
  have core: "shard_core H ext {} s m ?M" using assms(1) by (simp add: shard_ok_def)
  have Mq: "?M k' = Some q" using assms(7) by (simp add: shard_map_def)
  obtain p ret2 s2 m3 ret3 s3 m4 g s6 M' where
    st: "shard_core H (ext(p := 1)) {p} s2 m3 (?M(k \<mapsto> p))" "sh_main s2 = sh_main s"
      "sh_small_capacity s2 = sh_small_capacity s"
      "\<And>q. q \<noteq> p \<Longrightarrow> ?M k \<noteq> Some q \<Longrightarrow> m_heap m3 q = m_heap m q" "p \<notin> queued s"
      "evict_loop ev (length k + length v + ENTRY_OVERHEAD) ret2 (s2, m3) = (ret3, s3, m4)"
      "s6 = (let s5 = s3\<lparr>sh_used := sh_used s3 + (length k + length v + ENTRY_OVERHEAD), sh_ghost := g\<rparr>
           in if H k \<in> gh_set (sh_ghost s3) then s5\<lparr>sh_main := sh_main s3 @ [p]\<rparr>
              else s5\<lparr>sh_small_bytes := sh_small_bytes s3 + (length k + length v + ENTRY_OVERHEAD), sh_small := sh_small s3 @ [p]\<rparr>)"
      "shard_core H ext {} s6 m4 M'" "maybe_compact ev (s6, m4) = (s', m')"
    using core assms(2-4) by (rule shard_set_stages) blast
  note mc = maybe_compact_spec [OF st(8,9)] and mb = maybe_compact_bytes [OF st(8,9)]
  have share: "sh_small_capacity s2 \<le> sh_small_bytes s3"
    using mb(1) assms(6) unfolding st(3,7) by (auto simp: Let_def split: if_splits)
  have "?M k \<noteq> Some q" using Mq assms(9) qcore_key [OF shard_coreD(1) [OF core]] by metis
  moreover have "q \<noteq> p" using st(5) assms(8) by auto
  ultimately have m3: "m_heap m3 q = m_heap m q" using st(4) by blast
  have q3: "q \<in> set (sh_main s3)" "m_heap m4 q = m_heap m3 q"
    using evict_loop_spares_main [OF st(1,6) _ share] assms(5,8) st(2,3) by simp_all
  have live: "live_at (m_heap m4) q" "key_at (m_heap m4) q = k'"
    using q3(2) m3 qcoreD(7) [OF shard_coreD(1) [OF core], of q] assms(8) Mq qcore_key [OF shard_coreD(1) [OF core] Mq]
    by (simp_all add: entry_fields)
  have q6: "q \<in> set (sh_main s6)" using q3(1) unfolding st(7) by (simp add: Let_def)
  then have M': "M' k' = Some q" using qcoreD(7) [OF shard_coreD(1) [OF st(8)], of q] live by simp
  have "q \<in> queued s'" using qcoreD(4) [OF shard_coreD(1) [OF mc(1)]] M' by (auto simp: ran_def)
  moreover have "q \<notin> set (sh_small s')" using mb(2) q6 shard_coreD(2) [OF st(8)] by auto
  moreover have "shard_get s' m' (H k') k' = Some q"
    using cuckoo.fetch [OF qcoreD(1) [OF shard_coreD(1) [OF mc(1)]], of k'] M' by (simp add: shard_get_def)
  ultimately show ?thesis by simp
qed

section \<open>Storing with room to spare\<close>

lemma shard_set_room:
  assumes "shard_core H ext {} s m M" and "alloc_ok m" and "env_ok ev m" and "shard_set ev k v (H k) (s, m) = Some (ret, s', m')"
    and "sh_used s + (length k + length v + ENTRY_OVERHEAD) \<le> sh_capacity s" and "H k \<notin> gh_set (sh_ghost s)"
    and "M k = None" and "sh_dead_bytes s \<le> sh_capacity s div 4"
  shows "sh_main s' = sh_main s" and "sh_small_bytes s' = sh_small_bytes s + (length k + length v + ENTRY_OVERHEAD)"
    and "\<exists>p. sh_small s' = sh_small s @ [p]"
proof -
  obtain p ret2 s2 m3 ret3 s3 m4 g s6 where
    st: "shard_core H (ext(p := 1)) {p} s2 m3 (M(k \<mapsto> p))" "sh_main s2 = sh_main s" "sh_small s2 = sh_small s"
      "sh_small_bytes s2 = sh_small_bytes s" "sh_capacity s2 = sh_capacity s" "sh_ghost s2 = sh_ghost s"
      "sh_used s2 = sh_used s - replaced_cost (m_heap m) M k"
      "M k = None \<longrightarrow> sh_dead_bytes s2 = sh_dead_bytes s" "evict_loop ev (length k + length v + ENTRY_OVERHEAD) ret2 (s2, m3) = (ret3, s3, m4)"
      "s6 = (let s5 = s3\<lparr>sh_used := sh_used s3 + (length k + length v + ENTRY_OVERHEAD), sh_ghost := g\<rparr>
           in if H k \<in> gh_set (sh_ghost s3) then s5\<lparr>sh_main := sh_main s3 @ [p]\<rparr>
              else s5\<lparr>sh_small_bytes := sh_small_bytes s3 + (length k + length v + ENTRY_OVERHEAD), sh_small := sh_small s3 @ [p]\<rparr>)"
      "maybe_compact ev (s6, m4) = (s', m')"
    using assms(1-4) by (rule shard_set_stages) (rule that)
  have "s3 = s2" using st(9) assms(5) st(5,7) by (simp add: evict_loop.simps [of ev _ ret2 s2 m3] split: if_splits)
  moreover have "s' = s6"
    using calculation st(5,8,10,11) assms(7,8) by (simp add: maybe_compact_def Let_def split: if_splits)
  ultimately show "sh_main s' = sh_main s" "sh_small_bytes s' = sh_small_bytes s + (length k + length v + ENTRY_OVERHEAD)"
    "\<exists>p. sh_small s' = sh_small s @ [p]"
    using st(2-4,6,10) assms(6) by (simp_all add: Let_def)
qed

section \<open>A shard with a key in either queue\<close>

definition busy_entry :: "bytes \<Rightarrow> nat \<Rightarrow> entry" where
  "busy_entry k f = \<lparr>en_rc = 2, en_value = [1], en_key = key_new k, en_hash = 5, en_freq = f, en_live = True,
     en_class = GLIBC_CLASS\<rparr>"

definition busy_mem :: memory where
  "busy_mem = (mem_new 1)\<lparr>m_heap := [3000000000000 \<mapsto> busy_entry [7] 1, 4000000000000 \<mapsto> busy_entry [8] 0]\<rparr>"

definition busy_shard :: "index \<Rightarrow> shard" where
  "busy_shard ix = (shard_new 1000)\<lparr>sh_main := [3000000000000], sh_small := [4000000000000], sh_used := 260, sh_small_bytes := 130, sh_index := ix\<rparr>"

lemma busy_at:
  "key_at (m_heap busy_mem) (3000000000000) = [7]" "key_at (m_heap busy_mem) (4000000000000) = [8]"
  "p = 3000000000000 \<or> p = 4000000000000 \<Longrightarrow> hash_at (m_heap busy_mem) p = 5 \<and> live_at (m_heap busy_mem) p \<and> cost_at (m_heap busy_mem) p = 130"
  "freq_at (m_heap busy_mem) (3000000000000) = 1" "freq_at (m_heap busy_mem) (4000000000000) = 0"
  by (auto simp: busy_mem_def busy_entry_def entry_fields cost_at_def ENTRY_OVERHEAD_def)

lemma busy_slab: "heap_chunks (m_heap busy_mem) = {#}" "slab_addrs (m_heap busy_mem) = {}" "m_slab busy_mem = m_slab (mem_new 1)"
proof -
  show "slab_addrs (m_heap busy_mem) = {}" by (auto simp: slab_addrs_def busy_mem_def busy_entry_def deref_def)
  then show "heap_chunks (m_heap busy_mem) = {#}" by (simp add: heap_chunks_def)
  show "m_slab busy_mem = m_slab (mem_new 1)" by (simp add: busy_mem_def)
qed

lemma busy_dom: "dom (m_heap busy_mem) = {3000000000000, 4000000000000}"
  by (auto simp: busy_mem_def)

lemma busy_env: "alloc_ok busy_mem" "env_ok demo_env busy_mem"
proof -
  have h: "heap_chunks (m_heap (mem_new n)) = {#}" for n by (simp add: mem_new_def heap_chunks_def slab_addrs_def)
  have o: "owned (m_slab (mem_new n)) {#} = {}" for n
    by (simp add: owned_def mem_new_def chunks_init) (simp add: slab_init_def)
  show "alloc_ok busy_mem"
    using mem_new_ok(1) [of 1] by (simp add: alloc_ok_def busy_slab busy_dom h o)
  have "region 4096 \<inter> {3000000000000, 4000000000000} = {}"
    using map_region_bounds [of 4096] by (simp add: region_def REGION_def HUGE_def)
  then show "env_ok demo_env busy_mem"
    using demo_env_ok unfolding env_ok_def busy_slab busy_dom by (simp add: h o demo_env_def)
qed

lemma spread_few:
  assumes "finite A" and "card A \<le> SLOTS"
  shows "spread b H A"
  unfolding spread_def using card_mono [OF assms(1)] assms(2) by (metis (no_types, lifting) mem_Collect_eq order_trans subsetI)

lemma busy_index:
  obtains ix where "ix_rep (\<lambda>_. 5) (m_heap busy_mem) ix [[7] \<mapsto> 3000000000000, [8] \<mapsto> 4000000000000]"
    "64 \<le> length (t_buckets (ix_table ix))" "length (t_buckets (ix_table ix)) \<le> 256"
proof -
  let ?H = "\<lambda>_ :: bytes. 5 :: u64" and ?h = "m_heap busy_mem"
  have ins: "insertable ?H ?h 3000000000000" "insertable ?H ?h 4000000000000" by (simp_all add: insertable_def busy_at)
  have "\<exists>old ix. index_insert ?h (?H (key_at ?h 3000000000000)) 3000000000000 index_new = Some (old, ix) \<and>
      length (t_buckets (ix_table ix)) \<le> 2 * length (t_buckets (ix_table index_new))"
    by (rule index_insert_returns [OF ix_rep_new, where k = 6]) (simp_all add: busy_at spread_few SLOTS_def index_new_size)
  then obtain old ix where i: "index_insert ?h 5 3000000000000 index_new = Some (old, ix)"
    "length (t_buckets (ix_table ix)) \<le> 128" by (auto simp: index_new_size)
  then have r1: "ix_rep ?H ?h ix [[7] \<mapsto> 3000000000000]"
    using cuckoo.add [OF ix_rep_new ins(1), of old ix] by (simp add: busy_at)
  have sz: "64 \<le> length (t_buckets (ix_table x))" if r: "ix_rep ?H ?h x M" for x M
  proof -
    obtain k where "tab_shape k (ix_table x)" using tab_ok_shape [OF ix_rep_ok [OF r]] by blast
    then show ?thesis using power_increasing [of 6 k "2 :: nat"] by (simp add: tab_shape_def)
  qed
  have "\<exists>old ix'. index_insert ?h (?H (key_at ?h 4000000000000)) 4000000000000 ix = Some (old, ix') \<and>
      length (t_buckets (ix_table ix')) \<le> 2 * length (t_buckets (ix_table ix))"
    by (rule index_insert_returns [OF r1, where k = 6])
      (use sz [OF r1] i(2) in \<open>simp_all add: busy_at spread_few SLOTS_def\<close>)
  then obtain old' ix' where i': "index_insert ?h 5 4000000000000 ix = Some (old', ix')"
    "length (t_buckets (ix_table ix')) \<le> 256" using i(2) by auto
  then have "ix_rep ?H ?h ix' [[7] \<mapsto> 3000000000000, [8] \<mapsto> 4000000000000]"
    using cuckoo.add [OF r1 ins(2), of old' ix'] by (simp add: busy_at)
  with i'(2) sz show thesis by (blast intro: that)
qed

lemma busy_ok:
  assumes "ix_rep (\<lambda>_. 5) (m_heap busy_mem) ix [[7] \<mapsto> 3000000000000, [8] \<mapsto> 4000000000000]"
  shows "shard_ok (\<lambda>_. 5) (\<lambda>_. 0) (busy_shard ix) busy_mem"
    and "shard_map (\<lambda>_. 5) (busy_shard ix) busy_mem = [[7] \<mapsto> 3000000000000, [8] \<mapsto> 4000000000000]"
proof -
  let ?M = "[[7] \<mapsto> 3000000000000, [8] \<mapsto> 4000000000000] :: bytes \<rightharpoonup> nat" and ?h = "m_heap busy_mem"
  have q: "queued (busy_shard ix) = {3000000000000, 4000000000000}" by (auto simp: busy_shard_def)
  have "qcore (\<lambda>_. 5) (\<lambda>_. 0) {} {3000000000000, 4000000000000} ix busy_mem ?M"
  proof (rule qcoreI [OF assms])
    show "mem_ok busy_mem (hcount (\<lambda>_. 0) {3000000000000, 4000000000000} busy_mem ?M)"
      by (auto simp: mem_ok_def hcount_def busy_mem_def busy_entry_def mem_new_def)
  qed (auto simp: busy_at insertable_def)
  moreover have "live_cost ?h {3000000000000, 4000000000000} = 260"
  proof -
    have "{p \<in> {3000000000000, 4000000000000}. live_at ?h p} = {3000000000000, 4000000000000 :: nat}" by (auto simp: busy_at)
    then show ?thesis unfolding live_cost_def by (simp add: busy_at)
  qed
  moreover have "dead_cost ?h {3000000000000, 4000000000000} = 0"
  proof -
    have "{p \<in> {3000000000000, 4000000000000}. \<not> live_at ?h p} = {}" by (auto simp: busy_at)
    then show ?thesis unfolding dead_cost_def by (simp only: sum.empty)
  qed
  ultimately have core: "shard_core (\<lambda>_. 5) (\<lambda>_. 0) {} (busy_shard ix) busy_mem ?M"
    unfolding shard_core_def q by (simp add: busy_shard_def busy_at)
  from shard_ok_map [OF core] show "shard_ok (\<lambda>_. 5) (\<lambda>_. 0) (busy_shard ix) busy_mem"
    and "shard_map (\<lambda>_. 5) (busy_shard ix) busy_mem = ?M" by blast+
qed

theorem set_spares_main_witness:
  "\<exists>ix ret s' m'. shard_set demo_env [9] [1] 5 (busy_shard ix, busy_mem) = Some (ret, s', m') \<and>
     shard_get s' m' 5 [7] = Some (3000000000000) \<and> 3000000000000 \<in> set (sh_main s')"
proof -
  obtain ix where ix: "ix_rep (\<lambda>_. 5) (m_heap busy_mem) ix [[7] \<mapsto> 3000000000000, [8] \<mapsto> 4000000000000]"
    "64 \<le> length (t_buckets (ix_table ix))" "length (t_buckets (ix_table ix)) \<le> 256" by (rule busy_index)
  note ok = busy_ok [OF ix(1)]
  have sz: "sh_index (busy_shard ix) = ix" by (simp add: busy_shard_def)
  note g = shard_get_map [OF ok(1) [unfolded shard_ok_def], unfolded ok(2)]
  have "\<exists>r. shard_set demo_env [9] [1] 5 (busy_shard ix, busy_mem) = Some r"
    by (rule shard_set_terminates [OF ok(1) busy_env, where b = 6])
      (use ix(2,3) in \<open>simp_all add: ok(2) spread_few SLOTS_def card_insert_if sz\<close>)
  then obtain ret s' m' where s: "shard_set demo_env [9] [1] 5 (busy_shard ix, busy_mem) = Some (ret, s', m')" by auto
  have "sh_small_bytes s' = 260"
    using shard_set_room(2) [OF ok(1) [unfolded shard_ok_def ok(2)] busy_env, of "[9]" "[1]" ret s' m'] s
    by (simp add: busy_shard_def shard_new_def ENTRY_OVERHEAD_def)
  with set_spares_main [OF ok(1) busy_env, of "[9]" "[1]" ret s' m' "[7]" "3000000000000"] s g [of "[7]"]
  show ?thesis by (auto simp: busy_shard_def shard_new_def ENTRY_OVERHEAD_def)
qed

theorem evict_main_is_clock_witness:
  "\<exists>r s' m'. evict_main demo_env ((shard_new 1000)\<lparr>sh_main := [3000000000000, 4000000000000]\<rparr>, busy_mem) = Some (r, s', m') \<and>
     sh_main s' = [3000000000000] \<and> rank (m_heap m') (3000000000000) = 0"
proof -
  let ?s = "(shard_new 1000)\<lparr>sh_main := [3000000000000, 4000000000000]\<rparr>"
  obtain r s' m' where e: "evict_main demo_env (?s, busy_mem) = Some (r, s', m')"
    using evict_main_None [of demo_env ?s busy_mem] by (cases "evict_main demo_env (?s, busy_mem)") auto
  have k: "rank (m_heap busy_mem) (3000000000000) = 1" "rank (m_heap busy_mem) (4000000000000) = 0" by (simp_all add: rank_def busy_at)
  obtain i where i: "clock_turn (rank (m_heap busy_mem)) [3000000000000, 4000000000000] i (sh_main s') (rank (m_heap m'))"
    using evict_main_is_clock [OF _ e] by auto
  then have "i = 1" using k by (auto simp: clock_turn_def first_min_def less_Suc_eq numeral_2_eq_2)
  with i k e show ?thesis by (auto simp: clock_turn_def dest: spec [of _ 0])
qed

end
