(* ===== verification/Teardown.thy ===== *)
theory Teardown
  imports Shard_Inv
begin

text \<open>
  Giving memory back: \<open>Drop\<close> of \<open>Table\<close> and \<open>Index\<close> in \<^verbatim>\<open>crates/server/src/cache/table.rs\<close>, and the
  drop of a whole shard, which is that of its index and its two queues. An owning table releases one
  handle per slot in use.
\<close>

definition table_drop :: "env \<Rightarrow> bool \<Rightarrow> table \<Rightarrow> memory \<Rightarrow> memory" where
  "table_drop ev owns t m =
     (if owns then fold (\<lambda>w m. if w \<noteq> 0 then entry_drop ev (entry_ptr w) m else m) (concat (t_buckets t)) m else m)"

definition index_drop :: "env \<Rightarrow> index \<Rightarrow> memory \<Rightarrow> memory" where
  "index_drop ev ix m = table_drop ev True (ix_table ix) m"

definition shard_drop :: "env \<Rightarrow> shard \<Rightarrow> memory \<Rightarrow> memory" where
  "shard_drop ev s m = fold (entry_drop ev) (sh_main s) (fold (entry_drop ev) (sh_small s) (index_drop ev (sh_index s) m))"

section \<open>Handles given back\<close>

lemma drops_mem_ok:
  "mem_ok m (\<lambda>p. count (mset ps) p + hc p) \<Longrightarrow> mem_ok (fold (entry_drop ev) ps m) hc"
proof (induction ps arbitrary: m)
  case (Cons p ps)
  let ?hc = "\<lambda>q. count (mset (p # ps)) q + hc q"
  have "mem_ok (entry_drop ev p m) (?hc(p := ?hc p - 1))" using Cons.prems by (intro entry_drop_mem_ok) simp_all
  moreover have "?hc(p := ?hc p - 1) = (\<lambda>q. count (mset ps) q + hc q)" by (auto simp: fun_eq_iff)
  ultimately show ?case using Cons.IH by simp
qed simp

definition handles :: "table \<Rightarrow> nat list" where
  "handles t = map entry_ptr (filter (\<lambda>w. w \<noteq> 0) (concat (t_buckets t)))"

lemma table_drop_fold: "table_drop ev True t m = fold (entry_drop ev) (handles t) m"
proof -
  have "fold (\<lambda>w m. if w \<noteq> 0 then entry_drop ev (entry_ptr w) m else m) ws m =
      fold (entry_drop ev) (map entry_ptr (filter (\<lambda>w. w \<noteq> 0) ws)) m" for ws
    by (induction ws arbitrary: m) simp_all
  then show ?thesis by (simp add: table_drop_def handles_def)
qed

text \<open>The slots of a sound table refer to different entries, those of its words.\<close>

lemma handles_count:
  assumes "tab_ok h t" and "inj_on entry_ptr (words t)"
  shows "set (handles t) = entry_ptr ` words t" and "count (mset (handles t)) p = of_bool (p \<in> entry_ptr ` words t)"
proof -
  show w: "set (handles t) = entry_ptr ` words t"
    unfolding handles_def set_map by (simp only: rehash_words(1) [OF assms(1)])
  have "distinct (handles t)"
    using rehash_words [OF assms(1)] assms(2) by (simp add: handles_def distinct_map del: set_filter)
  then show "count (mset (handles t)) p = of_bool (p \<in> entry_ptr ` words t)"
    by (simp add: distinct_count_atmost_1 w)
qed

lemma index_ptrs:
  assumes "ix_rep H h ix M"
  shows "inj_on entry_ptr (words (ix_table ix))" and "entry_ptr ` words (ix_table ix) = ran M"
proof -
  show "inj_on entry_ptr (words (ix_table ix))" using ix_rep_unique [OF assms] by (intro inj_onI) metis
  show "entry_ptr ` words (ix_table ix) = ran M"
  proof
    show "entry_ptr ` words (ix_table ix) \<subseteq> ran M" using ix_rep_word(1) [OF assms] by (auto intro: ranI)
    show "ran M \<subseteq> entry_ptr ` words (ix_table ix)" using assms by (auto simp: ix_rep_def ran_def)
  qed
qed

text \<open>
  C36. A shard that is dropped gives back every handle it has, each once: what remains of its
  entries is what the collector has yet to drop or a reader still holds, and nothing else is left
  allocated.
\<close>

theorem shard_drop_frees:
  assumes "shard_ok H ext s m"
  shows "mem_ok (shard_drop ev s m) (\<lambda>p. count (mset (m_retired m)) p + ext p) \<and>
    dom (m_heap (shard_drop ev s m)) = set (m_retired m) \<union> {p. 0 < ext p}"
proof -
  let ?M = "shard_map H s m" and ?hc = "\<lambda>p. count (mset (m_retired m)) p + ext p"
  note c = shard_coreD [OF assms [unfolded shard_ok_def]]
  note q = qcoreD [OF c(1)]
  have h: "count (mset (handles (ix_table (sh_index s)))) p = of_bool (p \<in> ran ?M)" for p
    using handles_count(2) [OF ix_rep_ok [OF q(1)] index_ptrs(1) [OF q(1)]] index_ptrs(2) [OF q(1)] by simp
  have "of_bool (p \<in> queued s) = count (mset (sh_small s)) p + count (mset (sh_main s)) p" for p
    using c(2) by (auto simp: distinct_count_atmost_1 not_in_iff)
  then have "hcount ext (queued s) m ?M = (\<lambda>p. count (mset (handles (ix_table (sh_index s)))) p +
      (count (mset (sh_small s)) p + (count (mset (sh_main s)) p + ?hc p)))"
    by (simp add: hcount_def h fun_eq_iff)
  with q(2) have "mem_ok m (\<lambda>p. count (mset (handles (ix_table (sh_index s)))) p +
      (count (mset (sh_small s)) p + (count (mset (sh_main s)) p + ?hc p)))" by simp
  then have ok: "mem_ok (shard_drop ev s m) ?hc"
    unfolding shard_drop_def index_drop_def table_drop_fold by (intro drops_mem_ok)
  then show ?thesis using mem_ok_dom [OF ok] by auto
qed

section \<open>What a retried growth gives back\<close>

text \<open>
  The table a failed attempt of \<open>grow\<close> leaves behind is never empty, and all it holds are words of
  the table being replaced.
\<close>

lemma place_failed:
  assumes "tab_shape k t" and "place ix t hash w live = (False, t', ix')"
  shows "words t \<noteq> {}"
proof -
  have "empty_slot (get_bucket t (home t hash)) = None"
    using place_home_free [of t hash _ ix w live] assms(2) by (cases "empty_slot (get_bucket t (home t hash))") auto
  moreover have "0 < SLOTS" by (simp add: SLOTS_def)
  ultimately have "(home t hash, 0) \<in> slots t" "load t (home t hash, 0) \<noteq> 0"
    using empty_slot_None [OF assms(1) home_less [OF assms(1)]] slotsI [OF assms(1) home_less [OF assms(1)]] by auto
  then show ?thesis by (auto simp: words_def)
qed

lemma rehash_failed:
  assumes "tab_shape k t" and "tab_ok h t" and "distinct (filter (\<lambda>w. w \<noteq> 0) ws)"
    and "words t \<inter> set ws = {}" and "tagged h (set ws - {0})" and "rehash h ws t ix = (False, t', ix')"
  shows "tab_ok h t' \<and> words t' \<noteq> {} \<and> words t' \<subseteq> words t \<union> (set ws - {0})"
  using assms
proof (induction ws arbitrary: t ix)
  case (Cons w ws)
  show ?case
  proof (cases "w = 0")
    case True
    with Cons.IH [OF Cons.prems(1,2), of ix] Cons.prems show ?thesis by simp
  next
    case False
    obtain ok1 t1 ix1 where p: "place ix t (hash_at h (entry_ptr w)) w False = (ok1, t1, ix1)"
      by (metis prod_cases3)
    have w: "w \<notin> words t" "tag_of_word w = tag_of (hash_at h (entry_ptr w))"
      using Cons.prems(4,5) False by (auto simp: tagged_def)
    have s: "tab_shape k t1" "if ok1 then tab_ok h t1 \<and> words t1 = insert w (words t) else t1 = t"
      using place_spec [OF Cons.prems(1,2) False w refl p] by auto
    show ?thesis
    proof (cases ok1)
      case True
      have dj: "words t1 \<inter> set ws = {}" using s(2) True Cons.prems(3,4) False by auto
      have "tagged h (set ws - {0})" using Cons.prems(5) by (auto simp: tagged_def)
      from Cons.IH [OF s(1) _ _ dj this, of ix1] True s(2) Cons.prems(3,6) False p
      show ?thesis by auto
    next
      case f: False
      with False p Cons.prems(2,6) s(2) place_failed [OF Cons.prems(1)] show ?thesis by auto
    qed
  qed
qed simp

lemma mem_ok_unique: "mem_ok m hc \<Longrightarrow> mem_ok m hc' \<Longrightarrow> hc = hc'"
proof
  fix p assume "mem_ok m hc" "mem_ok m hc'"
  then show "hc p = hc' p" by (cases "m_heap m p") (auto simp: mem_ok_def dest!: spec [of _ p])
qed

text \<open>
  Each attempt's table owns what it holds from the start, so giving up an attempt drops one handle
  for every entry it placed, handles the old table still has: the counts no longer match the handles.
\<close>

theorem grow_retry_breaks_counts:
  assumes "ix_rep H (m_heap m) ix M" and "mem_ok m hc" and "\<forall>p \<in> ran M. 0 < hc p" and "table_fits n"
    and "rehash (m_heap m) (concat (t_buckets (ix_table ix))) (table_new n) ix = (False, t, ix')"
  shows "\<not> mem_ok (table_drop ev True t m) hc"
proof
  assume bad: "mem_ok (table_drop ev True t m) hc"
  let ?ws = "concat (t_buckets (ix_table ix))"
  note ok = ix_rep_ok [OF assms(1)] and new = table_new_ok [OF assms(4), of "m_heap m"]
  obtain k where k: "tab_shape k (table_new n)" using new by (auto simp: tab_ok_def)
  have ws: "set ?ws - {0} = words (ix_table ix)" using rehash_words(1) [OF ok] by (simp add: set_diff_eq)
  have t: "tab_ok (m_heap m) t" "words t \<noteq> {}" "words t \<subseteq> words (ix_table ix)"
    using rehash_failed [OF k _ rehash_words(2) [OF ok] _ _ assms(5)] new ws tab_ok_tagged [OF ok] by auto
  have hs: "count (mset (handles t)) p = of_bool (p \<in> entry_ptr ` words t)" for p
    by (rule handles_count(2) [OF t(1) inj_on_subset [OF index_ptrs(1) [OF assms(1)] t(3)]])
  have le: "count (mset (handles t)) p \<le> hc p" for p
    using assms(3) index_ptrs(2) [OF assms(1)] t(3) by (force simp: hs of_bool_def)
  have "mem_ok m (\<lambda>p. count (mset (handles t)) p + (hc p - count (mset (handles t)) p))"
    using assms(2) le by simp
  then have "mem_ok (table_drop ev True t m) (\<lambda>p. hc p - count (mset (handles t)) p)"
    unfolding table_drop_fold by (rule drops_mem_ok)
  from mem_ok_unique [OF bad this] have "count (mset (handles t)) p = 0" for p
    using le [of p] by (metis diff_diff_cancel diff_self_eq_0)
  then show False using t(2) by (auto simp: hs)
qed

subsection \<open>Witnesses\<close>

theorem shard_drop_frees_witness:
  "\<exists>ret s m. shard_set demo_env [7] [1] 5 (shard_new 1000, mem_new 1) = Some (ret, s, m) \<and>
     shard_get s m 5 [7] \<noteq> None \<and> dom (m_heap (shard_drop demo_env s m)) = set (m_retired m)"
proof -
  obtain ret s m where s: "shard_set demo_env [7] [1] 5 (shard_new 1000, mem_new 1) = Some (ret, s, m)" by (rule demo_set)
  obtain p m2 M where 1: "shard_core (\<lambda>_. 5) (\<lambda>_. 0) {} s m M" "M [7] = Some p"
    using shard_set_spec [OF shard_ok_new [unfolded shard_ok_def] mem_new_ok(1) demo_env_ok, of "[7]" "[1]" "\<lambda>_. 5" 1000 ret s m] s
    by metis
  then have ok: "shard_ok (\<lambda>_. 5) (\<lambda>_. 0) s m" "shard_get s m 5 [7] = Some p"
    using shard_ok_map [OF 1(1)] shard_get_map [OF 1(1)] by auto
  show ?thesis using shard_drop_frees [OF ok(1), of demo_env] ok(2) s by auto
qed

end
