(* ===== verification/Value_Copy.thy ===== *)
theory Value_Copy
  imports Entry
begin

text \<open>
  Copying a value into its entry, \<open>copy_value\<close> and \<open>copy_nontemporal\<close> of
  \<^verbatim>\<open>crates/server/src/cache/s3fifo.rs\<close>. Memory here is bytes by address. The vector loop
  also records the addresses it stores to, as the instruction faults on an unaligned one. What the
  rest of the development takes \<open>Entry::new\<close> to do, to store the value, is shown to be what this does.
\<close>

type_synonym raw = "nat \<Rightarrow> u8"

definition put_bytes :: "nat \<Rightarrow> bytes \<Rightarrow> raw \<Rightarrow> raw" where
  "put_bytes d bs m = (\<lambda>a. if d \<le> a \<and> a < d + length bs then bs ! (a - d) else m a)"

definition VEC :: nat where "VEC = 32"

text \<open>\<open>align_offset\<close> on bytes: how far the next multiple is.\<close>

definition align_offset :: "nat \<Rightarrow> nat \<Rightarrow> nat" where
  "align_offset p a = (a - p mod a) mod a"

function nt_loop :: "bytes \<Rightarrow> nat \<Rightarrow> nat \<Rightarrow> nat \<Rightarrow> nat list \<times> raw \<Rightarrow> nat list \<times> raw" where
  "nt_loop src d body i (at, m) =
     (if i < body then nt_loop src d body (i + VEC) (at @ [d + i], put_bytes (d + i) (take VEC (drop i src)) m)
      else (at, m))"
  by pat_completeness auto
termination
  by (relation "measure (\<lambda>(_, _, body, i, _). body - i)") (auto simp: VEC_def)

declare nt_loop.simps [simp del]

definition copy_nontemporal :: "nat \<Rightarrow> bytes \<Rightarrow> raw \<Rightarrow> nat list \<times> raw" where
  "copy_nontemporal dst src m =
     (let head = min (align_offset dst VEC) (length src);
          body = (length src - head) div VEC * VEC;
          m1 = put_bytes dst (take head src) m;
          (at, m2) = nt_loop (drop head src) (dst + head) body 0 ([], m1);
          fin = head + body
      in (at, put_bytes (dst + fin) (drop fin src) m2))"

definition copy_value :: "bool \<Rightarrow> nat \<Rightarrow> bytes \<Rightarrow> raw \<Rightarrow> nat list \<times> raw" where
  "copy_value avx dst src m =
     (if length src \<ge> NT_MIN \<and> avx then copy_nontemporal dst src m else ([], put_bytes dst src m))"

section \<open>Stores\<close>

lemma put_bytes_Nil [simp]: "put_bytes d [] m = m"
  by (auto simp: put_bytes_def fun_eq_iff)

lemma put_bytes_append: "put_bytes (d + length xs) ys (put_bytes d xs m) = put_bytes d (xs @ ys) m"
  by (auto simp: put_bytes_def nth_append fun_eq_iff)

lemma align_offset_aligned: "0 < a \<Longrightarrow> (p + align_offset p a) mod a = 0 \<and> align_offset p a < a"
proof -
  assume a: "0 < a"
  have "(p + (a - p mod a)) mod a = (p mod a + (a - p mod a)) mod a" by (simp add: mod_add_left_eq)
  also have "\<dots> = 0" using a by (simp add: less_imp_le)
  finally show ?thesis using a by (simp add: align_offset_def mod_add_right_eq)
qed

text \<open>After the loop everything from \<open>i\<close> to \<open>body\<close> is stored, in whole vectors.\<close>

lemma nt_loop_stores:
  assumes "body \<le> length src" and "i mod VEC = 0" and "body mod VEC = 0" and "i \<le> body"
  shows "nt_loop src d body i (at, put_bytes d (take i src) m) =
    (at @ map (\<lambda>k. d + i + k * VEC) [0 ..< (body - i) div VEC], put_bytes d (take body src) m)"
  using assms(2,4)
proof (induction "body - i" arbitrary: i at rule: less_induct)
  case less
  note el = nt_loop.simps [of src d body i at]
  show ?case
  proof (cases "i < body")
    case False
    with less.prems have "i = body" by simp
    then show ?thesis by (simp add: nt_loop.simps)
  next
    case True
    obtain a b where ab: "i = VEC * a" "body = VEC * b" using less.prems(1) assms(3) by (metis mod_0_imp_dvd dvdE)
    have "a < b" using True ab by (simp add: VEC_def)
    then have le: "i + VEC \<le> body" using ab by (simp add: VEC_def)
    have st: "put_bytes (d + i) (take VEC (drop i src)) (put_bytes d (take i src) m) = put_bytes d (take (i + VEC) src) m"
      using put_bytes_append [of d "take i src" "take VEC (drop i src)" m] True assms(1) by (simp add: take_add)
    have "(i + VEC) mod VEC = 0" using less.prems(1) by simp
    from less.hyps [OF _ this le, of "at @ [d + i]"] True le
    have ih: "nt_loop src d body (i + VEC) (at @ [d + i], put_bytes d (take (i + VEC) src) m) =
        ((at @ [d + i]) @ map (\<lambda>k. d + (i + VEC) + k * VEC) [0 ..< (body - (i + VEC)) div VEC], put_bytes d (take body src) m)"
      by (simp add: VEC_def)
    have "(body - i) div VEC = Suc ((body - (i + VEC)) div VEC)" using ab \<open>a < b\<close> by (simp add: VEC_def)
    then have "map (\<lambda>k. d + i + k * VEC) [0 ..< (body - i) div VEC] =
        (d + i) # map (\<lambda>k. d + (i + VEC) + k * VEC) [0 ..< (body - (i + VEC)) div VEC]"
      by (simp add: map_upt_Suc algebra_simps del: upt_Suc)
    with ih st True show ?thesis by (simp add: nt_loop.simps [of src d body i])
  qed
qed

text \<open>
  C37. However a value is copied, what is stored is the value, byte for byte, and nothing beside it;
  every vector put_bytes is on a 32-byte boundary and within the value's memory.
\<close>

theorem copy_value_stores:
  "snd (copy_value avx dst src m) = put_bytes dst src m \<and>
   (\<forall>a \<in> set (fst (copy_value avx dst src m)). a mod VEC = 0 \<and> dst \<le> a \<and> a + VEC \<le> dst + length src)"
proof (cases "length src \<ge> NT_MIN \<and> avx")
  case False
  then show ?thesis by (auto simp: copy_value_def)
next
  case True
  define h where "h = min (align_offset dst VEC) (length src)"
  define b where "b = (length src - h) div VEC * VEC"
  have V: "0 < VEC" by (simp add: VEC_def)
  have h: "h \<le> length src" "(dst + h) mod VEC = 0 \<or> h = length src"
    using align_offset_aligned [OF V, of dst] by (auto simp: h_def min_def)
  have b: "b \<le> length (drop h src)" "b mod VEC = 0" by (simp_all add: b_def)
  have "nt_loop (drop h src) (dst + h) b 0 ([], put_bytes (dst + h) (take 0 (drop h src)) (put_bytes dst (take h src) m)) =
      ([] @ map (\<lambda>k. dst + h + 0 + k * VEC) [0 ..< (b - 0) div VEC],
       put_bytes (dst + h) (take b (drop h src)) (put_bytes dst (take h src) m))"
    by (rule nt_loop_stores) (use b in simp_all)
  moreover have "put_bytes (dst + h) (take b (drop h src)) (put_bytes dst (take h src) m) = put_bytes dst (take (h + b) src) m"
    using put_bytes_append [of dst "take h src" "take b (drop h src)" m] h(1) by (simp add: take_add)
  moreover have "length (take (h + b) src) = h + b" using b(1) h(1) by simp
  then have "put_bytes (dst + (h + b)) (drop (h + b) src) (put_bytes dst (take (h + b) src) m) = put_bytes dst src m"
    using put_bytes_append [of dst "take (h + b) src" "drop (h + b) src" m] by (simp del: length_take)
  ultimately have c: "copy_value avx dst src m = (map (\<lambda>k. dst + h + k * VEC) [0 ..< b div VEC], put_bytes dst src m)"
    using True by (simp add: copy_value_def copy_nontemporal_def Let_def h_def [symmetric] b_def [symmetric])
  have "(dst + h + k * VEC) mod VEC = 0 \<and> dst + h + k * VEC + VEC \<le> dst + length src" if "k < b div VEC" for k
  proof -
    have "Suc k * VEC \<le> b" using that V by (metis Suc_leI div_times_less_eq_dividend le_trans mult_le_mono1)
    moreover have "0 < b" using that by (cases "b = 0") simp_all
    moreover have "h + b \<le> length src" using b(1) h(1) by simp
    moreover have "(dst + h) mod VEC = 0" using calculation(2,3) h(2) by auto
    ultimately show ?thesis by simp
  qed
  then show ?thesis by (auto simp: c)
qed

theorem copy_value_stores_witness:
  "snd (copy_value True 5 (replicate 1024 7) (\<lambda>_. 0)) = put_bytes 5 (replicate 1024 7) (\<lambda>_. 0) \<and>
   list_all (\<lambda>a. a mod VEC = 0 \<and> a + VEC \<le> 1029) (fst (copy_value True 5 (replicate 1024 7) (\<lambda>_. 0)))"
  using copy_value_stores [of True 5 "replicate 1024 7" "\<lambda>_. 0"] by (simp add: list_all_iff)

end
