(* ===== verification/Dispatch.thy ===== *)
theory Dispatch
  imports Frame_Writer Cache_Inv
begin

text \<open>
  Serving one request, the core of \<^verbatim>\<open>crates/server/src/tcp.rs\<close>: \<open>dispatch\<close> routes a frame to the
  cache and appends its response, \<open>batch\<close> answers the items of a batch in runs of the same
  operation under one header patched at the end. Both front ends end here.

  A large value is queued by reference: its response piece owns a handle on the cache entry.
  \<open>sv_kept\<close> holds the owner of every piece queued by reference, in order: a handle for an entry,
  \<open>None\<close> for a text the piece owns itself. Dropping a piece drops its owner.

  A result \<open>None\<close> is a request that does not return: an allocation that aborts, an index
  insertion that does not end, or a panic of the writer; the last is shown not to happen.
\<close>

section \<open>State\<close>

definition MAX_RESPONSE :: nat where "MAX_RESPONSE = MAX_FRAME"

text \<open>The counters of \<^verbatim>\<open>metrics.rs\<close>; the clock of \<open>start\<close> counts nanoseconds.\<close>

record metrics =
  me_auth_failures :: nat
  me_set_too_large :: nat
  me_start :: nat

definition metrics_new :: "nat \<Rightarrow> metrics" where
  "metrics_new now = \<lparr>me_auth_failures = 0, me_set_too_large = 0, me_start = now\<rparr>"

definition count_too_large :: "metrics \<Rightarrow> metrics" where
  "count_too_large me = me\<lparr>me_set_too_large := me_set_too_large me + 1\<rparr>"

definition count_auth_failure :: "metrics \<Rightarrow> metrics" where
  "count_auth_failure me = me\<lparr>me_auth_failures := me_auth_failures me + 1\<rparr>"

record server =
  sv_cache :: "cache \<times> memory"
  sv_pending :: pending
  sv_metrics :: metrics
  sv_out :: frame_writer
  sv_kept :: "nat option list"

abbreviation sv_heap :: "server \<Rightarrow> heap" where
  "sv_heap s \<equiv> m_heap (snd (sv_cache s))"

definition on_memory :: "(memory \<Rightarrow> memory) \<Rightarrow> server \<Rightarrow> server" where
  "on_memory f s = s\<lparr>sv_cache := (fst (sv_cache s), f (snd (sv_cache s)))\<rparr>"

section \<open>Appending to the response\<close>

definition drop_owner :: "world \<Rightarrow> nat option \<Rightarrow> server \<Rightarrow> server" where
  "drop_owner W h s = (case h of None \<Rightarrow> s | Some p \<Rightarrow> on_memory (entry_drop (wo_env W) p) s)"

text \<open>\<open>put_bytes\<close> of a buffer with its owner: kept with the piece, or dropped after a copy.\<close>

definition sv_put_bytes :: "world \<Rightarrow> nat option \<Rightarrow> bytes \<Rightarrow> server \<Rightarrow> server" where
  "sv_put_bytes W h b s =
     (let s1 = s\<lparr>sv_out := fw_put_bytes b (sv_out s)\<rparr>
      in if length b < fw_inline_limit (sv_out s) then drop_owner W h s1
         else s1\<lparr>sv_kept := sv_kept s @ [h]\<rparr>)"

definition sv_header :: "status \<Rightarrow> nat \<Rightarrow> server \<Rightarrow> server" where
  "sv_header st len s = s\<lparr>sv_out := fw_header (status_u8 st) len (sv_out s)\<rparr>"

definition sv_frame :: "world \<Rightarrow> status \<Rightarrow> bytes \<Rightarrow> server \<Rightarrow> server" where
  "sv_frame W st msg s = sv_put_bytes W None msg (sv_header st (length msg) s)"

definition put_value :: "world \<Rightarrow> nat \<Rightarrow> server \<Rightarrow> server" where
  "put_value W e s =
     (let v = value_at (sv_heap s) e;
          s1 = sv_header Ok (length v) s
      in if length v < INLINE_BODY then s1\<lparr>sv_out := fw_put_slice v (sv_out s1)\<rparr>
         else sv_put_bytes W (Some e) v (on_memory (entry_clone e) s1))"

section \<open>Comparing tokens\<close>

definition ct_eq :: "bytes \<Rightarrow> bytes \<Rightarrow> bool" where
  "ct_eq a b \<longleftrightarrow> length a = length b \<and> fold (\<lambda>(x, y) acc. acc OR (x XOR y)) (zip a b) 0 = 0"

section \<open>Batches\<close>

definition response_too_large_msg :: "nat \<Rightarrow> bytes" where
  "response_too_large_msg n = str ''response of '' @ dec n @ str '' bytes exceeds the limit''"

definition not_in_batch_msg :: "u8 \<Rightarrow> bytes" where
  "not_in_batch_msg op = str ''op '' @ dec (unat op) @ str '' is not allowed in a batch''"

definition unknown_op_msg :: "u8 \<Rightarrow> bytes" where
  "unknown_op_msg op = str ''unknown op '' @ dec (unat op)"

text \<open>The items a run takes: the bodies of those that follow with the same operation.\<close>

definition run_bodies :: "u8 \<Rightarrow> (u8 \<times> bytes) list \<Rightarrow> bytes list" where
  "run_bodies op items = map snd (takeWhile (\<lambda>(o', _). o' = op) items)"

definition run_rest :: "u8 \<Rightarrow> (u8 \<times> bytes) list \<Rightarrow> (u8 \<times> bytes) list" where
  "run_rest op items = dropWhile (\<lambda>(o', _). o' = op) items"

text \<open>A run of stores ends at the first item that does not parse, which it takes too.\<close>

fun set_run ::
  "u8 \<Rightarrow> bytes \<Rightarrow> (u8 \<times> bytes) list \<Rightarrow> (bytes \<times> bytes) list \<times> decode_error option \<times> (u8 \<times> bytes) list" where
  "set_run op b items =
     (case set_body b of
        Inl e \<Rightarrow> ([], Some e, items)
      | Inr kv \<Rightarrow>
          (case items of
             [] \<Rightarrow> ([kv], None, [])
           | (o', b') # rest \<Rightarrow>
               if o' = op
               then let (entries, bad, rest') = set_run op b' rest in (kv # entries, bad, rest')
               else ([kv], None, items)))"

declare set_run.simps [simp del]

definition set_reply :: "(bytes \<Rightarrow> u64) \<Rightarrow> world \<Rightarrow> bytes \<Rightarrow> bytes \<Rightarrow> server \<Rightarrow> server option" where
  "set_reply H W k v s =
     (case cache_set H W k v (sv_cache s) (sv_pending s) of
        None \<Rightarrow> None
      | Some (res, cm, pend) \<Rightarrow>
          let s1 = s\<lparr>sv_cache := cm, sv_pending := pend\<rparr>
          in Some (case res of
               Inr _ \<Rightarrow> sv_header Ok 0 s1
             | Inl e \<Rightarrow> sv_frame W TooLarge (too_large_msg e)
                          (s1\<lparr>sv_metrics := count_too_large (sv_metrics s1)\<rparr>)))"

fun set_each :: "(bytes \<Rightarrow> u64) \<Rightarrow> world \<Rightarrow> (bytes \<times> bytes) list \<Rightarrow> server \<Rightarrow> server option" where
  "set_each H W [] s = Some s"
| "set_each H W ((k, v) # entries) s =
     (case set_reply H W k v s of None \<Rightarrow> None | Some s1 \<Rightarrow> set_each H W entries s1)"

definition set_entries :: "(bytes \<Rightarrow> u64) \<Rightarrow> world \<Rightarrow> (bytes \<times> bytes) list \<Rightarrow> server \<Rightarrow> server option" where
  "set_entries H W entries s =
     (case set_many H W entries (sv_cache s) (sv_pending s) of
        None \<Rightarrow> None
      | Some (Inr _, cm, pend) \<Rightarrow>
          Some (fold (\<lambda>_. sv_header Ok 0) entries (s\<lparr>sv_cache := cm, sv_pending := pend\<rparr>))
      | Some (Inl _, cm, pend) \<Rightarrow> set_each H W entries (s\<lparr>sv_cache := cm, sv_pending := pend\<rparr>))"

definition found_status :: "bool \<Rightarrow> status" where
  "found_status found = (if found then Ok else NotFound)"

definition get_run :: "(bytes \<Rightarrow> u64) \<Rightarrow> world \<Rightarrow> bytes list \<Rightarrow> server \<Rightarrow> server" where
  "get_run H W keys s =
     (let (found, cm) = get_many H keys (sv_cache s)
      in fold (\<lambda>e. case e of Some p \<Rightarrow> put_value W p | None \<Rightarrow> sv_header NotFound 0) found
           (s\<lparr>sv_cache := cm\<rparr>))"

definition del_run :: "(bytes \<Rightarrow> u64) \<Rightarrow> world \<Rightarrow> bytes list \<Rightarrow> server \<Rightarrow> server" where
  "del_run H W keys s =
     (let (fs, _, cm, pend) = del_many H W keys (sv_cache s) (sv_pending s)
      in fold (\<lambda>found. sv_header (found_status found) 0) fs (s\<lparr>sv_cache := cm, sv_pending := pend\<rparr>))"

lemma set_run_shorter: "set_run op b items = (es, bad, rest) \<Longrightarrow> length rest \<le> length items"
proof (induction op b items arbitrary: es bad rest rule: set_run.induct)
  case (1 op b items)
  show ?case
  proof (cases "\<exists>kv o' b' rest'. set_body b = Inr kv \<and> items = (o', b') # rest' \<and> o' = op")
    case True
    then obtain kv b' rest' where c: "set_body b = Inr kv" "items = (op, b') # rest'" by blast
    obtain es2 bad2 r2 where r: "set_run op b' rest' = (es2, bad2, r2)" by (rule prod_cases3)
    from "1.IH" [OF c(1,2) refl refl r] c r "1.prems" show ?thesis
      by (simp add: set_run.simps [of op b])
  next
    case False
    with "1.prems" show ?thesis
      by (auto simp: set_run.simps [of op b] split: sum.splits list.splits if_splits)
  qed
qed

lemma run_rest_shorter: "length (run_rest op items) \<le> length items"
  by (simp add: run_rest_def length_dropWhile_le)

function batch_loop ::
  "(bytes \<Rightarrow> u64) \<Rightarrow> world \<Rightarrow> (u8 \<times> bytes) list \<Rightarrow> server \<Rightarrow> server option" where
  "batch_loop H W [] s = Some s"
| "batch_loop H W ((op, b) # items) s =
     (case op_from_u8 op of
        Some Get \<Rightarrow> batch_loop H W (run_rest op items) (get_run H W (b # run_bodies op items) s)
      | Some Set \<Rightarrow>
          (let (entries, bad, rest) = set_run op b items
           in case set_entries H W entries s of
                None \<Rightarrow> None
              | Some s1 \<Rightarrow>
                  batch_loop H W rest
                    (case bad of
                       Some e \<Rightarrow> sv_frame W BadRequest (decode_error_msg e) s1
                     | None \<Rightarrow> s1))
      | Some Del \<Rightarrow> batch_loop H W (run_rest op items) (del_run H W (b # run_bodies op items) s)
      | _ \<Rightarrow> batch_loop H W items (sv_frame W UnknownOp (not_in_batch_msg op) s))"
  by pat_completeness auto
termination
  by (relation "measure (\<lambda>(_, _, items, _). length items)")
    (auto simp: le_imp_less_Suc run_rest_shorter dest: set_run_shorter [OF sym])

declare batch_loop.simps(2) [simp del]

text \<open>The entries by-reference pieces own, for the pieces of a queue.\<close>

fun shared_of :: "piece list \<Rightarrow> bytes list" where
  "shared_of [] = []"
| "shared_of (Own _ # ps) = shared_of ps"
| "shared_of (Shared b # ps) = b # shared_of ps"

text \<open>\<open>abort\<close> truncates the pieces, which drops the owners of those cut off.\<close>

definition sv_abort :: "world \<Rightarrow> mark \<Rightarrow> server \<Rightarrow> server option" where
  "sv_abort W m s =
     map_option (\<lambda>out.
       let n = length (shared_of (fw_pieces out))
       in fold (drop_owner W) (drop n (sv_kept s)) (s\<lparr>sv_out := out, sv_kept := take n (sv_kept s)\<rparr>))
       (fw_abort m (sv_out s))"

definition batch :: "(bytes \<Rightarrow> u64) \<Rightarrow> world \<Rightarrow> bytes \<Rightarrow> server \<Rightarrow> server option" where
  "batch H W body s =
     (case frames body of
        Inl e \<Rightarrow> Some (sv_frame W BadRequest (decode_error_msg e) s)
      | Inr items \<Rightarrow>
          (let (mark, out) = fw_begin (status_u8 Ok) (sv_out s);
               s1 = s\<lparr>sv_out := fw_put_slice (to_le_bytes (of_nat (fr_left items))) out\<rparr>
           in case batch_loop H W (frames_items items) s1 of
                None \<Rightarrow> None
              | Some s2 \<Rightarrow>
                  let total = fw_since mark (sv_out s2)
                  in if total > MAX_RESPONSE
                     then map_option (sv_frame W TooLarge (response_too_large_msg total)) (sv_abort W mark s2)
                     else map_option (\<lambda>out. s2\<lparr>sv_out := out\<rparr>) (fw_end mark (sv_out s2))))"

section \<open>Requests\<close>

definition get_reply :: "(bytes \<Rightarrow> u64) \<Rightarrow> world \<Rightarrow> bytes \<Rightarrow> server \<Rightarrow> server" where
  "get_reply H W key s =
     (let (found, cm) = get_in H key (sv_cache s);
          s1 = s\<lparr>sv_cache := cm\<rparr>
      in case found of
           Some e \<Rightarrow>
             if length (value_at (sv_heap s1) e) > MAX_RESPONSE
             then sv_frame W TooLarge (response_too_large_msg (length (value_at (sv_heap s1) e))) s1
             else put_value W e s1
         | None \<Rightarrow> sv_header NotFound 0 s1)"

definition del_reply :: "(bytes \<Rightarrow> u64) \<Rightarrow> world \<Rightarrow> bytes \<Rightarrow> server \<Rightarrow> server" where
  "del_reply H W key s =
     (let (found, _, cm, pend) = cache_del H W key (sv_cache s) (sv_pending s)
      in sv_header (found_status found) 0 (s\<lparr>sv_cache := cm, sv_pending := pend\<rparr>))"

definition dispatch :: "(bytes \<Rightarrow> u64) \<Rightarrow> world \<Rightarrow> u8 \<Rightarrow> bytes \<Rightarrow> server \<Rightarrow> server option" where
  "dispatch H W op body s =
     (case op_from_u8 op of
        Some Get \<Rightarrow> Some (get_reply H W body s)
      | Some Set \<Rightarrow>
          (case set_body body of
             Inr (k, v) \<Rightarrow> set_reply H W k v s
           | Inl e \<Rightarrow> Some (sv_frame W BadRequest (decode_error_msg e) s))
      | Some Del \<Rightarrow> Some (del_reply H W body s)
      | Some Batch \<Rightarrow> batch H W body s
      | Some Auth \<Rightarrow> Some (sv_header Ok 0 s)
      | Some Ping \<Rightarrow> Some (sv_header Ok 0 s)
      | None \<Rightarrow> Some (sv_frame W UnknownOp (unknown_op_msg op) s))"

end
