(* ===== verification/Dispatch_Inv.thy ===== *)
theory Dispatch_Inv
  imports Dispatch
begin

text \<open>
  What serving a request does: the invariant of a server (cache, counters, queued responses and
  the handles they own), a reference for what a request is answered, and the proof that
  \<open>dispatch\<close> appends exactly that answer. The lemmas on the writer come from the interface
  \<open>frame_sink\<close> (facts \<open>fw\<close>), those on the cache from its batch operations.
\<close>

section \<open>Appending to the queue\<close>

text \<open>
  What appending \<open>b\<close> to a writer does to the queue and to a frame that is still open.
\<close>

definition emits :: "bytes \<Rightarrow> frame_writer \<Rightarrow> frame_writer \<Rightarrow> bool" where
  "emits b w w' \<longleftrightarrow> fw_inv w' \<and> fw_bytes w' = fw_bytes w @ b \<and>
     (\<forall>m pre t body. fw_open m pre t body w \<longrightarrow> fw_open m pre t (body @ b) w')"

lemma emits_refl: "fw_inv w \<Longrightarrow> emits [] w w"
  by (simp add: emits_def)

lemma emits_trans: "emits a w w1 \<Longrightarrow> emits b w1 w2 \<Longrightarrow> emits (a @ b) w w2"
  by (simp add: emits_def flip: append_assoc)

lemma emits_put:
  assumes "fw_inv w"
  shows "emits b w (fw_put_slice b w)" and "emits b w (fw_put_bytes b w)"
    and "emits (encode_header t n) w (fw_header t n w)"
  using assms fw_open_put_slice fw_open_put_bytes by (simp_all add: emits_def fw_header_def)

lemma shared_of_append [simp]: "shared_of (ps @ qs) = shared_of ps @ shared_of qs"
  by (induction ps rule: shared_of.induct) simp_all

lemma shared_of_put [simp]:
  "shared_of (fw_pieces (fw_put_slice b w)) = shared_of (fw_pieces w)"
  "shared_of (fw_pieces (fw_header t n w)) = shared_of (fw_pieces w)"
  "shared_of (fw_pieces (fw_put_bytes b w)) =
     shared_of (fw_pieces w) @ (if length b < fw_inline_limit w then [] else [b])"
  by (simp_all add: fw_put_slice_def fw_header_def fw_put_bytes_def Let_def)

lemma fw_inline_put [simp]:
  "fw_inline_limit (fw_put_slice b w) = fw_inline_limit w"
  "fw_inline_limit (fw_header t n w) = fw_inline_limit w"
  "fw_inline_limit (fw_put_bytes b w) = fw_inline_limit w"
  by (simp_all add: fw_put_slice_def fw_header_def fw_put_bytes_def Let_def)

section \<open>The invariant of a server\<close>

text \<open>The handles held on entries: those of readers elsewhere, and those queued pieces own.\<close>

definition held :: "(nat \<Rightarrow> nat) \<Rightarrow> nat option list \<Rightarrow> nat \<Rightarrow> nat" where
  "held rd kept p = rd p + count_list kept (Some p)"

text \<open>
  The cache is sound under those handles, the writer is well formed, and the memory behind
  every piece queued by reference still holds the bytes that were queued.
\<close>

definition srv_ok :: "(bytes \<Rightarrow> u64) \<Rightarrow> world \<Rightarrow> (nat \<Rightarrow> nat) \<Rightarrow> server \<Rightarrow> bool" where
  "srv_ok H W rd s \<longleftrightarrow> cache_inv H (held rd (sv_kept s)) W (sv_cache s) \<and> fw_inv (sv_out s) \<and>
     list_all2 (\<lambda>b h. \<forall>p. h = Some p \<longrightarrow> value_at (sv_heap s) p = b)
       (shared_of (fw_pieces (sv_out s))) (sv_kept s)"

abbreviation sv_view :: "(bytes \<Rightarrow> u64) \<Rightarrow> server \<Rightarrow> bytes \<rightharpoonup> bytes" where
  "sv_view H s \<equiv> view_of H (sv_cache s)"

abbreviation sv_cap :: "server \<Rightarrow> nat" where
  "sv_cap s \<equiv> sh_capacity (ca_shards (fst (sv_cache s)) ! 0)"

lemma held_kept: "Some p \<in> set kept \<Longrightarrow> 0 < held rd kept p"
  using count_list_0_iff [of kept "Some p"] by (simp add: held_def)

lemma held_mono: "0 < rd q \<Longrightarrow> 0 < held rd kept q"
  by (simp add: held_def)

text \<open>Moving the cache on, with what queued pieces refer to unchanged.\<close>

lemma srv_ok_cache:
  assumes "srv_ok H W rd s" and "cache_inv H (held rd (sv_kept s)) W cm"
    and "readers_see (held rd (sv_kept s)) (snd (sv_cache s)) (snd cm)"
  shows "srv_ok H W rd (s\<lparr>sv_cache := cm\<rparr>)"
proof -
  have "\<And>p. Some p \<in> set (sv_kept s) \<Longrightarrow> value_at (m_heap (snd cm)) p = value_at (sv_heap s) p"
    using assms(3) held_kept by (simp add: readers_see_def)
  moreover have "list_all2 (\<lambda>b h. \<forall>p. h = Some p \<longrightarrow> value_at (sv_heap s) p = b)
      (shared_of (fw_pieces (sv_out s))) (sv_kept s)" using assms(1) by (simp add: srv_ok_def)
  ultimately have "list_all2 (\<lambda>b h. \<forall>p. h = Some p \<longrightarrow> value_at (m_heap (snd cm)) p = b)
      (shared_of (fw_pieces (sv_out s))) (sv_kept s)" by (auto simp: list_all2_conv_all_nth) (metis nth_mem)
  with assms(1,2) show ?thesis by (simp add: srv_ok_def)
qed

text \<open>One response appended: the server stays sound and what can be read is as before.\<close>

definition appends :: "(bytes \<Rightarrow> u64) \<Rightarrow> world \<Rightarrow> (nat \<Rightarrow> nat) \<Rightarrow> bytes \<Rightarrow> server \<Rightarrow> server \<Rightarrow> bool" where
  "appends H W rd b s s' \<longleftrightarrow> srv_ok H W rd s' \<and> emits b (sv_out s) (sv_out s') \<and>
     sv_view H s' = sv_view H s \<and> sv_cap s' = sv_cap s \<and>
     (\<forall>p \<in> dom (sv_heap s). p \<in> dom (sv_heap s') \<and> value_at (sv_heap s') p = value_at (sv_heap s) p)"

lemma appends_refl: "srv_ok H W rd s \<Longrightarrow> appends H W rd [] s s"
  by (simp add: appends_def srv_ok_def emits_refl)

lemma appends_trans: "appends H W rd a s s1 \<Longrightarrow> appends H W rd b s1 s2 \<Longrightarrow> appends H W rd (a @ b) s s2"
  by (auto simp: appends_def intro: emits_trans)

lemma appends_out:
  assumes "srv_ok H W rd s" and "emits b (sv_out s) w" and "shared_of (fw_pieces w) = shared_of (fw_pieces (sv_out s))"
  shows "appends H W rd b s (s\<lparr>sv_out := w\<rparr>)"
  using assms by (simp add: appends_def srv_ok_def emits_def)

lemma sv_header_appends:
  "srv_ok H W rd s \<Longrightarrow> appends H W rd (encode_header (status_u8 st) n) s (sv_header st n s)"
  unfolding sv_header_def by (rule appends_out) (simp_all add: emits_put srv_ok_def)

lemma sv_status_appends:
  "srv_ok H W rd s \<Longrightarrow> appends H W rd (encode_frame (status_u8 st, [])) s (sv_header st 0 s)"
  using sv_header_appends [of H W rd s st 0] by (simp add: encode_frame_def)

lemma put_own_appends:
  assumes "srv_ok H W rd s"
  shows "appends H W rd b s (sv_put_bytes W None b s)"
proof (cases "length b < fw_inline_limit (sv_out s)")
  case True
  then have "sv_put_bytes W None b s = s\<lparr>sv_out := fw_put_bytes b (sv_out s)\<rparr>"
    by (simp add: sv_put_bytes_def drop_owner_def)
  with True assms show ?thesis by (auto intro!: appends_out simp: emits_put srv_ok_def)
next
  case False
  then have e: "sv_put_bytes W None b s = s\<lparr>sv_out := fw_put_bytes b (sv_out s), sv_kept := sv_kept s @ [None]\<rparr>"
    by (simp add: sv_put_bytes_def Let_def)
  have "held rd (sv_kept s @ [None]) = held rd (sv_kept s)" by (simp add: held_def fun_eq_iff)
  with False assms show ?thesis
    by (simp add: e appends_def srv_ok_def emits_put list_all2_appendI)
qed

lemma sv_frame_appends:
  assumes "srv_ok H W rd s"
  shows "appends H W rd (encode_frame (status_u8 st, msg)) s (sv_frame W st msg s)"
proof -
  have 1: "appends H W rd (encode_header (status_u8 st) (length msg)) s (sv_header st (length msg) s)"
    by (rule sv_header_appends [OF assms])
  then have "srv_ok H W rd (sv_header st (length msg) s)" by (simp add: appends_def)
  from appends_trans [OF 1 put_own_appends [OF this]] show ?thesis
    by (simp add: sv_frame_def encode_frame_def)
qed

text \<open>A handle cloned and dropped again leaves the memory as it was.\<close>

lemma clone_drop:
  assumes "cache_rep H rd c m Ms" and "p \<in> dom (m_heap m)"
  shows "entry_drop ev p (entry_clone p m) = m"
proof -
  have "0 < length (ca_shards c)" using cache_repD(1) [OF assms(1)] by (simp add: shape_ok_def)
  from cache_mem_ok [OF assms(1) this] obtain hc where "mem_ok m hc" by blast
  then have "0 < en_rc (deref (m_heap m) p)"
    using assms(2) unfolding mem_ok_def by (force simp: rc_ok_def deref_def dest: spec [of _ p])
  moreover have "(m_heap m)(p \<mapsto> deref (m_heap m) p) = m_heap m"
    using assms(2) by (auto simp: deref_def)
  ultimately show ?thesis
    by (simp add: entry_drop_def entry_clone_def deref_def [of "_(_ \<mapsto> _)"])
qed

lemma clone_dom [simp]: "p \<in> dom (m_heap m) \<Longrightarrow> dom (m_heap (entry_clone p m)) = dom (m_heap m)"
  "value_at (m_heap (entry_clone p m)) q = value_at (m_heap m) q"
  by (auto simp: entry_clone_def value_at_def deref_def)

lemma put_entry_appends:
  assumes "srv_ok H W rd s" and "p \<in> dom (sv_heap s)" and "value_at (sv_heap s) p = v"
  shows "appends H W rd v s (sv_put_bytes W (Some p) v (on_memory (entry_clone p) s))"
proof -
  let ?rd = "held rd (sv_kept s)"
  obtain c m where cm: "sv_cache s = (c, m)" by fastforce
  obtain Ms where rep: "cache_rep H ?rd c m Ms" and w: "world_ok W m"
    using assms(1) by (auto simp: srv_ok_def cache_inv_def cm)
  have pd: "p \<in> dom (m_heap m)" using assms(2) by (simp add: cm)
  show ?thesis
  proof (cases "length v < fw_inline_limit (sv_out s)")
    case True
    then have "sv_put_bytes W (Some p) v (on_memory (entry_clone p) s) = s\<lparr>sv_out := fw_put_bytes v (sv_out s)\<rparr>"
      using clone_drop [OF rep pd] by (simp add: sv_put_bytes_def drop_owner_def on_memory_def cm Let_def)
    with True assms(1) show ?thesis by (auto intro!: appends_out simp: emits_put srv_ok_def)
  next
    case False
    then have e: "sv_put_bytes W (Some p) v (on_memory (entry_clone p) s) =
        s\<lparr>sv_cache := (c, entry_clone p m), sv_out := fw_put_bytes v (sv_out s), sv_kept := sv_kept s @ [Some p]\<rparr>"
      by (simp add: sv_put_bytes_def on_memory_def cm Let_def)
    have h: "held rd (sv_kept s @ [Some p]) = ?rd(p := ?rd p + 1)" by (auto simp: held_def fun_eq_iff)
    note cl = cache_reader_clone [OF rep pd]
    have "cache_inv H (?rd(p := ?rd p + 1)) W (c, entry_clone p m)"
      using cl(1) world_ok_mags [OF w cl(3)] by (auto simp: cache_inv_def)
    with False assms(1,3) cl(2) pd show ?thesis
      by (simp add: e h appends_def srv_ok_def emits_put list_all2_appendI cm)
  qed
qed

lemma put_value_appends:
  assumes "srv_ok H W rd s" and "p \<in> dom (sv_heap s)"
  shows "appends H W rd (encode_frame (status_u8 Ok, value_at (sv_heap s) p)) s (put_value W p s)"
proof -
  let ?v = "value_at (sv_heap s) p"
  define s1 where "s1 = sv_header Ok (length ?v) s"
  have 1: "appends H W rd (encode_header (status_u8 Ok) (length ?v)) s s1"
    unfolding s1_def by (rule sv_header_appends [OF assms(1)])
  have ok: "srv_ok H W rd s1" using 1 by (simp add: appends_def)
  have hp: "sv_heap s1 = sv_heap s" by (simp add: s1_def sv_header_def)
  have 2: "appends H W rd ?v s1 (s1\<lparr>sv_out := fw_put_slice ?v (sv_out s1)\<rparr>)"
    using ok by (auto intro!: appends_out simp: emits_put srv_ok_def)
  have 3: "appends H W rd ?v s1 (sv_put_bytes W (Some p) ?v (on_memory (entry_clone p) s1))"
    using put_entry_appends [OF ok] assms(2) hp by simp
  show ?thesis
    using appends_trans [OF 1 2] appends_trans [OF 1 3]
    by (simp add: put_value_def Let_def encode_frame_def flip: s1_def)
qed

section \<open>What an item is answered\<close>

text \<open>
  The reference: the reply an item gets when \<open>V\<close> can be read and an entry may cost \<open>cap\<close> bytes,
  and what may be readable after it. A store may make the cache forget other keys; nothing else
  may.
\<close>

definition set_result :: "nat \<Rightarrow> bytes \<Rightarrow> u8 \<times> bytes" where
  "set_result cap b =
     (case set_body b of
        Inl e \<Rightarrow> (status_u8 BadRequest, decode_error_msg e)
      | Inr (k, v) \<Rightarrow>
          if entry_cost k v \<le> cap then (status_u8 Ok, [])
          else (status_u8 TooLarge, too_large_msg \<lparr>tl_cost = entry_cost k v, tl_capacity = cap\<rparr>))"

definition item_reply :: "nat \<Rightarrow> (bytes \<rightharpoonup> bytes) \<Rightarrow> u8 \<times> bytes \<Rightarrow> u8 \<times> bytes" where
  "item_reply cap V = (\<lambda>(op, b).
     case op_from_u8 op of
       Some Get \<Rightarrow> (case V b of Some v \<Rightarrow> (status_u8 Ok, v) | None \<Rightarrow> (status_u8 NotFound, []))
     | Some Set \<Rightarrow> set_result cap b
     | Some Del \<Rightarrow> (status_u8 (found_status (b \<in> dom V)), [])
     | _ \<Rightarrow> (status_u8 UnknownOp, not_in_batch_msg op))"

definition item_effect :: "nat \<Rightarrow> (bytes \<rightharpoonup> bytes) \<Rightarrow> u8 \<times> bytes \<Rightarrow> (bytes \<rightharpoonup> bytes) \<Rightarrow> bool" where
  "item_effect cap V = (\<lambda>(op, b) V'.
     case op_from_u8 op of
       Some Set \<Rightarrow>
         (case set_body b of
            Inl _ \<Rightarrow> V' = V
          | Inr (k, v) \<Rightarrow>
              if entry_cost k v \<le> cap then V' \<subseteq>\<^sub>m V(k \<mapsto> v) \<and> V' k = Some v else V' = V)
     | Some Del \<Rightarrow> V' = V(b := None)
     | _ \<Rightarrow> V' = V)"

lemma op_from_u8_lit [simp]:
  "op_from_u8 1 = Some Get" "op_from_u8 2 = Some Set" "op_from_u8 3 = Some Del"
  "op_from_u8 4 = Some Auth" "op_from_u8 5 = Some Ping" "op_from_u8 6 = Some Batch"
  by (simp_all add: op_from_u8_def)

text \<open>Items answered one after the other.\<close>

inductive answers ::
  "nat \<Rightarrow> (bytes \<rightharpoonup> bytes) \<Rightarrow> (u8 \<times> bytes) list \<Rightarrow> (bytes \<rightharpoonup> bytes) \<Rightarrow> (u8 \<times> bytes) list \<Rightarrow> bool" for cap where
  none: "answers cap V [] V []"
| item: "item_effect cap V x V1 \<Longrightarrow> answers cap V1 xs V' rs \<Longrightarrow>
    answers cap V (x # xs) V' (item_reply cap V x # rs)"

inductive_simps answers_simps [simp]: "answers cap V [] V' rs" "answers cap V (x # xs) V' rs"

lemma answers_append:
  "answers cap V xs V1 rs \<Longrightarrow> answers cap V1 ys V2 qs \<Longrightarrow> answers cap V (xs @ ys) V2 (rs @ qs)"
  by (induction rule: answers.induct) (auto intro: answers.intros)

lemma answers_length: "answers cap V xs V' rs \<Longrightarrow> length rs = length xs"
  by (induction rule: answers.induct) simp_all

lemma answers_one: "item_effect cap V x V' \<Longrightarrow> answers cap V [x] V' [item_reply cap V x]"
  by (auto intro: answers.intros)

lemma check_fits_iff:
  "check_fits s k v = (if entry_cost k v \<le> sh_capacity s then Inr ()
     else Inl \<lparr>tl_cost = entry_cost k v, tl_capacity = sh_capacity s\<rparr>)"
  by (simp add: check_fits_def entry_cost_def Let_def)

text \<open>Serving a list of items: the replies of the reference, in order, and no other effect.\<close>

definition serves ::
  "(bytes \<Rightarrow> u64) \<Rightarrow> world \<Rightarrow> (nat \<Rightarrow> nat) \<Rightarrow> (u8 \<times> bytes) list \<Rightarrow> server \<Rightarrow> server \<Rightarrow> bool" where
  "serves H W rd xs s s' \<longleftrightarrow> srv_ok H W rd s' \<and> sv_cap s' = sv_cap s \<and>
     (\<exists>rs. answers (sv_cap s) (sv_view H s) xs (sv_view H s') rs \<and>
        emits (concat (map encode_frame rs)) (sv_out s) (sv_out s'))"

lemma serves_refl: "srv_ok H W rd s \<Longrightarrow> serves H W rd [] s s"
  by (auto simp: serves_def srv_ok_def emits_refl intro!: answers.intros exI [of _ "[]"])

lemma serves_trans:
  assumes "serves H W rd xs s s1" and "serves H W rd ys s1 s2"
  shows "serves H W rd (xs @ ys) s s2"
proof -
  obtain rs qs where "answers (sv_cap s) (sv_view H s) xs (sv_view H s1) rs"
      "emits (concat (map encode_frame rs)) (sv_out s) (sv_out s1)"
      "answers (sv_cap s) (sv_view H s1) ys (sv_view H s2) qs"
      "emits (concat (map encode_frame qs)) (sv_out s1) (sv_out s2)"
    using assms by (auto simp: serves_def)
  then have "answers (sv_cap s) (sv_view H s) (xs @ ys) (sv_view H s2) (rs @ qs)"
      "emits (concat (map encode_frame (rs @ qs))) (sv_out s) (sv_out s2)"
    using answers_append emits_trans by fastforce+
  then show ?thesis using assms by (auto simp: serves_def)
qed

text \<open>The cache moved on to \<open>s1\<close> and the replies were then appended.\<close>

lemma serves_appends:
  assumes "answers (sv_cap s) (sv_view H s) xs (sv_view H s1) rs" and "sv_cap s1 = sv_cap s"
    and "sv_out s1 = sv_out s" and "appends H W rd (concat (map encode_frame rs)) s1 s2"
  shows "serves H W rd xs s s2"
  using assms by (auto simp: serves_def appends_def)

lemma fold_appends:
  assumes "srv_ok H W rd s"
    and "\<And>x s'. x \<in> set xs \<Longrightarrow> srv_ok H W rd s' \<Longrightarrow>
      \<forall>p \<in> dom (sv_heap s). p \<in> dom (sv_heap s') \<and> value_at (sv_heap s') p = value_at (sv_heap s) p \<Longrightarrow>
      appends H W rd (g x) s' (f x s')"
  shows "appends H W rd (concat (map g xs)) s (fold f xs s)"
  using assms
proof (induction xs arbitrary: s)
  case Nil
  then show ?case by (simp add: appends_refl)
next
  case (Cons x xs)
  have 1: "appends H W rd (g x) s (f x s)" using Cons.prems by simp
  then have k: "\<forall>p \<in> dom (sv_heap s). p \<in> dom (sv_heap (f x s)) \<and>
      value_at (sv_heap (f x s)) p = value_at (sv_heap s) p" by (simp add: appends_def)
  have "appends H W rd (concat (map g xs)) (f x s) (fold f xs (f x s))"
  proof (rule Cons.IH)
    show "srv_ok H W rd (f x s)" using 1 by (simp add: appends_def)
    show "appends H W rd (g y) s' (f y s')"
      if "y \<in> set xs" "srv_ok H W rd s'"
        "\<forall>p \<in> dom (sv_heap (f x s)). p \<in> dom (sv_heap s') \<and>
          value_at (sv_heap s') p = value_at (sv_heap (f x s)) p" for y s'
      using that k by (intro Cons.prems(2)) auto
  qed
  from appends_trans [OF 1 this] show ?case by simp
qed

section \<open>Runs\<close>

lemma find_all_dom:
  "find_all ss ls m = (hits, found, m') \<Longrightarrow> dom (m_heap m) \<subseteq> dom (m_heap m')"
proof (induction ls arbitrary: m hits found m')
  case (Cons l ls)
  obtain i hash k where l: "l = (i, hash, k)" by (rule prod_cases3)
  define m1 where "m1 = (case shard_get (ss ! i) m hash k of Some p \<Rightarrow> touch p m | None \<Rightarrow> m)"
  have "dom (m_heap m) \<subseteq> dom (m_heap m1)"
    by (auto simp: m1_def touch_def set_freq_def Let_def split: option.splits)
  moreover obtain h2 f2 m2 where r: "find_all ss ls m1 = (h2, f2, m2)" by (rule prod_cases3)
  moreover have "m' = m2" using Cons.prems r by (simp add: l m1_def Let_def)
  ultimately show ?case using Cons.IH [OF r] by simp
qed simp

lemma get_many_dom:
  assumes "cache_inv H rd W cm" and "get_many H keys cm = (found, cm')" and "Some p \<in> set found"
  shows "p \<in> dom (m_heap (snd cm'))"
proof -
  obtain c m where cm: "cm = (c, m)" by fastforce
  obtain Ms where rep: "cache_rep H rd c m Ms" using assms(1) by (auto simp: cache_inv_def cm)
  obtain hits f m1 where fa: "find_all (ca_shards c) (map (located H c) keys) m = (hits, f, m1)" by (rule prod_cases3)
  have e: "snd cm' = m1" using assms(2) unfolding cm get_many_def prod.case Let_def fa [unfolded Let_def] by auto
  obtain k where "cache_find H c m k = Some p"
    using assms(3) get_many_spec(5) [OF assms(1,2)] by (auto simp: cm)
  then have "p \<in> ran (Ms (fst (locate H c k)))" using cache_find_map [OF rep, of k] by (auto intro: ranI)
  then have "p \<in> dom (m_heap m)"
    using cache_entry_dom [OF rep locate_range [OF cache_repD(1) [OF rep]]] by blast
  with find_all_dom [OF fa] show ?thesis by (auto simp: e)
qed

lemma answers_gets:
  "answers cap V (map (Pair (op_u8 Get)) ks) V (map (\<lambda>k. item_reply cap V (op_u8 Get, k)) ks)"
proof (induction ks)
  case (Cons k ks)
  have "item_effect cap V (op_u8 Get, k) V" by (simp add: item_effect_def)
  from answers.item [OF this Cons.IH] show ?case by simp
qed (simp add: answers.none)

lemma get_many_cap:
  assumes "cache_inv H rd W cm" and "get_many H keys cm = (found, cm')"
  shows "sh_capacity (ca_shards (fst cm') ! 0) = sh_capacity (ca_shards (fst cm) ! 0)"
proof -
  have "sh_capacity (ca_shards (on_shard i (count_gets a b) c) ! 0) = sh_capacity (ca_shards c ! 0)" for i a b c
    by (cases "i < length (ca_shards c)"; cases "i = 0") (simp_all add: on_shard_def list_update_beyond count_gets_def)
  then show ?thesis using assms(2)
    by (cases cm) (auto simp: get_many_def Let_def split: prod.splits list.splits)
qed

lemma get_run_serves:
  assumes "srv_ok H W rd s"
  shows "serves H W rd (map (Pair (op_u8 Get)) ks) s (get_run H W ks s)"
proof -
  obtain found cm where g: "get_many H ks (sv_cache s) = (found, cm)" by (rule prod.exhaust)
  have inv: "cache_inv H (held rd (sv_kept s)) W (sv_cache s)" using assms by (simp add: srv_ok_def)
  note sp = get_many_spec [OF inv g]
  define s1 where "s1 = s\<lparr>sv_cache := cm\<rparr>"
  let ?f = "\<lambda>e. case e of Some p \<Rightarrow> put_value W p | None \<Rightarrow> sv_header NotFound 0"
  let ?g = "\<lambda>e. encode_frame (case e of Some p \<Rightarrow> (status_u8 Ok, value_at (sv_heap s1) p) | None \<Rightarrow> (status_u8 NotFound, []))"
  have ok: "srv_ok H W rd s1" unfolding s1_def by (rule srv_ok_cache [OF assms sp(1,3)])
  have "appends H W rd (concat (map ?g found)) s1 (fold ?f found s1)"
  proof (rule fold_appends [OF ok])
    fix x s' assume x: "x \<in> set found" "srv_ok H W rd s'"
      "\<forall>p \<in> dom (sv_heap s1). p \<in> dom (sv_heap s') \<and> value_at (sv_heap s') p = value_at (sv_heap s1) p"
    show "appends H W rd (?g x) s' (?f x s')"
    proof (cases x)
      case (Some p)
      then have "p \<in> dom (sv_heap s1)" using get_many_dom [OF inv g] x(1) by (simp add: s1_def)
      then show ?thesis using put_value_appends [OF x(2), of p] x(3) Some by simp
    qed (use sv_status_appends [OF x(2), of NotFound] in simp)
  qed
  moreover have "map ?g found = map encode_frame (map (\<lambda>k. item_reply (sv_cap s) (sv_view H s) (op_u8 Get, k)) ks)"
  proof -
    have "map ?g found = map (\<lambda>v. encode_frame (case v of Some v \<Rightarrow> (status_u8 Ok, v) | None \<Rightarrow> (status_u8 NotFound, [])))
        (map (map_option (value_at (m_heap (snd cm)))) found)"
      by (auto simp: s1_def split: option.splits)
    also have "\<dots> = map encode_frame (map (\<lambda>k. item_reply (sv_cap s) (sv_view H s) (op_u8 Get, k)) ks)"
      unfolding sp(4) by (simp add: item_reply_def)
    finally show ?thesis .
  qed
  moreover have "sv_view H s1 = sv_view H s" "sv_cap s1 = sv_cap s" "sv_out s1 = sv_out s"
    using sp(2) get_many_cap [OF inv g] by (simp_all add: s1_def)
  moreover have "get_run H W ks s = fold ?f found s1" by (simp add: get_run_def g s1_def)
  ultimately show ?thesis
    using serves_appends [of s H _ s1 _ W rd "fold ?f found s1", OF _ _ _ ] answers_gets by metis
qed

lemma answers_dels:
  "answers cap V (map (Pair (op_u8 Del)) ks) (ref_dels ks V)
     (map (\<lambda>f. (status_u8 (found_status f), [])) (del_answers ks V))"
proof (induction ks arbitrary: V)
  case (Cons k ks)
  have "item_effect cap V (op_u8 Del, k) (V(k := None))" by (simp add: item_effect_def)
  from answers.item [OF this Cons.IH] show ?case
    by (simp add: item_reply_def del: fun_upd_apply)
qed (simp add: answers.none)

lemma del_run_serves:
  assumes "srv_ok H W rd s"
  shows "serves H W rd (map (Pair (op_u8 Del)) ks) s (del_run H W ks s)"
proof -
  obtain fs fl cm pend where d: "del_many H W ks (sv_cache s) (sv_pending s) = (fs, fl, cm, pend)" by (rule prod_cases4)
  have inv: "cache_inv H (held rd (sv_kept s)) W (sv_cache s)" using assms by (simp add: srv_ok_def)
  note sp = del_many_spec [OF inv d]
  define s1 where "s1 = s\<lparr>sv_cache := cm, sv_pending := pend\<rparr>"
  have ok: "srv_ok H W rd s1" using srv_ok_cache [OF assms sp(1,4)] by (simp add: s1_def srv_ok_def)
  have "appends H W rd (concat (map (\<lambda>f. encode_frame (status_u8 (found_status f), [])) fs)) s1
      (fold (\<lambda>f. sv_header (found_status f) 0) fs s1)"
    by (rule fold_appends [OF ok]) (rule sv_status_appends)
  then have "appends H W rd (concat (map encode_frame (map (\<lambda>f. (status_u8 (found_status f), [])) fs))) s1 (del_run H W ks s)"
    by (simp add: del_run_def d s1_def comp_def)
  then show ?thesis
    by (rule serves_appends [rotated 3]) (use answers_dels sp in \<open>simp_all add: s1_def\<close>)
qed

lemma set_effect:
  "set_body b = Inr (k, v) \<Longrightarrow> entry_cost k v \<le> cap \<Longrightarrow> V' \<subseteq>\<^sub>m V(k \<mapsto> v) \<Longrightarrow> V' k = Some v \<Longrightarrow>
     item_effect cap V (op_u8 Set, b) V' \<and> item_reply cap V (op_u8 Set, b) = (status_u8 Ok, [])"
  "set_body b = Inr (k, v) \<Longrightarrow> \<not> entry_cost k v \<le> cap \<Longrightarrow> item_effect cap V (op_u8 Set, b) V \<and>
     item_reply cap V (op_u8 Set, b) =
       (status_u8 TooLarge, too_large_msg \<lparr>tl_cost = entry_cost k v, tl_capacity = cap\<rparr>)"
  "set_body b = Inl e \<Longrightarrow> item_effect cap V (op_u8 Set, b) V \<and>
     item_reply cap V (op_u8 Set, b) = (status_u8 BadRequest, decode_error_msg e)"
  by (simp_all add: item_effect_def item_reply_def set_result_def)

lemma answers_sets:
  assumes "cache_inv H rd W (c, m)" and "list_all (fits c) es" and "map set_body bs = map Inr es"
    and "set_all W (map (located_set H c) es) ret (c, m) = Some (ret', c', m')"
  shows "answers (sh_capacity (ca_shards c ! 0)) (cache_view H c m) (map (Pair (op_u8 Set)) bs)
    (cache_view H c' m') (map (\<lambda>_. (status_u8 Ok, [])) bs)"
  using assms
proof (induction es arbitrary: c m ret bs)
  case (Cons e es)
  obtain k v where e: "e = (k, v)" by fastforce
  obtain b bs' where bs: "bs = b # bs'" "set_body b = Inr (k, v)" "map set_body bs' = map Inr es"
    using Cons.prems(3) by (auto simp: e Cons_eq_map_conv)
  obtain i hash where l: "locate H c k = (i, hash)" by fastforce
  obtain r c1 m1 where s1: "set_on W i hash k v (c, m) = Some (r, c1, m1)"
    and rest: "set_all W (map (located_set H c) es) (retired_add ret r) (c1, m1) = Some (ret', c', m')"
    using Cons.prems(4) l by (auto simp: e split: option.splits)
  obtain Ms where rep: "cache_rep H rd c m Ms" and w: "world_ok W m" using Cons.prems(1) by (auto simp: cache_inv_def)
  have fit: "check_fits (ca_shards c ! 0) k v = Inr ()" using Cons.prems(2) by (simp add: e)
  note s = set_on_spec [OF rep w l fit s1]
  have inv1: "cache_inv H rd W (c1, m1)" using s(1) world_ok_mags [OF w s(6)] by (auto simp: cache_inv_def)
  have loc: "locate H c1 = locate H c" using s(4) by (simp add: fun_eq_iff)
  have "list_all (fits c1) es" using Cons.prems(2) fits_cong [OF s(5)] by (simp add: list_all_iff)
  note IH = Cons.IH [OF inv1 this bs(3), unfolded loc, OF rest, unfolded s(5)]
  have "entry_cost k v \<le> sh_capacity (ca_shards c ! 0)"
    using fit by (simp add: check_fits_iff split: if_splits)
  note ef = set_effect(1) [OF bs(2) this s(3,2)]
  from answers.item [OF conjunct1 [OF ef] IH] conjunct2 [OF ef] show ?case by (simp add: bs(1))
qed (simp add: answers.none)

lemma set_many_Inr:
  assumes "set_many H W es cm pend = Some (Inr fl, cm', pend')"
  shows "list_all (fits (fst cm)) es \<and>
    (\<exists>ret. set_all W (map (located_set H (fst cm)) es) retired_zero cm = Some (ret, cm'))"
proof -
  obtain l ret where "locate_sets H (fst cm) es = Inr l" "set_all W l retired_zero cm = Some (ret, cm')"
    using assms by (auto simp: set_many_def split: sum.splits option.splits prod.splits)
  then show ?thesis unfolding locate_sets_Inr by blast
qed

lemma set_reply_serves:
  assumes "srv_ok H W rd s" and "set_body b = Inr (k, v)" and "set_reply H W k v s = Some s'"
  shows "serves H W rd [(op_u8 Set, b)] s s'"
proof -
  obtain res cm pend where c: "set_many H W [(k, v)] (sv_cache s) (sv_pending s) = Some (res, cm, pend)"
    using assms(3) by (auto simp: set_reply_def cache_set_def split: option.splits)
  have inv: "cache_inv H (held rd (sv_kept s)) W (sv_cache s)" using assms(1) by (simp add: srv_ok_def)
  note sp = set_many_spec [OF inv c]
  define s1 where "s1 = s\<lparr>sv_cache := cm, sv_pending := pend\<rparr>"
  have ok: "srv_ok H W rd s1" using srv_ok_cache [OF assms(1) sp(2,3)] by (simp add: s1_def srv_ok_def)
  have o: "sv_out s1 = sv_out s" "sv_cap s1 = sv_cap s" using sp(4) by (simp_all add: s1_def)
  show ?thesis
  proof (cases res)
    case (Inr fl)
    then have s': "s' = sv_header Ok 0 s1" using assms(3) c by (simp add: set_reply_def cache_set_def s1_def)
    have "entry_cost k v \<le> sv_cap s" "sv_view H s1 \<subseteq>\<^sub>m (sv_view H s)(k \<mapsto> v)" "sv_view H s1 k = Some v"
      using sp(1) Inr by (simp_all add: check_fits_iff s1_def split: if_splits)
    from answers_one [OF conjunct1 [OF set_effect(1) [OF assms(2) this]]] conjunct2 [OF set_effect(1) [OF assms(2) this]]
    have "answers (sv_cap s) (sv_view H s) [(op_u8 Set, b)] (sv_view H s1) [(status_u8 Ok, [])]" by simp
    moreover have "appends H W rd (concat (map encode_frame [(status_u8 Ok, [])])) s1 s'"
      using sv_status_appends [OF ok, of Ok] by (simp add: s')
    ultimately show ?thesis by (rule serves_appends [OF _ o(2,1)])
  next
    case (Inl e)
    define s2 where "s2 = s1\<lparr>sv_metrics := count_too_large (sv_metrics s1)\<rparr>"
    have s': "s' = sv_frame W TooLarge (too_large_msg e) s2"
      using assms(3) c Inl by (simp add: set_reply_def cache_set_def s1_def s2_def Let_def)
    have e: "\<not> entry_cost k v \<le> sv_cap s" "e = \<lparr>tl_cost = entry_cost k v, tl_capacity = sv_cap s\<rparr>" "sv_view H s1 = sv_view H s"
      using sp(1) Inl by (auto simp: check_fits_iff s1_def split: if_splits)
    have ok2: "srv_ok H W rd s2" using ok by (simp add: s2_def srv_ok_def)
    have "answers (sv_cap s) (sv_view H s) [(op_u8 Set, b)] (sv_view H s2) [(status_u8 TooLarge, too_large_msg e)]"
      using answers_one [OF conjunct1 [OF set_effect(2) [OF assms(2) e(1)]]] conjunct2 [OF set_effect(2) [OF assms(2) e(1)]] e
      by (simp add: s2_def)
    moreover have "appends H W rd (concat (map encode_frame [(status_u8 TooLarge, too_large_msg e)])) s2 s'"
      using sv_frame_appends [OF ok2, of TooLarge] by (simp add: s')
    moreover have o2: "sv_cap s2 = sv_cap s" "sv_out s2 = sv_out s" using o by (simp_all add: s2_def)
    ultimately show ?thesis by (intro serves_appends [OF _ o2])
  qed
qed

lemma set_each_serves:
  "srv_ok H W rd s \<Longrightarrow> map set_body bs = map Inr es \<Longrightarrow> set_each H W es s = Some s' \<Longrightarrow>
   serves H W rd (map (Pair (op_u8 Set)) bs) s s'"
proof (induction es arbitrary: s bs)
  case (Cons e es)
  obtain k v where e: "e = (k, v)" by fastforce
  obtain b bs' where bs: "bs = b # bs'" "set_body b = Inr (k, v)" "map set_body bs' = map Inr es"
    using Cons.prems(2) by (auto simp: e Cons_eq_map_conv)
  obtain s1 where s1: "set_reply H W k v s = Some s1" "set_each H W es s1 = Some s'"
    using Cons.prems(3) by (auto simp: e split: option.splits)
  have 1: "serves H W rd [(op_u8 Set, b)] s s1" by (rule set_reply_serves [OF Cons.prems(1) bs(2) s1(1)])
  then have "srv_ok H W rd s1" by (simp add: serves_def)
  from serves_trans [OF 1 Cons.IH [OF this bs(3) s1(2)]] show ?case by (simp add: bs(1))
qed (simp add: serves_refl)

lemma set_entries_serves:
  assumes "srv_ok H W rd s" and "map set_body bs = map Inr es" and "set_entries H W es s = Some s'"
  shows "serves H W rd (map (Pair (op_u8 Set)) bs) s s'"
proof -
  obtain res cm pend where c: "set_many H W es (sv_cache s) (sv_pending s) = Some (res, cm, pend)"
    using assms(3) by (auto simp: set_entries_def split: option.splits)
  have inv: "cache_inv H (held rd (sv_kept s)) W (sv_cache s)" using assms(1) by (simp add: srv_ok_def)
  note sp = set_many_spec [OF inv c]
  show ?thesis
  proof (cases res)
    case (Inl e)
    then have "cm = sv_cache s" "pend = sv_pending s" using sp(1) by simp_all
    then have "set_each H W es s = Some s'" using assms(3) c Inl by (simp add: set_entries_def)
    from set_each_serves [OF assms(1,2) this] show ?thesis .
  next
    case (Inr fl)
    define s1 where "s1 = s\<lparr>sv_cache := cm, sv_pending := pend\<rparr>"
    have ok: "srv_ok H W rd s1" using srv_ok_cache [OF assms(1) sp(2,3)] by (simp add: s1_def srv_ok_def)
    have s': "s' = fold (\<lambda>_. sv_header Ok 0) es s1" using assms(3) c Inr by (simp add: set_entries_def s1_def)
    obtain ret where sa: "list_all (fits (fst (sv_cache s))) es"
        "set_all W (map (located_set H (fst (sv_cache s))) es) retired_zero (sv_cache s) = Some (ret, cm)"
      using set_many_Inr [OF c [unfolded Inr]] by blast
    have an: "answers (sv_cap s) (sv_view H s) (map (Pair (op_u8 Set)) bs) (sv_view H s1) (map (\<lambda>_. (status_u8 Ok, [])) bs)"
      using answers_sets [of H "held rd (sv_kept s)" W "fst (sv_cache s)" "snd (sv_cache s)" es bs retired_zero ret "fst cm" "snd cm"]
        inv sa assms(2) by (simp add: s1_def)
    have len: "length bs = length es" using arg_cong [OF assms(2), of length] by simp
    have "appends H W rd (concat (map (\<lambda>_. encode_frame (status_u8 Ok, [])) es)) s1 (fold (\<lambda>_. sv_header Ok 0) es s1)"
      by (rule fold_appends [OF ok]) (rule sv_status_appends)
    moreover have "map (\<lambda>_. encode_frame (status_u8 Ok, [])) es = map encode_frame (map (\<lambda>_. (status_u8 Ok, [])) bs)"
      using len by (simp add: map_replicate_const)
    ultimately have "appends H W rd (concat (map encode_frame (map (\<lambda>_. (status_u8 Ok, [])) bs))) s1 s'"
      by (simp only: s')
    then show ?thesis by (rule serves_appends [OF an, rotated 2]) (use sp(4) in \<open>simp_all add: s1_def\<close>)
  qed
qed

lemma set_run_spec:
  "set_run op b items = (es, bad, rest) \<Longrightarrow>
   \<exists>bs. map set_body bs = map Inr es \<and> (case bad of
      None \<Rightarrow> (op, b) # items = map (Pair op) bs @ rest
    | Some e \<Rightarrow> \<exists>x. set_body x = Inl e \<and> (op, b) # items = map (Pair op) bs @ (op, x) # rest)"
proof (induction op b items arbitrary: es bad rest rule: set_run.induct)
  case (1 op b items)
  consider (bad) e where "set_body b = Inl e" | (more) kv b' rest' where "set_body b = Inr kv" "items = (op, b') # rest'"
    | (last) kv where "set_body b = Inr kv" "\<forall>b' r. items \<noteq> (op, b') # r"
    by (cases "set_body b") auto
  then show ?case
  proof cases
    case bad
    then show ?thesis using "1.prems" by (auto simp: set_run.simps [of op b])
  next
    case more
    obtain es2 bad2 r2 where r: "set_run op b' rest' = (es2, bad2, r2)" by (rule prod_cases3)
    have e: "es = kv # es2" "bad = bad2" "rest = r2" using "1.prems" more r by (simp_all add: set_run.simps [of op b])
    obtain bs where "map set_body bs = map Inr es2" "case bad2 of
        None \<Rightarrow> (op, b') # rest' = map (Pair op) bs @ r2
      | Some e \<Rightarrow> \<exists>x. set_body x = Inl e \<and> (op, b') # rest' = map (Pair op) bs @ (op, x) # r2"
      using "1.IH" [OF more refl refl r] by blast
    then show ?thesis using more by (intro exI [of _ "b # bs"]) (simp add: e split: option.splits)
  next
    case last
    then have "es = [kv]" "bad = None" "rest = items"
      using "1.prems" by (auto simp: set_run.simps [of op b] split: list.splits if_splits)
    then show ?thesis using last by (intro exI [of _ "[b]"]) simp
  qed
qed

section \<open>Batches\<close>

lemma run_split: "map (Pair op) (run_bodies op items) @ run_rest op items = items"
proof -
  have "map (Pair op) (run_bodies op items) = takeWhile (\<lambda>(o', _). o' = op) items"
    by (induction items) (auto simp: run_bodies_def)
  then show ?thesis by (simp add: run_rest_def)
qed

lemma one_frame_serves:
  assumes "srv_ok H W rd s" and "item_effect (sv_cap s) (sv_view H s) x (sv_view H s)"
    and "item_reply (sv_cap s) (sv_view H s) x = (status_u8 st, msg)"
  shows "serves H W rd [x] s (sv_frame W st msg s)"
proof -
  have "answers (sv_cap s) (sv_view H s) [x] (sv_view H s) [(status_u8 st, msg)]"
    using answers_one [OF assms(2)] assms(3) by simp
  moreover have "appends H W rd (concat (map encode_frame [(status_u8 st, msg)])) s (sv_frame W st msg s)"
    using sv_frame_appends [OF assms(1)] by simp
  ultimately show ?thesis by (rule serves_appends [OF _ refl refl])
qed

lemma batch_loop_serves:
  "srv_ok H W rd s \<Longrightarrow> batch_loop H W items s = Some s' \<Longrightarrow> serves H W rd items s s'"
proof (induction H W items s rule: batch_loop.induct)
  case (1 H W s)
  then show ?case by (simp add: serves_refl)
next
  case (2 H W op b items s)
  note step = batch_loop.simps(2) [of H W op b items s]
  consider (get) "op = op_u8 Get" | (set) "op = op_u8 Set" | (del) "op = op_u8 Del"
    | (other) "op_from_u8 op \<notin> {Some Get, Some Set, Some Del}"
    using op_from_u8_Some by blast
  then show ?case
  proof cases
    case get
    let ?ks = "b # run_bodies op items"
    have 1: "serves H W rd (map (Pair op) ?ks) s (get_run H W ?ks s)" unfolding get by (rule get_run_serves [OF "2.prems"(1)])
    then have ok: "srv_ok H W rd (get_run H W ?ks s)" by (simp add: serves_def)
    have o': "op_from_u8 op = Some Get" by (simp add: get)
    then have "batch_loop H W (run_rest op items) (get_run H W ?ks s) = Some s'" using "2.prems"(2) by (simp add: step)
    with "2.IH"(2) o' ok have "serves H W rd (run_rest op items) (get_run H W ?ks s) s'" by simp
    from serves_trans [OF 1 this] show ?thesis using run_split [of op items] by simp
  next
    case del
    let ?ks = "b # run_bodies op items"
    have 1: "serves H W rd (map (Pair op) ?ks) s (del_run H W ?ks s)" unfolding del by (rule del_run_serves [OF "2.prems"(1)])
    then have ok: "srv_ok H W rd (del_run H W ?ks s)" by (simp add: serves_def)
    have o': "op_from_u8 op = Some Del" by (simp add: del)
    then have "batch_loop H W (run_rest op items) (del_run H W ?ks s) = Some s'" using "2.prems"(2) by (simp add: step)
    with "2.IH"(4) o' ok have "serves H W rd (run_rest op items) (del_run H W ?ks s) s'" by simp
    from serves_trans [OF 1 this] show ?thesis using run_split [of op items] by simp
  next
    case other
    let ?s1 = "sv_frame W UnknownOp (not_in_batch_msg op) s"
    have 1: "serves H W rd [(op, b)] s ?s1"
      using other by (intro one_frame_serves [OF "2.prems"(1)])
        (auto simp: item_effect_def item_reply_def split: option.splits op.splits)
    then have ok: "srv_ok H W rd ?s1" by (simp add: serves_def)
    have bl: "batch_loop H W items ?s1 = Some s'" using other "2.prems"(2) by (auto simp: step split: option.splits op.splits)
    consider "op_from_u8 op = None" | "op_from_u8 op = Some Auth" | "op_from_u8 op = Some Ping" | "op_from_u8 op = Some Batch"
      using other by (cases "op_from_u8 op"; cases "the (op_from_u8 op)") auto
    then have "serves H W rd items ?s1 s'" by cases (use "2.IH"(1,5-7) ok bl in auto)
    from serves_trans [OF 1 this] show ?thesis by simp
  next
    case set
    have o': "op_from_u8 op = Some Set" by (simp add: set)
    obtain es bad rest where r: "set_run op b items = (es, bad, rest)" by (rule prod_cases3)
    obtain bs where bs: "map set_body bs = map Inr es" "case bad of
        None \<Rightarrow> (op, b) # items = map (Pair op) bs @ rest
      | Some e \<Rightarrow> \<exists>x. set_body x = Inl e \<and> (op, b) # items = map (Pair op) bs @ (op, x) # rest"
      using set_run_spec [OF r] by blast
    define t where "t = (\<lambda>s1. case bad of Some e \<Rightarrow> sv_frame W BadRequest (decode_error_msg e) s1 | None \<Rightarrow> s1)"
    obtain s1 where s1: "set_entries H W es s = Some s1" "batch_loop H W rest (t s1) = Some s'"
      using "2.prems"(2) o' r by (auto simp: step t_def split: option.splits)
    have 1: "serves H W rd (map (Pair op) bs) s s1"
      unfolding set by (rule set_entries_serves [OF "2.prems"(1) bs(1) s1(1)])
    then have ok1: "srv_ok H W rd s1" by (simp add: serves_def)
    have "\<exists>xs. (op, b) # items = map (Pair op) bs @ xs @ rest \<and> serves H W rd xs s1 (t s1)"
    proof (cases bad)
      case None
      then show ?thesis using bs(2) serves_refl [OF ok1] by (intro exI [of _ "[]"]) (simp add: t_def)
    next
      case (Some e)
      then obtain x where x: "set_body x = Inl e" "(op, b) # items = map (Pair op) bs @ (op, x) # rest" using bs(2) by auto
      have "serves H W rd [(op, x)] s1 (t s1)"
        using one_frame_serves [OF ok1] set_effect(3) [OF x(1)] by (simp add: t_def Some set)
      with x(2) show ?thesis by (intro exI [of _ "[(op, x)]"]) simp
    qed
    then obtain xs where xs: "(op, b) # items = map (Pair op) bs @ xs @ rest" "serves H W rd xs s1 (t s1)" by blast
    have "serves H W rd rest (t s1) s'"
      using "2.IH"(3) [of Set "(es, bad, rest)" es "(bad, rest)" bad rest s1] xs(2) s1 r o' by (simp add: t_def serves_def)
    from serves_trans [OF 1 serves_trans [OF xs(2) this]] show ?thesis by (simp only: xs(1))
  qed
qed

text \<open>Dropping the owners of the pieces that are cut off.\<close>

lemma drop_owners:
  assumes "cache_inv H (held rd (ks @ hs)) W (sv_cache s)"
  shows "\<exists>cm. fold (drop_owner W) hs s = s\<lparr>sv_cache := cm\<rparr> \<and> cache_inv H (held rd ks) W cm \<and>
    view_of H cm = sv_view H s \<and> fst cm = fst (sv_cache s) \<and> readers_see (held rd ks) (snd (sv_cache s)) (snd cm)"
  using assms
proof (induction hs arbitrary: s)
  case Nil
  then show ?case by (intro exI [of _ "sv_cache s"]) simp
next
  case (Cons h hs)
  show ?case
  proof (cases h)
    case None
    then have "held rd (ks @ h # hs) = held rd (ks @ hs)" by (simp add: held_def fun_eq_iff)
    with Cons None show ?thesis by (simp add: drop_owner_def)
  next
    case (Some p)
    obtain c m where cm: "sv_cache s = (c, m)" by fastforce
    let ?rd = "held rd (ks @ h # hs)"
    have h: "?rd(p := ?rd p - 1) = held rd (ks @ hs)" by (auto simp: held_def fun_eq_iff Some)
    obtain Ms where rep: "cache_rep H ?rd c m Ms" and w: "world_ok W m"
      using Cons.prems by (auto simp: cache_inv_def cm)
    have pos: "0 < ?rd p" by (rule held_kept) (simp add: Some)
    have tid: "ev_tid (wo_env W) < length (sl_mags (m_slab m))" using w by (simp add: world_ok_def)
    note d = cache_reader_drop [OF rep pos tid, unfolded h]
    let ?m = "entry_drop (wo_env W) p m" and ?s1 = "drop_owner W h s"
    have s1: "?s1 = s\<lparr>sv_cache := (c, ?m)\<rparr>" by (simp add: drop_owner_def on_memory_def Some cm)
    have "cache_inv H (held rd (ks @ hs)) W (sv_cache ?s1)"
      using d(1) world_ok_mags [OF w d(3)] by (auto simp: s1 cache_inv_def)
    then obtain cm' where cm': "fold (drop_owner W) hs ?s1 = ?s1\<lparr>sv_cache := cm'\<rparr>" "cache_inv H (held rd ks) W cm'"
        "view_of H cm' = sv_view H ?s1" "fst cm' = fst (sv_cache ?s1)" "readers_see (held rd ks) (snd (sv_cache ?s1)) (snd cm')"
      using Cons.IH by blast
    have "readers_see (held rd ks) m ?m" using d(4) by (auto simp: readers_see_def held_def)
    then have "readers_see (held rd ks) m (snd cm')" using cm'(5) readers_see_trans by (simp add: s1)
    then show ?thesis using cm' d(2) by (intro exI [of _ cm']) (simp add: s1 cm)
  qed
qed

lemma shared_of_take: "\<exists>qs. shared_of ps = shared_of (take n ps) @ qs"
  by (metis append_take_drop_id shared_of_append)

lemma sv_abort_ok:
  assumes "srv_ok H W rd s" and "fw_open m pre t body (sv_out s)"
  shows "\<exists>s'. sv_abort W m s = Some s' \<and> srv_ok H W rd s' \<and> fw_bytes (sv_out s') = pre \<and>
    sv_view H s' = sv_view H s \<and> sv_cap s' = sv_cap s"
proof -
  obtain w where w: "fw_abort m (sv_out s) = Some w" "fw_inv w" "fw_bytes w = pre"
    using fw.revert_opened [OF assms(2)] by blast
  have "\<exists>n. fw_pieces w = take n (fw_pieces (sv_out s))"
    using w(1) by (auto simp: fw_abort_def split: if_splits piece.splits intro: exI [of _ "length (fw_pieces (sv_out s))"])
  then obtain qs where qs: "shared_of (fw_pieces (sv_out s)) = shared_of (fw_pieces w) @ qs" using shared_of_take by metis
  let ?n = "length (shared_of (fw_pieces w))" and ?k = "sv_kept s"
  have l2: "list_all2 (\<lambda>b h. \<forall>p. h = Some p \<longrightarrow> value_at (sv_heap s) p = b) (shared_of (fw_pieces w)) (take ?n ?k)"
    using assms(1) list_all2_takeI [of _ "shared_of (fw_pieces (sv_out s))" ?k ?n] by (simp add: srv_ok_def qs)
  let ?s1 = "s\<lparr>sv_out := w, sv_kept := take ?n ?k\<rparr>"
  have "cache_inv H (held rd (take ?n ?k @ drop ?n ?k)) W (sv_cache ?s1)" using assms(1) by (simp add: srv_ok_def)
  then obtain cm where cm: "fold (drop_owner W) (drop ?n ?k) ?s1 = ?s1\<lparr>sv_cache := cm\<rparr>"
      "cache_inv H (held rd (take ?n ?k)) W cm" "view_of H cm = sv_view H ?s1" "fst cm = fst (sv_cache ?s1)"
      "readers_see (held rd (take ?n ?k)) (snd (sv_cache ?s1)) (snd cm)"
    using drop_owners by blast
  have "\<And>p. Some p \<in> set (take ?n ?k) \<Longrightarrow> value_at (m_heap (snd cm)) p = value_at (sv_heap s) p"
    using cm(5) held_kept by (simp add: readers_see_def)
  then have "srv_ok H W rd (?s1\<lparr>sv_cache := cm\<rparr>)"
    using cm(2) w(2) l2 unfolding srv_ok_def list_all2_conv_all_nth
    by (auto simp del: nth_take) (metis length_take nth_mem)
  then show ?thesis using w cm by (simp add: sv_abort_def Let_def)
qed

lemma sv_end_ok:
  assumes "srv_ok H W rd s" and "fw_open m pre t body (sv_out s)"
  shows "\<exists>w. fw_end m (sv_out s) = Some w \<and> srv_ok H W rd (s\<lparr>sv_out := w\<rparr>) \<and> fw_bytes w = pre @ encode_frame (t, body)"
proof -
  obtain w where w: "fw_end m (sv_out s) = Some w" "fw_inv w" "fw_bytes w = pre @ encode_frame (t, body)"
    using fw.finish_opened [OF assms(2)] by blast
  have upd: "ps ! i = Own b \<Longrightarrow> i < length ps \<Longrightarrow> shared_of (ps[i := Own c]) = shared_of ps" for ps i b c
    by (induction ps arbitrary: i rule: shared_of.induct) (auto simp: nth_Cons split: nat.splits)
  have "shared_of (fw_pieces w) = shared_of (fw_pieces (sv_out s))"
    using w(1) upd by (auto simp: fw_end_def Let_def split: if_splits piece.splits)
  then show ?thesis using w assms(1) by (simp add: srv_ok_def)
qed

section \<open>Requests\<close>

text \<open>The reference for a whole request: what may be readable after it, and its one reply.\<close>

definition batch_result :: "(u8 \<times> bytes) list \<Rightarrow> u8 \<times> bytes" where
  "batch_result rs =
     (let n = length (encode_batch rs)
      in if n > MAX_RESPONSE then (status_u8 TooLarge, response_too_large_msg n)
         else (status_u8 Ok, encode_batch rs))"

definition request_answer ::
  "nat \<Rightarrow> (bytes \<rightharpoonup> bytes) \<Rightarrow> u8 \<Rightarrow> bytes \<Rightarrow> (bytes \<rightharpoonup> bytes) \<Rightarrow> u8 \<times> bytes \<Rightarrow> bool" where
  "request_answer cap V op body V' r \<longleftrightarrow>
     (case op_from_u8 op of
        Some Get \<Rightarrow> V' = V \<and> r =
          (case V body of
             Some v \<Rightarrow> if length v > MAX_RESPONSE then (status_u8 TooLarge, response_too_large_msg (length v))
                       else (status_u8 Ok, v)
           | None \<Rightarrow> (status_u8 NotFound, []))
      | Some Batch \<Rightarrow>
          (case frames body of
             Inl e \<Rightarrow> V' = V \<and> r = (status_u8 BadRequest, decode_error_msg e)
           | Inr f \<Rightarrow> \<exists>rs. answers cap V (frames_items f) V' rs \<and> r = batch_result rs)
      | Some Auth \<Rightarrow> V' = V \<and> r = (status_u8 Ok, [])
      | Some Ping \<Rightarrow> V' = V \<and> r = (status_u8 Ok, [])
      | None \<Rightarrow> V' = V \<and> r = (status_u8 UnknownOp, unknown_op_msg op)
      | _ \<Rightarrow> item_effect cap V (op, body) V' \<and> r = item_reply cap V (op, body))"

text \<open>A request served: exactly one frame appended, the one of the reference.\<close>

definition replied ::
  "(bytes \<Rightarrow> u64) \<Rightarrow> world \<Rightarrow> (nat \<Rightarrow> nat) \<Rightarrow> u8 \<Rightarrow> bytes \<Rightarrow> server \<Rightarrow> server \<Rightarrow> bool" where
  "replied H W rd op body s s' \<longleftrightarrow> srv_ok H W rd s' \<and> sv_cap s' = sv_cap s \<and>
     (\<exists>r. request_answer (sv_cap s) (sv_view H s) op body (sv_view H s') r \<and>
        fw_bytes (sv_out s') = fw_bytes (sv_out s) @ encode_frame r)"

lemma replied_appends:
  assumes "request_answer (sv_cap s) (sv_view H s) op body (sv_view H s1) r" and "sv_cap s1 = sv_cap s"
    and "sv_out s1 = sv_out s" and "appends H W rd (encode_frame r) s1 s2"
  shows "replied H W rd op body s s2"
  using assms unfolding replied_def by (intro conjI exI [of _ r]) (simp_all add: appends_def emits_def)

lemma replied_one:
  assumes "serves H W rd [(op, body)] s s'" and "op_from_u8 op \<in> {Some Set, Some Del}"
  shows "replied H W rd op body s s'"
  using assms unfolding replied_def serves_def
  by (intro conjI exI [of _ "item_reply (sv_cap s) (sv_view H s) (op, body)"])
    (auto simp: request_answer_def emits_def)

lemma batch_replied:
  assumes "srv_ok H W rd s" and "batch H W body s = Some s'"
  shows "replied H W rd (op_u8 Batch) body s s'"
proof (cases "frames body")
  case (Inl e)
  then have "s' = sv_frame W BadRequest (decode_error_msg e) s" using assms(2) by (simp add: batch_def)
  then show ?thesis using sv_frame_appends [OF assms(1), of BadRequest]
    by (intro replied_appends [of s H _ _ s "(status_u8 BadRequest, decode_error_msg e)"]) (simp_all add: request_answer_def Inl)
next
  case (Inr f)
  obtain m w where b: "fw_begin (status_u8 Ok) (sv_out s) = (m, w)" by fastforce
  let ?n = "to_le_bytes (of_nat (fr_left f))"
  define s1 where "s1 = s\<lparr>sv_out := fw_put_slice ?n w\<rparr>"
  have "fw_inv (sv_out s)" using assms(1) by (simp add: srv_ok_def)
  note op0 = fw.start_opened [OF this b]
  have wi: "fw_inv w" by (rule fw.opened_inv [OF op0])
  have op1: "fw_open m (fw_bytes (sv_out s)) (status_u8 Ok) ?n (sv_out s1)"
    using fw.put_opened [OF op0, of ?n] by (simp add: s1_def)
  have "shared_of (fw_pieces w) = shared_of (fw_pieces (sv_out s))"
    using b by (auto simp: fw_begin_def Let_def)
  then have ok1: "srv_ok H W rd s1" using assms(1) wi by (simp add: s1_def srv_ok_def)
  obtain s2 where s2: "batch_loop H W (frames_items f) s1 = Some s2"
    using assms(2) Inr b by (auto simp: batch_def s1_def split: option.splits)
  obtain rs where rs: "answers (sv_cap s) (sv_view H s) (frames_items f) (sv_view H s2) rs"
      "emits (concat (map encode_frame rs)) (sv_out s1) (sv_out s2)" "srv_ok H W rd s2" "sv_cap s2 = sv_cap s"
    using batch_loop_serves [OF ok1 s2] by (auto simp: serves_def s1_def)
  obtain xs where xs: "frames_wf f xs" using Inr frames_Inr_iff by blast
  then have "fr_left f = length (frames_items f)" by (simp add: frames_items_wf [OF xs]) (simp add: frames_wf_def)
  then have op2: "fw_open m (fw_bytes (sv_out s)) (status_u8 Ok) (encode_batch rs) (sv_out s2)"
    using rs(2) op1 answers_length [OF rs(1)] by (simp add: emits_def encode_batch_def)
  have tot: "fw_since m (sv_out s2) = length (encode_batch rs)" by (rule fw.written_opened [OF op2])
  have ans: "request_answer (sv_cap s) (sv_view H s) (op_u8 Batch) body (sv_view H s2) (batch_result rs)"
    using rs(1) Inr by (auto simp: request_answer_def)
  show ?thesis
  proof (cases "length (encode_batch rs) > MAX_RESPONSE")
    case True
    obtain s3 where s3: "sv_abort W m s2 = Some s3" "srv_ok H W rd s3" "fw_bytes (sv_out s3) = fw_bytes (sv_out s)"
        "sv_view H s3 = sv_view H s2" "sv_cap s3 = sv_cap s2" using sv_abort_ok [OF rs(3) op2] by blast
    have "s' = sv_frame W TooLarge (response_too_large_msg (length (encode_batch rs))) s3"
      using assms(2) Inr b s2 s3(1) tot True by (simp add: batch_def s1_def Let_def)
    with sv_frame_appends [OF s3(2), of TooLarge "response_too_large_msg (length (encode_batch rs))"] s3 ans rs(4) True show ?thesis
      by (auto simp: replied_def appends_def emits_def batch_result_def Let_def)
  next
    case False
    obtain w' where w': "fw_end m (sv_out s2) = Some w'" "srv_ok H W rd (s2\<lparr>sv_out := w'\<rparr>)"
        "fw_bytes w' = fw_bytes (sv_out s) @ encode_frame (status_u8 Ok, encode_batch rs)" using sv_end_ok [OF rs(3) op2] by blast
    have "s' = s2\<lparr>sv_out := w'\<rparr>" using assms(2) Inr b s2 w'(1) tot False by (simp add: batch_def s1_def Let_def)
    with w' ans rs(4) False show ?thesis by (auto simp: replied_def batch_result_def Let_def)
  qed
qed

lemma get_in_cap:
  assumes "get_in H k cm = (r, cm')"
  shows "sh_capacity (ca_shards (fst cm') ! 0) = sh_capacity (ca_shards (fst cm) ! 0)"
proof -
  have "sh_capacity (ca_shards (on_shard i (count_gets a b) c) ! 0) = sh_capacity (ca_shards c ! 0)" for i a b c
    by (cases "i < length (ca_shards c)"; cases "i = 0") (simp_all add: on_shard_def list_update_beyond count_gets_def)
  then show ?thesis using assms by (cases cm) (auto simp: get_in_def Let_def split: prod.splits option.splits)
qed

lemma get_replied:
  assumes "srv_ok H W rd s"
  shows "replied H W rd (op_u8 Get) body s (get_reply H W body s)"
proof -
  obtain found cm where g: "get_in H body (sv_cache s) = (found, cm)" by (rule prod.exhaust)
  have inv: "cache_inv H (held rd (sv_kept s)) W (sv_cache s)" using assms by (simp add: srv_ok_def)
  note sp = get_in_spec [OF inv g]
  define s1 where "s1 = s\<lparr>sv_cache := cm\<rparr>"
  have ok: "srv_ok H W rd s1" unfolding s1_def by (rule srv_ok_cache [OF assms sp(1,3)])
  have o: "sv_cap s1 = sv_cap s" "sv_out s1 = sv_out s" "sv_view H s1 = sv_view H s"
    using get_in_cap [OF g] sp(2) by (simp_all add: s1_def)
  have gr: "get_reply H W body s = (case found of
      Some e \<Rightarrow> if length (value_at (sv_heap s1) e) > MAX_RESPONSE
        then sv_frame W TooLarge (response_too_large_msg (length (value_at (sv_heap s1) e))) s1 else put_value W e s1
    | None \<Rightarrow> sv_header NotFound 0 s1)" unfolding get_reply_def g s1_def Let_def by simp
  show ?thesis
  proof (cases found)
    case None
    then have "sv_view H s body = None" using sp(4) by simp
    then show ?thesis using sv_status_appends [OF ok, of NotFound] o gr None
      by (intro replied_appends [of s H _ _ s1 "(status_u8 NotFound, [])"]) (simp_all add: request_answer_def)
  next
    case (Some e)
    let ?v = "value_at (sv_heap s1) e"
    have v: "sv_view H s body = Some ?v" using sp(4) by (simp add: Some s1_def)
    have "e \<in> dom (sv_heap s1)" using sp(6) [OF Some] by (simp add: s1_def)
    note pv = put_value_appends [OF ok this] and fr = sv_frame_appends [OF ok, of TooLarge "response_too_large_msg (length ?v)"]
    show ?thesis
    proof (cases "length ?v > MAX_RESPONSE")
      case True
      with v o gr Some fr show ?thesis
        by (intro replied_appends [of s H _ _ s1 "(status_u8 TooLarge, response_too_large_msg (length ?v))"]) (simp_all add: request_answer_def)
    next
      case False
      with v o gr Some pv show ?thesis
        by (intro replied_appends [of s H _ _ s1 "(status_u8 Ok, ?v)"]) (simp_all add: request_answer_def)
    qed
  qed
qed

lemma del_answers_one: "del_answers [k] V = [k \<in> dom V]"
  by simp

lemma del_reply_run: "cache_inv H rd W (sv_cache s) \<Longrightarrow> del_reply H W k s = del_run H W [k] s"
proof -
  assume inv: "cache_inv H rd W (sv_cache s)"
  obtain fs fl cm pend where d: "del_many H W [k] (sv_cache s) (sv_pending s) = (fs, fl, cm, pend)" by (rule prod_cases4)
  have "fs = [k \<in> dom (sv_view H s)]" using del_many_spec(3) [OF inv d] by simp
  with d show ?thesis by (simp add: del_reply_def del_run_def cache_del_def)
qed

lemma dispatch_replied:
  assumes "srv_ok H W rd s" and "dispatch H W op body s = Some s'"
  shows "replied H W rd op body s s'"
proof -
  have inv: "cache_inv H (held rd (sv_kept s)) W (sv_cache s)" using assms(1) by (simp add: srv_ok_def)
  consider (get) "op = op_u8 Get" | (set) "op = op_u8 Set" | (del) "op = op_u8 Del" | (batch) "op = op_u8 Batch"
    | (nop) "op_from_u8 op \<in> {Some Auth, Some Ping}" | (unknown) "op_from_u8 op = None"
    by (cases "op_from_u8 op"; cases "the (op_from_u8 op)") (auto dest: op_from_u8_Some)
  then show ?thesis
  proof cases
    case get
    then show ?thesis using get_replied [OF assms(1), of body] assms(2) by (simp add: dispatch_def)
  next
    case set
    show ?thesis
    proof (cases "set_body body")
      case (Inl e)
      then have "s' = sv_frame W BadRequest (decode_error_msg e) s" using assms(2) set by (simp add: dispatch_def)
      then have "serves H W rd [(op, body)] s s'"
        using one_frame_serves [OF assms(1)] set_effect(3) [OF Inl] set by metis
      then show ?thesis by (rule replied_one) (simp add: set)
    next
      case (Inr kv)
      obtain k v where kv: "kv = (k, v)" by fastforce
      have "set_reply H W k v s = Some s'" using assms(2) set Inr by (simp add: dispatch_def kv)
      from set_reply_serves [OF assms(1) Inr [unfolded kv] this]
      have "serves H W rd [(op, body)] s s'" by (simp only: set)
      then show ?thesis by (rule replied_one) (simp add: set)
    qed
  next
    case del
    then have "s' = del_run H W [body] s" using assms(2) del_reply_run [OF inv] by (simp add: dispatch_def)
    then have "serves H W rd [(op, body)] s s'" using del_run_serves [OF assms(1), of "[body]"] by (simp add: del)
    then show ?thesis by (rule replied_one) (simp add: del)
  next
    case batch
    then show ?thesis using batch_replied [OF assms(1)] assms(2) by (simp add: dispatch_def)
  next
    case nop
    then have "s' = sv_header Ok 0 s" using assms(2) by (auto simp: dispatch_def)
    with nop sv_status_appends [OF assms(1), of Ok] show ?thesis
      by (intro replied_appends [of s H _ _ s "(status_u8 Ok, [])"]) (auto simp: request_answer_def)
  next
    case unknown
    then have "s' = sv_frame W UnknownOp (unknown_op_msg op) s" using assms(2) by (simp add: dispatch_def)
    with unknown sv_frame_appends [OF assms(1), of UnknownOp] show ?thesis
      by (intro replied_appends [of s H _ _ s "(status_u8 UnknownOp, unknown_op_msg op)"]) (simp_all add: request_answer_def)
  qed
qed

section \<open>Requests return\<close>

definition stores :: "u8 \<Rightarrow> bytes \<Rightarrow> bool" where
  "stores op body \<longleftrightarrow> op = op_u8 Set \<or> op = op_u8 Batch \<and>
     (\<exists>f. frames body = Inr f \<and> op_u8 Set \<in> fst ` set (frames_items f))"

lemma batch_loop_returns:
  "op_u8 Set \<notin> fst ` set items \<Longrightarrow> \<exists>s'. batch_loop H W items s = Some s'"
proof (induction H W items s rule: batch_loop.induct)
  case (2 H W op b items s)
  have sub: "op_u8 Set \<notin> fst ` set (run_rest op items)"
    using "2.prems" by (auto simp: run_rest_def dest: set_dropWhileD)
  have "op_from_u8 op \<noteq> Some Set" using "2.prems" op_from_u8_Some by force
  with "2.IH" "2.prems" sub show ?case
    by (auto simp: batch_loop.simps(2) [of H W op b] split: option.split op.split)
qed simp

lemma batch_returns:
  assumes "srv_ok H W rd s" and "\<And>f. frames body = Inr f \<Longrightarrow> op_u8 Set \<notin> fst ` set (frames_items f)"
  shows "\<exists>s'. batch H W body s = Some s'"
proof (cases "frames body")
  case (Inr f)
  obtain m w where b: "fw_begin (status_u8 Ok) (sv_out s) = (m, w)" by fastforce
  let ?n = "to_le_bytes (of_nat (fr_left f))"
  define s1 where "s1 = s\<lparr>sv_out := fw_put_slice ?n w\<rparr>"
  have "fw_inv (sv_out s)" using assms(1) by (simp add: srv_ok_def)
  note op0 = fw.start_opened [OF this b]
  have op1: "fw_open m (fw_bytes (sv_out s)) (status_u8 Ok) ?n (sv_out s1)"
    using fw.put_opened [OF op0, of ?n] by (simp add: s1_def)
  have "shared_of (fw_pieces w) = shared_of (fw_pieces (sv_out s))" using b by (auto simp: fw_begin_def Let_def)
  then have ok1: "srv_ok H W rd s1" using assms(1) fw.opened_inv [OF op0] by (simp add: s1_def srv_ok_def)
  obtain s2 where s2: "batch_loop H W (frames_items f) s1 = Some s2" using batch_loop_returns [OF assms(2) [OF Inr]] by blast
  obtain rs where rs: "emits (concat (map encode_frame rs)) (sv_out s1) (sv_out s2)" "srv_ok H W rd s2"
    using batch_loop_serves [OF ok1 s2] by (auto simp: serves_def)
  then have op2: "fw_open m (fw_bytes (sv_out s)) (status_u8 Ok) (?n @ concat (map encode_frame rs)) (sv_out s2)"
    using op1 by (simp add: emits_def)
  show ?thesis using sv_abort_ok [OF rs(2) op2] sv_end_ok [OF rs(2) op2] Inr b s2
    by (auto simp: batch_def s1_def Let_def)
qed (simp add: batch_def)

lemma dispatch_returns_aux:
  assumes "srv_ok H W rd s" and "\<not> stores op body"
  shows "\<exists>s'. dispatch H W op body s = Some s'"
proof -
  have "op_from_u8 op \<noteq> Some Set" using assms(2) op_from_u8_Some by (force simp: stores_def)
  moreover have "\<exists>s'. batch H W body s = Some s'" if "op_from_u8 op = Some Batch"
    using that assms(2) op_from_u8_Some by (intro batch_returns [OF assms(1)]) (force simp: stores_def)
  ultimately show ?thesis by (auto simp: dispatch_def split: option.split op.split)
qed

section \<open>The size of a response\<close>

text \<open>The number a decoding error names.\<close>

fun err_num :: "decode_error \<Rightarrow> nat" where
  "err_num (Truncated n) = n"
| "err_num (Trailing n) = n"
| "err_num (TooMany n) = n"

lemma split_errors:
  "split_count b = Inl e \<Longrightarrow> err_num e \<le> U32"
  "split_len b n = Inl e \<Longrightarrow> err_num e \<le> n"
  by (auto simp: split_count_def split_len_def split: if_splits)

lemma split_count_less: "split_count b = Inr (n, r) \<Longrightarrow> n < 2 ^ 32"
  by (simp add: split_count_iff)

lemma set_body_error: "set_body b = Inl e \<Longrightarrow> err_num e < 2 ^ 32"
proof -
  assume "set_body b = Inl e"
  then consider "split_count b = Inl e" | n r where "split_count b = Inr (n, r)" "split_len r n = Inl e"
    by (auto simp: set_body_def bindE_Inl_iff)
  then show ?thesis
    by cases (use split_errors split_count_less in \<open>fastforce simp: U32_def\<close>)+
qed

lemma frame_step_error: "frame_step b = Inl e \<Longrightarrow> err_num e < 2 ^ 32"
proof -
  assume "frame_step b = Inl e"
  then consider "split_len b HEADER_LEN = Inl e"
    | h r where "split_len r (snd (decode_header h)) = Inl e"
    by (auto simp: frame_step_def bindE_Inl_iff case_prod_unfold Let_def)
  then show ?thesis
  proof cases
    case 1
    then show ?thesis using split_errors(2) by (fastforce simp: HEADER_LEN_def)
  next
    case 2
    then show ?thesis using split_errors(2) decode_header_less le_less_trans by blast
  qed
qed

lemma frames_walk_error: "frames_walk n b = Inl e \<Longrightarrow> err_num e < 2 ^ 32"
  by (induction n arbitrary: b) (auto simp: bindE_Inl_iff dest: frame_step_error)

lemma frames_walk_shrinks: "frames_walk n b = Inr r \<Longrightarrow> length r \<le> length b"
proof (induction n arbitrary: b)
  case (Suc n)
  then obtain f b' where f: "frame_step b = Inr (f, b')" and w: "frames_walk n b' = Inr r" by (auto simp: bindE_Inr_iff)
  from wire.step_shrinks [OF f] Suc.IH [OF w] show ?case by simp
qed simp

lemma frames_error: "frames body = Inl e \<Longrightarrow> length body < 2 ^ 32 \<Longrightarrow> err_num e < 2 ^ 32"
proof -
  assume "frames body = Inl e" and len: "length body < 2 ^ 32"
  then consider "split_count body = Inl e"
    | n r where "split_count body = Inr (n, r)" "e = TooMany n"
    | n r where "split_count body = Inr (n, r)" "frames_walk n r = Inl e"
    | n r r' where "split_count body = Inr (n, r)" "frames_walk n r = Inr r'" "e = Trailing (length r')"
    by (auto simp: frames_def bindE_Inl_iff split: if_splits)
  then show ?thesis
  proof cases
    case 1
    then show ?thesis using split_errors(1) by (fastforce simp: U32_def)
  next
    case (4 n r r')
    then have "length r' \<le> length body" using frames_walk_shrinks by (fastforce simp: split_count_iff)
    with 4 len show ?thesis by simp
  qed (use split_count_less frames_walk_error in auto)
qed

lemma length_dec_less: "n < 10 ^ 30 \<Longrightarrow> length (dec n) \<le> 30"
  by (rule length_dec) simp_all

lemma dec_MAX_ITEMS: "length (dec MAX_ITEMS) \<le> 30"
  by (rule length_dec_less) (simp add: MAX_ITEMS_def)

lemma message_lengths:
  "err_num e < 10 ^ 30 \<Longrightarrow> length (decode_error_msg e) \<le> 200"
  "n < 10 ^ 30 \<Longrightarrow> length (response_too_large_msg n) \<le> 200"
  "tl_cost x < 10 ^ 30 \<Longrightarrow> tl_capacity x < 10 ^ 30 \<Longrightarrow> length (too_large_msg x) \<le> 200"
  "length (not_in_batch_msg op) \<le> 200" "length (unknown_op_msg op) \<le> 200"
proof -
  show "length (decode_error_msg e) \<le> 200" if "err_num e < 10 ^ 30"
    using length_dec_less that dec_MAX_ITEMS by (cases e) fastforce+
  show "length (response_too_large_msg n) \<le> 200" if "n < 10 ^ 30"
    using length_dec_less [OF that] by (simp add: response_too_large_msg_def)
  show "length (too_large_msg x) \<le> 200" if "tl_cost x < 10 ^ 30" "tl_capacity x < 10 ^ 30"
    using length_dec_less [OF that(1)] length_dec_less [OF that(2)] by (simp add: too_large_msg_def)
  have "unat op < 2 ^ LENGTH(8)" by (rule unsigned_less)
  then have "unat op < 10 ^ 30" by simp
  from length_dec_less [OF this] show "length (not_in_batch_msg op) \<le> 200" "length (unknown_op_msg op) \<le> 200"
    by (simp_all add: not_in_batch_msg_def unknown_op_msg_def)
qed

text \<open>Values as a 64-bit machine can hold them.\<close>

definition sized :: "(bytes \<rightharpoonup> bytes) \<Rightarrow> bool" where
  "sized V \<longleftrightarrow> (\<forall>k v. V k = Some v \<longrightarrow> length v < 2 ^ 64)"

lemma set_body_sizes:
  "set_body b = Inr (k, v) \<Longrightarrow> length b < 2 ^ 32 \<Longrightarrow> length k < 2 ^ 32 \<and> length v < 2 ^ 32"
  by (auto simp: set_body_Inr_iff set_size_def)

lemma item_effect_sized:
  assumes "item_effect cap V (op, b) V'" and "sized V" and "length b < 2 ^ 32"
  shows "sized V'"
proof -
  have put: "sized V'" if "V' \<subseteq>\<^sub>m V(k \<mapsto> v)" "length v < 2 ^ 32" for k v
    unfolding sized_def
  proof (intro allI impI)
    fix x y assume "V' x = Some y"
    then have "(V(k \<mapsto> v)) x = Some y" using that(1) by (metis domI map_le_def)
    then show "length y < 2 ^ 64" using assms(2) that(2) by (auto simp: sized_def split: if_splits)
  qed
  have del: "sized (V(b := None))" using assms(2) by (simp add: sized_def)
  show ?thesis
  proof (cases "op_from_u8 op = Some Set")
    case True
    then show ?thesis using assms put set_body_sizes [OF _ assms(3)]
      by (auto simp: item_effect_def split: sum.splits if_splits)
  next
    case False
    then show ?thesis using assms(1,2) del by (auto simp: item_effect_def split: option.splits op.splits)
  qed
qed

lemma set_result_sized:
  assumes "length b < 2 ^ 32" and "cap < 2 ^ 64"
  shows "length (snd (set_result cap b)) \<le> 200"
proof (cases "set_body b")
  case (Inl e)
  then have "err_num e < 10 ^ 30" using set_body_error [OF Inl] by simp
  with Inl show ?thesis by (simp add: set_result_def message_lengths)
next
  case (Inr kv)
  obtain k v where kv: "kv = (k, v)" by fastforce
  have "entry_cost k v < 10 ^ 30"
    using set_body_sizes [OF Inr [unfolded kv] assms(1)] by (simp add: entry_cost_def ENTRY_OVERHEAD_def)
  then show ?thesis using assms(2) by (auto simp: set_result_def Inr kv intro!: message_lengths)
qed

lemma item_reply_sized:
  assumes "sized V" and "length b < 2 ^ 32" and "cap < 2 ^ 64"
  shows "length (snd (item_reply cap V (op, b))) < 2 ^ 64"
proof -
  have "length (snd (set_result cap b)) < 2 ^ 64" "length (not_in_batch_msg op) < 2 ^ 64"
    using set_result_sized [OF assms(2,3)] message_lengths(4) [of op] by simp_all
  with assms(1) show ?thesis by (auto simp: item_reply_def sized_def split: option.splits op.splits)
qed

lemma answers_sized:
  "answers cap V xs V' rs \<Longrightarrow> sized V \<Longrightarrow> \<forall>x \<in> set xs. length (snd x) < 2 ^ 32 \<Longrightarrow> cap < 2 ^ 64 \<Longrightarrow>
   \<forall>r \<in> set rs. length (snd r) < 2 ^ 64"
proof (induction rule: answers.induct)
  case (item V x V1 xs V' rs)
  obtain op b where x: "x = (op, b)" by fastforce
  have "sized V1" using item_effect_sized item by (simp add: x)
  with item item_reply_sized [of V b cap op] show ?case by (simp add: x)
qed simp

lemma encode_batch_bound:
  "length rs \<le> MAX_ITEMS \<Longrightarrow> \<forall>r \<in> set rs. length (snd r) < 2 ^ 64 \<Longrightarrow> length (encode_batch rs) < 10 ^ 30"
proof -
  assume n: "length rs \<le> MAX_ITEMS" and r: "\<forall>r \<in> set rs. length (snd r) < 2 ^ 64"
  have "length (concat (map encode_frame rs)) \<le> length rs * (HEADER_LEN + 2 ^ 64)"
    using r by (induction rs) (auto simp: less_imp_le add_mono)
  also have "\<dots> \<le> MAX_ITEMS * (HEADER_LEN + 2 ^ 64)" using n by (rule mult_right_mono) simp
  finally show ?thesis by (simp add: encode_batch_def HEADER_LEN_def MAX_ITEMS_def)
qed

lemma batch_item_sizes:
  assumes "frames body = Inr f" and "length body < 2 ^ 32"
  shows "length (frames_items f) \<le> MAX_ITEMS \<and> (\<forall>x \<in> set (frames_items f). length (snd x) < 2 ^ 32)"
proof -
  obtain xs where xs: "frames_wf f xs" "length xs \<le> MAX_ITEMS" "body = encode_batch xs" using assms(1) frames_Inr_iff by blast
  have "length (snd x) \<le> length body" if "x \<in> set xs" for x
  proof -
    have "length (encode_frame x) \<le> length (concat (map encode_frame xs))"
      using that by (induction xs) auto
    then show ?thesis by (simp add: xs(3) encode_batch_def)
  qed
  then show ?thesis using xs assms(2) by (auto simp: frames_items_wf [OF xs(1)] intro: le_less_trans)
qed

lemma request_answer_bound:
  assumes "request_answer cap V op body V' r" and "length body < 2 ^ 32" and "cap < 2 ^ 64" and "sized V"
  shows "length (snd r) \<le> MAX_RESPONSE"
proof -
  have small: "n \<le> 200 \<Longrightarrow> n \<le> MAX_RESPONSE" for n by (simp add: MAX_RESPONSE_def MAX_FRAME_def)
  have big: "V body = Some v \<Longrightarrow> length (response_too_large_msg (length v)) \<le> MAX_RESPONSE" for v
    using assms(4) by (intro small message_lengths) (fastforce simp: sized_def)
  have unk: "length (unknown_op_msg op) \<le> MAX_RESPONSE" by (intro small message_lengths)
  have st: "length (snd (set_result cap body)) \<le> MAX_RESPONSE" by (intro small set_result_sized assms)
  have fe: "length (decode_error_msg e) \<le> MAX_RESPONSE" if "frames body = Inl e" for e
    using frames_error [OF that assms(2)] by (intro small message_lengths) simp
  have ba: "length (snd (batch_result rs)) \<le> MAX_RESPONSE"
    if "frames body = Inr f" "answers cap V (frames_items f) V' rs" for f rs
  proof -
    note sz = batch_item_sizes [OF that(1) assms(2)]
    have "length (encode_batch rs) < 10 ^ 30"
      using answers_length [OF that(2)] answers_sized [OF that(2) assms(4) _ assms(3)] sz by (intro encode_batch_bound) simp_all
    then show ?thesis using small [OF message_lengths(2)] by (simp add: batch_result_def Let_def)
  qed
  show ?thesis using assms(1) big unk st fe ba
    by (auto simp: request_answer_def item_reply_def split: option.splits op.splits sum.splits if_splits)
qed

lemma answers_keep_sized:
  "answers cap V xs V' rs \<Longrightarrow> sized V \<Longrightarrow> \<forall>x \<in> set xs. length (snd x) < 2 ^ 32 \<Longrightarrow> sized V'"
proof (induction rule: answers.induct)
  case (item V x V1 xs V' rs)
  then show ?case using item_effect_sized [of cap V "fst x" "snd x" V1] by simp
qed simp

lemma request_answer_sized:
  assumes "request_answer cap V op body V' r" and "sized V" and "length body < 2 ^ 32"
  shows "sized V'"
proof (cases "op_from_u8 op = Some Batch")
  case True
  then show ?thesis
    using assms answers_keep_sized batch_item_sizes [OF _ assms(3)]
    by (auto simp: request_answer_def split: sum.splits)
next
  case False
  then show ?thesis using assms(1,2) item_effect_sized [OF _ assms(2,3)]
    by (auto simp: request_answer_def split: option.splits op.splits)
qed

text \<open>What a shard holds fits in it, so a 64-bit capacity bounds every value.\<close>

lemma srv_ok_sized: "srv_ok H W rd s \<Longrightarrow> sv_cap s < 2 ^ 64 \<Longrightarrow> sized (sv_view H s)"
  using cache_value_fits unfolding srv_ok_def sized_def by (meson le_less_trans)

section \<open>Properties\<close>

lemma or_fold_zero:
  "fold (\<lambda>(x, y) acc. acc OR (x XOR y)) zs (acc :: u8) = 0 \<longleftrightarrow> acc = 0 \<and> (\<forall>(x, y) \<in> set zs. x = y)"
proof (induction zs arbitrary: acc)
  case (Cons z zs)
  have "acc OR (x XOR y) = 0 \<longleftrightarrow> acc = 0 \<and> x = y" for x y :: u8
    by (simp add: or_eq_0_iff) (auto simp: bit_eq_iff bit_xor_iff)
  with Cons.IH show ?case by (auto split: prod.splits)
qed simp

text \<open>
  The constant-time comparison a token is checked with decides equality: it accepts the
  configured token and nothing else, of whatever length.
\<close>

lemma ct_eq_iff: "ct_eq a b \<longleftrightarrow> a = b"
proof
  assume c: "ct_eq a b"
  then have "list_all2 (=) a b" by (simp add: ct_eq_def or_fold_zero list_all2_iff)
  then show "a = b" by (simp add: list.rel_eq)
next
  assume "a = b"
  then show "ct_eq a b" by (simp add: ct_eq_def or_fold_zero list_all2_iff [symmetric] list.rel_eq zip_same_conv_map)
qed

text \<open>
  C4. A request is answered by exactly one frame, and by the right one. Whatever is queued
  already, \<open>dispatch\<close> appends one response, the one the reference gives for what the cache can
  show: a value, a miss, a refusal with its message; for a batch, the replies of its items
  answered one after the other, although they are served in runs. What can be read afterwards is
  what the reference allows, every handle stays accounted for, and the memory behind every value
  queued by reference still holds that value.
\<close>

theorem dispatch_answers:
  assumes "srv_ok H W rd s" and "dispatch H W op body s = Some s'"
  shows "srv_ok H W rd s' \<and>
    (\<exists>r. request_answer (sv_cap s) (sv_view H s) op body (sv_view H s') r \<and>
       fw_bytes (sv_out s') = fw_bytes (sv_out s) @ encode_frame r)"
  using dispatch_replied [OF assms] by (auto simp: replied_def)

text \<open>
  C26. No request panics: one that stores nothing always returns, whatever its bytes and however
  large its response.
\<close>

theorem dispatch_returns:
  assumes "srv_ok H W rd s" and "\<not> stores op body"
  shows "\<exists>s'. dispatch H W op body s = Some s'"
  by (rule dispatch_returns_aux [OF assms])

text \<open>
  C27. No response exceeds the limit both ends share: to any request a header can announce, the
  body of the one frame \<open>dispatch\<close> appends is at most \<open>MAX_RESPONSE\<close> bytes, however often a batch
  names the same large value. A shard's capacity is a machine word.
\<close>

theorem dispatch_response_bounded:
  assumes "srv_ok H W rd s" and "dispatch H W op body s = Some s'" and "length body < 2 ^ 32"
    and "sv_cap s < 2 ^ 64"
  shows "\<exists>r. fw_bytes (sv_out s') = fw_bytes (sv_out s) @ encode_frame r \<and> length (snd r) \<le> MAX_RESPONSE"
  using dispatch_replied [OF assms(1,2)] request_answer_bound [OF _ assms(3,4) srv_ok_sized [OF assms(1,4)]]
  unfolding replied_def by blast

text \<open>A server on a new cache, with nothing queued.\<close>

definition demo_server :: server where
  "demo_server = \<lparr>sv_cache = (cache_new 1000 1, mem_new 1), sv_pending = (0, 0),
     sv_metrics = metrics_new 0, sv_out = fw_new, sv_kept = []\<rparr>"

lemma demo_server_ok: "srv_ok H demo_world (\<lambda>_. 0) demo_server"
proof -
  have "held (\<lambda>_. 0) [] = (\<lambda>_. 0)" by (simp add: held_def fun_eq_iff)
  with demo_inv [of H 1000] show ?thesis by (simp add: srv_ok_def demo_server_def fw_new_def with_inline_limit_def)
    (simp add: fw_inv_def fw_bytes_def INLINE_BODY_def)
qed

lemma demo_server_view: "sv_view H demo_server = Map.empty"
  using cache_new_rep(2) [of 1 H 1000 1] by (simp add: demo_server_def)

text \<open>A batch of a lookup, a ping and a delete.\<close>

definition demo_items :: "(u8 \<times> bytes) list" where
  "demo_items = [(op_u8 Get, [7]), (op_u8 Ping, []), (op_u8 Del, [7])]"

lemma demo_frames: "\<exists>f. frames (encode_batch demo_items) = Inr f \<and> frames_items f = demo_items"
  by (subst frames_items_iff) (auto simp: demo_items_def MAX_ITEMS_def frame_ok_def)

lemma demo_dispatch:
  "\<exists>s'. dispatch H demo_world (op_u8 Batch) (encode_batch demo_items) demo_server = Some s'"
  by (rule dispatch_returns_aux [OF demo_server_ok]) (use demo_frames in \<open>auto simp: stores_def demo_items_def\<close>)

theorem dispatch_answers_witness:
  "\<exists>s'. dispatch (\<lambda>_. 5) demo_world (op_u8 Batch) (encode_batch demo_items) demo_server = Some s' \<and>
     fw_bytes (sv_out s') = encode_frame (status_u8 Ok, encode_batch
       [(status_u8 NotFound, []), (status_u8 UnknownOp, not_in_batch_msg 5), (status_u8 NotFound, [])])"
proof -
  obtain s' where s': "dispatch (\<lambda>_. 5) demo_world (op_u8 Batch) (encode_batch demo_items) demo_server = Some s'"
    using demo_dispatch by blast
  obtain f where f: "frames (encode_batch demo_items) = Inr f" "frames_items f = demo_items" using demo_frames by blast
  obtain r where r: "request_answer (sv_cap demo_server) Map.empty (op_u8 Batch) (encode_batch demo_items) (sv_view (\<lambda>_. 5) s') r"
      "fw_bytes (sv_out s') = encode_frame r"
    using dispatch_answers [OF demo_server_ok s'] by (auto simp: demo_server_view) (simp add: demo_server_def)
  let ?rs = "[(status_u8 NotFound, []), (status_u8 UnknownOp, not_in_batch_msg 5), (status_u8 NotFound, [])]"
  have "length (encode_batch ?rs) \<le> MAX_RESPONSE"
    using message_lengths(4) [of 5] by (simp add: encode_batch_def MAX_RESPONSE_def MAX_FRAME_def HEADER_LEN_def)
  then have "r = (status_u8 Ok, encode_batch ?rs)"
    using r(1) f by (auto simp: request_answer_def demo_items_def item_effect_def item_reply_def found_status_def
        batch_result_def Let_def)
  with s' r(2) show ?thesis by blast
qed

theorem dispatch_returns_witness:
  "\<exists>s'. dispatch (\<lambda>_. 5) demo_world (op_u8 Batch) (encode_batch demo_items) demo_server = Some s'"
  by (rule dispatch_returns [OF demo_server_ok]) (use demo_frames in \<open>auto simp: stores_def demo_items_def\<close>)

theorem dispatch_response_bounded_witness:
  "\<exists>s' r. dispatch (\<lambda>_. 5) demo_world (op_u8 Batch) (encode_batch demo_items) demo_server = Some s' \<and>
     fw_bytes (sv_out s') = encode_frame r \<and> length (snd r) \<le> MAX_RESPONSE"
proof -
  obtain s' where s': "dispatch (\<lambda>_. 5) demo_world (op_u8 Batch) (encode_batch demo_items) demo_server = Some s'"
    using demo_dispatch by blast
  have "sv_cap demo_server < 2 ^ 64" by (simp add: demo_server_def cache_new_1 shard_new_def del: One_nat_def)
  moreover have "length (encode_batch demo_items) < 2 ^ 32"
    by (simp add: demo_items_def encode_batch_def HEADER_LEN_def)
  ultimately show ?thesis using dispatch_response_bounded [OF demo_server_ok s'] s' by (auto simp: demo_server_def)
qed

end
