(* ===== verification/Conn_Limit.thy ===== *)
theory Conn_Limit
  imports Prelude "HOL-Library.Multiset"
begin

text \<open>
  The budget of open connections of \<^verbatim>\<open>crates/server/src/tcp.rs\<close>: \<open>ConnLimit\<close>, \<open>admit\<close> and \<open>Slot\<close>, and
  the part of the two accept loops that uses them. The semaphore is tokio's; what is used of it
  is a count of free permits: taking one when there is one, waiting otherwise, and giving it
  back when it is dropped.

  Listeners and connections run side by side, so the loops are a step relation on the budget and
  on where every listener and connection stands.
\<close>

section \<open>The budget\<close>

record conn_limit =
  cl_free :: nat  \<comment> \<open>permits the semaphore has left\<close>
  cl_max :: nat
  cl_open :: nat
  cl_hits :: nat

definition LIMIT_WARN_EVERY :: nat where "LIMIT_WARN_EVERY = 1000"

definition limit_new :: "nat \<Rightarrow> conn_limit" where
  "limit_new n = \<lparr>cl_free = n, cl_max = n, cl_open = 0, cl_hits = 0\<rparr>"

definition try_acquire :: "conn_limit \<Rightarrow> conn_limit option" where
  "try_acquire l = (if cl_free l > 0 then Some (l\<lparr>cl_free := cl_free l - 1\<rparr>) else None)"

text \<open>
  The first half of \<open>acquire\<close>, up to the wait: whether it got a permit, and whether it warns. It
  counts a blocked accept only when the budget is really used up by open connections.
\<close>

definition acquire :: "conn_limit \<Rightarrow> bool \<times> bool \<times> conn_limit" where
  "acquire l =
     (case try_acquire l of
        Some l' \<Rightarrow> (True, False, l')
      | None \<Rightarrow>
          if cl_open l \<ge> cl_max l
          then (False, cl_hits l mod LIMIT_WARN_EVERY = 0, l\<lparr>cl_hits := cl_hits l + 1\<rparr>)
          else (False, False, l))"

definition release_permit :: "conn_limit \<Rightarrow> conn_limit" where
  "release_permit l = l\<lparr>cl_free := cl_free l + 1\<rparr>"

definition slot_open :: "conn_limit \<Rightarrow> conn_limit" where
  "slot_open l = l\<lparr>cl_open := cl_open l + 1\<rparr>"

definition slot_drop :: "conn_limit \<Rightarrow> conn_limit" where
  "slot_drop l = l\<lparr>cl_open := cl_open l - 1\<rparr>"

section \<open>Listeners and connections\<close>

text \<open>
  Where a front end is in \<open>run_until\<close>. In its accept loop: before \<open>admit\<close>, waiting for a permit, in
  \<open>accept\<close> holding one, or pausing after a failed accept, the permit still held. After the signal
  to shut down: waiting for its connections, waiting for them after aborting them, or back. A
  connection is served, or its slot is being dropped: the count goes first, the permit after it.
\<close>

datatype stage = Admit | Wait | Accept | Pause | Draining | Aborting | Returned

datatype phase = Served | Dropping

record listeners =
  ls_limit :: conn_limit
  ls_stages :: "stage list"
  ls_conns :: "(nat \<times> phase) multiset"  \<comment> \<open>with the front end that accepted it\<close>

abbreviation holding :: "stage \<Rightarrow> bool" where
  "holding st \<equiv> st = Accept \<or> st = Pause"

abbreviation accepting :: "stage \<Rightarrow> bool" where
  "accepting st \<equiv> st \<in> {Admit, Wait, Accept, Pause}"

abbreviation conns_of :: "nat \<Rightarrow> listeners \<Rightarrow> (nat \<times> phase) multiset" where
  "conns_of i s \<equiv> filter_mset (\<lambda>c. fst c = i) (ls_conns s)"

text \<open>The accept loop is dropped, with the permit it may hold.\<close>

definition stop_accepting :: "stage \<Rightarrow> conn_limit \<Rightarrow> conn_limit" where
  "stop_accepting st l = (if holding st then release_permit l else l)"

text \<open>
  The steps. Reaping finished tasks changes nothing here: a task is gone when its slot is. \<open>ended\<close> is
  the end of a connection for any reason, the abort after the drain timeout included.
\<close>

inductive lstep :: "listeners \<Rightarrow> listeners \<Rightarrow> bool" where
  admitted: "i < length (ls_stages s) \<Longrightarrow> ls_stages s ! i = Admit \<Longrightarrow> acquire (ls_limit s) = (True, warn, l) \<Longrightarrow>
    lstep s (s\<lparr>ls_limit := l, ls_stages := (ls_stages s)[i := Accept]\<rparr>)"
| blocked: "i < length (ls_stages s) \<Longrightarrow> ls_stages s ! i = Admit \<Longrightarrow> acquire (ls_limit s) = (False, warn, l) \<Longrightarrow>
    lstep s (s\<lparr>ls_limit := l, ls_stages := (ls_stages s)[i := Wait]\<rparr>)"
| granted: "i < length (ls_stages s) \<Longrightarrow> ls_stages s ! i = Wait \<Longrightarrow> try_acquire (ls_limit s) = Some l \<Longrightarrow>
    lstep s (s\<lparr>ls_limit := l, ls_stages := (ls_stages s)[i := Accept]\<rparr>)"
| accepted: "i < length (ls_stages s) \<Longrightarrow> ls_stages s ! i = Accept \<Longrightarrow>
    lstep s (s\<lparr>ls_limit := slot_open (ls_limit s), ls_stages := (ls_stages s)[i := Admit],
      ls_conns := add_mset (i, Served) (ls_conns s)\<rparr>)"
| accept_failed: "i < length (ls_stages s) \<Longrightarrow> ls_stages s ! i = Accept \<Longrightarrow>
    lstep s (s\<lparr>ls_stages := (ls_stages s)[i := Pause]\<rparr>)"
| resumed: "i < length (ls_stages s) \<Longrightarrow> ls_stages s ! i = Pause \<Longrightarrow>
    lstep s (s\<lparr>ls_limit := release_permit (ls_limit s), ls_stages := (ls_stages s)[i := Admit]\<rparr>)"
| shutdown_idle: "i < length (ls_stages s) \<Longrightarrow> accepting (ls_stages s ! i) \<Longrightarrow> conns_of i s = {#} \<Longrightarrow>
    lstep s (s\<lparr>ls_limit := stop_accepting (ls_stages s ! i) (ls_limit s), ls_stages := (ls_stages s)[i := Returned]\<rparr>)"
| shutdown: "i < length (ls_stages s) \<Longrightarrow> accepting (ls_stages s ! i) \<Longrightarrow>
    lstep s (s\<lparr>ls_limit := stop_accepting (ls_stages s ! i) (ls_limit s), ls_stages := (ls_stages s)[i := Draining]\<rparr>)"
| overdue: "i < length (ls_stages s) \<Longrightarrow> ls_stages s ! i = Draining \<Longrightarrow>
    lstep s (s\<lparr>ls_stages := (ls_stages s)[i := Aborting]\<rparr>)"
| drained: "i < length (ls_stages s) \<Longrightarrow> ls_stages s ! i \<in> {Draining, Aborting} \<Longrightarrow> conns_of i s = {#} \<Longrightarrow>
    lstep s (s\<lparr>ls_stages := (ls_stages s)[i := Returned]\<rparr>)"
| ended: "(i, Served) \<in># ls_conns s \<Longrightarrow>
    lstep s (s\<lparr>ls_limit := slot_drop (ls_limit s), ls_conns := add_mset (i, Dropping) (ls_conns s - {#(i, Served)#})\<rparr>)"
| dropped: "(i, Dropping) \<in># ls_conns s \<Longrightarrow>
    lstep s (s\<lparr>ls_limit := release_permit (ls_limit s), ls_conns := ls_conns s - {#(i, Dropping)#}\<rparr>)"

definition listeners_new :: "nat \<Rightarrow> nat \<Rightarrow> listeners" where
  "listeners_new n k = \<lparr>ls_limit = limit_new n, ls_stages = replicate k Admit, ls_conns = {#}\<rparr>"

section \<open>Every permit is somewhere\<close>

definition permits_ok :: "listeners \<Rightarrow> bool" where
  "permits_ok s \<longleftrightarrow>
     cl_free (ls_limit s) + length (filter holding (ls_stages s)) + size (ls_conns s) = cl_max (ls_limit s) \<and>
     cl_open (ls_limit s) = size (filter_mset (\<lambda>c. snd c = Served) (ls_conns s)) \<and>
     (\<forall>c \<in># ls_conns s. fst c < length (ls_stages s) \<and> ls_stages s ! fst c \<noteq> Returned)"

lemmas limit_defs = acquire_def try_acquire_def slot_open_def slot_drop_def release_permit_def stop_accepting_def

lemma no_conns_of: "conns_of i s = {#} \<longleftrightarrow> (\<forall>c \<in># ls_conns s. fst c \<noteq> i)"
proof -
  have "set_mset (conns_of i s) = {c \<in> set_mset (ls_conns s). fst c = i}" by simp
  then show ?thesis by (metis (mono_tags, lifting) Collect_empty_eq set_mset_eq_empty_iff)
qed

lemma filter_update:
  assumes "i < length xs"
  shows "length (filter P (xs[i := x])) + of_bool (P (xs ! i)) = length (filter P xs) + of_bool (P x)"
proof -
  have xs: "xs = take i xs @ xs ! i # drop (Suc i) xs" using assms by (rule id_take_nth_drop)
  have upd: "xs[i := x] = take i xs @ x # drop (Suc i) xs" using assms by (rule upd_conv_take_nth_drop)
  have "length (filter P xs) = length (filter P (take i xs)) + of_bool (P (xs ! i)) + length (filter P (drop (Suc i) xs))"
    using arg_cong [OF xs, of "\<lambda>ys. length (filter P ys)"] by simp
  then show ?thesis by (simp add: upd)
qed

lemma lstep_max: "lstep s s' \<Longrightarrow> cl_max (ls_limit s') = cl_max (ls_limit s)"
  by (induction rule: lstep.induct) (auto simp: limit_defs split: option.splits if_splits)

text \<open>A step that moves one front end and leaves the connections alone.\<close>

lemma permits_ok_stage:
  assumes "permits_ok s" and "i < length (ls_stages s)" and "st = Returned \<Longrightarrow> conns_of i s = {#}"
    and "cl_free l + of_bool (holding st) = cl_free (ls_limit s) + of_bool (holding (ls_stages s ! i))"
    and "cl_max l = cl_max (ls_limit s)" and "cl_open l = cl_open (ls_limit s)"
  shows "permits_ok (s\<lparr>ls_limit := l, ls_stages := (ls_stages s)[i := st]\<rparr>)"
proof -
  have "(ls_stages s)[i := st] ! fst c \<noteq> Returned" if "c \<in># ls_conns s" for c
  proof (cases "fst c = i")
    case True
    with that have "conns_of i s \<noteq> {#}" unfolding no_conns_of by blast
    with True assms(2,3) show ?thesis by auto
  next
    case False
    with assms(1) that show ?thesis by (auto simp: permits_ok_def)
  qed
  with assms(1,2,4-) filter_update [OF assms(2), of holding st] show ?thesis
    by (simp add: permits_ok_def)
qed

lemma lstep_permits: "lstep s s' \<Longrightarrow> permits_ok s \<Longrightarrow> permits_ok s'"
proof (induction rule: lstep.induct)
  case (admitted i s warn l)
  then show ?case by (intro permits_ok_stage) (auto simp: limit_defs split: option.splits if_splits)
next
  case (blocked i s warn l)
  then show ?case by (intro permits_ok_stage) (auto simp: limit_defs split: option.splits if_splits)
next
  case (granted i s l)
  then show ?case by (intro permits_ok_stage) (auto simp: limit_defs split: if_splits)
next
  case (accepted i s)
  then show ?case using filter_update [of i "ls_stages s" holding Admit]
    by (auto simp: permits_ok_def slot_open_def nth_list_update)
next
  case (accept_failed i s)
  then show ?case using permits_ok_stage [of s i Pause "ls_limit s"] by simp
next
  case (resumed i s)
  then show ?case by (intro permits_ok_stage) (auto simp: limit_defs)
next
  case (shutdown_idle i s)
  then show ?case by (intro permits_ok_stage) (auto simp: limit_defs)
next
  case (shutdown i s)
  then show ?case by (intro permits_ok_stage) (auto simp: limit_defs)
next
  case (overdue i s)
  then show ?case using permits_ok_stage [of s i Aborting "ls_limit s"] by simp
next
  case (drained i s)
  then show ?case using permits_ok_stage [of s i Returned "ls_limit s"] by auto
next
  case (ended i s)
  then obtain M where "ls_conns s = add_mset (i, Served) M" by (metis multi_member_split)
  with ended show ?case by (simp add: permits_ok_def slot_drop_def)
next
  case (dropped i s)
  then obtain M where "ls_conns s = add_mset (i, Dropping) M" by (metis multi_member_split)
  with dropped show ?case by (simp add: permits_ok_def release_permit_def)
qed

interpretation permits: step_invariant lstep "\<lambda>s. permits_ok s \<and> cl_max (ls_limit s) = n" for n
  by unfold_locales (auto dest: lstep_permits lstep_max)

lemma lsteps_permits:
  assumes "lstep\<^sup>*\<^sup>* (listeners_new n k) s"
  shows "permits_ok s \<and> cl_max (ls_limit s) = n"
  by (rule permits.reach_inv [OF assms]) (simp add: permits_ok_def listeners_new_def limit_new_def)

text \<open>
  C29. However any number of listeners and connections interleave, the connections open under a
  budget never exceed it, no permit is lost or made up, and when nothing holds one all of them
  are free again; a blocked accept is counted as a hit of the limit only while exactly as many
  connections are open as it allows.
\<close>

theorem open_connections_bounded:
  assumes "lstep\<^sup>*\<^sup>* (listeners_new n k) s"
  shows "cl_open (ls_limit s) \<le> n \<and> size (ls_conns s) \<le> n \<and>
    (ls_conns s = {#} \<and> filter holding (ls_stages s) = [] \<longrightarrow> cl_free (ls_limit s) = n) \<and>
    (acquire (ls_limit s) = (ok, warn, l) \<and> cl_hits l \<noteq> cl_hits (ls_limit s) \<longrightarrow> \<not> ok \<and> cl_open (ls_limit s) = n)"
proof -
  have ok: "permits_ok s" "cl_max (ls_limit s) = n" using lsteps_permits [OF assms] by simp_all
  then have "cl_open (ls_limit s) \<le> size (ls_conns s)" by (simp add: permits_ok_def size_filter_mset_lesseq)
  moreover have "cl_free (ls_limit s) + length (filter holding (ls_stages s)) + size (ls_conns s) = n"
    using ok by (simp add: permits_ok_def)
  ultimately show ?thesis
    using ok(2) by (auto simp: acquire_def try_acquire_def split: option.splits if_splits)
qed

section \<open>Shutting down\<close>

interpretation stages: step_invariant lstep "\<lambda>s. length (ls_stages s) = k" for k
  by unfold_locales (auto elim: lstep.cases)

text \<open>A front end that has stopped accepting stays so, and its connections only get fewer.\<close>

definition winding_down :: "nat \<Rightarrow> nat \<Rightarrow> listeners \<Rightarrow> bool" where
  "winding_down i k s \<longleftrightarrow> i < length (ls_stages s) \<and> \<not> accepting (ls_stages s ! i) \<and> size (conns_of i s) \<le> k"

lemma lstep_winding_down: "lstep s s' \<Longrightarrow> winding_down i k s \<Longrightarrow> winding_down i k s'"
proof (induction rule: lstep.induct)
  case (ended j s)
  then obtain M where "ls_conns s = add_mset (j, Served) M" by (metis multi_member_split)
  with ended show ?case by (auto simp: winding_down_def)
next
  case (dropped j s)
  then obtain M where "ls_conns s = add_mset (j, Dropping) M" by (metis multi_member_split)
  with dropped show ?case by (auto simp: winding_down_def split: if_splits)
qed (auto simp: winding_down_def nth_list_update)

interpretation winding: step_invariant lstep "winding_down i k" for i k
  by unfold_locales (rule lstep_winding_down)

text \<open>The connections of a front end can all end, whatever the others do.\<close>

lemma conns_can_end:
  "\<exists>s'. lstep\<^sup>*\<^sup>* s s' \<and> conns_of i s' = {#} \<and> ls_stages s' = ls_stages s"
proof (induction "2 * size (conns_of i s) + size (filter_mset (\<lambda>c. c = (i, Served)) (ls_conns s))" arbitrary: s rule: less_induct)
  case less
  show ?case
  proof (cases "conns_of i s = {#}")
    case True
    then show ?thesis by blast
  next
    case False
    then obtain p where p: "(i, p) \<in># ls_conns s" by (auto simp: no_conns_of)
    then obtain M where M: "ls_conns s = add_mset (i, p) M" by (metis multi_member_split)
    define t where "t = (if p = Served
      then s\<lparr>ls_limit := slot_drop (ls_limit s), ls_conns := add_mset (i, Dropping) M\<rparr>
      else s\<lparr>ls_limit := release_permit (ls_limit s), ls_conns := M\<rparr>)"
    have "lstep s t"
      using lstep.ended [of i s] lstep.dropped [of i s] M p by (cases p) (simp_all add: t_def)
    moreover have "2 * size (conns_of i t) + size (filter_mset (\<lambda>c. c = (i, Served)) (ls_conns t)) <
        2 * size (conns_of i s) + size (filter_mset (\<lambda>c. c = (i, Served)) (ls_conns s))" "ls_stages t = ls_stages s"
      using M by (cases p; simp add: t_def)+
    ultimately show ?thesis using less [of t] by (metis converse_rtranclp_into_rtranclp)
  qed
qed

text \<open>
  C30. A front end that is told to shut down accepts nothing any more, from then on its connections
  only end, and it can always finish, whatever the others do; when it has, none of its connections
  is left. When all have, the whole budget is free and nothing counts as open.
\<close>

theorem shutdown_frees_everything:
  assumes "lstep\<^sup>*\<^sup>* (listeners_new n k) s" and "i < k" and "\<not> accepting (ls_stages s ! i)" and "lstep\<^sup>*\<^sup>* s s'"
  shows "\<not> accepting (ls_stages s' ! i) \<and> size (conns_of i s') \<le> size (conns_of i s) \<and>
    (\<exists>s''. lstep\<^sup>*\<^sup>* s' s'' \<and> ls_stages s'' ! i = Returned) \<and>
    (ls_stages s' ! i = Returned \<longrightarrow> conns_of i s' = {#}) \<and>
    (set (ls_stages s') \<subseteq> {Returned} \<longrightarrow> cl_free (ls_limit s') = n \<and> cl_open (ls_limit s') = 0)"
proof -
  have len: "length (ls_stages s) = k"
    by (rule stages.reach_inv [OF assms(1)]) (simp add: listeners_new_def)
  with assms(2,3) have "winding_down i (size (conns_of i s)) s" by (simp add: winding_down_def)
  then have c: "winding_down i (size (conns_of i s)) s'" by (rule winding.reach_inv [OF assms(4)])
  have ok: "permits_ok s'" "cl_max (ls_limit s') = n"
    using lsteps_permits [of n k s'] assms(1,4) by (auto intro: rtranclp_trans)
  then have gone: "conns_of i s' = {#}" if "ls_stages s' ! i = Returned" for i
    using that by (auto simp: permits_ok_def no_conns_of)
  obtain t where t: "lstep\<^sup>*\<^sup>* s' t" "conns_of i t = {#}" "ls_stages t = ls_stages s'" using conns_can_end by blast
  have "\<exists>s''. lstep\<^sup>*\<^sup>* s' s'' \<and> ls_stages s'' ! i = Returned"
  proof (cases "ls_stages s' ! i = Returned")
    case False
    with c have st: "ls_stages t ! i \<in> {Draining, Aborting}" "i < length (ls_stages t)"
      using t(3) by (cases "ls_stages s' ! i"; simp add: winding_down_def)+
    from lstep.drained [OF st(2,1) t(2)] t(1) st(2) show ?thesis
      by (intro exI [of _ "t\<lparr>ls_stages := (ls_stages t)[i := Returned]\<rparr>"]) (auto intro: rtranclp.rtrancl_into_rtrancl)
  qed blast
  moreover have "cl_free (ls_limit s') = n \<and> cl_open (ls_limit s') = 0" if all: "set (ls_stages s') \<subseteq> {Returned}"
  proof -
    have "ls_conns s' = {#}"
      using ok(1) all by (cases "ls_conns s'") (auto simp: permits_ok_def dest: nth_mem)
    moreover have "filter holding (ls_stages s') = []" using all by (auto simp: filter_empty_conv)
    ultimately show ?thesis using ok by (simp add: permits_ok_def)
  qed
  ultimately show ?thesis using c gone by (simp add: winding_down_def)
qed

section \<open>A run\<close>

theorem open_connections_bounded_witness:
  "\<exists>s. lstep\<^sup>*\<^sup>* (listeners_new 1 2) s \<and> cl_open (ls_limit s) = 1 \<and> cl_open (ls_limit s) \<le> 1"
proof -
  let ?s0 = "listeners_new 1 2"
  let ?s1 = "?s0\<lparr>ls_limit := (limit_new 1)\<lparr>cl_free := 0\<rparr>, ls_stages := [Accept, Admit]\<rparr>"
  let ?s2 = "?s1\<lparr>ls_limit := slot_open (ls_limit ?s1), ls_stages := [Admit, Admit], ls_conns := {#(0, Served)#}\<rparr>"
  have "lstep ?s0 ?s1"
    using lstep.admitted [of 0 ?s0 False "(limit_new 1)\<lparr>cl_free := 0\<rparr>"]
    by (simp add: listeners_new_def acquire_def try_acquire_def limit_new_def numeral_2_eq_2)
  moreover have "lstep ?s1 ?s2"
    using lstep.accepted [of 0 ?s1] by (simp add: listeners_new_def)
  ultimately have "lstep\<^sup>*\<^sup>* ?s0 ?s2" by (blast intro: rtranclp_trans)
  moreover have "cl_open (ls_limit ?s2) = 1" by (simp add: slot_open_def limit_new_def)
  ultimately show ?thesis using open_connections_bounded [of 1 2 ?s2] by blast
qed

theorem shutdown_frees_everything_witness:
  "\<exists>s. lstep\<^sup>*\<^sup>* (listeners_new 1 1) s \<and> ls_stages s = [Draining] \<and>
     (\<exists>s'. lstep\<^sup>*\<^sup>* s s' \<and> ls_stages s' ! 0 = Returned)"
proof -
  let ?s0 = "listeners_new 1 1"
  let ?s1 = "?s0\<lparr>ls_limit := stop_accepting Admit (ls_limit ?s0), ls_stages := [Draining]\<rparr>"
  have "lstep ?s0 ?s1" using lstep.shutdown [of 0 ?s0] by (simp add: listeners_new_def)
  then have s: "lstep\<^sup>*\<^sup>* ?s0 ?s1" by blast
  from shutdown_frees_everything [OF s, of 0 ?s1] s show ?thesis by (intro exI [of _ ?s1]) simp
qed

end
