(* ===== verification/Connection.thy ===== *)
theory Connection
  imports Dispatch_Inv Conn_Limit
begin

text \<open>
  One TCP connection, \<open>serve_connection\<close> of \<^verbatim>\<open>crates/server/src/tcp.rs\<close>, and the options a front end
  is bound with. A connection alternates between serving every frame that is buffered (\<open>burst\<close>)
  and waiting: for its queue to be sent, then for more input, both under a deadline.

  What the outside decides is in a \<open>turn\<close>: the clock, how the socket takes the queue and when
  that is done, what is read next and when, and the cache other connections leave while this
  one waits. Points in time are seconds and, as in the standard library, of 63 bits: a sum beyond
  that panics, which ends the connection. A future that never completes is \<open>Never\<close>. A result \<open>None\<close> is a turn that does not
  end: a wait without a deadline for something that never comes, or a request that does not
  return.
\<close>

section \<open>Options\<close>

definition MAX_AUTH_FRAME :: nat where "MAX_AUTH_FRAME = 4 * 2 ^ 10"

text \<open>Durations in seconds.\<close>

definition KEEPALIVE :: nat where "KEEPALIVE = 100"
definition AUTH_TIMEOUT :: nat where "AUTH_TIMEOUT = 30"
definition DEFAULT_IDLE_TIMEOUT :: nat where "DEFAULT_IDLE_TIMEOUT = 3 * KEEPALIVE"
definition DEFAULT_MAX_CONNECTIONS :: nat where "DEFAULT_MAX_CONNECTIONS = 10000"

record 't options =
  op_token :: bytes
  op_idle_timeout :: "nat option"
  op_limit :: "conn_limit option"
  op_tls :: "'t option"
  op_metrics :: metrics

definition options_new :: "nat \<Rightarrow> bytes \<Rightarrow> 't options" where
  "options_new now token =
     \<lparr>op_token = token, op_idle_timeout = Some DEFAULT_IDLE_TIMEOUT,
      op_limit = Some (limit_new DEFAULT_MAX_CONNECTIONS), op_tls = None, op_metrics = metrics_new now\<rparr>"

definition with_idle_timeout :: "nat option \<Rightarrow> 't options \<Rightarrow> 't options" where
  "with_idle_timeout timeout opts = opts\<lparr>op_idle_timeout := timeout\<rparr>"

definition with_max_connections :: "nat option \<Rightarrow> 't options \<Rightarrow> 't options" where
  "with_max_connections limit opts = opts\<lparr>op_limit := map_option limit_new limit\<rparr>"

definition with_tls :: "'t option \<Rightarrow> 't options \<Rightarrow> 't options" where
  "with_tls config opts = opts\<lparr>op_tls := config\<rparr>"

datatype bind_error = EmptyToken

record 't shared =
  sd_token :: bytes
  sd_idle_timeout :: "nat option"
  sd_limit :: "conn_limit option"
  sd_tls :: "'t option"
  sd_metrics :: metrics

definition shared_new :: "'t options \<Rightarrow> bind_error + 't shared" where
  "shared_new opts =
     (if op_token opts = [] then Inl EmptyToken
      else Inr \<lparr>sd_token = op_token opts, sd_idle_timeout = op_idle_timeout opts,
                sd_limit = op_limit opts, sd_tls = op_tls opts, sd_metrics = op_metrics opts\<rparr>)"

definition open_connections :: "'t shared \<Rightarrow> nat option" where
  "open_connections sh = map_option cl_open (sd_limit sh)"

section \<open>Deadlines\<close>

text \<open>\<open>Instant + Duration\<close>; \<open>None\<close> is the panic of a sum that cannot be represented.\<close>

definition instant_add :: "nat \<Rightarrow> nat \<Rightarrow> nat option" where
  "instant_add now d = (if now + d < 2 ^ 63 then Some (now + d) else None)"

datatype 'a future = Never | At nat 'a

text \<open>
  \<open>by\<close>: the result and the time it is there; \<open>Inr None\<close> means the deadline came first. A future
  that is ready at once wins even past its deadline, as it is polled first.
\<close>

definition by_deadline :: "nat \<Rightarrow> nat option \<Rightarrow> ('e + 'a) future \<Rightarrow> (nat \<times> ('e + 'a option)) option" where
  "by_deadline now deadline fut =
     (case (deadline, fut) of
        (None, Never) \<Rightarrow> None
      | (None, At t r) \<Rightarrow> Some (t, map_sum id Some r)
      | (Some at, Never) \<Rightarrow> Some (max now at, Inr None)
      | (Some at, At t r) \<Rightarrow>
          if t \<le> max now at then Some (t, map_sum id Some r) else Some (max now at, Inr None))"

section \<open>Serving what is buffered\<close>

text \<open>Whether to close, whether the peer has authenticated, the reader and the server after.\<close>

function burst ::
  "(bytes \<Rightarrow> u64) \<Rightarrow> world \<Rightarrow> bytes \<Rightarrow> bool \<Rightarrow> frame_reader \<Rightarrow> server \<Rightarrow>
     (bool \<times> bool \<times> frame_reader \<times> server) option" where
  "burst H W token authed r s =
     (case next_buffered r of
        (Inr (Some (op, body)), r1) \<Rightarrow>
          if authed
          then (case dispatch H W op body s of None \<Rightarrow> None | Some s1 \<Rightarrow> burst H W token True r1 s1)
          else if op = op_u8 Auth \<and> ct_eq token body
          then burst H W token True (set_max_frame MAX_FRAME r1) (sv_header Ok 0 s)
          else Some (True, False, r1,
                 sv_frame W Unauthorized (str ''auth required'')
                   (s\<lparr>sv_metrics := count_auth_failure (sv_metrics s)\<rparr>))
      | (Inr None, r1) \<Rightarrow> Some (False, authed, r1, s)
      | (Inl e, r1) \<Rightarrow> Some (True, authed, r1, sv_frame W TooLarge (frame_too_large_msg e) s))"
  by pat_completeness auto
termination
  by (relation "measure (\<lambda>(_, _, _, _, r, _). length (rd_view r))")
    (auto dest!: next_buffered_shrinks [OF sym])

declare burst.simps [simp del]

section \<open>Sending\<close>

text \<open>The pieces as the socket reads them: those queued by reference, from the entry they own.\<close>

fun live_pieces :: "heap \<Rightarrow> piece list \<Rightarrow> nat option list \<Rightarrow> piece list" where
  "live_pieces h (Own b # ps) ks = Own b # live_pieces h ps ks"
| "live_pieces h (Shared b # ps) (Some p # ks) = Shared (value_at h p) # live_pieces h ps ks"
| "live_pieces h (Shared b # ps) (None # ks) = Shared b # live_pieces h ps ks"
| "live_pieces h ps ks = ps"

definition release_kept :: "world \<Rightarrow> server \<Rightarrow> server" where
  "release_kept W s = fold (drop_owner W) (sv_kept s) (s\<lparr>sv_kept := []\<rparr>)"

text \<open>A flush that succeeds clears the pieces, which drops what they own.\<close>

definition sv_flush ::
  "world \<Rightarrow> ('k \<Rightarrow> bytes list \<Rightarrow> ('e + nat) \<times> 'k) \<Rightarrow> 'k \<Rightarrow> server \<Rightarrow>
     ('e flush_error + unit) option \<times> bytes \<times> 'k \<times> server" where
  "sv_flush W write_vectored sock s =
     (case fw_flush write_vectored
             ((sv_out s)\<lparr>fw_pieces := live_pieces (sv_heap s) (fw_pieces (sv_out s)) (sv_kept s)\<rparr>) sock of
        (res, sent, sock', w) \<Rightarrow>
          (res, sent, sock', let s1 = s\<lparr>sv_out := w\<rparr> in if res = Some (Inr ()) then release_kept W s1 else s1))"

section \<open>Turns\<close>

record 'k connection =
  cn_authed :: bool
  cn_reader :: frame_reader
  cn_server :: server
  cn_sock :: 'k

record ('e, 'k) turn =
  tn_now :: nat
  tn_write :: "'k \<Rightarrow> bytes list \<Rightarrow> ('e + nat) \<times> 'k"
  tn_written :: "nat option"  \<comment> \<open>when the queue is sent, if ever\<close>
  tn_read :: "('e + bytes) future"
  tn_cache :: "cache \<times> memory"

datatype ('e, 'k) outcome = Serving nat "'k connection" | Ended nat "'e flush_error + bool" server | Panicked server

definition conn_new :: "server \<Rightarrow> 'k \<Rightarrow> 'k connection" where
  "conn_new s sock = \<lparr>cn_authed = False, cn_reader = rd_new MAX_AUTH_FRAME, cn_server = s, cn_sock = sock\<rparr>"

text \<open>A connection that ends, and when; it drops its queue.\<close>

definition ended :: "world \<Rightarrow> nat \<Rightarrow> 'e flush_error + bool \<Rightarrow> server \<Rightarrow> ('e, 'k) outcome" where
  "ended W t res s = Ended t res (release_kept W s)"

definition flush_future :: "nat option \<Rightarrow> 'a \<Rightarrow> 'a future" where
  "flush_future written res = (case written of None \<Rightarrow> Never | Some t \<Rightarrow> At t res)"

definition deadline_of :: "nat option \<Rightarrow> nat \<Rightarrow> bool \<Rightarrow> nat \<Rightarrow> nat option option" where
  "deadline_of idle auth_deadline authed now =
     (if authed
      then (case idle of None \<Rightarrow> Some None | Some d \<Rightarrow> map_option Some (instant_add now d))
      else Some (Some auth_deadline))"

text \<open>The part of a turn after the queue is sent: waiting for input.\<close>

definition await_input ::
  "world \<Rightarrow> nat option \<Rightarrow> nat \<Rightarrow> ('e, 'k) turn \<Rightarrow> 'k connection \<Rightarrow> ('e, 'k) outcome option" where
  "await_input W deadline now tn c =
     (let fut = (case tn_read tn of
                   Never \<Rightarrow> Never
                 | At t got \<Rightarrow> At t (fst (fill got (cn_reader c))));
          r = (case tn_read tn of Never \<Rightarrow> cn_reader c | At _ got \<Rightarrow> snd (fill got (cn_reader c)))
      in case by_deadline now deadline fut of
           None \<Rightarrow> None
         | Some (t, Inl e) \<Rightarrow> Some (ended W t (Inl (Io e)) (cn_server c))
         | Some (t, Inr None) \<Rightarrow> Some (ended W t (Inr True) (cn_server c))
         | Some (t, Inr (Some filled)) \<Rightarrow>
             Some (if filled
                   then Serving t (c\<lparr>cn_reader := r, cn_server := (cn_server c)\<lparr>sv_cache := tn_cache tn\<rparr>\<rparr>)
                   else ended W t (Inr False) (cn_server c)))"

text \<open>
  The part of a turn after the burst: the bytes sent by a flush that ran to its end, and where the
  connection is then. What a flush cut off by its deadline had sent is not recorded; the
  connection ends with it. The flush before closing has no deadline.
\<close>

definition finish_turn ::
  "world \<Rightarrow> nat option \<Rightarrow> nat \<Rightarrow> ('e, 'k) turn \<Rightarrow> 'k \<Rightarrow> bool \<Rightarrow> bool \<Rightarrow> frame_reader \<Rightarrow> server \<Rightarrow>
     (bytes \<times> ('e, 'k) outcome) option" where
  "finish_turn W idle auth_deadline tn sock close authed r s =
     (case sv_flush W (tn_write tn) sock s of
        (None, _, _, _) \<Rightarrow> None
      | (Some res, sent, sock1, s1) \<Rightarrow>
          if close
          then (case tn_written tn of
                  None \<Rightarrow> None
                | Some t \<Rightarrow> Some (sent, ended W t (case res of Inl e \<Rightarrow> Inl e | Inr _ \<Rightarrow> Inr False) s1))
          else (case deadline_of idle auth_deadline authed (tn_now tn) of
                  None \<Rightarrow> Some ([], Panicked (release_kept W s))
                | Some deadline \<Rightarrow>
                    (case by_deadline (tn_now tn) deadline (flush_future (tn_written tn) res) of
                       None \<Rightarrow> None
                     | Some (t, Inl e) \<Rightarrow> Some (sent, ended W t (Inl e) s1)
                     | Some (t, Inr None) \<Rightarrow> Some ([], ended W t (Inr True) s)
                     | Some (t, Inr (Some _)) \<Rightarrow>
                         map_option (Pair sent)
                           (await_input W deadline t tn
                              \<lparr>cn_authed = authed, cn_reader = r, cn_server = s1, cn_sock = sock1\<rparr>))))"

definition serve_turn ::
  "(bytes \<Rightarrow> u64) \<Rightarrow> world \<Rightarrow> bytes \<Rightarrow> nat option \<Rightarrow> nat \<Rightarrow> ('e, 'k) turn \<Rightarrow> 'k connection \<Rightarrow>
     (bytes \<times> ('e, 'k) outcome) option" where
  "serve_turn H W token idle auth_deadline tn c =
     (case burst H W token (cn_authed c) (cn_reader c) (cn_server c) of
        None \<Rightarrow> None
      | Some (close, authed, r, s) \<Rightarrow> finish_turn W idle auth_deadline tn (cn_sock c) close authed r s)"

section \<open>A burst\<close>

text \<open>Requests answered one after the other, as a peer sees them.\<close>

inductive exchange ::
  "nat \<Rightarrow> (bytes \<rightharpoonup> bytes) \<Rightarrow> (u8 \<times> bytes) list \<Rightarrow> (bytes \<rightharpoonup> bytes) \<Rightarrow> (u8 \<times> bytes) list \<Rightarrow> bool" for cap where
  none: "exchange cap V [] V []"
| one: "request_answer cap V op body V1 r \<Longrightarrow> exchange cap V1 qs V' rs \<Longrightarrow>
    exchange cap V ((op, body) # qs) V' (r # rs)"

text \<open>
  A reply that the reference gives for a request on some contents of a cache of this capacity.
\<close>

definition reply_for :: "nat \<Rightarrow> u8 \<times> bytes \<Rightarrow> u8 \<times> bytes \<Rightarrow> bool" where
  "reply_for cap q r \<longleftrightarrow>
     (\<exists>V V'. request_answer cap V (fst q) (snd q) V' r \<and> (cap < 2 ^ 64 \<longrightarrow> sized V))"

lemma exchange_answers:
  "exchange cap V qs V' rs \<Longrightarrow> cap < 2 ^ 64 \<longrightarrow> sized V \<Longrightarrow> \<forall>q \<in> set qs. frame_ok q \<Longrightarrow> list_all2 (reply_for cap) qs rs"
proof (induction rule: exchange.induct)
  case (one V op body V1 r qs V' rs)
  then have "cap < 2 ^ 64 \<longrightarrow> sized V1" by (auto simp: frame_ok_def intro: request_answer_sized)
  with one show ?case by (auto simp: reply_for_def)
qed simp

text \<open>Such a reply can be framed.\<close>

lemma reply_for_ok: "reply_for cap q r \<Longrightarrow> cap < 2 ^ 64 \<Longrightarrow> frame_ok q \<Longrightarrow> frame_ok r"
proof -
  assume "reply_for cap q r" and c: "cap < 2 ^ 64" "frame_ok q"
  then have "length (snd r) \<le> MAX_RESPONSE" unfolding reply_for_def frame_ok_def using request_answer_bound by blast
  then show ?thesis by (simp add: frame_ok_def MAX_RESPONSE_def MAX_FRAME_def)
qed

text \<open>The one frame that refuses a peer before the connection is closed.\<close>

definition refusal :: "bytes \<Rightarrow> bool" where
  "refusal b \<longleftrightarrow> b = encode_frame (status_u8 Unauthorized, str ''auth required'') \<or>
     (\<exists>n. b = encode_frame (status_u8 TooLarge, frame_too_large_msg (FrameTooLarge n)))"

lemma next_buffered_wait:
  assumes "fst (next_buffered r) = Inr None"
  shows "length (rd_view r) < HEADER_LEN + rd_max_frame r"
proof -
  let ?len = "snd (decode_header (take HEADER_LEN (rd_view r)))"
  consider "length (rd_view r) < HEADER_LEN" | "HEADER_LEN \<le> length (rd_view r)" "rd_max_frame r < ?len"
    | "HEADER_LEN \<le> length (rd_view r)" "?len \<le> rd_max_frame r" "HEADER_LEN + ?len \<le> length (rd_view r)"
    | "?len \<le> rd_max_frame r" "length (rd_view r) < HEADER_LEN + ?len" by linarith
  then show ?thesis
    by cases (use assms in \<open>auto simp: next_buffered_def rd_head_def Let_def\<close>)
qed

lemma burst_authed:
  assumes "srv_ok H W rd s" and "burst H W token True r s = Some (close, a, r', s')"
  shows "a \<and> srv_ok H W rd s' \<and> sv_cap s' = sv_cap s \<and> rd_max_frame r' = rd_max_frame r \<and>
    (\<exists>qs rs fin. rd_view r = concat (map encode_frame qs) @ rd_view r' \<and> (\<forall>q \<in> set qs. frame_ok q) \<and>
       exchange (sv_cap s) (sv_view H s) qs (sv_view H s') rs \<and>
       fw_bytes (sv_out s') = fw_bytes (sv_out s) @ concat (map encode_frame rs) @ fin \<and>
       (if close then refusal fin else fin = [] \<and> length (rd_view r') < HEADER_LEN + rd_max_frame r'))"
  using assms
proof (induction "length (rd_view r)" arbitrary: r s rule: less_induct)
  case less
  note step = burst.simps [of H W token True r s]
  show ?case
  proof (cases rule: next_buffered_cases [of r])
    case (large t n)
    obtain r1 where nb: "next_buffered r = (Inl (FrameTooLarge n), r1)" using large(4) by (metis prod.collapse)
    then have e: "close" "a" "r' = r1" "s' = sv_frame W TooLarge (frame_too_large_msg (FrameTooLarge n)) s"
      using less.prems(2) by (simp_all add: step)
    have "rd_view r' = rd_view r" "rd_max_frame r' = rd_max_frame r"
      using large(5) next_buffered_max [of r] nb e(3) by simp_all
    moreover have "refusal (encode_frame (status_u8 TooLarge, frame_too_large_msg (FrameTooLarge n)))" by (auto simp: refusal_def)
    ultimately show ?thesis
      using sv_frame_appends [OF less.prems(1), of TooLarge "frame_too_large_msg (FrameTooLarge n)"] e
      by (intro conjI exI [of _ "[]"] exI [of _ "encode_frame (status_u8 TooLarge, frame_too_large_msg (FrameTooLarge n))"])
        (auto simp: appends_def emits_def intro: exchange.none)
  next
    case (more e)
    obtain r1 where nb: "next_buffered r = (Inr None, r1)" using more(2) by (metis prod.collapse)
    then have e: "\<not> close" "a" "r' = r1" "s' = s" using less.prems(2) by (simp_all add: step)
    have "rd_view r' = rd_view r" "rd_max_frame r' = rd_max_frame r"
      using more(3) next_buffered_max [of r] nb e(3) by simp_all
    then show ?thesis using less.prems(1) next_buffered_wait [OF more(2)] e
      by (intro conjI exI [of _ "[]"]) (auto intro: exchange.none)
  next
    case (frame f rest)
    obtain op body where f: "f = (op, body)" by fastforce
    obtain r1 where nb: "next_buffered r = (Inr (Some f), r1)" using frame(3) by (metis prod.collapse)
    have v: "rd_view r1 = rest" "rd_max_frame r1 = rd_max_frame r" "frame_ok f" "rd_view r = encode_frame f @ rest"
      using frame(1,4) next_buffered_max [of r] nb by (simp_all add: wire.step_iff)
    obtain s1 where s1: "dispatch H W op body s = Some s1" "burst H W token True r1 s1 = Some (close, a, r', s')"
      using less.prems(2) nb by (auto simp: step f split: option.splits)
    obtain rp where rp: "srv_ok H W rd s1" "sv_cap s1 = sv_cap s"
        "request_answer (sv_cap s) (sv_view H s) op body (sv_view H s1) rp"
        "fw_bytes (sv_out s1) = fw_bytes (sv_out s) @ encode_frame rp"
      using dispatch_replied [OF less.prems(1) s1(1)] by (auto simp: replied_def)
    from less.hyps [OF next_buffered_shrinks [OF nb] rp(1) s1(2)]
    obtain qs rs fin where IH: "a" "srv_ok H W rd s'" "sv_cap s' = sv_cap s1" "rd_max_frame r' = rd_max_frame r1"
        "rd_view r1 = concat (map encode_frame qs) @ rd_view r'" "\<forall>q \<in> set qs. frame_ok q"
        "exchange (sv_cap s1) (sv_view H s1) qs (sv_view H s') rs"
        "fw_bytes (sv_out s') = fw_bytes (sv_out s1) @ concat (map encode_frame rs) @ fin"
        "if close then refusal fin else fin = [] \<and> length (rd_view r') < HEADER_LEN + rd_max_frame r'" by blast
    show ?thesis using IH rp v exchange.one [OF rp(3) IH(7) [unfolded rp(2)]]
      by (intro conjI exI [of _ "f # qs"] exI [of _ "rp # rs"] exI [of _ fin]) (simp_all add: f)
  qed
qed

lemma burst_unauthed:
  assumes "srv_ok H W rd s" and "burst H W token False r s = Some (close, a, r', s')"
  obtains (in') r1 where "a" "frame_ok (op_u8 Auth, token)" "rd_view r = encode_frame (op_u8 Auth, token) @ rd_view r1"
      "rd_max_frame r1 = MAX_FRAME" "burst H W token True r1 (sv_header Ok 0 s) = Some (close, a, r', s')"
  | (wait) "\<not> a" "\<not> close" "s' = s" "rd_view r' = rd_view r" "rd_max_frame r' = rd_max_frame r"
      "length (rd_view r') < HEADER_LEN + rd_max_frame r'"
  | (out') fin where "\<not> a" "close" "sv_cache s' = sv_cache s" "sv_pending s' = sv_pending s" "refusal fin" "srv_ok H W rd s'"
      "fw_bytes (sv_out s') = fw_bytes (sv_out s) @ fin"
proof -
  note step = burst.simps [of H W token False r s]
  have keep: "sv_cache (sv_frame W st msg x) = sv_cache x" "sv_pending (sv_frame W st msg x) = sv_pending x" for st msg x
    by (simp_all add: sv_frame_def sv_put_bytes_def sv_header_def drop_owner_def Let_def)
  show thesis
  proof (cases rule: next_buffered_cases [of r])
    case (large t n)
    obtain r1 where nb: "next_buffered r = (Inl (FrameTooLarge n), r1)" using large(4) by (metis prod.collapse)
    then have e: "close" "\<not> a" "s' = sv_frame W TooLarge (frame_too_large_msg (FrameTooLarge n)) s"
      using assms(2) by (simp_all add: step)
    show thesis
    proof (rule out' [OF e(2,1)])
      show "refusal (encode_frame (status_u8 TooLarge, frame_too_large_msg (FrameTooLarge n)))" by (auto simp: refusal_def)
    qed (use e(3) keep sv_frame_appends [OF assms(1), of TooLarge "frame_too_large_msg (FrameTooLarge n)"] in
        \<open>simp_all add: appends_def emits_def\<close>)
  next
    case (more e)
    obtain r1 where nb: "next_buffered r = (Inr None, r1)" using more(2) by (metis prod.collapse)
    then have e: "\<not> close" "\<not> a" "r' = r1" "s' = s" using assms(2) by (simp_all add: step)
    moreover have "rd_view r' = rd_view r" "rd_max_frame r' = rd_max_frame r"
      using more(3) next_buffered_max [of r] nb e(3) by simp_all
    ultimately show thesis using wait next_buffered_wait [OF more(2)] by simp
  next
    case (frame f rest)
    obtain op body where f: "f = (op, body)" by fastforce
    obtain r1 where nb: "next_buffered r = (Inr (Some f), r1)" using frame(3) by (metis prod.collapse)
    have v: "rd_view r1 = rest" "frame_ok f" "rd_view r = encode_frame f @ rest"
      using frame(1,4) nb by (simp_all add: wire.step_iff)
    show thesis
    proof (cases "op = op_u8 Auth \<and> body = token")
      case True
      then have b: "burst H W token True (set_max_frame MAX_FRAME r1) (sv_header Ok 0 s) = Some (close, a, r', s')"
        using assms(2) nb by (simp add: step f ct_eq_iff)
      have "srv_ok H W rd (sv_header Ok 0 s)" using sv_status_appends [OF assms(1), of Ok] by (simp add: appends_def)
      from burst_authed [OF this b] have "a" by simp
      then show thesis by (rule in' [OF _ _ _ _ b]) (use v True in \<open>simp_all add: f\<close>)
    next
      case False
      let ?s = "s\<lparr>sv_metrics := count_auth_failure (sv_metrics s)\<rparr>"
      have e: "close" "\<not> a" "s' = sv_frame W Unauthorized (str ''auth required'') ?s"
        using assms(2) nb False by (auto simp: step f ct_eq_iff)
      have "srv_ok H W rd ?s" using assms(1) by (simp add: srv_ok_def)
      from sv_frame_appends [OF this, of Unauthorized "str ''auth required''"]
      show thesis
        by (intro out' [of "encode_frame (status_u8 Unauthorized, str ''auth required'')"])
          (use e keep in \<open>simp_all add: appends_def emits_def refusal_def\<close>)
    qed
  qed
qed

section \<open>Sending\<close>

lemma live_pieces_same:
  "list_all2 (\<lambda>b h. \<forall>p. h = Some p \<longrightarrow> value_at hp p = b) (shared_of ps) ks \<Longrightarrow> live_pieces hp ps ks = ps"
proof (induction ps arbitrary: ks rule: shared_of.induct)
  case (3 b ps)
  then obtain k ks' where ks: "ks = k # ks'" "\<forall>p. k = Some p \<longrightarrow> value_at hp p = b"
      "list_all2 (\<lambda>b h. \<forall>p. h = Some p \<longrightarrow> value_at hp p = b) (shared_of ps) ks'"
    by (auto simp: list_all2_Cons1)
  with "3.IH" [OF ks(3)] show ?case by (cases k) simp_all
qed simp_all

lemma release_kept_ok:
  assumes "cache_inv H (held rd (sv_kept s)) W (sv_cache s)" and "fw_inv (sv_out s)" and "fw_pieces (sv_out s) = []"
  shows "srv_ok H W rd (release_kept W s) \<and> sv_kept (release_kept W s) = [] \<and> sv_out (release_kept W s) = sv_out s \<and>
    sv_view H (release_kept W s) = sv_view H s \<and> sv_cap (release_kept W s) = sv_cap s"
proof -
  let ?s = "s\<lparr>sv_kept := []\<rparr>"
  have "cache_inv H (held rd ([] @ sv_kept s)) W (sv_cache ?s)" using assms(1) by simp
  from drop_owners [OF this] obtain cm where "release_kept W s = ?s\<lparr>sv_cache := cm\<rparr>" "cache_inv H (held rd []) W cm"
      "view_of H cm = sv_view H s" "fst cm = fst (sv_cache s)" by (auto simp: release_kept_def)
  with assms(2,3) show ?thesis by (simp add: srv_ok_def)
qed

lemma sv_flush_ok:
  assumes "srv_ok H W rd s" and "write_contract wv"
  shows "\<exists>res sent sock' s' r. sv_flush W wv sock s = (Some res, sent, sock', s') \<and> fw_bytes (sv_out s) = sent @ r \<and>
    (res = Inr () \<longrightarrow> r = [] \<and> srv_ok H W rd s' \<and> sv_kept s' = [] \<and> fw_bytes (sv_out s') = [] \<and>
       sv_view H s' = sv_view H s \<and> sv_cap s' = sv_cap s)"
proof -
  have live: "(sv_out s)\<lparr>fw_pieces := live_pieces (sv_heap s) (fw_pieces (sv_out s)) (sv_kept s)\<rparr> = sv_out s"
    using live_pieces_same assms(1) by (simp add: srv_ok_def)
  have "fw_inv (sv_out s)" and ci: "cache_inv H (held rd (sv_kept s)) W (sv_cache s)"
    using assms(1) by (simp_all add: srv_ok_def)
  from fw_flush_spec [OF assms(2) this(1), of sock] obtain res sent sock' w r where
    f: "fw_flush wv (sv_out s) sock = (Some res, sent, sock', w)" "fw_bytes (sv_out s) = sent @ r"
      "if res = Inr () then r = [] \<and> fw_bytes w = [] \<and> fw_len w = 0 else fw_bytes w = fw_bytes (sv_out s)" "fw_inv w" by blast
  have "fw_pieces w = []" if "res = Inr ()"
    using f(1) that by (auto simp: fw_flush_def Let_def split: prod.splits if_splits)
  then have "srv_ok H W rd (release_kept W (s\<lparr>sv_out := w\<rparr>)) \<and> sv_kept (release_kept W (s\<lparr>sv_out := w\<rparr>)) = [] \<and>
      sv_out (release_kept W (s\<lparr>sv_out := w\<rparr>)) = w \<and> sv_view H (release_kept W (s\<lparr>sv_out := w\<rparr>)) = sv_view H s \<and>
      sv_cap (release_kept W (s\<lparr>sv_out := w\<rparr>)) = sv_cap s" if "res = Inr ()"
    using release_kept_ok [of H rd "s\<lparr>sv_out := w\<rparr>" W] ci f(4) that by simp
  with f live show ?thesis by (cases "res = Inr ()") (simp_all add: sv_flush_def Let_def)
qed

section \<open>A connection over its life\<close>

text \<open>
  The turns of a connection that is still served, what was received and sent over them, and the
  clock. The socket keeps the contract of a write; what other connections leave
  in the cache is a sound cache of the same capacity, with the handles they hold then.
\<close>

inductive session ::
  "(bytes \<Rightarrow> u64) \<Rightarrow> world \<Rightarrow> bytes \<Rightarrow> nat option \<Rightarrow> nat \<Rightarrow> 'k connection \<Rightarrow> nat \<Rightarrow>
     ('e, 'k) turn list \<Rightarrow> bytes \<Rightarrow> bytes \<Rightarrow> nat \<Rightarrow> 'k connection \<Rightarrow> bool" for H W token idle ad c0 t0 where
  start: "session H W token idle ad c0 t0 [] [] [] t0 c0"
| turn: "session H W token idle ad c0 t0 tns got sent t c \<Longrightarrow> write_contract (tn_write tn) \<Longrightarrow>
    cache_inv H rd W (tn_cache tn) \<Longrightarrow> sh_capacity (ca_shards (fst (tn_cache tn)) ! 0) = sv_cap (cn_server c0) \<Longrightarrow>
    serve_turn H W token idle ad tn c = Some (b, Serving t' c') \<Longrightarrow> tn_read tn = At t'' (Inr data) \<Longrightarrow>
    session H W token idle ad c0 t0 (tns @ [tn]) (got @ data) (sent @ b) t' c'"

lemma by_deadline_done:
  fixes fut :: "('e + 'a) future"
  assumes "by_deadline now deadline fut = Some (t, Inr (Some x))"
  shows "fut = At t (Inr x) \<and> (\<forall>at. deadline = Some at \<longrightarrow> t \<le> max now at)"
proof -
  have "map_sum id Some y = Inr (Some x) \<longleftrightarrow> y = Inr x" for y :: "'e + 'a" by (cases y) auto
  with assms show ?thesis by (auto simp: by_deadline_def split: option.splits future.splits if_splits)
qed

lemma await_input_serving:
  assumes "await_input W deadline now tn c = Some (Serving t' c')"
  obtains data where "tn_read tn = At t' (Inr data)" "data \<noteq> []" "\<forall>at. deadline = Some at \<longrightarrow> t' \<le> max now at"
    "rd_view (cn_reader c') = rd_view (cn_reader c) @ data" "rd_max_frame (cn_reader c') = rd_max_frame (cn_reader c)"
    "cn_authed c' = cn_authed c" "cn_server c' = (cn_server c)\<lparr>sv_cache := tn_cache tn\<rparr>"
proof -
  let ?fut = "case tn_read tn of Never \<Rightarrow> Never | At t got \<Rightarrow> At t (fst (fill got (cn_reader c)))"
  let ?r = "case tn_read tn of Never \<Rightarrow> cn_reader c | At _ got \<Rightarrow> snd (fill got (cn_reader c))"
  have aw: "by_deadline now deadline ?fut = Some (t', Inr (Some True)) \<and>
      c' = c\<lparr>cn_reader := ?r, cn_server := (cn_server c)\<lparr>sv_cache := tn_cache tn\<rparr>\<rparr>"
    using assms unfolding await_input_def Let_def ended_def
    by (auto split: option.splits sum.splits if_splits)
  note d = by_deadline_done [OF conjunct1 [OF aw]]
  then obtain got where got: "tn_read tn = At t' got" "fst (fill got (cn_reader c)) = Inr True"
    by (auto split: future.splits)
  then obtain data where "got = Inr data" "data \<noteq> []" by (cases got) (auto simp: fill_def Let_def)
  then show thesis using that aw d got by simp
qed

lemma finish_turn_serving:
  assumes "finish_turn W idle ad tn sock0 close authed r s = Some (b, Serving t' c')"
  obtains sock s1 data where "\<not> close"
    "sv_flush W (tn_write tn) sock0 s = (Some (Inr ()), b, sock, s1)"
    "tn_read tn = At t' (Inr data)" "data \<noteq> []" "authed \<or> t' \<le> max (tn_now tn) ad"
    "cn_authed c' = authed" "rd_view (cn_reader c') = rd_view r @ data" "rd_max_frame (cn_reader c') = rd_max_frame r"
    "cn_server c' = s1\<lparr>sv_cache := tn_cache tn\<rparr>" "deadline_of idle ad authed (tn_now tn) \<noteq> None"
proof -
  obtain res0 sent sock s1 where fl: "sv_flush W (tn_write tn) sock0 s = (res0, sent, sock, s1)" by (rule prod_cases4)
  obtain res where res: "res0 = Some res" using assms fl by (cases res0) (simp_all add: finish_turn_def)
  have nc: "\<not> close" using assms fl res by (auto simp: finish_turn_def ended_def split: option.splits)
  then obtain dl t u where dl: "deadline_of idle ad authed (tn_now tn) = Some dl"
      and bd: "by_deadline (tn_now tn) dl (flush_future (tn_written tn) res) = Some (t, Inr (Some u))"
      and aw: "await_input W dl t tn \<lparr>cn_authed = authed, cn_reader = r, cn_server = s1, cn_sock = sock\<rparr> = Some (Serving t' c')"
      and b: "b = sent"
    using assms fl res by (auto simp: finish_turn_def ended_def split: option.splits sum.splits)
  have "res = Inr ()" and t: "authed \<or> t \<le> max (tn_now tn) ad"
    using by_deadline_done [OF bd] dl by (auto simp: flush_future_def deadline_of_def split: option.splits if_splits)
  from await_input_serving [OF aw] obtain data where d: "tn_read tn = At t' (Inr data)" "data \<noteq> []"
      "\<forall>at. dl = Some at \<longrightarrow> t' \<le> max t at" "cn_authed c' = authed" "rd_view (cn_reader c') = rd_view r @ data"
      "rd_max_frame (cn_reader c') = rd_max_frame r" "cn_server c' = s1\<lparr>sv_cache := tn_cache tn\<rparr>" by auto
  have "authed \<or> t' \<le> max (tn_now tn) ad" using t d(3) dl by (cases authed) (auto simp: deadline_of_def)
  moreover have "deadline_of idle ad authed (tn_now tn) \<noteq> None" using dl by simp
  ultimately show thesis using fl res nc b d \<open>res = Inr ()\<close> by (intro that) simp_all
qed

lemma serve_turn_serving:
  assumes "serve_turn H W token idle ad tn c = Some (b, Serving t' c')"
  obtains authed r s sock s1 data where
    "burst H W token (cn_authed c) (cn_reader c) (cn_server c) = Some (False, authed, r, s)"
    "sv_flush W (tn_write tn) (cn_sock c) s = (Some (Inr ()), b, sock, s1)"
    "tn_read tn = At t' (Inr data)" "data \<noteq> []" "authed \<or> t' \<le> max (tn_now tn) ad"
    "cn_authed c' = authed" "rd_view (cn_reader c') = rd_view r @ data" "rd_max_frame (cn_reader c') = rd_max_frame r"
    "cn_server c' = s1\<lparr>sv_cache := tn_cache tn\<rparr>" "deadline_of idle ad authed (tn_now tn) \<noteq> None"
proof -
  obtain close authed r s where bu: "burst H W token (cn_authed c) (cn_reader c) (cn_server c) = Some (close, authed, r, s)"
    using assms by (auto simp: serve_turn_def split: option.splits)
  then have "finish_turn W idle ad tn (cn_sock c) close authed r s = Some (b, Serving t' c')" using assms by (simp add: serve_turn_def)
  then show thesis by (rule finish_turn_serving) (use bu that in simp)
qed

text \<open>
  An idle timeout too large for the clock is accepted, but no authenticated connection survives its
  first turn: computing the deadline panics.
\<close>

lemma huge_idle_serves_nobody:
  "serve_turn H W token (Some d) ad tn c = Some (b, Serving t' c') \<Longrightarrow> 2 ^ 63 \<le> d \<Longrightarrow> \<not> cn_authed c'"
  by (erule serve_turn_serving) (auto simp: deadline_of_def instant_add_def split: if_splits)

text \<open>
  The history of a connection in service. \<open>reqs\<close> are the frames taken off the input, \<open>reps\<close> the
  replies to them, all of which have been sent.
\<close>

definition conn_ok :: "(bytes \<Rightarrow> u64) \<Rightarrow> world \<Rightarrow> nat \<Rightarrow> bytes \<Rightarrow> bytes \<Rightarrow> bytes \<Rightarrow> (u8 \<times> bytes) list \<Rightarrow> (u8 \<times> bytes) list \<Rightarrow>
    'k connection \<Rightarrow> bool" where
  "conn_ok H W cap token got sent reqs reps c \<longleftrightarrow>
     (\<exists>rd. srv_ok H W rd (cn_server c)) \<and> sv_cap (cn_server c) = cap \<and> fw_bytes (sv_out (cn_server c)) = [] \<and> sv_kept (cn_server c) = [] \<and>
     got = concat (map encode_frame reqs) @ rd_view (cn_reader c) \<and> (\<forall>q \<in> set reqs. frame_ok q) \<and>
     sent = concat (map encode_frame reps) \<and>
     rd_max_frame (cn_reader c) = (if cn_authed c then MAX_FRAME else MAX_AUTH_FRAME) \<and>
     (if cn_authed c
      then \<exists>qs rs. reqs = (op_u8 Auth, token) # qs \<and> reps = (status_u8 Ok, []) # rs \<and>
        list_all2 (reply_for cap) qs rs
      else reqs = [] \<and> reps = [])"

lemma burst_history:
  assumes "conn_ok H W cap token got sent reqs reps c"
    and "burst H W token (cn_authed c) (cn_reader c) (cn_server c) = Some (False, a, r, s)"
  obtains rd qs rs where "srv_ok H W rd s" "rd_view (cn_reader c) = concat (map encode_frame qs) @ rd_view r"
    "\<forall>q \<in> set qs. frame_ok q" "fw_bytes (sv_out s) = concat (map encode_frame rs)"
    "rd_max_frame r = (if a then MAX_FRAME else MAX_AUTH_FRAME)"
    "if cn_authed c then a \<and> list_all2 (reply_for cap) qs rs
     else if a then \<exists>qs' rs'. qs = (op_u8 Auth, token) # qs' \<and> rs = (status_u8 Ok, []) # rs' \<and>
        list_all2 (reply_for cap) qs' rs'
     else qs = [] \<and> rs = [] \<and> length (rd_view r) < HEADER_LEN + MAX_AUTH_FRAME"
proof -
  from assms(1) have cap: "sv_cap (cn_server c) = cap" by (simp add: conn_ok_def)
  from assms(1) obtain rd where ok: "srv_ok H W rd (cn_server c)" "fw_bytes (sv_out (cn_server c)) = []"
      "rd_max_frame (cn_reader c) = (if cn_authed c then MAX_FRAME else MAX_AUTH_FRAME)" by (auto simp: conn_ok_def)
  show thesis
  proof (cases "cn_authed c")
    case True
    from burst_authed [OF ok(1) assms(2) [unfolded eqTrueI [OF True]]]
    obtain qs rs where b: "a" "srv_ok H W rd s" "rd_max_frame r = rd_max_frame (cn_reader c)"
        "rd_view (cn_reader c) = concat (map encode_frame qs) @ rd_view r" "\<forall>q \<in> set qs. frame_ok q"
        "exchange (sv_cap (cn_server c)) (sv_view H (cn_server c)) qs (sv_view H s) rs"
        "fw_bytes (sv_out s) = fw_bytes (sv_out (cn_server c)) @ concat (map encode_frame rs)" by auto
    have "list_all2 (reply_for cap) qs rs"
      using exchange_answers [OF b(6) _ b(5)] srv_ok_sized [OF ok(1)] cap by simp
    then show thesis using b ok True by (intro that [of rd qs rs]) simp_all
  next
    case False
    then have "burst H W token False (cn_reader c) (cn_server c) = Some (False, a, r, s)" using assms(2) by simp
    with ok(1) show thesis
    proof (cases rule: burst_unauthed)
      case (in' r1)
      have ok1: "srv_ok H W rd (sv_header Ok 0 (cn_server c))"
          "fw_bytes (sv_out (sv_header Ok 0 (cn_server c))) = encode_frame (status_u8 Ok, [])"
        using sv_status_appends [OF ok(1), of Ok] ok(2) by (simp_all add: appends_def emits_def)
      from burst_authed [OF ok1(1) in'(5)]
      obtain qs rs where b: "srv_ok H W rd s" "rd_max_frame r = rd_max_frame r1"
          "rd_view r1 = concat (map encode_frame qs) @ rd_view r" "\<forall>q \<in> set qs. frame_ok q"
          "exchange (sv_cap (sv_header Ok 0 (cn_server c))) (sv_view H (sv_header Ok 0 (cn_server c))) qs (sv_view H s) rs"
          "fw_bytes (sv_out s) = encode_frame (status_u8 Ok, []) @ concat (map encode_frame rs)"
        by (auto simp: ok1(2))
      have "list_all2 (reply_for cap) qs rs"
        using exchange_answers [OF b(5) _ b(4)] srv_ok_sized [OF ok1(1)] cap by (simp add: sv_header_def)
      then show thesis using b in' False
        by (intro that [of rd "(op_u8 Auth, token) # qs" "(status_u8 Ok, []) # rs"]) simp_all
    next
      case wait
      show thesis using wait ok False by (intro that [of rd "[]" "[]"]) simp_all
    qed simp
  qed
qed

lemma turn_ok:
  assumes "conn_ok H W cap token got sent reqs reps c" and "write_contract (tn_write tn)"
    and "cache_inv H rd' W (tn_cache tn)" and "sh_capacity (ca_shards (fst (tn_cache tn)) ! 0) = cap"
    and "serve_turn H W token idle ad tn c = Some (b, Serving t' c')" and "tn_read tn = At t'' (Inr data)"
  shows "\<exists>qs rs. conn_ok H W cap token (got @ data) (sent @ b) (reqs @ qs) (reps @ rs) c'"
proof -
  obtain a r s sock s1 data' where t:
    "burst H W token (cn_authed c) (cn_reader c) (cn_server c) = Some (False, a, r, s)"
    "sv_flush W (tn_write tn) (cn_sock c) s = (Some (Inr ()), b, sock, s1)"
    "tn_read tn = At t' (Inr data')" "cn_authed c' = a" "rd_view (cn_reader c') = rd_view r @ data'"
    "rd_max_frame (cn_reader c') = rd_max_frame r" "cn_server c' = s1\<lparr>sv_cache := tn_cache tn\<rparr>"
    using serve_turn_serving [OF assms(5)] by metis
  have d: "data' = data" using t(3) assms(6) by simp
  obtain rd qs rs where h: "srv_ok H W rd s" "rd_view (cn_reader c) = concat (map encode_frame qs) @ rd_view r"
    "\<forall>q \<in> set qs. frame_ok q" "fw_bytes (sv_out s) = concat (map encode_frame rs)"
    "rd_max_frame r = (if a then MAX_FRAME else MAX_AUTH_FRAME)"
    "if cn_authed c then a \<and> list_all2 (reply_for cap) qs rs
     else if a then \<exists>qs' rs'. qs = (op_u8 Auth, token) # qs' \<and> rs = (status_u8 Ok, []) # rs' \<and>
        list_all2 (reply_for cap) qs' rs'
     else qs = [] \<and> rs = [] \<and> length (rd_view r) < HEADER_LEN + MAX_AUTH_FRAME"
    using burst_history [OF assms(1) t(1)] by blast
  have s1: "b = fw_bytes (sv_out s)" "srv_ok H W rd s1" "sv_kept s1 = []" "fw_bytes (sv_out s1) = []"
    using sv_flush_ok [OF h(1) assms(2), of "cn_sock c"] t(2) by auto
  have "held rd' [] = rd'" by (simp add: held_def fun_eq_iff)
  then have "srv_ok H W rd' (s1\<lparr>sv_cache := tn_cache tn\<rparr>)"
    using s1(2,3) assms(3) by (simp add: srv_ok_def)
  moreover have "if a then \<exists>qs' rs'. reqs @ qs = (op_u8 Auth, token) # qs' \<and> reps @ rs = (status_u8 Ok, []) # rs' \<and>
        list_all2 (reply_for cap) qs' rs'
      else reqs @ qs = [] \<and> reps @ rs = []"
    using h(6) assms(1) by (auto simp: conn_ok_def intro: list_all2_appendI split: if_splits)
  moreover have g: "got = concat (map encode_frame reqs) @ rd_view (cn_reader c)" "\<forall>q \<in> set reqs. frame_ok q"
      "sent = concat (map encode_frame reps)"
    using assms(1) by (simp_all add: conn_ok_def)
  then have "got @ data = concat (map encode_frame (reqs @ qs)) @ rd_view (cn_reader c')"
      "\<forall>q \<in> set (reqs @ qs). frame_ok q" "sent @ b = concat (map encode_frame (reps @ rs))"
    using h(2-4) s1(1) t(5) d by auto
  moreover have "rd_max_frame (cn_reader c') = (if cn_authed c' then MAX_FRAME else MAX_AUTH_FRAME)"
    using h(5) t(4,6) by simp
  ultimately show ?thesis unfolding conn_ok_def t(7) t(4)
    using s1(3,4) assms(4) by (intro exI [of _ qs] exI [of _ rs] conjI exI [of _ rd']) simp_all
qed

lemma conn_new_ok:
  assumes "srv_ok H W rd s0" and "fw_bytes (sv_out s0) = []" and "sv_kept s0 = []"
  shows "conn_ok H W (sv_cap s0) token [] [] [] [] (conn_new s0 sock)"
  using assms by (auto simp: conn_ok_def conn_new_def)

lemma session_ok:
  assumes "session H W token idle ad (conn_new s0 sock) t0 tns got sent t c"
    and "srv_ok H W rd s0" and "fw_bytes (sv_out s0) = []" and "sv_kept s0 = []"
  shows "\<exists>reqs reps. conn_ok H W (sv_cap s0) token got sent reqs reps c"
  using assms(1)
proof (induction rule: session.induct)
  case start
  show ?case using conn_new_ok [OF assms(2-4), of token sock] by blast
next
  case (turn tns got sent t c tn rd b t' c' t'' data)
  then obtain reqs reps where "conn_ok H W (sv_cap s0) token got sent reqs reps c" by blast
  from turn_ok [OF this turn.hyps(2,3) _ turn.hyps(5,6)] turn.hyps(4) show ?case by (simp add: conn_new_def) blast
qed

lemma conn_ok_replies:
  assumes "conn_ok H W cap token got sent reqs reps c"
  shows "length reps = length reqs"
    and "i < length reqs \<Longrightarrow> if i = 0 then reqs ! 0 = (op_u8 Auth, token) \<and> reps ! 0 = (status_u8 Ok, [])
      else reply_for cap (reqs ! i) (reps ! i)"
    and "cap < 2 ^ 64 \<Longrightarrow> \<forall>r \<in> set reps. frame_ok r"
proof -
  have "length reps = length reqs \<and> (\<forall>i < length reqs. if i = 0 then reqs ! 0 = (op_u8 Auth, token) \<and> reps ! 0 = (status_u8 Ok, [])
      else reply_for cap (reqs ! i) (reps ! i))"
  proof (cases "cn_authed c")
    case True
    then obtain qs rs where q: "reqs = (op_u8 Auth, token) # qs" "reps = (status_u8 Ok, []) # rs"
      "list_all2 (reply_for cap) qs rs" using assms by (auto simp: conn_ok_def)
    then show ?thesis by (auto simp: nth_Cons list_all2_conv_all_nth split: nat.split)
  next
    case False
    then show ?thesis using assms by (simp add: conn_ok_def)
  qed
  then show len: "length reps = length reqs" and
    nth: "i < length reqs \<Longrightarrow> if i = 0 then reqs ! 0 = (op_u8 Auth, token) \<and> reps ! 0 = (status_u8 Ok, [])
      else reply_for cap (reqs ! i) (reps ! i)" for i by blast+
  have ok: "\<forall>q \<in> set reqs. frame_ok q" using assms by (simp add: conn_ok_def)
  show "\<forall>r \<in> set reps. frame_ok r" if c: "cap < 2 ^ 64"
  proof
    fix r assume "r \<in> set reps"
    then obtain i where i: "i < length reqs" "r = reps ! i" using len by (auto simp: in_set_conv_nth)
    then show "frame_ok r"
      using nth [OF i(1)] reply_for_ok [OF _ c] ok by (cases "i = 0") (auto simp: frame_ok_def)
  qed
qed

lemma session_unauthed:
  assumes "session H W token idle ad (conn_new s0 sock) t0 tns got sent t c"
    and "srv_ok H W rd s0" and "fw_bytes (sv_out s0) = []" and "sv_kept s0 = []"
  shows "\<not> cn_authed c \<Longrightarrow> length tns \<le> length (rd_view (cn_reader c)) \<and> length tns \<le> HEADER_LEN + MAX_AUTH_FRAME"
  using assms(1)
proof (induction rule: session.induct)
  case start
  then show ?case by simp
next
  case (turn tns got sent t c tn rd b t' c' t'' data)
  obtain a r s sock s1 data' where s:
    "burst H W token (cn_authed c) (cn_reader c) (cn_server c) = Some (False, a, r, s)"
    "data' \<noteq> []" "cn_authed c' = a" "rd_view (cn_reader c') = rd_view r @ data'"
    using serve_turn_serving [OF turn.hyps(5)] by metis
  obtain reqs reps where ok: "conn_ok H W (sv_cap s0) token got sent reqs reps c" using session_ok [OF turn.hyps(1) assms(2-4)] by blast
  obtain qs where "rd_view (cn_reader c) = concat (map encode_frame qs) @ rd_view r"
      "\<not> cn_authed c" "qs = []" "length (rd_view r) < HEADER_LEN + MAX_AUTH_FRAME"
    using burst_history [OF ok s(1)] turn.prems s(3) by (metis (full_types))
  with turn.IH s have "length tns < length (rd_view (cn_reader c'))" "length tns < HEADER_LEN + MAX_AUTH_FRAME"
    by (auto simp: neq_Nil_conv)
  then show ?case by simp
qed

text \<open>A burst on input that does not begin with the right AUTH returns, and leaves at most a refusal.\<close>

lemma burst_not_auth:
  assumes "srv_ok H W rd s" and "\<nexists>rest. rd_view r = encode_frame (op_u8 Auth, token) @ rest"
  obtains close r' s' where "burst H W token False r s = Some (close, False, r', s')" "srv_ok H W rd s'"
    "if close then \<exists>fin. refusal fin \<and> fw_bytes (sv_out s') = fw_bytes (sv_out s) @ fin else s' = s"
proof -
  have "\<exists>close a r' s'. burst H W token False r s = Some (close, a, r', s')"
  proof (cases rule: next_buffered_cases [of r])
    case (frame f rest)
    then have "f \<noteq> (op_u8 Auth, token)" using assms(2) by (auto simp: wire.step_iff)
    then show ?thesis using frame(3) by (subst burst.simps) (cases f; auto simp: ct_eq_iff split: prod.splits)
  qed (subst burst.simps; auto split: prod.splits sum.splits)+
  then obtain close a r' s' where b: "burst H W token False r s = Some (close, a, r', s')" by blast
  from assms(1) b show thesis
  proof (cases rule: burst_unauthed)
    case (in' r1)
    then show thesis using assms(2) by blast
  next
    case wait
    show thesis by (rule that [of close r' s']) (use wait b assms(1) in simp_all)
  next
    case (out' fin)
    show thesis by (rule that [of close r' s']) (use out' b in auto)
  qed
qed

lemma by_deadline_fires:
  "\<exists>t r. by_deadline now (Some at) fut = Some (t, r) \<and> t \<le> max now at"
  by (cases fut) (auto simp: by_deadline_def)

lemma await_input_fires:
  "\<exists>out. await_input W (Some at) now tn c = Some out \<and>
     (case out of
        Serving t' c' \<Rightarrow> t' \<le> max now at \<and> cn_authed c' = cn_authed c \<and> (\<exists>data. tn_read tn = At t' (Inr data) \<and> data \<noteq> [])
      | Ended t' _ _ \<Rightarrow> t' \<le> max now at
      | Panicked _ \<Rightarrow> False)"
proof -
  let ?fut = "case tn_read tn of Never \<Rightarrow> Never | At t got \<Rightarrow> At t (fst (fill got (cn_reader c)))"
  obtain t r where b: "by_deadline now (Some at) ?fut = Some (t, r)" "t \<le> max now at" using by_deadline_fires by blast
  show ?thesis
  proof (cases "\<exists>t' c'. await_input W (Some at) now tn c = Some (Serving t' c')")
    case True
    then obtain t' c' where aw: "await_input W (Some at) now tn c = Some (Serving t' c')" by blast
    then show ?thesis by (rule await_input_serving) (use aw in auto)
  next
    case False
    then show ?thesis using b by (auto simp: await_input_def ended_def Let_def split: sum.splits option.splits bool.splits)
  qed
qed

lemma finish_turn_unauthed:
  assumes "srv_ok H W rd s" and "write_contract (tn_write tn)"
  shows "if close
    then case tn_written tn of
        None \<Rightarrow> finish_turn W idle ad tn sock close False r s = None
      | Some t' \<Rightarrow> \<exists>b res s'. finish_turn W idle ad tn sock close False r s = Some (b, Ended t' res s')
    else \<exists>b out. finish_turn W idle ad tn sock close False r s = Some (b, out) \<and>
      (case out of
         Serving t' c' \<Rightarrow> t' \<le> max (tn_now tn) ad \<and> \<not> cn_authed c' \<and> (\<exists>data. tn_read tn = At t' (Inr data) \<and> data \<noteq> [])
       | Ended t' _ _ \<Rightarrow> t' \<le> max (tn_now tn) ad
       | Panicked _ \<Rightarrow> False)"
proof -
  obtain res sent sock' s1 where fl: "sv_flush W (tn_write tn) sock s = (Some res, sent, sock', s1)"
    using sv_flush_ok [OF assms, of sock] by blast
  obtain t x where b: "by_deadline (tn_now tn) (Some ad) (flush_future (tn_written tn) res) = Some (t, x)" "t \<le> max (tn_now tn) ad"
    using by_deadline_fires by blast
  let ?c = "\<lparr>cn_authed = False, cn_reader = r, cn_server = s1, cn_sock = sock'\<rparr>"
  obtain out where aw: "await_input W (Some ad) t tn ?c = Some out" "case out of
        Serving t' c' \<Rightarrow> t' \<le> max t ad \<and> cn_authed c' = False \<and> (\<exists>data. tn_read tn = At t' (Inr data) \<and> data \<noteq> [])
      | Ended t' _ _ \<Rightarrow> t' \<le> max t ad
      | Panicked _ \<Rightarrow> False"
    using await_input_fires [of W ad t tn ?c] unfolding connection.select_convs by blast
  show ?thesis
  proof (cases close)
    case True
    then show ?thesis using fl by (simp add: finish_turn_def ended_def split: option.split)
  next
    case False
    show ?thesis
    proof (cases "\<exists>u. x = Inr (Some u)")
      case True
      then have "finish_turn W idle ad tn sock close False r s = Some (sent, out)"
        using False fl b(1) aw(1) by (auto simp: finish_turn_def deadline_of_def)
      moreover have "max t ad \<le> max (tn_now tn) ad" using b(2) by simp
      ultimately show ?thesis using False aw(2) by (auto split: outcome.splits)
    next
      case nt: False
      then show ?thesis using False fl b
        by (cases x) (auto simp: finish_turn_def deadline_of_def ended_def split: option.splits)
    qed
  qed
qed

section \<open>Properties\<close>

text \<open>
  C6. Nothing is served before AUTH. A burst on a connection that has not authenticated, whose
  input does not begin with an AUTH frame carrying exactly the token, leaves the cache as it was
  and the peer unauthenticated; it answers nothing, waiting for more of a frame that may still be
  the right one, or one refusal, and then the connection is closed.
\<close>

theorem nothing_before_auth:
  assumes "srv_ok H W rd s" and "burst H W token False r s = Some (close, a, r', s')"
    and "\<nexists>rest. rd_view r = encode_frame (op_u8 Auth, token) @ rest"
  shows "\<not> a \<and> sv_cache s' = sv_cache s \<and> sv_pending s' = sv_pending s \<and>
    (\<exists>fin. fw_bytes (sv_out s') = fw_bytes (sv_out s) @ fin \<and> (if close then refusal fin else fin = []))"
  using assms(1,2)
proof (cases rule: burst_unauthed)
  case (in' r1)
  with assms(3) show ?thesis by blast
qed auto

text \<open>
  C28. A peer that does not authenticate cannot stay. As long as its input does not begin with an
  AUTH frame carrying the token, each of its turns is over by the deadline that runs from the
  accept, or at once when that is past, whether or not the queue is taken and input arrives: the
  connection has then ended, or is still served because input had come by then, or the peer is
  being refused and one refusal is all that is still to be sent. That last flush is the one wait
  without a deadline: the connection ends when it is over. And the turns are bounded: at most one
  per byte of the largest frame accepted before AUTH.
\<close>

theorem unauthenticated_bounded:
  assumes "session H W token idle ad (conn_new s0 sock) t0 tns got sent t c"
    and "srv_ok H W rd s0" and "fw_bytes (sv_out s0) = []" and "sv_kept s0 = []" and "\<not> cn_authed c"
    and "\<nexists>rest. rd_view (cn_reader c) = encode_frame (op_u8 Auth, token) @ rest" and "write_contract (tn_write tn)"
  shows "length tns \<le> HEADER_LEN + MAX_AUTH_FRAME \<and>
    (\<exists>close r s. burst H W token False (cn_reader c) (cn_server c) = Some (close, False, r, s) \<and>
       (if close
        then refusal (fw_bytes (sv_out s)) \<and>
          (case tn_written tn of
             None \<Rightarrow> serve_turn H W token idle ad tn c = None
           | Some t' \<Rightarrow> \<exists>b res s'. serve_turn H W token idle ad tn c = Some (b, Ended t' res s'))
        else \<exists>b out. serve_turn H W token idle ad tn c = Some (b, out) \<and>
          (case out of
             Serving t' c' \<Rightarrow> t' \<le> max (tn_now tn) ad \<and> \<not> cn_authed c' \<and> (\<exists>data. tn_read tn = At t' (Inr data) \<and> data \<noteq> [])
           | Ended t' _ _ \<Rightarrow> t' \<le> max (tn_now tn) ad
           | Panicked _ \<Rightarrow> False)))"
proof -
  obtain reqs reps where ok: "conn_ok H W (sv_cap s0) token got sent reqs reps c" using session_ok [OF assms(1-4)] by blast
  then obtain rd' where s: "srv_ok H W rd' (cn_server c)" "fw_bytes (sv_out (cn_server c)) = []" by (auto simp: conn_ok_def)
  obtain close r s' where b: "burst H W token False (cn_reader c) (cn_server c) = Some (close, False, r, s')"
      "srv_ok H W rd' s'" "close \<Longrightarrow> refusal (fw_bytes (sv_out s'))"
    by (rule burst_not_auth [OF s(1) assms(6)]) (use s(2) in \<open>auto split: if_splits\<close>)
  have st: "serve_turn H W token idle ad tn c = finish_turn W idle ad tn (cn_sock c) close False r s'"
    using b(1) assms(5) by (simp add: serve_turn_def)
  show ?thesis unfolding st
    using session_unauthed [OF assms(1-5)] b finish_turn_unauthed [OF b(2) assms(7), of close idle ad "cn_sock c" r]
    by (intro conjI exI [of _ close] exI [of _ r] exI [of _ s']) auto
qed

text \<open>A peer that sends the first byte of a frame and then another.\<close>

definition demo_turn :: "bytes \<Rightarrow> (unit, unit) turn" where
  "demo_turn x = \<lparr>tn_now = 1, tn_write = byte_socket, tn_written = Some 1, tn_read = At 2 (Inr x),
     tn_cache = (cache_new 1000 1, mem_new 1)\<rparr>"

abbreviation demo_conn :: "bytes \<Rightarrow> unit connection" where
  "demo_conn b \<equiv> (conn_new demo_server ())\<lparr>cn_reader := (rd_new MAX_AUTH_FRAME)\<lparr>rd_buf := b\<rparr>\<rparr>"

lemma demo_serve:
  assumes "length b < HEADER_LEN" and "x \<noteq> []"
  shows "serve_turn H demo_world token idle 30 (demo_turn x) (demo_conn b) = Some ([], Serving 2 (demo_conn (b @ x)))"
proof -
  have r: "next_buffered (cn_reader (demo_conn b)) = (Inr None, cn_reader (demo_conn b))"
    using assms(1) by (simp add: next_buffered_def rd_head_def release_def rd_new_def)
  have bu: "burst H demo_world token False (cn_reader (demo_conn b)) demo_server =
      Some (False, False, cn_reader (demo_conn b), demo_server)"
    using r by (simp add: burst.simps)
  have fl: "sv_flush demo_world byte_socket () demo_server = (Some (Inr ()), [], (), demo_server)"
    by (simp add: sv_flush_def fw_flush_def demo_server_def fw_new_def with_inline_limit_def flush_loop.simps
        release_kept_def Let_def)
  show ?thesis
    using bu fl assms(2) by (simp add: serve_turn_def finish_turn_def conn_new_def demo_turn_def deadline_of_def by_deadline_def flush_future_def
        await_input_def fill_def release_def rd_new_def demo_server_def)
qed

lemma demo_session:
  "session H demo_world token idle 30 (conn_new demo_server ()) 0 [demo_turn [4], demo_turn [3]] [4, 3] [] 2 (demo_conn [4, 3])"
proof -
  have c0: "demo_conn [] = conn_new demo_server ()" by (simp add: conn_new_def rd_new_def)
  have t: "write_contract (tn_write (demo_turn x))" "cache_inv H (\<lambda>_. 0) demo_world (tn_cache (demo_turn x))"
      "sh_capacity (ca_shards (fst (tn_cache (demo_turn x))) ! 0) = sv_cap (cn_server (conn_new demo_server ()))"
      "tn_read (demo_turn x) = At 2 (Inr x)" for x
    using byte_socket_contract(1) demo_inv by (simp_all add: demo_turn_def conn_new_def demo_server_def)
  have s: "serve_turn H demo_world token idle 30 (demo_turn [4]) (conn_new demo_server ()) = Some ([], Serving 2 (demo_conn [4]))"
    using demo_serve [of "[]" "[4]" H token idle] c0 by (simp add: HEADER_LEN_def)
  have s': "serve_turn H demo_world token idle 30 (demo_turn [3]) (demo_conn [4]) = Some ([], Serving 2 (demo_conn [4, 3]))"
    using demo_serve [of "[4]" "[3]" H token idle] by (simp add: HEADER_LEN_def)
  note 1 = session.turn [OF session.start t(1-3) s t(4)]
  from session.turn [OF 1 t(1-3) s' t(4)] show ?thesis by simp
qed

lemma demo_empty: "fw_bytes (sv_out demo_server) = []" "sv_kept demo_server = []"
  by (simp_all add: demo_server_def)

theorem nothing_before_auth_witness:
  "\<exists>r' s' fin. burst (\<lambda>_. 5) demo_world [9] False ((rd_new MAX_AUTH_FRAME)\<lparr>rd_buf := encode_frame (op_u8 Auth, [8])\<rparr>) demo_server =
       Some (True, False, r', s') \<and> sv_cache s' = sv_cache demo_server \<and> fw_bytes (sv_out s') = fin \<and> refusal fin"
proof -
  let ?r = "(rd_new MAX_AUTH_FRAME)\<lparr>rd_buf := encode_frame (op_u8 Auth, [8])\<rparr>"
  have v: "rd_view ?r = encode_frame (op_u8 Auth, [8])" by (simp add: rd_view_def rd_new_def)
  have ne: "\<nexists>rest. rd_view ?r = encode_frame (op_u8 Auth, [9]) @ rest"
    unfolding v by (simp add: encode_frame_def encode_header_def)
  have "\<exists>r1. next_buffered ?r = (Inr (Some (op_u8 Auth, [8])), r1)"
    by (simp add: next_buffered_def rd_head_def release_def rd_new_def MAX_AUTH_FRAME_def encode_frame_def Let_def)
      (simp add: encode_header_def HEADER_LEN_def)
  then obtain r1 where "next_buffered ?r = (Inr (Some (op_u8 Auth, [8])), r1)" by blast
  then obtain r' s' where b: "burst (\<lambda>_. 5) demo_world [9] False ?r demo_server = Some (True, False, r', s')"
    by (simp add: burst.simps ct_eq_iff)
  with nothing_before_auth [OF demo_server_ok b ne] show ?thesis by (auto simp: demo_server_def)
qed

text \<open>The same peer, silent from then on: the turn is over at the deadline.\<close>

theorem unauthenticated_bounded_witness:
  "\<exists>b out. serve_turn (\<lambda>_. 5) demo_world [9] None 30 ((demo_turn [])\<lparr>tn_read := Never\<rparr>) (demo_conn [4, 3]) = Some (b, out) \<and>
     (case out of Ended t' _ _ \<Rightarrow> t' \<le> 30 | _ \<Rightarrow> False)"
proof -
  let ?tn = "(demo_turn [])\<lparr>tn_read := Never\<rparr>" and ?c = "demo_conn [4, 3]"
  have na: "\<nexists>rest. rd_view (cn_reader ?c) = encode_frame (op_u8 Auth, [9]) @ rest"
    by (auto simp: rd_view_def rd_new_def encode_frame_def encode_header_def dest!: arg_cong [where f = length])
  have "write_contract (tn_write ?tn)" using byte_socket_contract(1) by (simp add: demo_turn_def)
  note u = unauthenticated_bounded [OF demo_session [of "\<lambda>_. 5" "[9]" None] demo_server_ok demo_empty _ na this]
  have "next_buffered (cn_reader ?c) = (Inr None, cn_reader ?c)"
    by (simp add: next_buffered_def rd_head_def release_def rd_new_def HEADER_LEN_def)
  then have "burst (\<lambda>_. 5) demo_world [9] False (cn_reader ?c) (cn_server ?c) = Some (False, False, cn_reader ?c, cn_server ?c)"
    by (simp add: burst.simps)
  then obtain b out where "serve_turn (\<lambda>_. 5) demo_world [9] None 30 ?tn ?c = Some (b, out)"
      "case out of
         Serving t' c' \<Rightarrow> t' \<le> max (tn_now ?tn) 30 \<and> \<not> cn_authed c' \<and> (\<exists>data. tn_read ?tn = At t' (Inr data) \<and> data \<noteq> [])
       | Ended t' _ _ \<Rightarrow> t' \<le> max (tn_now ?tn) 30
       | Panicked _ \<Rightarrow> False"
    using u by (simp add: conn_new_def cong: conj_cong) blast
  then show ?thesis by (auto simp: demo_turn_def split: outcome.splits)
qed

end
