(* ===== verification/Shared_Serving.thy ===== *)
theory Shared_Serving
  imports Connection
begin

text \<open>
  Serving while other threads use the cache. \<open>dispatch\<close> and \<open>burst\<close> have the cache to themselves; the
  relations here follow the same code of \<^verbatim>\<open>tcp.rs\<close> and \<^verbatim>\<open>cache/mod.rs\<close> access by access, and before
  each access to shared state the other threads may have done anything that leaves a sound cache. A
  run of lookups, stores or deletes of a batch is one access per key. Two things are theirs to keep:
  the handles queued pieces own, and, as the epoch pin of a burst promises, the entries the request
  has borrowed.

  Each relation records its own accesses as moments: what could be read just before and just after.
  Where a key belongs is computed from fields that never change, so it is read at the access.
\<close>

section \<open>Other threads\<close>

type_synonym moment = "(bytes \<rightharpoonup> bytes) \<times> (bytes \<rightharpoonup> bytes)"

abbreviation moment_of :: "(bytes \<Rightarrow> u64) \<Rightarrow> server \<Rightarrow> server \<Rightarrow> moment" where
  "moment_of H s s' \<equiv> (sv_view H s, sv_view H s')"

text \<open>What may have happened since \<open>s\<close>, with the entries of \<open>B\<close> borrowed.\<close>

definition others :: "(bytes \<Rightarrow> u64) \<Rightarrow> world \<Rightarrow> nat set \<Rightarrow> server \<Rightarrow> server \<Rightarrow> bool" where
  "others H W B s s0 \<longleftrightarrow>
     (\<exists>cm me rd. s0 = s\<lparr>sv_cache := cm, sv_metrics := me\<rparr> \<and> cache_inv H (held rd (sv_kept s)) W cm \<and>
        sh_capacity (ca_shards (fst cm) ! 0) = sv_cap s \<and>
        (\<forall>p \<in> B. p \<in> dom (m_heap (snd cm))) \<and>
        (\<forall>p \<in> B \<union> {p. Some p \<in> set (sv_kept s)}. value_at (m_heap (snd cm)) p = value_at (sv_heap s) p))"

section \<open>Runs of lookups\<close>

definition lookup :: "(bytes \<Rightarrow> u64) \<Rightarrow> bytes \<Rightarrow> server \<Rightarrow> nat option \<times> server" where
  "lookup H k s =
     (let (c, m) = sv_cache s;
          (i, hash) = locate H c k;
          e = shard_get (ca_shards c ! i) m hash k
      in (e, s\<lparr>sv_cache := (c, case e of Some p \<Rightarrow> touch p m | None \<Rightarrow> m)\<rparr>))"

text \<open>The loop of \<open>get_many\<close>: each entry found is borrowed from then on.\<close>

inductive lookups ::
  "(bytes \<Rightarrow> u64) \<Rightarrow> world \<Rightarrow> nat set \<Rightarrow> bytes list \<Rightarrow> server \<Rightarrow> moment list \<Rightarrow> nat option list \<Rightarrow> server \<Rightarrow> bool"
  for H W where
  none: "lookups H W B [] s [] [] s"
| key: "others H W B s s0 \<Longrightarrow> lookup H k s0 = (e, s1) \<Longrightarrow> lookups H W (B \<union> set_option e) ks s1 Ms found s' \<Longrightarrow>
    lookups H W B (k # ks) s (moment_of H s0 s1 # Ms) (e # found) s'"

definition count_found :: "(bytes \<Rightarrow> u64) \<Rightarrow> bytes list \<Rightarrow> nat option list \<Rightarrow> server \<Rightarrow> server" where
  "count_found H ks found s =
     (let (c, m) = sv_cache s;
          hits = length (filter (\<lambda>e. e \<noteq> None) found)
      in s\<lparr>sv_cache := (case ks of [] \<Rightarrow> c
                         | k # _ \<Rightarrow> on_shard (fst (locate H c k)) (count_gets hits (length found - hits)) c, m)\<rparr>)"

definition put_found :: "world \<Rightarrow> nat option \<Rightarrow> server \<Rightarrow> server" where
  "put_found W e = (case e of Some p \<Rightarrow> put_value W p | None \<Rightarrow> sv_header NotFound 0)"

inductive puts :: "(bytes \<Rightarrow> u64) \<Rightarrow> world \<Rightarrow> nat set \<Rightarrow> nat option list \<Rightarrow> server \<Rightarrow> moment list \<Rightarrow> server \<Rightarrow> bool"
  for H W B where
  none: "puts H W B [] s [] s"
| one: "others H W B s s0 \<Longrightarrow> puts H W B es (put_found W e s0) Ms s' \<Longrightarrow>
    puts H W B (e # es) s (moment_of H s0 (put_found W e s0) # Ms) s'"

inductive get_shared :: "(bytes \<Rightarrow> u64) \<Rightarrow> world \<Rightarrow> bytes list \<Rightarrow> server \<Rightarrow> moment list \<Rightarrow> server \<Rightarrow> bool" for H W where
  run: "lookups H W {} ks s Ms found s1 \<Longrightarrow> B = {p. Some p \<in> set found} \<Longrightarrow> others H W B s1 s2 \<Longrightarrow>
    puts H W B found (count_found H ks found s2) Ms' s' \<Longrightarrow>
    get_shared H W ks s (Ms @ moment_of H s2 (count_found H ks found s2) # Ms') s'"

section \<open>Runs of stores and deletes\<close>

inductive stores_shared ::
  "(bytes \<Rightarrow> u64) \<Rightarrow> world \<Rightarrow> (bytes \<times> bytes) list \<Rightarrow> retired \<Rightarrow> server \<Rightarrow> moment list \<Rightarrow> retired \<Rightarrow> server \<Rightarrow> bool"
  for H W where
  none: "stores_shared H W [] ret s [] ret s"
| one: "others H W {} s s0 \<Longrightarrow> locate H (fst (sv_cache s0)) k = (i, hash) \<Longrightarrow>
    set_on W i hash k v (sv_cache s0) = Some (r, cm) \<Longrightarrow>
    stores_shared H W es (retired_add ret r) (s0\<lparr>sv_cache := cm\<rparr>) Ms ret' s' \<Longrightarrow>
    stores_shared H W ((k, v) # es) ret s (moment_of H s0 (s0\<lparr>sv_cache := cm\<rparr>) # Ms) ret' s'"

inductive each_shared :: "(bytes \<Rightarrow> u64) \<Rightarrow> world \<Rightarrow> (bytes \<times> bytes) list \<Rightarrow> server \<Rightarrow> moment list \<Rightarrow> server \<Rightarrow> bool"
  for H W where
  none: "each_shared H W [] s [] s"
| one: "others H W {} s s0 \<Longrightarrow> set_reply H W k v s0 = Some s1 \<Longrightarrow> each_shared H W es s1 Ms s' \<Longrightarrow>
    each_shared H W ((k, v) # es) s (moment_of H s0 s1 # Ms) s'"

inductive set_shared :: "(bytes \<Rightarrow> u64) \<Rightarrow> world \<Rightarrow> (bytes \<times> bytes) list \<Rightarrow> server \<Rightarrow> moment list \<Rightarrow> server \<Rightarrow> bool"
  for H W where
  all: "locate_sets H (fst (sv_cache s)) es = Inr l \<Longrightarrow> stores_shared H W es retired_zero s Ms ret s1 \<Longrightarrow>
    set_shared H W es s Ms
      (fold (\<lambda>_. sv_header Ok 0) es (s1\<lparr>sv_pending := snd (collect ret (sv_pending s1))\<rparr>))"
| each: "locate_sets H (fst (sv_cache s)) es = Inl x \<Longrightarrow> each_shared H W es s Ms s' \<Longrightarrow> set_shared H W es s Ms s'"

inductive deletes_shared ::
  "(bytes \<Rightarrow> u64) \<Rightarrow> world \<Rightarrow> bytes list \<Rightarrow> retired \<Rightarrow> server \<Rightarrow> moment list \<Rightarrow> retired \<Rightarrow> bool list \<Rightarrow> server \<Rightarrow> bool"
  for H W where
  none: "deletes_shared H W [] ret s [] ret [] s"
| one: "others H W {} s s0 \<Longrightarrow> locate H (fst (sv_cache s0)) k = (i, hash) \<Longrightarrow>
    del_on (wo_env W) i hash k (sv_cache s0) = (r, cm) \<Longrightarrow>
    s1 = sv_header (found_status (r \<noteq> None)) 0 (s0\<lparr>sv_cache := cm\<rparr>) \<Longrightarrow>
    deletes_shared H W ks (case r of Some x \<Rightarrow> retired_add ret x | None \<Rightarrow> ret) s1 Ms ret' fs s' \<Longrightarrow>
    deletes_shared H W (k # ks) ret s (moment_of H s0 s1 # Ms) ret' ((r \<noteq> None) # fs) s'"

definition count_deleted :: "(bytes \<Rightarrow> u64) \<Rightarrow> bytes list \<Rightarrow> bool list \<Rightarrow> server \<Rightarrow> server" where
  "count_deleted H ks fs s =
     (let (c, m) = sv_cache s;
          hits = length (filter id fs)
      in s\<lparr>sv_cache := (if ks = [] then c
                         else on_shard (fst (locate H c (last ks))) (count_dels hits (length fs - hits)) c, m)\<rparr>)"

inductive del_shared :: "(bytes \<Rightarrow> u64) \<Rightarrow> world \<Rightarrow> bytes list \<Rightarrow> server \<Rightarrow> moment list \<Rightarrow> server \<Rightarrow> bool" for H W where
  run: "deletes_shared H W ks retired_zero s Ms ret fs s1 \<Longrightarrow> others H W {} s1 s2 \<Longrightarrow>
    s' = (count_deleted H ks fs s2)\<lparr>sv_pending := snd (collect ret (sv_pending s2))\<rparr> \<Longrightarrow>
    del_shared H W ks s (Ms @ [moment_of H s2 s']) s'"

section \<open>Batches and requests\<close>

text \<open>A reply that no access goes with is at a moment of its own; it changes nothing shared.\<close>

inductive batch_shared :: "(bytes \<Rightarrow> u64) \<Rightarrow> world \<Rightarrow> (u8 \<times> bytes) list \<Rightarrow> server \<Rightarrow> moment list \<Rightarrow> server \<Rightarrow> bool"
  for H W where
  none: "batch_shared H W [] s [] s"
| get: "op_from_u8 op = Some Get \<Longrightarrow> get_shared H W (b # run_bodies op items) s Ms s1 \<Longrightarrow>
    batch_shared H W (run_rest op items) s1 Ms' s' \<Longrightarrow> batch_shared H W ((op, b) # items) s (Ms @ Ms') s'"
| set: "op_from_u8 op = Some Set \<Longrightarrow> set_run op b items = (entries, None, rest) \<Longrightarrow> set_shared H W entries s Ms s1 \<Longrightarrow>
    batch_shared H W rest s1 Ms' s' \<Longrightarrow> batch_shared H W ((op, b) # items) s (Ms @ Ms') s'"
| set_bad: "op_from_u8 op = Some Set \<Longrightarrow> set_run op b items = (entries, Some e, rest) \<Longrightarrow> set_shared H W entries s Ms s1 \<Longrightarrow>
    s2 = sv_frame W BadRequest (decode_error_msg e) s1 \<Longrightarrow> batch_shared H W rest s2 Ms' s' \<Longrightarrow>
    batch_shared H W ((op, b) # items) s (Ms @ moment_of H s1 s2 # Ms') s'"
| del: "op_from_u8 op = Some Del \<Longrightarrow> del_shared H W (b # run_bodies op items) s Ms s1 \<Longrightarrow>
    batch_shared H W (run_rest op items) s1 Ms' s' \<Longrightarrow> batch_shared H W ((op, b) # items) s (Ms @ Ms') s'"
| other: "op_from_u8 op \<notin> {Some Get, Some Set, Some Del} \<Longrightarrow> s1 = sv_frame W UnknownOp (not_in_batch_msg op) s \<Longrightarrow>
    batch_shared H W items s1 Ms' s' \<Longrightarrow> batch_shared H W ((op, b) # items) s (moment_of H s s1 # Ms') s'"

definition found_reply :: "world \<Rightarrow> nat option \<Rightarrow> server \<Rightarrow> server" where
  "found_reply W found s =
     (case found of
        Some e \<Rightarrow>
          if length (value_at (sv_heap s) e) > MAX_RESPONSE
          then sv_frame W TooLarge (response_too_large_msg (length (value_at (sv_heap s) e))) s
          else put_value W e s
      | None \<Rightarrow> sv_header NotFound 0 s)"

definition batch_open :: "frames \<Rightarrow> server \<Rightarrow> mark \<times> server" where
  "batch_open items s =
     (let (mark, out) = fw_begin (status_u8 Ok) (sv_out s)
      in (mark, s\<lparr>sv_out := fw_put_slice (to_le_bytes (of_nat (fr_left items))) out\<rparr>))"

inductive dispatch_shared :: "(bytes \<Rightarrow> u64) \<Rightarrow> world \<Rightarrow> u8 \<Rightarrow> bytes \<Rightarrow> server \<Rightarrow> moment list \<Rightarrow> server \<Rightarrow> bool"
  for H W where
  get: "op_from_u8 op = Some Get \<Longrightarrow> others H W {} s s0 \<Longrightarrow> get_in H body (sv_cache s0) = (found, cm) \<Longrightarrow>
    s1 = s0\<lparr>sv_cache := cm\<rparr> \<Longrightarrow> others H W (set_option found) s1 s2 \<Longrightarrow> s' = found_reply W found s2 \<Longrightarrow>
    dispatch_shared H W op body s [moment_of H s0 s1, moment_of H s2 s'] s'"
| set: "op_from_u8 op = Some Set \<Longrightarrow> set_body body = Inr (k, v) \<Longrightarrow> others H W {} s s0 \<Longrightarrow>
    set_reply H W k v s0 = Some s' \<Longrightarrow> dispatch_shared H W op body s [moment_of H s0 s'] s'"
| set_bad: "op_from_u8 op = Some Set \<Longrightarrow> set_body body = Inl e \<Longrightarrow>
    s' = sv_frame W BadRequest (decode_error_msg e) s \<Longrightarrow> dispatch_shared H W op body s [moment_of H s s'] s'"
| del: "op_from_u8 op = Some Del \<Longrightarrow> others H W {} s s0 \<Longrightarrow> s' = del_reply H W body s0 \<Longrightarrow>
    dispatch_shared H W op body s [moment_of H s0 s'] s'"
| batch_bad: "op_from_u8 op = Some Batch \<Longrightarrow> frames body = Inl e \<Longrightarrow>
    s' = sv_frame W BadRequest (decode_error_msg e) s \<Longrightarrow> dispatch_shared H W op body s [moment_of H s s'] s'"
| batch: "op_from_u8 op = Some Batch \<Longrightarrow> frames body = Inr items \<Longrightarrow> batch_open items s = (mark, s1) \<Longrightarrow>
    batch_shared H W (frames_items items) s1 Ms s2 \<Longrightarrow> fw_since mark (sv_out s2) \<le> MAX_RESPONSE \<Longrightarrow>
    fw_end mark (sv_out s2) = Some out \<Longrightarrow> dispatch_shared H W op body s Ms (s2\<lparr>sv_out := out\<rparr>)"
| batch_large: "op_from_u8 op = Some Batch \<Longrightarrow> frames body = Inr items \<Longrightarrow> batch_open items s = (mark, s1) \<Longrightarrow>
    batch_shared H W (frames_items items) s1 Ms s2 \<Longrightarrow> n = fw_since mark (sv_out s2) \<Longrightarrow> n > MAX_RESPONSE \<Longrightarrow>
    others H W {} s2 s3 \<Longrightarrow> sv_abort W mark s3 = Some s4 \<Longrightarrow>
    dispatch_shared H W op body s (Ms @ [moment_of H s3 s4]) (sv_frame W TooLarge (response_too_large_msg n) s4)"
| nop: "op_from_u8 op \<in> {Some Auth, Some Ping} \<Longrightarrow> s' = sv_header Ok 0 s \<Longrightarrow>
    dispatch_shared H W op body s [moment_of H s s'] s'"
| unknown: "op_from_u8 op = None \<Longrightarrow> s' = sv_frame W UnknownOp (unknown_op_msg op) s \<Longrightarrow>
    dispatch_shared H W op body s [moment_of H s s'] s'"

section \<open>What was answered\<close>

text \<open>Items in order, each answered at a moment of its own; no other moment changes anything.\<close>

inductive answered_at :: "nat \<Rightarrow> moment list \<Rightarrow> (u8 \<times> bytes) list \<Rightarrow> (u8 \<times> bytes) list \<Rightarrow> bool" for cap where
  none: "answered_at cap [] [] []"
| pass: "answered_at cap Ms xs rs \<Longrightarrow> answered_at cap ((V, V) # Ms) xs rs"
| item: "item_effect cap V x V' \<Longrightarrow> answered_at cap Ms xs rs \<Longrightarrow>
    answered_at cap ((V, V') # Ms) (x # xs) (item_reply cap V x # rs)"

definition quiet :: "moment list \<Rightarrow> bool" where
  "quiet Ms = list_all (\<lambda>(V, V'). V' = V) Ms"

definition request_answered :: "nat \<Rightarrow> moment list \<Rightarrow> u8 \<times> bytes \<Rightarrow> u8 \<times> bytes \<Rightarrow> bool" where
  "request_answered cap Ms q r \<longleftrightarrow>
     (case (op_from_u8 (fst q), frames (snd q)) of
        (Some Batch, Inr f) \<Rightarrow> \<exists>rs. answered_at cap Ms (frames_items f) rs \<and> r = batch_result rs
      | _ \<Rightarrow> \<exists>Ms1 V V' Ms2. Ms = Ms1 @ (V, V') # Ms2 \<and> quiet (Ms1 @ Ms2) \<and> request_answer cap V (fst q) (snd q) V' r)"

lemma answered_append:
  "answered_at cap Ms xs rs \<Longrightarrow> answered_at cap Ms' ys qs \<Longrightarrow> answered_at cap (Ms @ Ms') (xs @ ys) (rs @ qs)"
  by (induction rule: answered_at.induct) (auto intro: answered_at.intros)

lemma answered_quiet: "quiet Ms \<Longrightarrow> answered_at cap Ms [] []"
  by (induction Ms) (auto simp: quiet_def intro: answered_at.intros)

lemma answered_length: "answered_at cap Ms xs rs \<Longrightarrow> length rs = length xs"
  by (induction rule: answered_at.induct) simp_all

lemma answered_one: "answers cap V [x] V' rs \<Longrightarrow> answered_at cap [(V, V')] [x] rs"
  by (auto intro: answered_at.intros)

section \<open>Single accesses\<close>

abbreviation sound :: "(bytes \<Rightarrow> u64) \<Rightarrow> world \<Rightarrow> server \<Rightarrow> bool" where
  "sound H W s \<equiv> \<exists>rd. srv_ok H W rd s"

lemma others_ok:
  assumes "others H W B s s0" and "sound H W s"
  shows "sound H W s0" and "sv_cap s0 = sv_cap s" and "sv_out s0 = sv_out s" and "sv_kept s0 = sv_kept s"
    and "sv_pending s0 = sv_pending s" and "\<And>p. p \<in> B \<Longrightarrow> p \<in> dom (sv_heap s0) \<and> value_at (sv_heap s0) p = value_at (sv_heap s) p"
proof -
  obtain cm me rd where o: "s0 = s\<lparr>sv_cache := cm, sv_metrics := me\<rparr>" "cache_inv H (held rd (sv_kept s)) W cm"
      "sh_capacity (ca_shards (fst cm) ! 0) = sv_cap s" "\<forall>p \<in> B. p \<in> dom (m_heap (snd cm))"
      "\<forall>p \<in> B \<union> {p. Some p \<in> set (sv_kept s)}. value_at (m_heap (snd cm)) p = value_at (sv_heap s) p"
    using assms(1) by (auto simp: others_def)
  have "list_all2 (\<lambda>b h. \<forall>p. h = Some p \<longrightarrow> value_at (sv_heap s) p = b) (shared_of (fw_pieces (sv_out s))) (sv_kept s)"
    using assms(2) unfolding srv_ok_def by blast
  then have "list_all2 (\<lambda>b h. \<forall>p. h = Some p \<longrightarrow> value_at (m_heap (snd cm)) p = b) (shared_of (fw_pieces (sv_out s))) (sv_kept s)"
    by (rule list.rel_mono_strong) (use o(5) in auto)
  then have "srv_ok H W rd s0" using assms(2) o(1,2) by (auto simp: srv_ok_def)
  then show "sound H W s0" by blast
  show "sv_cap s0 = sv_cap s" "sv_out s0 = sv_out s" "sv_kept s0 = sv_kept s" "sv_pending s0 = sv_pending s"
    using o(1,3) by simp_all
  show "p \<in> dom (sv_heap s0) \<and> value_at (sv_heap s0) p = value_at (sv_heap s) p" if "p \<in> B" for p
    using that o(1,4,5) by simp
qed

lemma others_trans:
  assumes "others H W B s s1" and "others H W B s1 s2"
  shows "others H W B s s2"
proof -
  obtain cm me rd where 1: "s1 = s\<lparr>sv_cache := cm, sv_metrics := me\<rparr>" "sh_capacity (ca_shards (fst cm) ! 0) = sv_cap s"
      "\<forall>p \<in> B \<union> {p. Some p \<in> set (sv_kept s)}. value_at (m_heap (snd cm)) p = value_at (sv_heap s) p"
    using assms(1) by (auto simp: others_def)
  obtain cm' me' rd' where 2: "s2 = s1\<lparr>sv_cache := cm', sv_metrics := me'\<rparr>" "cache_inv H (held rd' (sv_kept s1)) W cm'"
      "sh_capacity (ca_shards (fst cm') ! 0) = sv_cap s1" "\<forall>p \<in> B. p \<in> dom (m_heap (snd cm'))"
      "\<forall>p \<in> B \<union> {p. Some p \<in> set (sv_kept s1)}. value_at (m_heap (snd cm')) p = value_at (sv_heap s1) p"
    using assms(2) by (auto simp: others_def)
  show ?thesis unfolding others_def
    using 1 2 by (intro exI [of _ cm'] exI [of _ me'] exI [of _ rd'] conjI) simp_all
qed

lemma others_refl:
  assumes "srv_ok H W rd s" and "B \<subseteq> dom (sv_heap s)"
  shows "others H W B s s"
  using assms unfolding others_def srv_ok_def
  by (intro exI [of _ "sv_cache s"] exI [of _ "sv_metrics s"] exI [of _ rd] conjI) auto

text \<open>
  The steps other threads take on the cache are such changes: a write or delete of a key, a lookup,
  a handle kept or given back, the collector at work, as long as the handles given back are not those
  of the queue and, by the pin, no borrowed entry is freed.
\<close>

lemma others_cstep:
  assumes "srv_ok H W rd s" and "cstep H (fst (sv_cache s), snd (sv_cache s), held rd (sv_kept s), R) (c', m', rd', R')"
    and "shared_ok H (fst (sv_cache s), snd (sv_cache s), held rd (sv_kept s), R)"
    and "\<forall>p. count_list (sv_kept s) (Some p) \<le> rd' p" and "B \<subseteq> dom (sv_heap s)" and "B \<subseteq> dom (m_heap m')"
  shows "others H W B s (s\<lparr>sv_cache := (c', m')\<rparr>)"
proof -
  obtain Ms where rep: "cache_rep H (held rd (sv_kept s)) (fst (sv_cache s)) (snd (sv_cache s)) Ms"
      and w: "world_ok W (snd (sv_cache s))" using assms(1) by (auto simp: srv_ok_def cache_inv_def)
  note k = cstep_keeps [OF assms(2) rep]
  have rd': "held (\<lambda>p. rd' p - count_list (sv_kept s) (Some p)) (sv_kept s) = rd'"
    using assms(4) by (auto simp: held_def fun_eq_iff)
  obtain Ms' where rep': "cache_rep H rd' c' m' Ms'" using cstep_ok [OF assms(2,3)] by (auto simp: shared_ok_def)
  have v: "value_at (m_heap m') p = value_at (sv_heap s) p" if "p \<in> B \<union> {p. Some p \<in> set (sv_kept s)}" for p
  proof (cases "p \<in> B")
    case True
    then show ?thesis using k(3) assms(5,6) by blast
  next
    case False
    then have kept: "Some p \<in> set (sv_kept s)" using that by simp
    then have "0 < count_list (sv_kept s) (Some p)" using count_list_0_iff [of "sv_kept s" "Some p"] by simp
    then have "0 < rd' p" using assms(4) by (meson less_le_trans)
    then show ?thesis
      using k(3) cache_reader_dom [OF rep held_kept [OF kept]] cache_reader_dom [OF rep'] by blast
  qed
  have "cache_inv H (held (\<lambda>p. rd' p - count_list (sv_kept s) (Some p)) (sv_kept s)) W (c', m')"
    using rep' world_ok_mags [OF w k(2)] by (auto simp: rd' cache_inv_def)
  then show ?thesis unfolding others_def using k(1) v assms(6)
    by (intro exI [of _ "(c', m')"] exI [of _ "sv_metrics s"] exI conjI) auto
qed

text \<open>A list of items served between other threads' accesses.\<close>

definition served :: "(bytes \<Rightarrow> u64) \<Rightarrow> world \<Rightarrow> (u8 \<times> bytes) list \<Rightarrow> server \<Rightarrow> moment list \<Rightarrow> server \<Rightarrow> bool" where
  "served H W xs s Ms s' \<longleftrightarrow> sound H W s' \<and> sv_cap s' = sv_cap s \<and>
     (\<exists>rs. answered_at (sv_cap s) Ms xs rs \<and> emits (concat (map encode_frame rs)) (sv_out s) (sv_out s'))"

lemma served_refl: "sound H W s \<Longrightarrow> served H W [] s [] s"
  by (auto simp: served_def srv_ok_def emits_refl intro!: answered_at.intros exI [of _ "[]"])

lemma served_trans:
  assumes "served H W xs s Ms s1" and "served H W ys s1 Ms' s2"
  shows "served H W (xs @ ys) s (Ms @ Ms') s2"
proof -
  obtain rs qs where "answered_at (sv_cap s) Ms xs rs" "emits (concat (map encode_frame rs)) (sv_out s) (sv_out s1)"
      "answered_at (sv_cap s) Ms' ys qs" "emits (concat (map encode_frame qs)) (sv_out s1) (sv_out s2)"
    using assms by (auto simp: served_def)
  then have "answered_at (sv_cap s) (Ms @ Ms') (xs @ ys) (rs @ qs)"
      "emits (concat (map encode_frame (rs @ qs))) (sv_out s) (sv_out s2)"
    using answered_append emits_trans by fastforce+
  then show ?thesis using assms by (auto simp: served_def)
qed

lemma served_others: "others H W B s s0 \<Longrightarrow> sound H W s \<Longrightarrow> served H W xs s0 Ms s' \<Longrightarrow> served H W xs s Ms s'"
  using others_ok by (simp add: served_def)

lemma served_one:
  assumes "serves H W rd [x] s s'"
  shows "served H W [x] s [moment_of H s s'] s'"
  using assms answered_one unfolding serves_def served_def by blast

text \<open>An access served at once after what others did.\<close>

lemma served_step:
  assumes "others H W B s s0" and "sound H W s" and "\<And>rd. srv_ok H W rd s0 \<Longrightarrow> serves H W rd [x] s0 s1"
  shows "served H W [x] s [moment_of H s0 s1] s1"
proof -
  obtain rd where "srv_ok H W rd s0" using others_ok(1) [OF assms(1,2)] by blast
  from served_others [OF assms(1,2) served_one [OF assms(3) [OF this]]] show ?thesis .
qed

lemma served_quiet:
  assumes "served H W xs s Ms s1" and "others H W B s1 s2" and "sound H W s'" and "sv_cap s' = sv_cap s2"
    and "sv_out s' = sv_out s2" and "sv_view H s' = sv_view H s2"
  shows "served H W xs s (Ms @ [moment_of H s2 s']) s'"
proof -
  have s1: "sound H W s1" using assms(1) by (simp add: served_def)
  have "answered_at (sv_cap s) [moment_of H s2 s'] [] []" using assms(6) by (auto intro: answered_at.intros)
  then have "served H W [] s2 [moment_of H s2 s'] s'"
    using assms(3-6) by (auto simp: served_def srv_ok_def emits_refl intro!: answered_at.intros exI [of _ "[]"])
  from served_trans [OF assms(1) served_others [OF assms(2) s1 this]] show ?thesis by simp
qed

section \<open>Runs between other threads' accesses\<close>

definition get_frame :: "(nat \<Rightarrow> bytes) \<Rightarrow> nat option \<Rightarrow> u8 \<times> bytes" where
  "get_frame val e = (case e of Some p \<Rightarrow> (status_u8 Ok, val p) | None \<Rightarrow> (status_u8 NotFound, []))"

lemma lookup_ok:
  assumes "srv_ok H W rd s" and "lookup H k s = (e, s1)"
  shows "srv_ok H W rd s1" and "sv_cap s1 = sv_cap s" and "sv_out s1 = sv_out s" and "sv_kept s1 = sv_kept s"
    and "sv_view H s1 = sv_view H s" and "item_reply cap (sv_view H s) (op_u8 Get, k) = get_frame (value_at (sv_heap s1)) e"
    and "e = Some p \<Longrightarrow> p \<in> dom (sv_heap s1)" and "dom (sv_heap s) \<subseteq> dom (sv_heap s1)"
    and "value_at (sv_heap s1) q = value_at (sv_heap s) q" and "sv_pending s1 = sv_pending s"
proof -
  obtain c m where cm: "sv_cache s = (c, m)" by fastforce
  obtain i hash where l: "locate H c k = (i, hash)" by fastforce
  obtain hits f m1 where fa: "find_all (ca_shards c) (map (located H c) [k]) m = (hits, f, m1)" by (rule prod_cases3)
  have e: "f = [e]" "s1 = s\<lparr>sv_cache := (c, m1)\<rparr>"
    using assms(2) fa l by (auto simp: lookup_def cm Let_def split: option.splits)
  have ci: "cache_inv H (held rd (sv_kept s)) W (c, m)" using assms(1) by (simp add: srv_ok_def cm)
  then obtain Ms where rep: "cache_rep H (held rd (sv_kept s)) c m Ms" and w: "world_ok W m" by (auto simp: cache_inv_def)
  note s = find_all_spec [OF rep fa]
  have inv: "cache_inv H (held rd (sv_kept s)) W (c, m1)" using s world_ok_mags [OF w] by (auto simp: cache_inv_def)
  show "srv_ok H W rd s1" unfolding e(2)
    by (rule srv_ok_cache [OF assms(1) inv]) (use s in \<open>simp add: readers_see_def cm\<close>)
  show "sv_cap s1 = sv_cap s" "sv_out s1 = sv_out s" "sv_kept s1 = sv_kept s" "sv_pending s1 = sv_pending s"
    "sv_view H s1 = sv_view H s" "value_at (sv_heap s1) q = value_at (sv_heap s) q"
    using s by (simp_all add: e cm)
  have f: "e = cache_find H c m k" using s e(1) by simp
  have val: "value_at (m_heap m1) = value_at (m_heap m)" using s by (simp add: fun_eq_iff)
  show "item_reply cap (sv_view H s) (op_u8 Get, k) = get_frame (value_at (sv_heap s1)) e"
    by (cases e) (simp_all add: item_reply_def get_frame_def e(2) cm cache_view_def flip: f, simp add: val)
  show d: "dom (sv_heap s) \<subseteq> dom (sv_heap s1)" using find_all_dom [OF fa] by (simp add: e cm)
  show "p \<in> dom (sv_heap s1)" if "e = Some p"
  proof -
    have "p \<in> ran (Ms (fst (locate H c k)))" using cache_find_map [OF rep, of k] f that by (auto intro: ranI)
    then have "p \<in> dom (m_heap m)" using cache_entry_dom [OF rep locate_range [OF cache_repD(1) [OF rep]]] by blast
    then show ?thesis using d by (auto simp: cm)
  qed
qed

lemma lookups_ok:
  assumes "lookups H W B ks s Ms found s'" and "sound H W s" and "B \<subseteq> dom (sv_heap s)"
  shows "sound H W s' \<and> sv_cap s' = sv_cap s \<and> sv_out s' = sv_out s \<and>
    (\<forall>p \<in> B. value_at (sv_heap s') p = value_at (sv_heap s) p) \<and>
    B \<union> {p. Some p \<in> set found} \<subseteq> dom (sv_heap s') \<and>
    answered_at (sv_cap s) Ms (map (Pair (op_u8 Get)) ks) (map (get_frame (value_at (sv_heap s'))) found)"
  using assms
proof (induction rule: lookups.induct)
  case (none B s)
  then show ?case by (auto intro: answered_at.intros)
next
  case (key B s s0 k e s1 ks Ms found s')
  note o = others_ok [OF key.hyps(1) key.prems(1)]
  from o(1) obtain rd where rd: "srv_ok H W rd s0" by blast
  note l = lookup_ok [OF rd key.hyps(2)]
  have "B \<subseteq> dom (sv_heap s1)" using o(6) l(8) by blast
  moreover have "set_option e \<subseteq> dom (sv_heap s1)" using l(7) by (cases e) simp_all
  ultimately have "B \<union> set_option e \<subseteq> dom (sv_heap s1)" by blast
  with key.IH l(1) have IH: "sound H W s'" "sv_cap s' = sv_cap s1" "sv_out s' = sv_out s1"
      "\<forall>p \<in> B \<union> set_option e. value_at (sv_heap s') p = value_at (sv_heap s1) p"
      "(B \<union> set_option e) \<union> {p. Some p \<in> set found} \<subseteq> dom (sv_heap s')"
      "answered_at (sv_cap s1) Ms (map (Pair (op_u8 Get)) ks) (map (get_frame (value_at (sv_heap s'))) found)" by blast+
  have "get_frame (value_at (sv_heap s1)) e = get_frame (value_at (sv_heap s')) e"
    using IH(4) by (cases e) (simp_all add: get_frame_def)
  then have r: "item_reply (sv_cap s) (sv_view H s0) (op_u8 Get, k) = get_frame (value_at (sv_heap s')) e" using l(6) by simp
  have "item_effect (sv_cap s) (sv_view H s0) (op_u8 Get, k) (sv_view H s1)" using l(5) by (simp add: item_effect_def)
  from answered_at.item [OF this, of Ms] IH(2,6) l(2) o(2) r
  have "answered_at (sv_cap s) (moment_of H s0 s1 # Ms) (map (Pair (op_u8 Get)) (k # ks)) (map (get_frame (value_at (sv_heap s'))) (e # found))"
    by simp
  moreover have "\<forall>p \<in> B. value_at (sv_heap s') p = value_at (sv_heap s) p" using IH(4) l(9) o(6) by simp
  moreover have "B \<union> {p. Some p \<in> set (e # found)} \<subseteq> dom (sv_heap s')" using IH(5) by (auto simp: option.set_sel)
  ultimately show ?case using IH l(2,3) o(2,3) by simp
qed

lemma put_found_appends:
  "srv_ok H W rd s \<Longrightarrow> set_option e \<subseteq> dom (sv_heap s) \<Longrightarrow>
   appends H W rd (encode_frame (get_frame (value_at (sv_heap s)) e)) s (put_found W e s)"
  using put_value_appends [of H W rd s] sv_status_appends [of H W rd s NotFound]
  by (cases e) (simp_all add: get_frame_def put_found_def)

lemma puts_ok:
  assumes "puts H W B es s Ms s'" and "sound H W s" and "B \<subseteq> dom (sv_heap s)" and "{p. Some p \<in> set es} \<subseteq> B"
  shows "sound H W s' \<and> sv_cap s' = sv_cap s \<and> quiet Ms \<and>
    emits (concat (map (\<lambda>e. encode_frame (get_frame (value_at (sv_heap s)) e)) es)) (sv_out s) (sv_out s')"
  using assms
proof (induction rule: puts.induct)
  case (none s)
  then show ?case by (auto simp: quiet_def srv_ok_def emits_refl)
next
  case (one s s0 es e Ms s')
  note o = others_ok [OF one.hyps(1) one.prems(1)]
  from o(1) obtain rd where rd: "srv_ok H W rd s0" by blast
  have e: "set_option e \<subseteq> B" using one.prems(3) by (auto simp: option.set_sel)
  then have "set_option e \<subseteq> dom (sv_heap s0)" using o(6) by blast
  note a = put_found_appends [OF rd this, unfolded appends_def]
  have B: "B \<subseteq> dom (sv_heap (put_found W e s0))" "\<forall>p \<in> B. value_at (sv_heap (put_found W e s0)) p = value_at (sv_heap s) p"
    using a o(6) by auto
  have fr: "get_frame (value_at (sv_heap x)) y = get_frame (value_at (sv_heap s)) y"
    if "\<forall>p \<in> B. value_at (sv_heap x) p = value_at (sv_heap s) p" "set_option y \<subseteq> B" for x y
    using that by (cases y) (simp_all add: get_frame_def)
  have m: "map (\<lambda>y. encode_frame (get_frame (value_at (sv_heap (put_found W e s0))) y)) es =
      map (\<lambda>y. encode_frame (get_frame (value_at (sv_heap s)) y)) es"
  proof (rule map_cong [OF refl])
    fix y assume "y \<in> set es"
    then have "set_option y \<subseteq> B" using one.prems(3) by (cases y) auto
    then show "encode_frame (get_frame (value_at (sv_heap (put_found W e s0))) y) = encode_frame (get_frame (value_at (sv_heap s)) y)"
      using fr [OF B(2)] by simp
  qed
  have h: "get_frame (value_at (sv_heap s0)) e = get_frame (value_at (sv_heap s)) e" using fr o(6) e by blast
  have "sound H W (put_found W e s0)" "{p. Some p \<in> set es} \<subseteq> B" using a one.prems(3) by auto
  note IH = one.IH [OF this(1) B(1) this(2), unfolded m]
  have "emits (encode_frame (get_frame (value_at (sv_heap s)) e) @ concat (map (\<lambda>y. encode_frame (get_frame (value_at (sv_heap s)) y)) es))
      (sv_out s) (sv_out s')"
    using emits_trans a IH unfolding h o(3) by blast
  then show ?case using IH a o(2) by (simp add: quiet_def)
qed

lemma count_cap:
  "sh_capacity (ca_shards (on_shard i (count_gets a b) c) ! 0) = sh_capacity (ca_shards c ! 0)"
  "sh_capacity (ca_shards (on_shard i (count_dels a b) c) ! 0) = sh_capacity (ca_shards c ! 0)"
  by (cases "i < length (ca_shards c)"; cases "i = 0";
      simp add: on_shard_def list_update_beyond count_gets_def count_dels_def)+

lemma count_found_ok:
  assumes "srv_ok H W rd s"
  shows "srv_ok H W rd (count_found H ks found s)" and "sv_cap (count_found H ks found s) = sv_cap s"
    and "sv_view H (count_found H ks found s) = sv_view H s" and "sv_out (count_found H ks found s) = sv_out s"
    and "sv_heap (count_found H ks found s) = sv_heap s"
proof -
  obtain c m where cm: "sv_cache s = (c, m)" by fastforce
  obtain Ms where rep: "cache_rep H (held rd (sv_kept s)) c m Ms" and w: "world_ok W m"
    using assms by (auto simp: srv_ok_def cache_inv_def cm)
  define c1 where "c1 = fst (sv_cache (count_found H ks found s))"
  have e: "count_found H ks found s = s\<lparr>sv_cache := (c1, m)\<rparr>" by (simp add: c1_def count_found_def cm Let_def)
  have "(\<exists>Ms. cache_rep H (held rd (sv_kept s)) c1 m Ms) \<and> cache_view H c1 m = cache_view H c m \<and>
      sh_capacity (ca_shards c1 ! 0) = sh_capacity (ca_shards c ! 0)"
  proof (cases ks)
    case (Cons k ks')
    have i: "fst (locate H c k) < length (ca_shards c)" by (rule locate_range [OF cache_repD(1) [OF rep]])
    show ?thesis using cache_rep_count(1) [OF rep i]
      by (auto simp: c1_def count_found_def cm Cons Let_def cache_view_count count_cap)
  qed (use rep in \<open>auto simp: c1_def count_found_def cm\<close>)
  note c1 = this
  show "srv_ok H W rd (count_found H ks found s)" unfolding e
    by (rule srv_ok_cache [OF assms]) (use c1 w in \<open>auto simp: cache_inv_def cm\<close>)
  show "sv_cap (count_found H ks found s) = sv_cap s" "sv_view H (count_found H ks found s) = sv_view H s"
    "sv_out (count_found H ks found s) = sv_out s" "sv_heap (count_found H ks found s) = sv_heap s"
    using c1 by (simp_all add: e cm)
qed

lemma get_shared_served:
  assumes "get_shared H W ks s Ms s'" and "sound H W s"
  shows "served H W (map (Pair (op_u8 Get)) ks) s Ms s'"
  using assms
proof (cases rule: get_shared.cases)
  case (run Ms1 found s1 B s2 Ms')
  note l = lookups_ok [OF run(2) assms(2) empty_subsetI]
  then have s1: "sound H W s1" and B: "B \<subseteq> dom (sv_heap s1)" using run(3) by auto
  note o = others_ok [OF run(4) s1]
  from o(1) obtain rd where rd: "srv_ok H W rd s2" by blast
  let ?s3 = "count_found H ks found s2"
  note c = count_found_ok [OF rd, of ks found]
  have B3: "B \<subseteq> dom (sv_heap ?s3)" using o(6) c(5) by auto
  have "{p. Some p \<in> set found} \<subseteq> B" using run(3) by simp
  note p = puts_ok [OF run(5) _ B3 this]
  have val: "map (get_frame (value_at (sv_heap ?s3))) found = map (get_frame (value_at (sv_heap s1))) found"
  proof (rule map_cong [OF refl])
    fix e assume "e \<in> set found"
    then show "get_frame (value_at (sv_heap ?s3)) e = get_frame (value_at (sv_heap s1)) e"
      using o(6) run(3) c(5) by (auto simp: get_frame_def split: option.split)
  qed
  have q: "quiet (moment_of H s2 ?s3 # Ms')" using p c(1,3) by (auto simp: quiet_def)
  have "answered_at (sv_cap s) (Ms1 @ moment_of H s2 ?s3 # Ms') (map (Pair (op_u8 Get)) ks @ []) (map (get_frame (value_at (sv_heap s1))) found @ [])"
    using answered_append answered_quiet [OF q] l by blast
  moreover have "emits (concat (map encode_frame (map (get_frame (value_at (sv_heap s1))) found))) (sv_out s) (sv_out s')"
    using p c(1,4) o(3) l by (simp add: comp_def flip: val) blast
  ultimately show ?thesis unfolding served_def run(1) using p c(1,2) o(2) l by auto
qed

lemma count_deleted_ok:
  assumes "srv_ok H W rd s"
  shows "srv_ok H W rd (count_deleted H ks fs s)" and "sv_cap (count_deleted H ks fs s) = sv_cap s"
    and "sv_view H (count_deleted H ks fs s) = sv_view H s" and "sv_out (count_deleted H ks fs s) = sv_out s"
proof -
  obtain c m where cm: "sv_cache s = (c, m)" by fastforce
  obtain Ms where rep: "cache_rep H (held rd (sv_kept s)) c m Ms" and w: "world_ok W m"
    using assms by (auto simp: srv_ok_def cache_inv_def cm)
  define c1 where "c1 = fst (sv_cache (count_deleted H ks fs s))"
  have e: "count_deleted H ks fs s = s\<lparr>sv_cache := (c1, m)\<rparr>" by (simp add: c1_def count_deleted_def cm Let_def)
  have i: "fst (locate H c (last ks)) < length (ca_shards c)" by (rule locate_range [OF cache_repD(1) [OF rep]])
  have c1: "(\<exists>Ms. cache_rep H (held rd (sv_kept s)) c1 m Ms) \<and> cache_view H c1 m = cache_view H c m \<and>
      sh_capacity (ca_shards c1 ! 0) = sh_capacity (ca_shards c ! 0)"
    using rep cache_rep_count(2) [OF rep i] by (auto simp: c1_def count_deleted_def cm Let_def cache_view_count count_cap)
  show "srv_ok H W rd (count_deleted H ks fs s)" unfolding e
    by (rule srv_ok_cache [OF assms]) (use c1 w in \<open>auto simp: cache_inv_def cm\<close>)
  show "sv_cap (count_deleted H ks fs s) = sv_cap s" "sv_view H (count_deleted H ks fs s) = sv_view H s"
    "sv_out (count_deleted H ks fs s) = sv_out s"
    using c1 by (simp_all add: e cm)
qed

lemma del_step_serves:
  assumes "srv_ok H W rd s" and "locate H (fst (sv_cache s)) k = (i, hash)" and "del_on (wo_env W) i hash k (sv_cache s) = (r, cm)"
  shows "serves H W rd [(op_u8 Del, k)] s (sv_header (found_status (r \<noteq> None)) 0 (s\<lparr>sv_cache := cm\<rparr>))"
proof -
  obtain c m c' m' where cm: "sv_cache s = (c, m)" "cm = (c', m')" by fastforce
  let ?rd = "held rd (sv_kept s)" and ?s1 = "s\<lparr>sv_cache := cm\<rparr>"
  obtain Ms where rep: "cache_rep H ?rd c m Ms" and w: "world_ok W m" using assms(1) by (auto simp: srv_ok_def cache_inv_def cm)
  have tid: "ev_tid (wo_env W) < length (sl_mags (m_slab m))" using w by (simp add: world_ok_def)
  note d = del_on_spec [OF rep tid assms(2) [unfolded cm fst_conv] assms(3) [unfolded cm]]
  have ok: "srv_ok H W rd ?s1"
    by (rule srv_ok_cache [OF assms(1)]) (use d(1,8) world_ok_mags [OF w d(6)] in \<open>auto simp: cache_inv_def cm readers_see_def\<close>)
  have v: "sv_view H ?s1 = (sv_view H s)(k := None)" "(r \<noteq> None) = (k \<in> dom (sv_view H s))" "sv_cap ?s1 = sv_cap s"
    using d(2,3,5) by (simp_all add: cm)
  have an: "answers (sv_cap s) (sv_view H s) [(op_u8 Del, k)] (sv_view H ?s1) [(status_u8 (found_status (r \<noteq> None)), [])]"
    using answers_dels [of "sv_cap s" "sv_view H s" "[k]"] v(1,2) by simp
  have ap: "appends H W rd (concat (map encode_frame [(status_u8 (found_status (r \<noteq> None)), [])])) ?s1
      (sv_header (found_status (r \<noteq> None)) 0 ?s1)"
    using sv_status_appends [OF ok] by simp
  have "sv_out ?s1 = sv_out s" by simp
  from serves_appends [OF an v(3) this ap] show ?thesis .
qed

lemma deletes_shared_served:
  assumes "deletes_shared H W ks ret s Ms ret' fs s'" and "sound H W s"
  shows "served H W (map (Pair (op_u8 Del)) ks) s Ms s'"
  using assms
proof (induction rule: deletes_shared.induct)
  case (one s s0 k i hash r cm s1 ks ret Ms ret' fs s')
  have 1: "served H W [(op_u8 Del, k)] s [moment_of H s0 s1] s1"
    by (rule served_step [OF one.hyps(1) one.prems]) (use del_step_serves [OF _ one.hyps(2,3)] one.hyps(4) in simp)
  then have "sound H W s1" by (simp add: served_def)
  from served_trans [OF 1 one.IH [OF this]] show ?case by simp
qed (simp add: served_refl)

lemma srv_ok_pending [simp]: "srv_ok H W rd (s\<lparr>sv_pending := x\<rparr>) = srv_ok H W rd s"
  by (simp add: srv_ok_def)

lemma del_shared_served:
  assumes "del_shared H W ks s Ms s'" and "sound H W s"
  shows "served H W (map (Pair (op_u8 Del)) ks) s Ms s'"
  using assms
proof (cases rule: del_shared.cases)
  case (run Ms1 ret fs s1 s2)
  have d: "served H W (map (Pair (op_u8 Del)) ks) s Ms1 s1" by (rule deletes_shared_served [OF run(2) assms(2)])
  then have "sound H W s1" by (simp add: served_def)
  then obtain rd where "srv_ok H W rd s2" using others_ok(1) [OF run(3)] by blast
  note c = count_deleted_ok [OF this, of ks fs]
  show ?thesis unfolding run(1) by (rule served_quiet [OF d run(3)]) (use c run(4) in auto)
qed

lemma each_shared_served:
  assumes "each_shared H W es s Ms s'" and "sound H W s" and "map set_body bs = map Inr es"
  shows "served H W (map (Pair (op_u8 Set)) bs) s Ms s'"
  using assms
proof (induction arbitrary: bs rule: each_shared.induct)
  case (one s s0 k v s1 es Ms s')
  obtain b bs' where bs: "bs = b # bs'" "set_body b = Inr (k, v)" "map set_body bs' = map Inr es"
    using one.prems(2) by (auto simp: Cons_eq_map_conv)
  have 1: "served H W [(op_u8 Set, b)] s [moment_of H s0 s1] s1"
    by (rule served_step [OF one.hyps(1) one.prems(1)]) (rule set_reply_serves [OF _ bs(2) one.hyps(2)])
  then have "sound H W s1" by (simp add: served_def)
  from served_trans [OF 1 one.IH [OF this bs(3)]] show ?case by (simp add: bs(1))
qed (simp add: served_refl)

lemma set_step_ok:
  assumes "srv_ok H W rd s" and "locate H (fst (sv_cache s)) k = (i, hash)" and "fits (fst (sv_cache s)) (k, v)"
    and "set_on W i hash k v (sv_cache s) = Some (r, cm)"
  shows "srv_ok H W rd (s\<lparr>sv_cache := cm\<rparr>)" and "sh_capacity (ca_shards (fst cm) ! 0) = sv_cap s"
    and "set_body b = Inr (k, v) \<Longrightarrow> item_effect (sv_cap s) (sv_view H s) (op_u8 Set, b) (view_of H cm) \<and>
      item_reply (sv_cap s) (sv_view H s) (op_u8 Set, b) = (status_u8 Ok, [])"
proof -
  obtain c m c' m' where cm: "sv_cache s = (c, m)" "cm = (c', m')" by fastforce
  obtain Ms where rep: "cache_rep H (held rd (sv_kept s)) c m Ms" and w: "world_ok W m"
    using assms(1) by (auto simp: srv_ok_def cache_inv_def cm)
  have fit: "check_fits (ca_shards c ! 0) k v = Inr ()" using assms(3) by (simp add: cm)
  note d = set_on_spec [OF rep w assms(2) [unfolded cm fst_conv] fit assms(4) [unfolded cm]]
  show "srv_ok H W rd (s\<lparr>sv_cache := cm\<rparr>)"
    by (rule srv_ok_cache [OF assms(1)]) (use d(1,8) world_ok_mags [OF w d(6)] in \<open>auto simp: cache_inv_def cm readers_see_def\<close>)
  show "sh_capacity (ca_shards (fst cm) ! 0) = sv_cap s" using d(5) by (simp add: cm)
  have "entry_cost k v \<le> sv_cap s" using fit by (simp add: check_fits_iff cm split: if_splits)
  then show "item_effect (sv_cap s) (sv_view H s) (op_u8 Set, b) (view_of H cm) \<and>
      item_reply (sv_cap s) (sv_view H s) (op_u8 Set, b) = (status_u8 Ok, [])" if "set_body b = Inr (k, v)"
    using set_effect(1) [OF that _ d(3,2)] by (simp add: cm)
qed

lemma stores_shared_ok:
  assumes "stores_shared H W es ret s Ms ret' s'" and "sound H W s" and "map set_body bs = map Inr es"
    and "list_all (fits (fst (sv_cache s))) es"
  shows "sound H W s' \<and> sv_cap s' = sv_cap s \<and> sv_out s' = sv_out s \<and>
    answered_at (sv_cap s) Ms (map (Pair (op_u8 Set)) bs) (map (\<lambda>_. (status_u8 Ok, [])) bs)"
  using assms
proof (induction arbitrary: bs rule: stores_shared.induct)
  case (one s s0 k i hash v r cm es ret Ms ret' s')
  obtain b bs' where bs: "bs = b # bs'" "set_body b = Inr (k, v)" "map set_body bs' = map Inr es"
    using one.prems(2) by (auto simp: Cons_eq_map_conv)
  note o = others_ok [OF one.hyps(1) one.prems(1)]
  from o(1) obtain rd where rd: "srv_ok H W rd s0" by blast
  have f: "list_all (fits (fst (sv_cache s0))) ((k, v) # es)" using one.prems(3) fits_cong [OF o(2)] by (simp add: list_all_iff)
  then have "fits (fst (sv_cache s0)) (k, v)" by simp
  note d = set_step_ok [OF rd one.hyps(2) this one.hyps(3)]
  let ?s1 = "s0\<lparr>sv_cache := cm\<rparr>"
  have "list_all (fits (fst (sv_cache ?s1))) es" using f fits_cong [of "fst cm" "fst (sv_cache s0)"] d(2) by (simp add: list_all_iff)
  with one.IH d(1) bs(3) have IH: "sound H W s'" "sv_cap s' = sv_cap ?s1" "sv_out s' = sv_out ?s1"
    "answered_at (sv_cap ?s1) Ms (map (Pair (op_u8 Set)) bs') (map (\<lambda>_. (status_u8 Ok, [])) bs')" by blast+
  have "answered_at (sv_cap s0) (moment_of H s0 ?s1 # Ms) (map (Pair (op_u8 Set)) bs) (map (\<lambda>_. (status_u8 Ok, [])) bs)"
    using answered_at.item [OF conjunct1 [OF d(3) [OF bs(2)]], of Ms] d(3) [OF bs(2)] IH(4) d(2) by (simp add: bs(1))
  then show ?case using IH(1-3) o(2,3) d(2) by simp
qed (auto intro: answered_at.intros)

lemma set_shared_served:
  assumes "set_shared H W es s Ms s'" and "sound H W s" and "map set_body bs = map Inr es"
  shows "served H W (map (Pair (op_u8 Set)) bs) s Ms s'"
  using assms(1)
proof (cases rule: set_shared.cases)
  case (all l ret s1)
  have "list_all (fits (fst (sv_cache s))) es" using all(2) by (simp only: locate_sets_Inr)
  note st = stores_shared_ok [OF all(3) assms(2,3) this]
  let ?s2 = "s1\<lparr>sv_pending := snd (collect ret (sv_pending s1))\<rparr>"
  obtain rd where rd: "srv_ok H W rd ?s2" using st by auto
  have "appends H W rd (concat (map (\<lambda>_. encode_frame (status_u8 Ok, [])) es)) ?s2 s'"
    unfolding all(1) by (rule fold_appends [OF rd]) (rule sv_status_appends)
  moreover have "length bs = length es" using arg_cong [OF assms(3), of length] by simp
  then have "map (\<lambda>_. encode_frame (status_u8 Ok, [])) es = map encode_frame (map (\<lambda>_. (status_u8 Ok, [])) bs)"
    by (simp add: map_replicate_const)
  ultimately show ?thesis using st unfolding served_def appends_def by auto
qed (rule each_shared_served [OF _ assms(2,3)])

section \<open>Batches and requests between other threads' accesses\<close>

lemma served_frame:
  assumes "sound H W s" and "item_effect (sv_cap s) (sv_view H s) x (sv_view H s)"
    and "item_reply (sv_cap s) (sv_view H s) x = (status_u8 st, msg)"
  shows "served H W [x] s [moment_of H s (sv_frame W st msg s)] (sv_frame W st msg s)"
  using assms(1) one_frame_serves [OF _ assms(2,3)] served_one by blast

lemma batch_shared_served:
  assumes "batch_shared H W items s Ms s'" and "sound H W s"
  shows "served H W items s Ms s'"
  using assms
proof (induction rule: batch_shared.induct)
  case (none s)
  then show ?case by (rule served_refl)
next
  case (get op b items s Ms s1 Ms' s')
  have 1: "served H W (map (Pair op) (b # run_bodies op items)) s Ms s1"
    using get_shared_served [OF get.hyps(2) get.prems] op_from_u8_Some [OF get.hyps(1)] by simp
  then have "sound H W s1" by (simp add: served_def)
  from served_trans [OF 1 get.IH [OF this]] show ?case using run_split [of op items] by simp
next
  case (del op b items s Ms s1 Ms' s')
  have 1: "served H W (map (Pair op) (b # run_bodies op items)) s Ms s1"
    using del_shared_served [OF del.hyps(2) del.prems] op_from_u8_Some [OF del.hyps(1)] by simp
  then have "sound H W s1" by (simp add: served_def)
  from served_trans [OF 1 del.IH [OF this]] show ?case using run_split [of op items] by simp
next
  case (set op b items entries rest s Ms s1 Ms' s')
  obtain bs where bs: "map set_body bs = map Inr entries" "(op, b) # items = map (Pair op) bs @ rest"
    using set_run_spec [OF set.hyps(2)] by auto
  have 1: "served H W (map (Pair op) bs) s Ms s1"
    using set_shared_served [OF set.hyps(3) set.prems bs(1)] op_from_u8_Some [OF set.hyps(1)] by simp
  then have "sound H W s1" by (simp add: served_def)
  from served_trans [OF 1 set.IH [OF this]] show ?case by (simp only: bs(2))
next
  case (set_bad op b items entries e rest s Ms s1 s2 Ms' s')
  obtain bs x where bs: "map set_body bs = map Inr entries" "set_body x = Inl e" "(op, b) # items = map (Pair op) bs @ (op, x) # rest"
    using set_run_spec [OF set_bad.hyps(2)] by auto
  have op: "op = op_u8 Set" using op_from_u8_Some [OF set_bad.hyps(1)] by simp
  have 1: "served H W (map (Pair op) bs) s Ms s1"
    using set_shared_served [OF set_bad.hyps(3) set_bad.prems bs(1)] op by simp
  then have s1: "sound H W s1" by (simp add: served_def)
  have 2: "served H W [(op, x)] s1 [moment_of H s1 s2] s2"
    unfolding set_bad.hyps(4) by (rule served_frame [OF s1]) (use set_effect(3) [OF bs(2)] op in simp_all)
  then have "sound H W s2" by (simp add: served_def)
  from served_trans [OF 1 served_trans [OF 2 set_bad.IH [OF this]]] show ?case by (simp add: bs(3))
next
  case (other op s1 s items Ms' s' b)
  have 1: "served H W [(op, b)] s [moment_of H s s1] s1"
    unfolding other.hyps(2) using other.hyps(1)
    by (intro served_frame [OF other.prems]) (auto simp: item_effect_def item_reply_def split: option.splits op.splits)
  then have "sound H W s1" by (simp add: served_def)
  from served_trans [OF 1 other.IH [OF this]] show ?case by simp
qed

text \<open>A request served between other threads' accesses: one frame appended, the answer to it.\<close>

definition replied_shared :: "(bytes \<Rightarrow> u64) \<Rightarrow> world \<Rightarrow> u8 \<Rightarrow> bytes \<Rightarrow> server \<Rightarrow> moment list \<Rightarrow> server \<Rightarrow> bool" where
  "replied_shared H W op body s Ms s' \<longleftrightarrow> sound H W s' \<and> sv_cap s' = sv_cap s \<and>
     (\<exists>r. request_answered (sv_cap s) Ms (op, body) r \<and> fw_bytes (sv_out s') = fw_bytes (sv_out s) @ encode_frame r)"

lemma request_answered_at:
  assumes "request_answer cap V op body V' r" and "quiet Ms2" and "op_from_u8 op = Some Batch \<Longrightarrow> \<exists>e. frames body = Inl e"
  shows "request_answered cap ((V, V') # Ms2) (op, body) r"
proof -
  have "\<exists>Ms1 W W' Ms'. (V, V') # Ms2 = Ms1 @ (W, W') # Ms' \<and> quiet (Ms1 @ Ms') \<and> request_answer cap W op body W' r"
    using assms(1,2) by (intro exI [of _ "[]"] exI [of _ V] exI [of _ V'] exI [of _ Ms2]) simp
  then show ?thesis using assms(3) by (auto simp: request_answered_def split: option.split op.split sum.split)
qed

lemma replied_sharedI:
  assumes "sv_cap s0 = sv_cap s" and "sv_out s0 = sv_out s" and "replied H W rd op body s0 s'"
    and "op_from_u8 op = Some Batch \<Longrightarrow> \<exists>e. frames body = Inl e"
  shows "replied_shared H W op body s [moment_of H s0 s'] s'"
proof -
  obtain r where r: "srv_ok H W rd s'" "sv_cap s' = sv_cap s0" "request_answer (sv_cap s0) (sv_view H s0) op body (sv_view H s') r"
      "fw_bytes (sv_out s') = fw_bytes (sv_out s0) @ encode_frame r" using assms(3) by (auto simp: replied_def)
  show ?thesis unfolding replied_shared_def
    using r assms(1,2) request_answered_at [OF r(3) _ assms(4), of "[]"] by (intro conjI exI [of _ r]) (auto simp: quiet_def)
qed

text \<open>A request that is one access, or none, is dispatched as before.\<close>

lemma dispatch_once:
  assumes "others H W B s s0 \<or> s0 = s" and "sound H W s" and "dispatch H W op body s0 = Some s'"
    and "op_from_u8 op = Some Batch \<Longrightarrow> \<exists>e. frames body = Inl e"
  shows "replied_shared H W op body s [moment_of H s0 s'] s'"
proof -
  obtain rd where rd: "srv_ok H W rd s0" and o: "sv_cap s0 = sv_cap s" "sv_out s0 = sv_out s"
    using assms(1,2) others_ok(1-3) by metis
  show ?thesis by (rule replied_sharedI [OF o dispatch_replied [OF rd assms(3)] assms(4)])
qed

lemma found_reply_appends:
  assumes "srv_ok H W rd s" and "set_option found \<subseteq> dom (sv_heap s)"
    and "V body = map_option (value_at (sv_heap s)) found"
  shows "\<exists>r. request_answer cap V (op_u8 Get) body V r \<and> appends H W rd (encode_frame r) s (found_reply W found s)"
proof (cases found)
  case None
  then show ?thesis using sv_status_appends [OF assms(1), of NotFound] assms(3)
    by (intro exI [of _ "(status_u8 NotFound, [])"]) (simp add: request_answer_def found_reply_def)
next
  case (Some e)
  let ?v = "value_at (sv_heap s) e"
  have "e \<in> dom (sv_heap s)" using assms(2) Some by simp
  note pv = put_value_appends [OF assms(1) this] and fr = sv_frame_appends [OF assms(1), of TooLarge "response_too_large_msg (length ?v)"]
  show ?thesis
  proof (cases "length ?v > MAX_RESPONSE")
    case True
    then show ?thesis using fr assms(3) Some
      by (intro exI [of _ "(status_u8 TooLarge, response_too_large_msg (length ?v))"]) (simp add: request_answer_def found_reply_def)
  next
    case False
    then show ?thesis using pv assms(3) Some
      by (intro exI [of _ "(status_u8 Ok, ?v)"]) (simp add: request_answer_def found_reply_def)
  qed
qed

lemma get_dispatch_shared:
  assumes "others H W {} s s0" and "sound H W s" and "get_in H body (sv_cache s0) = (found, cm)" and "s1 = s0\<lparr>sv_cache := cm\<rparr>"
    and "others H W (set_option found) s1 s2" and "s' = found_reply W found s2"
  shows "replied_shared H W (op_u8 Get) body s [moment_of H s0 s1, moment_of H s2 s'] s'"
proof -
  note o = others_ok [OF assms(1,2)]
  from o(1) obtain rd where rd: "srv_ok H W rd s0" by blast
  have inv: "cache_inv H (held rd (sv_kept s0)) W (sv_cache s0)" using rd by (simp add: srv_ok_def)
  note sp = get_in_spec [OF inv assms(3)]
  have s1: "sound H W s1" using srv_ok_cache [OF rd sp(1,3)] assms(4) by blast
  note o2 = others_ok [OF assms(5) s1]
  from o2(1) obtain rd2 where rd2: "srv_ok H W rd2 s2" by blast
  have v1: "sv_view H s1 = sv_view H s0" "sv_cap s1 = sv_cap s" "sv_out s1 = sv_out s"
    using sp(2) get_in_cap [OF assms(3)] o(2,3) assms(4) by simp_all
  have "sv_view H s0 body = map_option (value_at (sv_heap s2)) found"
    using sp(4) o2(6) assms(4) by (cases found) auto
  moreover have "set_option found \<subseteq> dom (sv_heap s2)" using o2(6) by blast
  ultimately obtain r where r: "request_answer (sv_cap s) (sv_view H s0) (op_u8 Get) body (sv_view H s0) r"
      "appends H W rd2 (encode_frame r) s2 s'"
    using found_reply_appends [OF rd2] assms(6) by blast
  have "quiet [moment_of H s2 s']" using r(2) by (simp add: quiet_def appends_def)
  from request_answered_at [OF r(1) this] r(2) v1 o2(2,3) show ?thesis
    unfolding replied_shared_def by (intro conjI exI [of _ r]) (auto simp: appends_def emits_def)
qed

lemma batch_open_ok:
  assumes "srv_ok H W rd s" and "batch_open f s = (m, s1)"
  shows "srv_ok H W rd s1" and "sv_cap s1 = sv_cap s"
    and "fw_open m (fw_bytes (sv_out s)) (status_u8 Ok) (to_le_bytes (of_nat (fr_left f))) (sv_out s1)"
proof -
  let ?n = "to_le_bytes (of_nat (fr_left f))"
  obtain w where b: "fw_begin (status_u8 Ok) (sv_out s) = (m, w)" and s1: "s1 = s\<lparr>sv_out := fw_put_slice ?n w\<rparr>"
    using assms(2) by (auto simp: batch_open_def Let_def split: prod.splits)
  have "fw_inv (sv_out s)" using assms(1) by (simp add: srv_ok_def)
  note op0 = fw.start_opened [OF this b]
  show "fw_open m (fw_bytes (sv_out s)) (status_u8 Ok) ?n (sv_out s1)" using fw.put_opened [OF op0, of ?n] by (simp add: s1)
  have "shared_of (fw_pieces w) = shared_of (fw_pieces (sv_out s))" using b by (auto simp: fw_begin_def Let_def)
  then show "srv_ok H W rd s1" "sv_cap s1 = sv_cap s" using assms(1) fw.opened_inv [OF op0] by (simp_all add: s1 srv_ok_def)
qed

lemma batch_items_open:
  assumes "sound H W s" and "frames body = Inr f" and "batch_open f s = (m, s1)" and "batch_shared H W (frames_items f) s1 Ms s2"
  obtains rs where "sound H W s2" "sv_cap s2 = sv_cap s" "answered_at (sv_cap s) Ms (frames_items f) rs"
    "fw_open m (fw_bytes (sv_out s)) (status_u8 Ok) (encode_batch rs) (sv_out s2)"
proof -
  obtain rd where "srv_ok H W rd s" using assms(1) by blast
  note o = batch_open_ok [OF this assms(3)]
  then have "sound H W s1" by blast
  from batch_shared_served [OF assms(4) this] o(2)
  obtain rs where rs: "sound H W s2" "sv_cap s2 = sv_cap s" "answered_at (sv_cap s) Ms (frames_items f) rs"
      "emits (concat (map encode_frame rs)) (sv_out s1) (sv_out s2)" by (auto simp: served_def)
  obtain xs where xs: "frames_wf f xs" using assms(2) frames_Inr_iff by blast
  then have "fr_left f = length (frames_items f)" by (simp add: frames_items_wf [OF xs]) (simp add: frames_wf_def)
  then have "fw_open m (fw_bytes (sv_out s)) (status_u8 Ok) (encode_batch rs) (sv_out s2)"
    using rs(4) o(3) answered_length [OF rs(3)] by (simp add: emits_def encode_batch_def)
  with rs that show thesis by blast
qed

lemma dispatch_shared_replied:
  assumes "dispatch_shared H W op body s Ms s'" and "sound H W s"
  shows "replied_shared H W op body s Ms s'"
  using assms(1)
proof (cases rule: dispatch_shared.cases)
  case (get s0 found cm s1 s2)
  have "op = op_u8 Get" using op_from_u8_Some [OF get(2)] by simp
  then show ?thesis unfolding get(1) using get_dispatch_shared [OF get(3) assms(2) get(4-7)] by simp
next
  case (set k v s0)
  then show ?thesis unfolding set(1) by (intro dispatch_once [OF disjI1 [OF set(4)] assms(2)]) (simp_all add: dispatch_def)
next
  case (del s0)
  then show ?thesis unfolding del(1) by (intro dispatch_once [OF disjI1 [OF del(3)] assms(2)]) (simp_all add: dispatch_def)
next
  case (batch items mark s1 s2 out)
  obtain rs where rs: "sound H W s2" "sv_cap s2 = sv_cap s" "answered_at (sv_cap s) Ms (frames_items items) rs"
      "fw_open mark (fw_bytes (sv_out s)) (status_u8 Ok) (encode_batch rs) (sv_out s2)"
    by (rule batch_items_open [OF assms(2) batch(3-5)])
  from rs(1) obtain rd where "srv_ok H W rd s2" by blast
  with sv_end_ok [OF this rs(4)] batch(7) have e: "srv_ok H W rd s'" "fw_bytes (sv_out s') = fw_bytes (sv_out s) @ encode_frame (status_u8 Ok, encode_batch rs)"
    by (auto simp: batch(1))
  have "batch_result rs = (status_u8 Ok, encode_batch rs)" using batch(6) fw.written_opened [OF rs(4)] by (simp add: batch_result_def Let_def)
  then have "request_answered (sv_cap s) Ms (op, body) (status_u8 Ok, encode_batch rs)"
    unfolding request_answered_def using batch(2,3) rs(3) by auto
  then show ?thesis unfolding replied_shared_def using e rs(2)
    by (intro conjI exI [of _ "(status_u8 Ok, encode_batch rs)"]) (auto simp: batch(1))
next
  case (batch_large items mark s1 Ms2 s2 n s3 s4)
  obtain rs where rs: "sound H W s2" "sv_cap s2 = sv_cap s" "answered_at (sv_cap s) Ms2 (frames_items items) rs"
      "fw_open mark (fw_bytes (sv_out s)) (status_u8 Ok) (encode_batch rs) (sv_out s2)"
    by (rule batch_items_open [OF assms(2) batch_large(4-6)])
  note o = others_ok [OF batch_large(9) rs(1)]
  from o(1) obtain rd where "srv_ok H W rd s3" by blast
  from sv_abort_ok [OF this, of mark "fw_bytes (sv_out s)"] rs(4) o(3) batch_large(10)
  have a: "srv_ok H W rd s4" "fw_bytes (sv_out s4) = fw_bytes (sv_out s)" "sv_view H s4 = sv_view H s3" "sv_cap s4 = sv_cap s3" by auto
  let ?r = "(status_u8 TooLarge, response_too_large_msg n)"
  have "batch_result rs = ?r" using batch_large(7,8) fw.written_opened [OF rs(4)] by (simp add: batch_result_def Let_def)
  moreover have "answered_at (sv_cap s) (Ms2 @ [moment_of H s3 s4]) (frames_items items @ []) (rs @ [])"
    by (rule answered_append [OF rs(3) answered_quiet]) (simp add: quiet_def a(3))
  ultimately have "request_answered (sv_cap s) Ms (op, body) ?r"
    unfolding request_answered_def using batch_large(1,3,4) by auto
  then show ?thesis unfolding replied_shared_def
    using sv_frame_appends [OF a(1), of TooLarge "response_too_large_msg n"] a(2,4) rs(2) o(2)
    by (intro conjI exI [of _ ?r]) (auto simp: batch_large(2) appends_def emits_def)
qed (auto intro!: dispatch_once [of H W "{}" s s, OF _ assms(2)] simp: dispatch_def Dispatch.batch_def)

end
