(* ===== verification/Shared_Connection.thy ===== *)
theory Shared_Connection
  imports Shared_Serving
begin

text \<open>
  A connection among others: \<open>serve_connection\<close> of \<^verbatim>\<open>tcp.rs\<close> as in \<open>Connection\<close>, with other threads using the
  cache all the while. A burst serves its requests by the relations of \<open>Shared_Serving\<close>; the flush
  and the waits are those of \<open>finish_turn\<close>. Every run of \<open>session\<close>, where a burst has the cache to
  itself, is a run of \<open>shared_session\<close> in which the others do nothing (\<open>session_alone\<close>).
\<close>

section \<open>Serving what is buffered\<close>

text \<open>The moments of each request after AUTH, in order.\<close>

inductive burst_shared ::
  "(bytes \<Rightarrow> u64) \<Rightarrow> world \<Rightarrow> bytes \<Rightarrow> bool \<Rightarrow> frame_reader \<Rightarrow> server \<Rightarrow> moment list list \<Rightarrow>
     bool \<times> bool \<times> frame_reader \<times> server \<Rightarrow> bool" for H W token where
  serve: "next_buffered r = (Inr (Some (op, body)), r1) \<Longrightarrow> dispatch_shared H W op body s Ms s1 \<Longrightarrow>
    burst_shared H W token True r1 s1 Mss res \<Longrightarrow> burst_shared H W token True r s (Ms # Mss) res"
| auth: "next_buffered r = (Inr (Some (op, body)), r1) \<Longrightarrow> op = op_u8 Auth \<Longrightarrow> ct_eq token body \<Longrightarrow>
    burst_shared H W token True (set_max_frame MAX_FRAME r1) (sv_header Ok 0 s) Mss res \<Longrightarrow>
    burst_shared H W token False r s Mss res"
| refuse: "next_buffered r = (Inr (Some (op, body)), r1) \<Longrightarrow> \<not> (op = op_u8 Auth \<and> ct_eq token body) \<Longrightarrow>
    burst_shared H W token False r s []
      (True, False, r1, sv_frame W Unauthorized (str ''auth required'') (s\<lparr>sv_metrics := count_auth_failure (sv_metrics s)\<rparr>))"
| wait: "next_buffered r = (Inr None, r1) \<Longrightarrow> burst_shared H W token authed r s [] (False, authed, r1, s)"
| large: "next_buffered r = (Inl e, r1) \<Longrightarrow>
    burst_shared H W token authed r s [] (True, authed, r1, sv_frame W TooLarge (frame_too_large_msg e) s)"

section \<open>Bursts between other threads' accesses\<close>

definition all_answered :: "nat \<Rightarrow> moment list list \<Rightarrow> (u8 \<times> bytes) list \<Rightarrow> (u8 \<times> bytes) list \<Rightarrow> bool" where
  "all_answered cap Mss qs rs \<longleftrightarrow> length Mss = length qs \<and> length rs = length qs \<and>
     (\<forall>i < length qs. request_answered cap (Mss ! i) (qs ! i) (rs ! i))"

lemma all_answered_simps [simp]:
  "all_answered cap [] [] []"
  "all_answered cap (Ms # Mss) (q # qs) (r # rs) \<longleftrightarrow> request_answered cap Ms q r \<and> all_answered cap Mss qs rs"
  by (auto simp: all_answered_def nth_Cons split: nat.splits)

lemma all_answered_append:
  "all_answered cap Mss qs rs \<Longrightarrow> all_answered cap Mss' qs' rs' \<Longrightarrow> all_answered cap (Mss @ Mss') (qs @ qs') (rs @ rs')"
  by (auto simp: all_answered_def nth_append)

lemma next_buffered_took:
  assumes "next_buffered r = (Inr (Some f), r1)"
  shows "frame_ok f" and "rd_view r = encode_frame f @ rd_view r1" and "rd_max_frame r1 = rd_max_frame r"
proof -
  from assms have "frame_ok f \<and> rd_view r = encode_frame f @ rd_view r1"
    by (cases rule: next_buffered_cases [of r]) (auto simp: wire.step_iff)
  then show "frame_ok f" "rd_view r = encode_frame f @ rd_view r1" by blast+
  show "rd_max_frame r1 = rd_max_frame r" using next_buffered_max [of r] assms by simp
qed

lemma next_buffered_kept:
  assumes "next_buffered r = (Inr None, r1) \<or> next_buffered r = (Inl e, r1)"
  shows "rd_view r1 = rd_view r" and "rd_max_frame r1 = rd_max_frame r"
proof -
  show "rd_view r1 = rd_view r" by (cases rule: next_buffered_cases [of r]) (use assms in auto)
  show "rd_max_frame r1 = rd_max_frame r" using next_buffered_max [of r] assms by (elim disjE) simp_all
qed

lemma burst_shared_authed:
  assumes "burst_shared H W token authed r s Mss res" and "authed" and "sound H W s"
  shows "case res of (close, a, r', s') \<Rightarrow> a \<and> sound H W s' \<and> sv_cap s' = sv_cap s \<and> rd_max_frame r' = rd_max_frame r \<and>
    (\<exists>qs rs fin. rd_view r = concat (map encode_frame qs) @ rd_view r' \<and> all_answered (sv_cap s) Mss qs rs \<and>
       fw_bytes (sv_out s') = fw_bytes (sv_out s) @ concat (map encode_frame rs) @ fin \<and> (close \<or> fin = []))"
  using assms
proof (induction rule: burst_shared.induct)
  case (serve r op body r1 s Ms s1 Mss res)
  obtain close a r' s' where res: "res = (close, a, r', s')" by (rule prod_cases4)
  note n = next_buffered_took [OF serve.hyps(1)]
  obtain q where q: "sound H W s1" "sv_cap s1 = sv_cap s" "request_answered (sv_cap s) Ms (op, body) q"
      "fw_bytes (sv_out s1) = fw_bytes (sv_out s) @ encode_frame q"
    using dispatch_shared_replied [OF serve.hyps(2) serve.prems(2)] unfolding replied_shared_def by blast
  obtain qs rs fin where IH: "a" "sound H W s'" "sv_cap s' = sv_cap s1" "rd_max_frame r' = rd_max_frame r1"
      "rd_view r1 = concat (map encode_frame qs) @ rd_view r'" "all_answered (sv_cap s1) Mss qs rs"
      "fw_bytes (sv_out s') = fw_bytes (sv_out s1) @ concat (map encode_frame rs) @ fin" "close \<or> fin = []"
    using serve.IH [OF _ q(1)] unfolding res by auto
  show ?case unfolding res prod.case using IH q n
    by (intro conjI exI [of _ "(op, body) # qs"] exI [of _ "q # rs"] exI [of _ fin]) auto
next
  case (wait r r1 authed s)
  then show ?case using next_buffered_kept [of r r1]
    by (auto intro!: exI [of _ "[]"])
next
  case (large r e r1 authed s)
  obtain rd where "srv_ok H W rd s" using large.prems(2) by blast
  note f = sv_frame_appends [OF this, of TooLarge "frame_too_large_msg e"]
  then show ?case using next_buffered_kept [of r r1 e] large unfolding prod.case
    by (intro conjI exI [of _ "[]"] exI [of _ "encode_frame (status_u8 TooLarge, frame_too_large_msg e)"])
      (auto simp: appends_def emits_def)
qed auto

lemma burst_shared_unauthed:
  assumes "burst_shared H W token authed r s Mss res" and "\<not> authed" and "sound H W s"
  shows "case res of (close, a, r', s') \<Rightarrow> close \<or> sound H W s' \<and> sv_cap s' = sv_cap s \<and>
    (if a then rd_max_frame r' = MAX_FRAME \<and> (\<exists>qs rs. rd_view r = encode_frame (op_u8 Auth, token) @ concat (map encode_frame qs) @ rd_view r' \<and>
       all_answered (sv_cap s) Mss qs rs \<and> fw_bytes (sv_out s') = fw_bytes (sv_out s) @ encode_frame (status_u8 Ok, []) @ concat (map encode_frame rs))
     else Mss = [] \<and> rd_view r' = rd_view r \<and> rd_max_frame r' = rd_max_frame r \<and> fw_bytes (sv_out s') = fw_bytes (sv_out s))"
  using assms(1)
proof (cases rule: burst_shared.cases)
  case (auth op body r1)
  obtain close a r' s' where res: "res = (close, a, r', s')" by (rule prod_cases4)
  note n = next_buffered_took [OF auth(2)]
  obtain rd where "srv_ok H W rd s" using assms(3) by blast
  then have h: "srv_ok H W rd (sv_header Ok 0 s)" "sv_cap (sv_header Ok 0 s) = sv_cap s"
      "fw_bytes (sv_out (sv_header Ok 0 s)) = fw_bytes (sv_out s) @ encode_frame (status_u8 Ok, [])"
    using sv_status_appends [of H W rd s Ok] by (auto simp: appends_def emits_def)
  from burst_shared_authed [OF auth(5) TrueI] h(1) have b: "a" "sound H W s'" "sv_cap s' = sv_cap s" "rd_max_frame r' = MAX_FRAME"
      "\<exists>qs rs fin. rd_view r1 = concat (map encode_frame qs) @ rd_view r' \<and> all_answered (sv_cap s) Mss qs rs \<and>
        fw_bytes (sv_out s') = fw_bytes (sv_out (sv_header Ok 0 s)) @ concat (map encode_frame rs) @ fin \<and> (close \<or> fin = [])"
    unfolding res h(2) by auto
  then obtain qs rs fin where q: "rd_view r1 = concat (map encode_frame qs) @ rd_view r'" "all_answered (sv_cap s) Mss qs rs"
      "fw_bytes (sv_out s') = fw_bytes (sv_out (sv_header Ok 0 s)) @ concat (map encode_frame rs) @ fin" "close \<or> fin = []" by blast
  have "body = token" using auth(4) by (simp add: ct_eq_iff)
  then have "rd_view r = encode_frame (op_u8 Auth, token) @ rd_view r1" using n(2) auth(3) by simp
  then have "close \<or> rd_view r = encode_frame (op_u8 Auth, token) @ concat (map encode_frame qs) @ rd_view r' \<and>
      fw_bytes (sv_out s') = fw_bytes (sv_out s) @ encode_frame (status_u8 Ok, []) @ concat (map encode_frame rs)"
    using q h(3) by auto
  then show ?thesis using b(1-4) q(2) unfolding res by (auto simp del: op_u8.simps status_u8.simps)
next
  case (wait r1)
  then show ?thesis using next_buffered_kept [of r r1] assms by auto
qed (use assms in auto)

section \<open>A connection over its life, among others\<close>

text \<open>
  The turns of a connection that is still served, as in \<open>session\<close>, with other threads at work
  throughout: during a burst, before the flush (which reads only what the connection itself keeps
  alive) and while it waits. \<open>mss\<close> collects the moments of each request served.
\<close>

inductive shared_session ::
  "(bytes \<Rightarrow> u64) \<Rightarrow> world \<Rightarrow> bytes \<Rightarrow> nat option \<Rightarrow> nat \<Rightarrow> 'k connection \<Rightarrow>
     ('e, 'k) turn list \<Rightarrow> bytes \<Rightarrow> bytes \<Rightarrow> moment list list \<Rightarrow> 'k connection \<Rightarrow> bool" for H W token idle ad c0 where
  start: "shared_session H W token idle ad c0 [] [] [] [] c0"
| turn: "shared_session H W token idle ad c0 tns got sent mss c \<Longrightarrow>
    burst_shared H W token (cn_authed c) (cn_reader c) (cn_server c) Mss (close, authed, r, s) \<Longrightarrow> others H W {} s s1 \<Longrightarrow>
    finish_turn W idle ad tn (cn_sock c) close authed r s1 = Some (b, Serving t' c') \<Longrightarrow> tn_read tn = At t'' (Inr data) \<Longrightarrow>
    write_contract (tn_write tn) \<Longrightarrow> cache_inv H rd W (tn_cache tn) \<Longrightarrow>
    sh_capacity (ca_shards (fst (tn_cache tn)) ! 0) = sv_cap (cn_server c0) \<Longrightarrow>
    shared_session H W token idle ad c0 (tns @ [tn]) (got @ data) (sent @ b) (mss @ Mss) c'"

definition shared_conn_ok ::
  "(bytes \<Rightarrow> u64) \<Rightarrow> world \<Rightarrow> nat \<Rightarrow> bytes \<Rightarrow> bytes \<Rightarrow> bytes \<Rightarrow> moment list list \<Rightarrow> 'k connection \<Rightarrow> bool" where
  "shared_conn_ok H W cap token got sent mss c \<longleftrightarrow>
     sound H W (cn_server c) \<and> sv_cap (cn_server c) = cap \<and> fw_bytes (sv_out (cn_server c)) = [] \<and>
     (\<exists>reqs reps. got = concat (map encode_frame reqs) @ rd_view (cn_reader c) \<and> sent = concat (map encode_frame reps) \<and>
        (if cn_authed c
         then \<exists>qs rs. reqs = (op_u8 Auth, token) # qs \<and> reps = (status_u8 Ok, []) # rs \<and> all_answered cap mss qs rs
         else reqs = [] \<and> reps = [] \<and> mss = []))"

text \<open>What a burst that does not close adds to the history.\<close>

lemma burst_shared_history:
  assumes "shared_conn_ok H W cap token got sent mss c"
    and "burst_shared H W token (cn_authed c) (cn_reader c) (cn_server c) Mss (False, a, r, s)"
  shows "sound H W s \<and> sv_cap s = cap \<and>
    (\<exists>reqs reps. got = concat (map encode_frame reqs) @ rd_view r \<and> sent @ fw_bytes (sv_out s) = concat (map encode_frame reps) \<and>
       (if a then \<exists>qs rs. reqs = (op_u8 Auth, token) # qs \<and> reps = (status_u8 Ok, []) # rs \<and> all_answered cap (mss @ Mss) qs rs
        else reqs = [] \<and> reps = [] \<and> mss @ Mss = []))"
proof (cases "cn_authed c")
  case True
  have ok: "sound H W (cn_server c)" "sv_cap (cn_server c) = cap" "fw_bytes (sv_out (cn_server c)) = []"
    using assms(1) by (simp_all add: shared_conn_ok_def)
  from assms(1) True obtain qs rs where h: "got = encode_frame (op_u8 Auth, token) @ concat (map encode_frame qs) @ rd_view (cn_reader c)"
      "sent = encode_frame (status_u8 Ok, []) @ concat (map encode_frame rs)" "all_answered cap mss qs rs"
    unfolding shared_conn_ok_def by force
  from burst_shared_authed [OF assms(2) True ok(1)] ok(2,3)
  obtain qs' rs' where b: "a" "sound H W s" "sv_cap s = cap" "rd_view (cn_reader c) = concat (map encode_frame qs') @ rd_view r"
      "all_answered cap Mss qs' rs'" "fw_bytes (sv_out s) = concat (map encode_frame rs')" by auto
  show ?thesis using b h all_answered_append [OF h(3) b(5)]
    by (intro conjI exI [of _ "(op_u8 Auth, token) # qs @ qs'"] exI [of _ "(status_u8 Ok, []) # rs @ rs'"])
      (simp_all del: op_u8.simps status_u8.simps)
next
  case False
  have ok: "sound H W (cn_server c)" "sv_cap (cn_server c) = cap" "fw_bytes (sv_out (cn_server c)) = []"
      "got = rd_view (cn_reader c)" "sent = []" "mss = []"
    using assms(1) False by (auto simp: shared_conn_ok_def)
  note b = burst_shared_unauthed [OF assms(2) False ok(1), simplified ok(2,3), simplified]
  show ?thesis
  proof (cases a)
    case True
    with b obtain qs rs where "rd_view (cn_reader c) = encode_frame (op_u8 Auth, token) @ concat (map encode_frame qs) @ rd_view r"
        "all_answered cap Mss qs rs" "fw_bytes (sv_out s) = encode_frame (status_u8 Ok, []) @ concat (map encode_frame rs)" by auto
    then show ?thesis using b True ok(4-6)
      by (intro conjI exI [of _ "(op_u8 Auth, token) # qs"] exI [of _ "(status_u8 Ok, []) # rs"])
        (simp_all del: op_u8.simps status_u8.simps)
  next
    case False
    then show ?thesis using b ok(4-6) by auto
  qed
qed

lemma shared_session_ok:
  assumes "shared_session H W token idle ad (conn_new s0 sock) tns got sent mss c"
    and "sound H W s0" and "fw_bytes (sv_out s0) = []"
  shows "shared_conn_ok H W (sv_cap s0) token got sent mss c"
  using assms(1)
proof (induction rule: shared_session.induct)
  case start
  show ?case using assms(2,3) by (simp add: shared_conn_ok_def conn_new_def)
next
  case (turn tns got sent mss c Mss close authed r s s1 tn b t' c' t'' data rd)
  from turn.hyps(4) obtain sock' s2 data' where f: "\<not> close"
      "sv_flush W (tn_write tn) (cn_sock c) s1 = (Some (Inr ()), b, sock', s2)" "tn_read tn = At t' (Inr data')"
      "cn_authed c' = authed" "rd_view (cn_reader c') = rd_view r @ data'" "cn_server c' = s2\<lparr>sv_cache := tn_cache tn\<rparr>"
    by (rule finish_turn_serving) blast
  have d: "data' = data" using f(3) turn.hyps(5) by simp
  have "burst_shared H W token (cn_authed c) (cn_reader c) (cn_server c) Mss (False, authed, r, s)"
    using turn.hyps(2) f(1) by simp
  note h = burst_shared_history [OF turn.IH this]
  then have s: "sound H W s" by blast
  note o = others_ok [OF turn.hyps(3) s]
  from o(1) obtain rd1 where "srv_ok H W rd1 s1" by blast
  from sv_flush_ok [OF this turn.hyps(6), of "cn_sock c"] f(2) o(3)
  have s2: "b = fw_bytes (sv_out s)" "srv_ok H W rd1 s2" "sv_kept s2 = []" "fw_bytes (sv_out s2) = []" by auto
  have "held rd [] = rd" by (simp add: held_def fun_eq_iff)
  then have "srv_ok H W rd (s2\<lparr>sv_cache := tn_cache tn\<rparr>)" using s2(2,3) turn.hyps(7) by (simp add: srv_ok_def)
  then show ?case unfolding shared_conn_ok_def f(4-6)
    using h s2(1,4) turn.hyps(8) by (auto simp: d conn_new_def simp del: op_u8.simps status_u8.simps)
qed

section \<open>Alone, a connection runs as before\<close>

text \<open>
  With other threads doing nothing, the relations give what \<open>dispatch\<close>, \<open>burst\<close> and \<open>serve_turn\<close>
  compute: every session of \<open>session\<close> is one of \<open>shared_session\<close>.
\<close>

lemma lookups_alone:
  assumes "srv_ok H W rd s" and "sv_cache s = (c, m)" and "B \<subseteq> dom (m_heap m)"
    and "find_all (ca_shards c) (map (located H c) ks) m = (hits, found, m')"
  shows "\<exists>Ms. lookups H W B ks s Ms found (s\<lparr>sv_cache := (c, m')\<rparr>)"
  using assms
proof (induction ks arbitrary: s m B hits found)
  case Nil
  then have e: "found = []" "m' = m" by simp_all
  show ?case unfolding e Nil.prems(2) [symmetric] by (intro exI [of _ "[]"]) (simp add: lookups.none)
next
  case (Cons k ks)
  obtain i hash where l: "locate H c k = (i, hash)" by fastforce
  define e where "e = shard_get (ca_shards c ! i) m hash k"
  define m1 where "m1 = (case e of Some p \<Rightarrow> touch p m | None \<Rightarrow> m)"
  obtain h2 f2 m2 where r: "find_all (ca_shards c) (map (located H c) ks) m1 = (h2, f2, m2)" by (rule prod_cases3)
  have eq: "found = e # f2" "m' = m2" using Cons.prems(4) l r by (simp_all add: e_def m1_def Let_def)
  let ?s1 = "s\<lparr>sv_cache := (c, m1)\<rparr>"
  have lk: "lookup H k s = (e, ?s1)" by (simp add: lookup_def Cons.prems(2) l e_def m1_def Let_def)
  note o = lookup_ok [OF Cons.prems(1) lk]
  have "set_option e \<subseteq> dom (m_heap m1)" using o(7) by (cases e) simp_all
  moreover have "B \<subseteq> dom (m_heap m1)" using o(8) Cons.prems(2,3) by auto
  ultimately have "B \<union> set_option e \<subseteq> dom (m_heap m1)" by blast
  from Cons.IH [OF o(1) _ this, of h2 f2] r eq(2)
  obtain Ms where l: "lookups H W (B \<union> set_option e) ks ?s1 Ms f2 (s\<lparr>sv_cache := (c, m')\<rparr>)" by auto
  have "others H W B s s" using Cons.prems(2,3) by (intro others_refl [OF Cons.prems(1)]) simp
  from lookups.key [OF this lk l] show ?case unfolding eq(1) by blast
qed

lemma puts_alone:
  assumes "srv_ok H W rd s" and "B \<subseteq> dom (sv_heap s)" and "{p. Some p \<in> set es} \<subseteq> B"
  shows "\<exists>Ms. puts H W B es s Ms (fold (put_found W) es s)"
  using assms
proof (induction es arbitrary: s)
  case (Cons e es)
  have "set_option e \<subseteq> dom (sv_heap s)" using Cons.prems(2,3) by (cases e) auto
  note a = put_found_appends [OF Cons.prems(1) this, unfolded appends_def]
  have "B \<subseteq> dom (sv_heap (put_found W e s))" using a Cons.prems(2) by blast
  with Cons.IH [of "put_found W e s"] a Cons.prems(3)
  obtain Ms where "puts H W B es (put_found W e s) Ms (fold (put_found W) es (put_found W e s))" by auto
  from puts.one [OF others_refl [OF Cons.prems(1,2)] this] show ?case by auto
qed (auto intro: puts.none)

lemma get_alone:
  assumes "srv_ok H W rd s"
  shows "\<exists>Ms. get_shared H W ks s Ms (get_run H W ks s)"
proof -
  obtain c m where cm: "sv_cache s = (c, m)" by fastforce
  obtain hits found m1 where fa: "find_all (ca_shards c) (map (located H c) ks) m = (hits, found, m1)" by (rule prod_cases3)
  let ?s1 = "s\<lparr>sv_cache := (c, m1)\<rparr>" and ?B = "{p. Some p \<in> set found}"
  obtain Ms where l: "lookups H W {} ks s Ms found ?s1" using lookups_alone [OF assms cm _ fa] by blast
  then have s1: "sound H W ?s1" "?B \<subseteq> dom (sv_heap ?s1)" using lookups_ok [OF l] assms by auto
  then obtain rd1 where rd1: "srv_ok H W rd1 ?s1" by blast
  note c = count_found_ok [OF rd1, of ks found]
  obtain Ms' where p: "puts H W ?B found (count_found H ks found ?s1) Ms' (fold (put_found W) found (count_found H ks found ?s1))"
    using puts_alone [OF c(1), of ?B found] s1(2) c(5) by auto
  obtain Ms0 where rep: "cache_rep H (held rd (sv_kept s)) c m Ms0" using assms by (auto simp: srv_ok_def cache_inv_def cm)
  have h: "hits = length (filter (\<lambda>e. e \<noteq> None) found)" using find_all_spec [OF rep fa] by blast
  have "count_found H ks found ?s1 = s\<lparr>sv_cache := snd (get_many H ks (sv_cache s))\<rparr>" "fst (get_many H ks (sv_cache s)) = found"
    unfolding cm get_many_def count_found_def prod.case Let_def fa [unfolded Let_def]
    by (cases ks; simp add: h case_prod_unfold)+
  then have "get_run H W ks s = fold (put_found W) found (count_found H ks found ?s1)"
    by (simp add: get_run_def put_found_def [abs_def] case_prod_unfold)
  with get_shared.run [OF l refl others_refl [OF rd1 s1(2)] p] show ?thesis by auto
qed

lemma stores_alone:
  assumes "srv_ok H W rd s" and "sv_cache s = (c, m)" and "list_all (fits c) es"
    and "set_all W (map (located_set H c) es) ret (c, m) = Some (ret', cm')"
  shows "\<exists>Ms. stores_shared H W es ret s Ms ret' (s\<lparr>sv_cache := cm'\<rparr>)"
  using assms
proof (induction es arbitrary: s c m ret)
  case Nil
  then show ?case by (intro exI [of _ "[]"]) (auto intro: stores_shared.none)
next
  case (Cons e es)
  obtain k v where e: "e = (k, v)" by fastforce
  obtain i hash where l: "locate H c k = (i, hash)" by fastforce
  obtain r c1 m1 where s1: "set_on W i hash k v (c, m) = Some (r, c1, m1)"
    and rest: "set_all W (map (located_set H c) es) (retired_add ret r) (c1, m1) = Some (ret', cm')"
    using Cons.prems(4) l by (auto simp: e split: option.splits)
  have so: "locate H (fst (sv_cache s)) k = (i, hash)" "set_on W i hash k v (sv_cache s) = Some (r, c1, m1)" "fits (fst (sv_cache s)) (k, v)"
    using l s1 Cons.prems(2,3) by (simp_all add: e)
  note o = set_step_ok [OF Cons.prems(1) so(1,3,2)]
  have cap: "sh_capacity (ca_shards c1 ! 0) = sh_capacity (ca_shards c ! 0)" using o(2) Cons.prems(2) by simp
  obtain Ms0 where rep: "cache_rep H (held rd (sv_kept s)) c m Ms0" and w: "world_ok W m"
    using Cons.prems(1,2) by (auto simp: srv_ok_def cache_inv_def)
  have loc: "locate H c1 = locate H c" using set_on_spec(4) [OF rep w l _ s1] so(3) Cons.prems(2) by (simp add: fun_eq_iff)
  have "list_all (fits c1) es" using Cons.prems(3) fits_cong [OF cap] by (simp add: list_all_iff)
  from Cons.IH [OF o(1) _ this, of m1 "retired_add ret r"] rest loc
  obtain Ms where "stores_shared H W es (retired_add ret r) (s\<lparr>sv_cache := (c1, m1)\<rparr>) Ms ret' (s\<lparr>sv_cache := cm'\<rparr>)" by auto
  from stores_shared.one [OF others_refl [OF Cons.prems(1) empty_subsetI] so(1,2) this] show ?case by (auto simp: e)
qed

lemma each_alone:
  "srv_ok H W rd s \<Longrightarrow> map set_body bs = map Inr es \<Longrightarrow> set_each H W es s = Some s' \<Longrightarrow> \<exists>Ms. each_shared H W es s Ms s'"
proof (induction es arbitrary: s bs)
  case Nil
  then show ?case by (auto intro: each_shared.none)
next
  case (Cons e es)
  obtain k v where e: "e = (k, v)" by fastforce
  obtain b bs' where bs: "set_body b = Inr (k, v)" "map set_body bs' = map Inr es"
    using Cons.prems(2) by (auto simp: e Cons_eq_map_conv)
  obtain s1 where s1: "set_reply H W k v s = Some s1" "set_each H W es s1 = Some s'"
    using Cons.prems(3) by (auto simp: e split: option.splits)
  have "srv_ok H W rd s1" using set_reply_serves [OF Cons.prems(1) bs(1) s1(1)] by (simp add: serves_def)
  from Cons.IH [OF this bs(2) s1(2)] obtain Ms where "each_shared H W es s1 Ms s'" by blast
  from each_shared.one [OF others_refl [OF Cons.prems(1) empty_subsetI] s1(1) this] show ?case by (auto simp: e)
qed

lemma set_alone:
  assumes "srv_ok H W rd s" and "map set_body bs = map Inr es" and "set_entries H W es s = Some s'"
  shows "\<exists>Ms. set_shared H W es s Ms s'"
proof (cases "locate_sets H (fst (sv_cache s)) es")
  case (Inl x)
  then have "set_each H W es s = Some s'" using assms(3) by (simp add: set_entries_def set_many_def)
  from each_alone [OF assms(1,2) this] set_shared.each [OF Inl] show ?thesis by blast
next
  case (Inr l)
  then have l: "list_all (fits (fst (sv_cache s))) es" "l = map (located_set H (fst (sv_cache s))) es" by (simp_all only: locate_sets_Inr)
  obtain ret cm where sa: "set_all W l retired_zero (sv_cache s) = Some (ret, cm)"
    and s': "s' = fold (\<lambda>_. sv_header Ok 0) es (s\<lparr>sv_cache := cm, sv_pending := snd (collect ret (sv_pending s))\<rparr>)"
    using assms(3) Inr by (auto simp: set_entries_def set_many_def Let_def split: option.splits prod.splits)
  obtain Ms where "stores_shared H W es retired_zero s Ms ret (s\<lparr>sv_cache := cm\<rparr>)"
    using stores_alone [OF assms(1) prod.collapse [symmetric] l(1), of retired_zero ret cm] sa l(2) by auto
  from set_shared.all [OF Inr this] show ?thesis by (auto simp: s')
qed

lemma fold_header:
  "fold (\<lambda>f. sv_header (g f) 0) fs s = s\<lparr>sv_out := fold (\<lambda>f. fw_header (status_u8 (g f)) 0) fs (sv_out s)\<rparr>"
  by (induction fs arbitrary: s) (simp_all add: sv_header_def)

lemma deletes_alone:
  assumes "srv_ok H W rd s" and "sv_cache s = (c, m)" and "del_all W (map (located H c) ks) ret (c, m) = (ret', fs, cm')"
  shows "\<exists>Ms. deletes_shared H W ks ret s Ms ret' fs (fold (\<lambda>f. sv_header (found_status f) 0) fs (s\<lparr>sv_cache := cm'\<rparr>))"
  using assms
proof (induction ks arbitrary: s c m ret fs)
  case Nil
  then show ?case by (intro exI [of _ "[]"]) (auto intro: deletes_shared.none)
next
  case (Cons k ks)
  obtain i hash where l: "locate H c k = (i, hash)" by fastforce
  obtain r c1 m1 where d: "del_on (wo_env W) i hash k (c, m) = (r, c1, m1)" by (rule prod_cases3)
  define ret1 where "ret1 = (case r of Some x \<Rightarrow> retired_add ret x | None \<Rightarrow> ret)"
  obtain fs2 where rest: "del_all W (map (located H c) ks) ret1 (c1, m1) = (ret', fs2, cm')" and fs: "fs = (r \<noteq> None) # fs2"
    using Cons.prems(3) l d by (auto simp: Let_def ret1_def split: prod.splits)
  have so: "locate H (fst (sv_cache s)) k = (i, hash)" "del_on (wo_env W) i hash k (sv_cache s) = (r, c1, m1)"
    using l d Cons.prems(2) by simp_all
  let ?s1 = "sv_header (found_status (r \<noteq> None)) 0 (s\<lparr>sv_cache := (c1, m1)\<rparr>)"
  have ok: "srv_ok H W rd ?s1" using del_step_serves [OF Cons.prems(1) so] by (simp add: serves_def)
  obtain Ms0 where rep: "cache_rep H (held rd (sv_kept s)) c m Ms0" and w: "world_ok W m"
    using Cons.prems(1,2) by (auto simp: srv_ok_def cache_inv_def)
  have tid: "ev_tid (wo_env W) < length (sl_mags (m_slab m))" using w by (simp add: world_ok_def)
  have loc: "locate H c1 = locate H c" using del_on_spec(4) [OF rep tid l d] by (simp add: fun_eq_iff)
  have "sv_cache ?s1 = (c1, m1)" by (simp add: sv_header_def)
  from Cons.IH [OF ok this] rest loc obtain Ms where
    "deletes_shared H W ks ret1 ?s1 Ms ret' fs2 (fold (\<lambda>f. sv_header (found_status f) 0) fs2 (?s1\<lparr>sv_cache := cm'\<rparr>))" by auto
  note one = deletes_shared.one [OF others_refl [OF Cons.prems(1) empty_subsetI] so refl this [unfolded ret1_def]]
  have "?s1\<lparr>sv_cache := cm'\<rparr> = sv_header (found_status (r \<noteq> None)) 0 (s\<lparr>sv_cache := cm'\<rparr>)" by (simp add: sv_header_def)
  then show ?case using one unfolding fs fold_simps by metis
qed

lemma del_alone:
  assumes "srv_ok H W rd s"
  shows "\<exists>Ms. del_shared H W ks s Ms (del_run H W ks s)"
proof -
  obtain c m where cm: "sv_cache s = (c, m)" by fastforce
  obtain ret fs c1 m1 where da: "del_all W (map (located H c) ks) retired_zero (c, m) = (ret, fs, c1, m1)" by (rule prod_cases4)
  let ?s1 = "fold (\<lambda>f. sv_header (found_status f) 0) fs (s\<lparr>sv_cache := (c1, m1)\<rparr>)"
  obtain Ms where d: "deletes_shared H W ks retired_zero s Ms ret fs ?s1" using deletes_alone [OF assms cm da] by blast
  then obtain rd1 where rd1: "srv_ok H W rd1 ?s1" using deletes_shared_served [OF d] assms by (auto simp: served_def)
  have inv: "cache_inv H (held rd (sv_kept s)) W (c, m)" using assms by (simp add: srv_ok_def cm)
  have loc: "locate H c1 = locate H c" using del_all_spec [OF inv da] by blast
  have "(count_deleted H ks fs ?s1)\<lparr>sv_pending := snd (collect ret (sv_pending ?s1))\<rparr> = del_run H W ks s"
    unfolding del_run_def cm del_many_def prod.case Let_def da [unfolded Let_def] fold_header count_deleted_def
    by (simp add: loc case_prod_unfold last_map)
  with del_shared.run [OF d others_refl [OF rd1 empty_subsetI] refl] show ?thesis by auto
qed

lemma batch_loop_alone:
  "srv_ok H W rd s \<Longrightarrow> batch_loop H W items s = Some s' \<Longrightarrow> \<exists>Ms. batch_shared H W items s Ms s'"
proof (induction H W items s rule: batch_loop.induct)
  case (1 H W s)
  then show ?case using batch_shared.none by auto
next
  case (2 H W op b items s)
  note step = batch_loop.simps(2) [of H W op b items s]
  consider (get) "op_from_u8 op = Some Get" | (set) "op_from_u8 op = Some Set" | (del) "op_from_u8 op = Some Del"
    | (other) "op_from_u8 op \<notin> {Some Get, Some Set, Some Del}" by blast
  then show ?case
  proof cases
    case get
    let ?s1 = "get_run H W (b # run_bodies op items) s"
    have "srv_ok H W rd ?s1" using get_run_serves [OF "2.prems"(1)] by (simp add: serves_def)
    then obtain Ms' where "batch_shared H W (run_rest op items) ?s1 Ms' s'" using "2.IH"(2) get "2.prems"(2) by (auto simp: step)
    with get_alone [OF "2.prems"(1)] batch_shared.get [OF get] show ?thesis by blast
  next
    case del
    let ?s1 = "del_run H W (b # run_bodies op items) s"
    have "srv_ok H W rd ?s1" using del_run_serves [OF "2.prems"(1)] by (simp add: serves_def)
    then obtain Ms' where "batch_shared H W (run_rest op items) ?s1 Ms' s'" using "2.IH"(4) del "2.prems"(2) by (auto simp: step)
    with del_alone [OF "2.prems"(1)] batch_shared.del [OF del] show ?thesis by blast
  next
    case other
    let ?s1 = "sv_frame W UnknownOp (not_in_batch_msg op) s"
    have ok: "srv_ok H W rd ?s1" using sv_frame_appends [OF "2.prems"(1)] by (simp add: appends_def)
    have bl: "batch_loop H W items ?s1 = Some s'" using other "2.prems"(2) by (auto simp: step split: option.splits op.splits)
    consider "op_from_u8 op = None" | "op_from_u8 op = Some Auth" | "op_from_u8 op = Some Ping" | "op_from_u8 op = Some Batch"
      using other by (cases "op_from_u8 op"; cases "the (op_from_u8 op)") auto
    then have "\<exists>Ms'. batch_shared H W items ?s1 Ms' s'" by cases (use "2.IH"(1,5-7) ok bl in auto)
    with batch_shared.other [OF other refl] show ?thesis by blast
  next
    case set
    obtain es bad rest where r: "set_run op b items = (es, bad, rest)" by (rule prod_cases3)
    obtain bs where bs: "map set_body bs = map Inr es" using set_run_spec [OF r] by blast
    define t where "t = (\<lambda>s1. case bad of Some e \<Rightarrow> sv_frame W BadRequest (decode_error_msg e) s1 | None \<Rightarrow> s1)"
    obtain s1 where s1: "set_entries H W es s = Some s1" "batch_loop H W rest (t s1) = Some s'"
      using "2.prems"(2) set r by (auto simp: step t_def split: option.splits)
    have ok1: "srv_ok H W rd s1" using set_entries_serves [OF "2.prems"(1) bs s1(1)] by (simp add: serves_def)
    then have "srv_ok H W rd (t s1)" using sv_frame_appends [OF ok1] by (simp add: t_def appends_def split: option.split)
    then obtain Ms' where m: "batch_shared H W rest (t s1) Ms' s'"
      using "2.IH"(3) [of Set "(es, bad, rest)" es "(bad, rest)" bad rest s1] s1 r set by (auto simp: t_def)
    obtain Ms where "set_shared H W es s Ms s1" using set_alone [OF "2.prems"(1) bs s1(1)] by blast
    then show ?thesis using batch_shared.set [OF set] batch_shared.set_bad [OF set] r m by (cases bad) (fastforce simp: t_def)+
  qed
qed

lemma batch_alone:
  assumes "srv_ok H W rd s" and "op_from_u8 op = Some Batch" and "Dispatch.batch H W body s = Some s'"
  shows "\<exists>Ms. dispatch_shared H W op body s Ms s'"
proof (cases "frames body")
  case (Inl e)
  then have "s' = sv_frame W BadRequest (decode_error_msg e) s" using assms(3) by (simp add: Dispatch.batch_def)
  from dispatch_shared.batch_bad [OF assms(2) Inl this] show ?thesis by blast
next
  case (Inr f)
  obtain m s1 where o: "batch_open f s = (m, s1)" by fastforce
  note ok1 = batch_open_ok(1) [OF assms(1) o]
  obtain s2 where s2: "batch_loop H W (frames_items f) s1 = Some s2" and s':
      "if fw_since m (sv_out s2) > MAX_RESPONSE
       then map_option (sv_frame W TooLarge (response_too_large_msg (fw_since m (sv_out s2)))) (sv_abort W m s2) = Some s'
       else map_option (\<lambda>out. s2\<lparr>sv_out := out\<rparr>) (fw_end m (sv_out s2)) = Some s'"
    using assms(3) Inr o by (auto simp: Dispatch.batch_def batch_open_def Let_def split: prod.splits option.splits if_splits)
  obtain Ms where bs: "batch_shared H W (frames_items f) s1 Ms s2" using batch_loop_alone [OF ok1 s2] by blast
  have "srv_ok H W rd s2" using batch_loop_serves [OF ok1 s2] by (simp add: serves_def)
  note r2 = others_refl [OF this empty_subsetI]
  show ?thesis
    using s' dispatch_shared.batch [OF assms(2) Inr o bs] dispatch_shared.batch_large [OF assms(2) Inr o bs refl _ r2]
    by (fastforce split: if_splits)
qed

lemma dispatch_alone:
  assumes "srv_ok H W rd s" and "dispatch H W op body s = Some s'"
  shows "\<exists>Ms. dispatch_shared H W op body s Ms s'"
proof -
  note r0 = others_refl [OF assms(1) empty_subsetI]
  consider (get) "op_from_u8 op = Some Get" | (set) "op_from_u8 op = Some Set" | (del) "op_from_u8 op = Some Del"
    | (batch) "op_from_u8 op = Some Batch" | (nop) "op_from_u8 op \<in> {Some Auth, Some Ping}" | (unknown) "op_from_u8 op = None"
    by (cases "op_from_u8 op"; cases "the (op_from_u8 op)") auto
  then show ?thesis
  proof cases
    case get
    obtain found cm where g: "get_in H body (sv_cache s) = (found, cm)" by (rule prod.exhaust)
    let ?s1 = "s\<lparr>sv_cache := cm\<rparr>"
    have inv: "cache_inv H (held rd (sv_kept s)) W (sv_cache s)" using assms(1) by (simp add: srv_ok_def)
    note sp = get_in_spec [OF inv g]
    have ok: "srv_ok H W rd ?s1" by (rule srv_ok_cache [OF assms(1) sp(1,3)])
    have "set_option found \<subseteq> dom (sv_heap ?s1)" using sp(6) by (cases found) simp_all
    note o = others_refl [OF ok this]
    have "s' = found_reply W found ?s1" using assms(2) get by (simp add: dispatch_def get_reply_def g found_reply_def Let_def)
    from dispatch_shared.get [OF get r0 g refl o this] show ?thesis by blast
  next
    case set
    show ?thesis
    proof (cases "set_body body")
      case (Inr kv)
      obtain k v where kv: "kv = (k, v)" by fastforce
      have "set_reply H W k v s = Some s'" using assms(2) set Inr by (simp add: dispatch_def kv)
      from dispatch_shared.set [OF set Inr [unfolded kv] r0 this] show ?thesis by blast
    next
      case (Inl e)
      then have "s' = sv_frame W BadRequest (decode_error_msg e) s" using assms(2) set by (simp add: dispatch_def)
      from dispatch_shared.set_bad [OF set Inl this] show ?thesis by blast
    qed
  next
    case del
    then have "s' = del_reply H W body s" using assms(2) by (simp add: dispatch_def)
    from dispatch_shared.del [OF del r0 this] show ?thesis by blast
  next
    case batch
    then have "Dispatch.batch H W body s = Some s'" using assms(2) by (simp add: dispatch_def)
    from batch_alone [OF assms(1) batch this] show ?thesis .
  next
    case nop
    then have "s' = sv_header Ok 0 s" using assms(2) by (auto simp: dispatch_def)
    from dispatch_shared.nop [OF nop this] show ?thesis by blast
  next
    case unknown
    then have "s' = sv_frame W UnknownOp (unknown_op_msg op) s" using assms(2) by (simp add: dispatch_def)
    from dispatch_shared.unknown [OF unknown this] show ?thesis by blast
  qed
qed

lemma burst_alone:
  "srv_ok H W rd s \<Longrightarrow> burst H W token authed r s = Some res \<Longrightarrow> \<exists>Mss. burst_shared H W token authed r s Mss res"
proof (induction H W token authed r s rule: burst.induct)
  case (1 H W token authed r s)
  note step = burst.simps [of H W token authed r s]
  obtain x r1 where nb: "next_buffered r = (x, r1)" by fastforce
  show ?case
  proof (cases "\<exists>op body. x = Inr (Some (op, body))")
    case False
    then show ?thesis using "1.prems"(2) nb
      by (intro exI [of _ "[]"]; cases x) (auto simp: step intro: burst_shared.wait burst_shared.large split: option.splits)
  next
    case True
    then obtain op body where x: "x = Inr (Some (op, body))" by blast
    note nb = nb [unfolded x]
    consider (serve) s1 where "authed" "dispatch H W op body s = Some s1" "burst H W token True r1 s1 = Some res"
      | (auth) "\<not> authed" "op = op_u8 Auth" "ct_eq token body" "burst H W token True (set_max_frame MAX_FRAME r1) (sv_header Ok 0 s) = Some res"
      | (refuse) "\<not> authed" "\<not> (op = op_u8 Auth \<and> ct_eq token body)" "res = (True, False, r1,
          sv_frame W Unauthorized (str ''auth required'') (s\<lparr>sv_metrics := count_auth_failure (sv_metrics s)\<rparr>))"
      using "1.prems"(2) nb by (auto simp: step split: if_splits option.splits)
    then show ?thesis
    proof cases
      case serve
      have "srv_ok H W rd s1" using dispatch_replied [OF "1.prems"(1) serve(2)] by (simp add: replied_def)
      then obtain Mss where b: "burst_shared H W token True r1 s1 Mss res"
        using "1.IH"(1) [OF nb [symmetric] refl refl refl serve(1,2)] serve(3) by blast
      obtain Ms where "dispatch_shared H W op body s Ms s1" using dispatch_alone [OF "1.prems"(1) serve(2)] by blast
      from burst_shared.serve [OF nb this b] serve(1) show ?thesis by auto
    next
      case auth
      have "srv_ok H W rd (sv_header Ok 0 s)" using sv_status_appends [OF "1.prems"(1), of Ok] by (simp add: appends_def)
      then obtain Mss where "burst_shared H W token True (set_max_frame MAX_FRAME r1) (sv_header Ok 0 s) Mss res"
        using "1.IH"(2) [OF nb [symmetric] refl refl refl auth(1)] auth(2-4) by blast
      from burst_shared.auth [OF nb auth(2,3) this] auth(1) show ?thesis by auto
    next
      case refuse
      then show ?thesis using burst_shared.refuse [OF nb refuse(2), of H W s] by auto
    qed
  qed
qed

lemma session_alone:
  assumes "session H W token idle ad (conn_new s0 sock) t0 tns got sent t c"
    and "srv_ok H W rd s0" and "fw_bytes (sv_out s0) = []" and "sv_kept s0 = []"
  shows "\<exists>mss. shared_session H W token idle ad (conn_new s0 sock) tns got sent mss c"
  using assms(1)
proof (induction rule: session.induct)
  case start
  then show ?case using shared_session.start by blast
next
  case (turn tns got sent t c tn rd1 b t' c' t'' data)
  then obtain mss where m: "shared_session H W token idle ad (conn_new s0 sock) tns got sent mss c" by blast
  obtain reqs reps where "conn_ok H W (sv_cap s0) token got sent reqs reps c" using session_ok [OF turn.hyps(1) assms(2-4)] by blast
  then obtain rd2 where ok: "srv_ok H W rd2 (cn_server c)" by (auto simp: conn_ok_def)
  obtain close a r s where bu: "burst H W token (cn_authed c) (cn_reader c) (cn_server c) = Some (close, a, r, s)"
      and fi: "finish_turn W idle ad tn (cn_sock c) close a r s = Some (b, Serving t' c')"
    using turn.hyps(5) by (auto simp: serve_turn_def split: option.splits prod.splits)
  obtain Mss where bs: "burst_shared H W token (cn_authed c) (cn_reader c) (cn_server c) Mss (close, a, r, s)"
    using burst_alone [OF ok bu] by blast
  have "close = False" using fi by (rule finish_turn_serving) simp
  then have "sound H W s" using burst_shared_history [OF shared_session_ok [OF m _ assms(3)]] assms(2) bs by blast
  then obtain rd3 where "srv_ok H W rd3 s" by blast
  from shared_session.turn [OF m bs others_refl [OF this empty_subsetI] fi turn.hyps(6,2,3,4)] show ?case by blast
qed

section \<open>Properties\<close>

text \<open>
  C3. A connection answers in order and only what it was asked, whatever other threads do to the
  cache meanwhile, between any two accesses of a request and between the items of a batch. However
  the network cuts the input into reads and however little the socket takes at a time: after any
  number of turns the input is the frames taken off it followed by an incomplete rest, and what was
  sent is one reply per frame, in the order of the frames. The first frame of a connection that is
  served is the right AUTH, answered \<open>Ok\<close>. Each later request is answered from moments while it was
  served: a batch item by item in order, each item with the reply and the effect the reference gives
  on what could be read at a moment of its own; any other request so at one moment; and at no other
  access of the request does what can be read change. Before AUTH nothing was answered.
\<close>

theorem connection_answers_in_order:
  assumes "shared_session H W token idle ad (conn_new s0 sock) tns got sent mss c"
    and "srv_ok H W rd s0" and "fw_bytes (sv_out s0) = []"
  shows "\<exists>reqs reps. got = concat (map encode_frame reqs) @ rd_view (cn_reader c) \<and> sent = concat (map encode_frame reps) \<and>
    (if cn_authed c
     then \<exists>qs rs. reqs = (op_u8 Auth, token) # qs \<and> reps = (status_u8 Ok, []) # rs \<and>
       length mss = length qs \<and> length rs = length qs \<and>
       (\<forall>i < length qs. request_answered (sv_cap s0) (mss ! i) (qs ! i) (rs ! i))
     else reqs = [] \<and> reps = [] \<and> mss = [])"
  using shared_session_ok [OF assms(1) _ assms(3)] assms(2) unfolding shared_conn_ok_def all_answered_def by blast

text \<open>
  The second of two lookups of the same key in a batch finds what another thread stored in between.
\<close>

definition twice :: "(u8 \<times> bytes) list" where
  "twice = [(op_u8 Get, [7]), (op_u8 Get, [7])]"

lemma demo_get_twice:
  assumes "srv_ok (\<lambda>_. 5) demo_world rd s" and "sv_cache s = (cache_new 1000 1, mem_new 1)" and "sv_kept s = []"
  shows "\<exists>Ms s'. get_shared (\<lambda>_. 5) demo_world [[7], [7]] s Ms s' \<and> sound (\<lambda>_. 5) demo_world s' \<and>
    emits (encode_frame (status_u8 NotFound, []) @ encode_frame (status_u8 Ok, [1])) (sv_out s) (sv_out s')"
proof -
  let ?H = "\<lambda>_. 5 :: u64"
  have v0: "sv_view ?H s = Map.empty" using cache_new_rep(2) [of 1 ?H 1000 1] by (simp add: assms(2))
  obtain e0 s1 where l0: "lookup ?H [7] s = (e0, s1)" by fastforce
  note o0 = lookup_ok [OF assms(1) l0]
  have e0: "e0 = None" using o0(6) [of 0] v0 by (auto simp: item_reply_def get_frame_def split: option.splits)
  have s1: "sv_cache s1 = sv_cache s" "sv_kept s1 = []" using l0 e0 assms(3) by (auto simp: lookup_def Let_def split: prod.splits option.splits)
  obtain b cm pend where st: "set_many ?H demo_world [([7], [1])] (cache_new 1000 1, mem_new 1) (0, 0) = Some (Inr b, cm, pend)"
    by (rule demo_set_many)
  note sp = set_many_spec [OF demo_inv st]
  let ?s2 = "s1\<lparr>sv_cache := cm\<rparr>"
  have k: "view_of ?H cm [7] = Some [1]" using sp(1) by simp
  have "held (\<lambda>_. 0) [] = (\<lambda>_. 0)" by (simp add: held_def fun_eq_iff)
  then have ot: "others ?H demo_world {} s1 ?s2"
    unfolding others_def using sp(2,4) s1 assms(2)
    by (intro exI [of _ cm] exI [of _ "sv_metrics s1"] exI [of _ "\<lambda>_. 0"] conjI) (simp_all add: s1)
  obtain rd2 where rd2: "srv_ok ?H demo_world rd2 ?s2" using others_ok(1) [OF ot] o0(1) by blast
  obtain e1 s3 where l1: "lookup ?H [7] ?s2 = (e1, s3)" by fastforce
  note o1 = lookup_ok [OF rd2 l1]
  have "get_frame (value_at (sv_heap s3)) e1 = (status_u8 Ok, [1])" using o1(6) [of 0] k by (simp add: item_reply_def)
  then obtain p where p: "e1 = Some p" "value_at (sv_heap s3) p = [1]" by (auto simp: get_frame_def split: option.splits)
  have l: "lookups ?H demo_world {} [[7], [7]] s [moment_of ?H s s1, moment_of ?H ?s2 s3] [None, Some p] s3"
    using lookups.key [OF others_refl [OF assms(1) empty_subsetI] l0, OF lookups.key [OF _ l1 lookups.none]] ot e0 p(1) by simp
  let ?s4 = "count_found ?H [[7], [7]] [None, Some p] s3"
  note c = count_found_ok [OF o1(1), of "[[7], [7]]" "[None, Some p]"]
  have B: "{q. Some q \<in> set [None, Some p]} = {p}" "{p} \<subseteq> dom (sv_heap s3)" "{p} \<subseteq> dom (sv_heap ?s4)" using o1(7) [OF p(1)] c(5) by auto
  obtain Ms s' where pt: "puts ?H demo_world {p} [None, Some p] ?s4 Ms s'" using puts_alone [OF c(1) B(3), of "[None, Some p]"] by auto
  have "sound ?H demo_world ?s4" using c(1) by blast
  from puts_ok [OF pt this B(3)] have pu: "sound ?H demo_world s'"
      "emits (encode_frame (status_u8 NotFound, []) @ encode_frame (status_u8 Ok, [1])) (sv_out ?s4) (sv_out s')"
    using c(5) p(2) by (simp_all add: get_frame_def)
  have "sv_out ?s4 = sv_out s" using c(4) o1(3) o0(3) by simp
  with get_shared.run [OF l B(1) [symmetric] others_refl [OF o1(1) B(2)] pt] pu show ?thesis by metis
qed

lemma twice_frames: "\<exists>f. frames (encode_batch twice) = Inr f \<and> frames_items f = twice"
  by (subst frames_items_iff) (auto simp: twice_def MAX_ITEMS_def frame_ok_def)

lemma demo_batch_twice:
  assumes "srv_ok (\<lambda>_. 5) demo_world rd s" and "sv_cache s = (cache_new 1000 1, mem_new 1)" and "sv_kept s = []"
  shows "\<exists>Ms s'. dispatch_shared (\<lambda>_. 5) demo_world (op_u8 Batch) (encode_batch twice) s Ms s' \<and> sound (\<lambda>_. 5) demo_world s' \<and>
    fw_bytes (sv_out s') = fw_bytes (sv_out s) @ encode_frame (status_u8 Ok, encode_batch [(status_u8 NotFound, []), (status_u8 Ok, [1])])"
proof -
  let ?H = "\<lambda>_. 5 :: u64" and ?rs = "[(status_u8 NotFound, []), (status_u8 Ok, [1 :: u8])]"
  obtain f where f: "frames (encode_batch twice) = Inr f" "frames_items f = twice" using twice_frames by blast
  obtain m s1 where o: "batch_open f s = (m, s1)" by fastforce
  note b = batch_open_ok [OF assms(1) o]
  have c1: "sv_cache s1 = (cache_new 1000 1, mem_new 1)" "sv_kept s1 = []"
    using o assms(2,3) by (auto simp: batch_open_def Let_def split: prod.splits)
  obtain Ms s2 where g: "get_shared ?H demo_world [[7], [7]] s1 Ms s2" "sound ?H demo_world s2"
      "emits (concat (map encode_frame ?rs)) (sv_out s1) (sv_out s2)"
    using demo_get_twice [OF b(1) c1] by auto
  have "batch_shared ?H demo_world twice s1 (Ms @ []) s2"
    unfolding twice_def by (rule batch_shared.get) (use g(1) batch_shared.none in \<open>auto simp: run_bodies_def run_rest_def\<close>)
  note bs = this [folded f(2)]
  obtain xs where xs: "frames_wf f xs" using f(1) frames_Inr_iff by blast
  then have "fr_left f = length (frames_items f)" by (simp add: frames_items_wf [OF xs]) (simp add: frames_wf_def)
  then have op2: "fw_open m (fw_bytes (sv_out s)) (status_u8 Ok) (encode_batch ?rs) (sv_out s2)"
    using g(3) b(3) f(2) by (simp add: emits_def encode_batch_def twice_def)
  have len: "length (encode_batch ?rs) \<le> MAX_RESPONSE"
    by (simp add: encode_batch_def encode_frame_def HEADER_LEN_def MAX_RESPONSE_def MAX_FRAME_def)
  obtain rd2 where "srv_ok ?H demo_world rd2 s2" using g(2) by blast
  from sv_end_ok [OF this op2] obtain w where w: "fw_end m (sv_out s2) = Some w" "srv_ok ?H demo_world rd2 (s2\<lparr>sv_out := w\<rparr>)"
      "fw_bytes w = fw_bytes (sv_out s) @ encode_frame (status_u8 Ok, encode_batch ?rs)" by blast
  have "fw_since m (sv_out s2) \<le> MAX_RESPONSE" using fw.written_opened [OF op2] len by simp
  from dispatch_shared.batch [OF _ f(1) o bs this w(1), of "op_u8 Batch"] w(2,3)
  show ?thesis by (intro exI [of _ "Ms @ []"] exI [of _ "s2\<lparr>sv_out := w\<rparr>"]) auto
qed

lemma next_buffered_frame:
  assumes "frame_ok f" and "length (snd f) \<le> rd_max_frame r" and "rd_view r = encode_frame f @ rest"
  obtains r1 where "next_buffered r = (Inr (Some f), r1)" "rd_view r1 = rest" "rd_max_frame r1 = rd_max_frame r"
proof -
  have st: "frame_step (rd_view r) = Inr (f, rest)" using assms(1,3) by (simp add: wire.step_iff)
  have "fst (next_buffered r) = Inr (Some f) \<and> rd_view (snd (next_buffered r)) = rest"
  proof (cases rule: next_buffered_cases [of r])
    case (large t n)
    then show ?thesis using assms by (cases f) (simp add: encode_frame_def frame_ok_def decode_header_encode)
  qed (use st in auto)
  then show thesis using that [of "snd (next_buffered r)"] next_buffered_max [of r] by (metis prod.collapse)
qed

text \<open>A connection on which such a batch follows the token.\<close>

abbreviation twice_input :: bytes where
  "twice_input \<equiv> encode_frame (op_u8 Auth, [9]) @ encode_frame (op_u8 Batch, encode_batch twice)"

lemma twice_burst:
  assumes "rd_view r = twice_input" and "rd_max_frame r = MAX_AUTH_FRAME"
  obtains Ms r' s' where "burst_shared (\<lambda>_. 5) demo_world [9] False r demo_server [Ms] (False, True, r', s')"
    "rd_view r' = []" "sound (\<lambda>_. 5) demo_world s'" "fw_bytes (sv_out s') = encode_frame (status_u8 Ok, []) @
       encode_frame (status_u8 Ok, encode_batch [(status_u8 NotFound, []), (status_u8 Ok, [1])])"
proof -
  have ok: "frame_ok (op_u8 Auth, [9 :: u8])" "frame_ok (op_u8 Batch, encode_batch twice)"
      "length (encode_batch twice) \<le> MAX_FRAME"
    by (simp_all add: frame_ok_def encode_batch_def encode_frame_def twice_def HEADER_LEN_def MAX_FRAME_def)
  obtain r1 where r1: "next_buffered r = (Inr (Some (op_u8 Auth, [9])), r1)" "rd_view r1 = encode_frame (op_u8 Batch, encode_batch twice)"
    using next_buffered_frame [OF ok(1) _ assms(1)] assms(2) by (auto simp: MAX_AUTH_FRAME_def)
  let ?r1 = "set_max_frame MAX_FRAME r1" and ?s1 = "sv_header Ok 0 demo_server"
  obtain r2 where r2: "next_buffered ?r1 = (Inr (Some (op_u8 Batch, encode_batch twice)), r2)" "rd_view r2 = []"
    using next_buffered_frame [OF ok(2), of ?r1 "[]"] r1(2) ok(3) by auto
  have "length (rd_view r2) < HEADER_LEN" using r2(2) by (simp add: HEADER_LEN_def)
  then obtain r3 where r3: "next_buffered r2 = (Inr None, r3)" by (simp add: next_buffered_def rd_head_def)
  note a = sv_status_appends [OF demo_server_ok [of "\<lambda>_. 5"], of Ok]
  then have s1: "srv_ok (\<lambda>_. 5) demo_world (\<lambda>_. 0) ?s1" by (simp add: appends_def)
  have "sv_cache ?s1 = (cache_new 1000 1, mem_new 1)" "sv_kept ?s1 = []" by (simp_all add: sv_header_def demo_server_def)
  from demo_batch_twice [OF s1 this] obtain Ms s2 where d: "dispatch_shared (\<lambda>_. 5) demo_world (op_u8 Batch) (encode_batch twice) ?s1 Ms s2"
      "sound (\<lambda>_. 5) demo_world s2" "fw_bytes (sv_out s2) = fw_bytes (sv_out ?s1) @
         encode_frame (status_u8 Ok, encode_batch [(status_u8 NotFound, []), (status_u8 Ok, [1])])" by blast
  have "burst_shared (\<lambda>_. 5) demo_world [9] False r demo_server [Ms] (False, True, r3, s2)"
    by (rule burst_shared.auth [OF r1(1) refl]) (simp add: ct_eq_iff, rule burst_shared.serve [OF r2(1) d(1) burst_shared.wait [OF r3]])
  moreover have "rd_view r3 = []" using next_buffered_kept(1) [of r2 r3] r3 r2(2) by simp
  moreover have "fw_bytes (sv_out ?s1) = encode_frame (status_u8 Ok, [])" using a demo_empty(1) by (simp add: appends_def emits_def)
  ultimately show thesis using that d(2,3) by simp
qed

lemma finish_byte_turn:
  assumes "sound H W s" and "x \<noteq> []"
  shows "\<exists>c'. finish_turn W None ad (demo_turn x) () False True r s = Some (fw_bytes (sv_out s), Serving 2 c') \<and> cn_authed c'"
proof -
  obtain rd where rd: "srv_ok H W rd s" using assms(1) by blast
  have live: "(sv_out s)\<lparr>fw_pieces := live_pieces (sv_heap s) (fw_pieces (sv_out s)) (sv_kept s)\<rparr> = sv_out s"
    using live_pieces_same rd by (simp add: srv_ok_def)
  have "fw_inv (sv_out s)" using rd by (simp add: srv_ok_def)
  from flush_completes [OF byte_socket_contract this, of "()"] obtain w' where
    "fw_flush byte_socket (sv_out s) () = (Some (Inr ()), fw_bytes (sv_out s), (), w')" by auto
  then have "\<exists>s1. sv_flush W byte_socket () s = (Some (Inr ()), fw_bytes (sv_out s), (), s1)" by (simp add: sv_flush_def live)
  then show ?thesis using assms(2)
    by (auto simp: finish_turn_def demo_turn_def deadline_of_def by_deadline_def flush_future_def await_input_def fill_def Let_def)
qed

theorem connection_answers_in_order_witness:
  "\<exists>(tns :: (unit, unit) turn list) sent Ms c q r. shared_session (\<lambda>_. 5) demo_world [9] None 30 (conn_new demo_server ()) tns (twice_input @ [5]) sent [Ms] c \<and>
     sent = encode_frame (status_u8 Ok, []) @ encode_frame (status_u8 Ok, encode_batch [(status_u8 NotFound, []), (status_u8 Ok, [1])]) \<and>
     request_answered (sv_cap demo_server) Ms q r \<and> sent = encode_frame (status_u8 Ok, []) @ encode_frame r"
proof -
  let ?H = "\<lambda>_. 5 :: u64" and ?c0 = "conn_new demo_server ()" and ?c1 = "demo_conn twice_input"
  have ne: "twice_input \<noteq> []" by (simp add: encode_frame_def encode_header_def)
  have c0: "demo_conn [] = ?c0" by (simp add: conn_new_def rd_new_def)
  have t: "write_contract (tn_write (demo_turn x))" "cache_inv ?H (\<lambda>_. 0) demo_world (tn_cache (demo_turn x))"
      "sh_capacity (ca_shards (fst (tn_cache (demo_turn x))) ! 0) = sv_cap (cn_server ?c0)" "tn_read (demo_turn x) = At 2 (Inr x)" for x
    using byte_socket_contract(1) demo_inv by (simp_all add: demo_turn_def conn_new_def demo_server_def)
  have "serve_turn ?H demo_world [9] None 30 (demo_turn twice_input) ?c0 = Some ([], Serving 2 ?c1)"
    using demo_serve [OF _ ne, of "[]" ?H "[9]" None] c0 by (simp add: HEADER_LEN_def)
  note 1 = session.turn [OF session.start t(1-3) this t(4), simplified]
  obtain mss where m: "shared_session ?H demo_world [9] None 30 ?c0 [demo_turn twice_input] twice_input [] mss ?c1"
    using session_alone [OF 1 demo_server_ok demo_empty] by auto
  have "mss = []" using shared_session_ok [OF m _ demo_empty(1)] demo_server_ok by (auto simp: shared_conn_ok_def conn_new_def)
  note m = m [unfolded this]
  obtain Ms r s where b: "burst_shared ?H demo_world [9] False (cn_reader ?c1) demo_server [Ms] (False, True, r, s)" "sound ?H demo_world s"
      "fw_bytes (sv_out s) = encode_frame (status_u8 Ok, []) @
         encode_frame (status_u8 Ok, encode_batch [(status_u8 NotFound, []), (status_u8 Ok, [1])])"
    by (rule twice_burst [of "cn_reader ?c1"]) (simp_all add: rd_view_def rd_new_def)
  obtain rd where "srv_ok ?H demo_world rd s" using b(2) by blast
  note r0 = others_refl [OF this empty_subsetI]
  obtain c where c: "finish_turn demo_world None 30 (demo_turn [5]) () False True r s = Some (fw_bytes (sv_out s), Serving 2 c)" "cn_authed c"
    using finish_byte_turn [OF b(2), of "[5]" 30 r] by auto
  have "burst_shared ?H demo_world [9] (cn_authed ?c1) (cn_reader ?c1) (cn_server ?c1) [Ms] (False, True, r, s)"
      "finish_turn demo_world None 30 (demo_turn [5]) (cn_sock ?c1) False True r s = Some (fw_bytes (sv_out s), Serving 2 c)"
    using b(1) c(1) by (simp_all add: conn_new_def)
  from shared_session.turn [OF m this(1) r0 this(2) t(4,1,2,3)]
  have run: "shared_session ?H demo_world [9] None 30 ?c0 [demo_turn twice_input, demo_turn [5]] (twice_input @ [5]) (fw_bytes (sv_out s)) [Ms] c"
    by simp
  from connection_answers_in_order [OF run demo_server_ok demo_empty(1)] c(2)
  obtain qs rs where q: "fw_bytes (sv_out s) = concat (map encode_frame ((status_u8 Ok, []) # rs))" "length [Ms] = length qs"
      "length rs = length qs" "\<forall>i < length qs. request_answered (sv_cap demo_server) ([Ms] ! i) (qs ! i) (rs ! i)" by auto
  from q(2,3) obtain q' r' where e: "qs = [q']" "rs = [r']" by (cases qs; cases rs) simp_all
  then have "request_answered (sv_cap demo_server) Ms q' r'" using q(4) by simp
  moreover have "fw_bytes (sv_out s) = encode_frame (status_u8 Ok, []) @ encode_frame r'" using q(1) e(2) by simp
  ultimately show ?thesis using run b(3) by blast
qed

end
