(* ===== verification/Tls_Stream.thy ===== *)
theory Tls_Stream
  imports Connection
begin

text \<open>
  An accepted socket on its way to being served: \<open>serve\<close> of \<^verbatim>\<open>crates/server/src/tcp.rs\<close>, and the
  reader \<open>Drained\<close> that hands out everything a TLS session has decrypted. The handshake is a
  future; the session's plaintext is read through an argument.
\<close>

section \<open>From the accept to the first turn\<close>

text \<open>
  \<open>Rejected\<close> is an error of the socket or the handshake, \<open>TimedOut\<close> the deadline passing, \<open>Serve\<close> the
  time the connection is served from, its deadline for AUTH and its stream; \<open>Overflow\<close> the panic of
  a deadline that cannot be represented.
\<close>

datatype ('e, 'k) accepted = Rejected 'e | TimedOut | Overflow | Serve nat nat 'k

definition serve_accepted ::
  "nat \<Rightarrow> 'e + unit \<Rightarrow> 't option \<Rightarrow> ('t \<Rightarrow> 'k \<Rightarrow> ('e + 'k) future) \<Rightarrow> 'k \<Rightarrow> ('e, 'k) accepted option" where
  "serve_accepted now nodelay tls accept sock =
     (case nodelay of
        Inl e \<Rightarrow> Some (Rejected e)
      | Inr _ \<Rightarrow>
          (case instant_add now AUTH_TIMEOUT of
             None \<Rightarrow> Some Overflow
           | Some auth_deadline \<Rightarrow>
               (case tls of
                  None \<Rightarrow> Some (Serve now auth_deadline sock)
                | Some acceptor \<Rightarrow>
                    (case by_deadline now (Some auth_deadline) (accept acceptor sock) of
                       None \<Rightarrow> None
                     | Some (t, Inl e) \<Rightarrow> Some (Rejected e)
                     | Some (t, Inr None) \<Rightarrow> Some TimedOut
                     | Some (t, Inr (Some stream)) \<Rightarrow> Some (Serve t auth_deadline stream)))))"

text \<open>
  The handshake always comes to an end, and it counts against the deadline: what is left of it is
  what the peer has to authenticate.
\<close>

lemma serve_accepted_deadline:
  "\<exists>a. serve_accepted now nodelay tls accept sock = Some a \<and>
     (\<forall>t ad k. a = Serve t ad k \<longrightarrow> ad = now + AUTH_TIMEOUT \<and> t \<le> ad)"
proof (cases nodelay)
  case (Inr u)
  show ?thesis
  proof (cases "instant_add now AUTH_TIMEOUT")
    case None
    with Inr show ?thesis by (simp add: serve_accepted_def)
  next
    case (Some ad)
    then have ad: "ad = now + AUTH_TIMEOUT" by (simp add: instant_add_def split: if_splits)
    show ?thesis
    proof (cases tls)
      case None
      with Inr Some ad show ?thesis by (simp add: serve_accepted_def)
    next
      case (Some acceptor)
      obtain t r where b: "by_deadline now (Some ad) (accept acceptor sock) = Some (t, r)"
        by (cases "by_deadline now (Some ad) (accept acceptor sock)") (auto simp: by_deadline_def split: future.splits if_splits)
      have "t \<le> ad" if "r = Inr (Some k)" for k
        using by_deadline_done [OF b [unfolded that]] ad by simp
      with Inr Some b ad \<open>instant_add now AUTH_TIMEOUT = Some ad\<close> show ?thesis
        by (cases r) (auto simp: serve_accepted_def split: option.split)
    qed
  qed
qed (simp add: serve_accepted_def)

text \<open>
  The HTTP front end does the same in the task it spawns (\<^verbatim>\<open>crates/server/src/http.rs\<close>): it goes on when
  \<open>set_nodelay\<close> fails, and the handshake has a timeout of its own.
\<close>

datatype ('e, 'k) http_accept = HttpRejected 'e | HttpTimedOut | HttpServe nat 'k

definition http_accepted ::
  "nat \<Rightarrow> 't option \<Rightarrow> ('t \<Rightarrow> 'k \<Rightarrow> ('e + 'k) future) \<Rightarrow> 'k \<Rightarrow> ('e, 'k) http_accept option" where
  "http_accepted now tls accept sock =
     (case tls of
        None \<Rightarrow> Some (HttpServe now sock)
      | Some acceptor \<Rightarrow>
          (case by_deadline now (Some (now + AUTH_TIMEOUT)) (accept acceptor sock) of
             None \<Rightarrow> None
           | Some (t, Inl e) \<Rightarrow> Some (HttpRejected e)
           | Some (t, Inr None) \<Rightarrow> Some HttpTimedOut
           | Some (t, Inr (Some stream)) \<Rightarrow> Some (HttpServe t stream)))"

lemma http_accepted_deadline:
  "\<exists>a. http_accepted now tls accept sock = Some a \<and> (\<forall>t k. a = HttpServe t k \<longrightarrow> t \<le> now + AUTH_TIMEOUT)"
proof (cases tls)
  case (Some acceptor)
  obtain t r where b: "by_deadline now (Some (now + AUTH_TIMEOUT)) (accept acceptor sock) = Some (t, r)"
    by (cases "by_deadline now (Some (now + AUTH_TIMEOUT)) (accept acceptor sock)")
      (auto simp: by_deadline_def split: future.splits if_splits)
  have "t \<le> now + AUTH_TIMEOUT" if "r = Inr (Some k)" for k
    using by_deadline_done [OF b [unfolded that]] by simp
  with Some b show ?thesis by (cases r) (auto simp: http_accepted_def split: option.split)
qed (simp add: http_accepted_def)

section \<open>Draining the decrypted bytes\<close>

text \<open>\<open>read\<close> is the session's plaintext reader, given the room there is.\<close>

function drain :: "('r \<Rightarrow> nat \<Rightarrow> ('e + bytes) \<times> 'r) \<Rightarrow> nat \<Rightarrow> bytes \<Rightarrow> 'r \<Rightarrow> bytes \<times> 'r" where
  "drain read cap buf r =
     (if length buf < cap
      then (case read r (cap - length buf) of
              (Inr got, r') \<Rightarrow> if got = [] then (buf, r') else drain read cap (buf @ got) r'
            | (Inl _, r') \<Rightarrow> (buf, r'))
      else (buf, r))"
  by pat_completeness auto
termination
  by (relation "measure (\<lambda>(_, cap, buf, _). cap - length buf)") (auto simp: length_greater_0_conv [symmetric] simp del: length_greater_0_conv)

declare drain.simps [simp del]

text \<open>
  \<open>poll_read\<close>: \<open>inner\<close> is what the stream's own \<open>poll_read\<close> does, \<open>None\<close> when it is pending; a read that
  adds nothing is the end of the stream and is passed on.
\<close>

definition drained_poll_read ::
  "('r \<Rightarrow> nat \<Rightarrow> (('e + bytes) option) \<times> 'r) \<Rightarrow> ('r \<Rightarrow> nat \<Rightarrow> ('e + bytes) \<times> 'r) \<Rightarrow> nat \<Rightarrow> bytes \<Rightarrow> 'r \<Rightarrow>
     ('e + bytes) option \<times> 'r" where
  "drained_poll_read inner read cap buf r =
     (case inner r (cap - length buf) of
        (None, r1) \<Rightarrow> (None, r1)
      | (Some (Inl e), r1) \<Rightarrow> (Some (Inl e), r1)
      | (Some (Inr got), r1) \<Rightarrow>
          if got = [] then (Some (Inr buf), r1)
          else (case drain read cap (buf @ got) r1 of (buf', r2) \<Rightarrow> (Some (Inr buf'), r2)))"

text \<open>
  What is assumed of the readers: they hand out a prefix of the plaintext that fits, and an error
  hands out nothing.
\<close>

definition reads_prefix :: "('r \<Rightarrow> bytes) \<Rightarrow> ('r \<Rightarrow> nat \<Rightarrow> ('e + bytes) \<times> 'r) \<Rightarrow> bool" where
  "reads_prefix plain read \<longleftrightarrow>
     (\<forall>r n x r'. read r n = (x, r') \<longrightarrow>
        (case x of Inl _ \<Rightarrow> plain r' = plain r | Inr got \<Rightarrow> length got \<le> n \<and> plain r = got @ plain r'))"

lemma reads_prefixD:
  "reads_prefix plain read \<Longrightarrow> read r n = (Inl e, r') \<Longrightarrow> plain r' = plain r"
  "reads_prefix plain read \<Longrightarrow> read r n = (Inr got, r') \<Longrightarrow> length got \<le> n \<and> plain r = got @ plain r'"
  unfolding reads_prefix_def by fastforce+

lemma drain_in_order:
  assumes "reads_prefix plain read" and "length buf \<le> cap" and "drain read cap buf r = (buf', r')"
  shows "\<exists>got. buf' = buf @ got \<and> plain r = got @ plain r' \<and> length buf' \<le> cap"
  using assms
proof (induction read cap buf r rule: drain.induct)
  case (1 read cap buf r)
  obtain x r1 where x: "read r (cap - length buf) = (x, r1)" by fastforce
  show ?case
  proof (cases "length buf < cap \<and> (\<exists>got. x = Inr got \<and> got \<noteq> [])")
    case True
    then obtain got where got: "x = Inr got" "got \<noteq> []" by blast
    then have p: "length got \<le> cap - length buf" "plain r = got @ plain r1"
      using reads_prefixD(2) [OF "1.prems"(1)] x by auto
    have "drain read cap (buf @ got) r1 = (buf', r')"
      using "1.prems"(3) True got x by (simp add: drain.simps [of read cap buf])
    with "1.IH" [OF _ x [symmetric] got(1) got(2)] True p "1.prems"(1) show ?thesis by fastforce
  next
    case False
    then have e: "buf' = buf" "plain r' = plain r"
      using "1.prems"(3) x reads_prefixD [OF "1.prems"(1)]
      by (auto simp: drain.simps [of read cap buf] split: if_splits sum.splits)
    with "1.prems"(2) show ?thesis by simp
  qed
qed

text \<open>A read of the wrapped stream gives more of the same bytes, in order and within the buffer.\<close>

lemma drained_read_in_order:
  assumes "reads_prefix plain read"
    and "\<And>r n x r'. inner r n = (Some (Inr x), r') \<Longrightarrow> length x \<le> n \<and> plain r = x @ plain r'"
    and "length buf \<le> cap" and "drained_poll_read inner read cap buf r = (Some (Inr buf'), r')"
  shows "\<exists>got. buf' = buf @ got \<and> plain r = got @ plain r' \<and> length buf' \<le> cap"
proof -
  obtain x r1 where i: "inner r (cap - length buf) = (x, r1)" by fastforce
  with assms(4) obtain got where g: "x = Some (Inr got)"
    by (auto simp: drained_poll_read_def split: option.splits sum.splits)
  note p = assms(2) [OF i [unfolded g]]
  show ?thesis
  proof (cases "got = []")
    case True
    with assms(3,4) i g p show ?thesis by (simp add: drained_poll_read_def)
  next
    case False
    then have d: "drain read cap (buf @ got) r1 = (buf', r')"
      using assms(4) i g by (auto simp: drained_poll_read_def split: prod.splits)
    have "length (buf @ got) \<le> cap" using conjunct1 [OF p] assms(3) by simp
    from drain_in_order [OF assms(1) this d]
    obtain more where "buf' = (buf @ got) @ more" "plain r1 = more @ plain r'" "length buf' \<le> cap" by blast
    with p show ?thesis by (intro exI [of _ "got @ more"]) simp
  qed
qed

end
