(* ===== verification/Startup.thy ===== *)
theory Startup
  imports Connection
begin

text \<open>
  Start-up, \<^verbatim>\<open>crates/server/src/main.rs\<close>: the configuration read from environment variables, the
  cache and the options built from it, and the listeners bound with them.

  Text is the list of its Unicode scalar values. The parser of socket addresses, the reading of a
  certificate, what binding an address gives and the most permits a semaphore can have are arguments, as
  is the environment.
\<close>

type_synonym chars = "nat list"

definition lit :: "string \<Rightarrow> chars" where "lit s = map of_char s"

section \<open>Numbers in text\<close>

text \<open>The code points with the property \<open>White_Space\<close>, which \<open>trim\<close> removes from both ends.\<close>

definition is_whitespace :: "nat \<Rightarrow> bool" where
  "is_whitespace c \<longleftrightarrow> 0x09 \<le> c \<and> c \<le> 0x0D \<or> c = 0x20 \<or> c = 0x85 \<or> c = 0xA0 \<or> c = 0x1680 \<or>
     0x2000 \<le> c \<and> c \<le> 0x200A \<or> c = 0x2028 \<or> c = 0x2029 \<or> c = 0x202F \<or> c = 0x205F \<or> c = 0x3000"

definition trim :: "chars \<Rightarrow> chars" where
  "trim s = rev (dropWhile is_whitespace (rev (dropWhile is_whitespace s)))"

definition is_ascii_digit :: "nat \<Rightarrow> bool" where
  "is_ascii_digit c \<longleftrightarrow> 48 \<le> c \<and> c \<le> 57"

datatype int_error = EmptyInt | InvalidDigit | PosOverflow | ZeroInt

fun parse_digits :: "nat \<Rightarrow> chars \<Rightarrow> int_error + nat" where
  "parse_digits acc [] = Inr acc"
| "parse_digits acc (c # cs) =
     (if \<not> is_ascii_digit c then Inl InvalidDigit
      else let n = acc * 10 + (c - 48) in if n < 2 ^ 64 then parse_digits n cs else Inl PosOverflow)"

text \<open>\<open>parse::<u64>\<close>, which is \<open>parse::<usize>\<close> too: a sign \<open>+\<close> is allowed, digits are required.\<close>

definition parse_u64 :: "chars \<Rightarrow> int_error + nat" where
  "parse_u64 s =
     (case s of
        [] \<Rightarrow> Inl EmptyInt
      | [c] \<Rightarrow> if c = 43 \<or> c = 45 then Inl InvalidDigit else parse_digits 0 s
      | c # cs \<Rightarrow> if c = 43 then parse_digits 0 cs else parse_digits 0 s)"

definition parse_nonzero :: "chars \<Rightarrow> int_error + nat" where
  "parse_nonzero s =
     (case parse_u64 s of Inl e \<Rightarrow> Inl e | Inr n \<Rightarrow> if n = 0 then Inl ZeroInt else Inr n)"

section \<open>The configuration\<close>

datatype 'e value_error =
    NotAddr 'e
  | UnknownSuffix chars
  | SizeTooLarge chars
  | ZeroCapacity
  | NotInt int_error
  | TokenEmpty
  | NotPath

text \<open>An error of a variable's value names the variable; that of a default does not.\<close>

datatype 'e config_error =
    BadValue string "'e value_error"
  | Missing string
  | BadDefault "'e value_error"

datatype env_var = Unset | NotUnicode | Value chars

type_synonym environment = "string \<Rightarrow> env_var"

record 'a config =
  cf_tcp_addr :: 'a
  cf_http_addr :: "'a option"
  cf_capacity :: nat
  cf_token :: chars
  cf_idle_timeout :: nat
  cf_max_conns :: nat
  cf_tls_cert :: "chars option"

definition DEFAULT_TCP_ADDR :: chars where "DEFAULT_TCP_ADDR = lit ''0.0.0.0:4433''"
definition DEFAULT_CAPACITY :: chars where "DEFAULT_CAPACITY = lit ''1G''"

definition parse_token :: "chars \<Rightarrow> 'e value_error + chars" where
  "parse_token s = (if s = [] then Inl TokenEmpty else Inr s)"

text \<open>The number and the unit of a size.\<close>

definition size_split :: "chars \<Rightarrow> (chars \<times> nat) option" where
  "size_split s =
     (if s = [] then None
      else if is_ascii_digit (last s) then Some (s, 1)
      else if last s = of_char (CHR ''K'') \<or> last s = of_char (CHR ''k'') then Some (butlast s, 2 ^ 10)
      else if last s = of_char (CHR ''M'') \<or> last s = of_char (CHR ''m'') then Some (butlast s, 2 ^ 20)
      else if last s = of_char (CHR ''G'') \<or> last s = of_char (CHR ''g'') then Some (butlast s, 2 ^ 30)
      else None)"

definition parse_size :: "chars \<Rightarrow> 'e value_error + nat" where
  "parse_size s0 =
     (let s = trim s0
      in case size_split s of
           None \<Rightarrow> Inl (UnknownSuffix s)
         | Some (num, mul) \<Rightarrow>
             (case parse_u64 (trim num) of
                Inl e \<Rightarrow> Inl (NotInt e)
              | Inr n \<Rightarrow>
                  if n * mul < 2 ^ 64
                  then (if n * mul = 0 then Inl ZeroCapacity else Inr (n * mul))
                  else Inl (SizeTooLarge s)))"

definition parse_path :: "chars \<Rightarrow> 'e value_error + chars" where
  "parse_path s = (if s = [] then Inl NotPath else Inr s)"

text \<open>\<open>std::env::var\<close> fails for a value that is not Unicode as it does for an unset variable.\<close>

definition env_get ::
  "environment \<Rightarrow> string \<Rightarrow> chars option \<Rightarrow> (chars \<Rightarrow> 'e value_error + 'v) \<Rightarrow> 'e config_error + 'v" where
  "env_get vars name fallback parse =
     (case vars name of
        Value v \<Rightarrow> map_sum (BadValue name) id (parse v)
      | _ \<Rightarrow> (case fallback of Some d \<Rightarrow> map_sum BadDefault id (parse d) | None \<Rightarrow> Inl (Missing name)))"

definition env_opt ::
  "environment \<Rightarrow> string \<Rightarrow> (chars \<Rightarrow> 'e value_error + 'v) \<Rightarrow> 'e config_error + 'v option" where
  "env_opt vars name parse =
     (case env_get vars name None (\<lambda>s. map_sum id Some (parse s)) of
        Inr v \<Rightarrow> Inr v
      | Inl e \<Rightarrow> if vars name = Unset then Inr None else Inl e)"

definition from_env :: "(chars \<Rightarrow> 'e + 'a) \<Rightarrow> environment \<Rightarrow> 'e config_error + 'a config" where
  "from_env parse_addr vars =
     (let addr = (\<lambda>s. map_sum NotAddr id (parse_addr s));
          int = (\<lambda>s. map_sum NotInt id (parse_nonzero s))
      in bindE (env_get vars ''OXICACHE_TCP_ADDR'' (Some DEFAULT_TCP_ADDR) addr) (\<lambda>tcp.
         bindE (env_opt vars ''OXICACHE_HTTP_ADDR'' addr) (\<lambda>http.
         bindE (env_get vars ''OXICACHE_CAPACITY'' (Some DEFAULT_CAPACITY) parse_size) (\<lambda>capacity.
         bindE (env_get vars ''OXICACHE_TOKEN'' None parse_token) (\<lambda>token.
         bindE (env_get vars ''OXICACHE_IDLE_TIMEOUT'' (Some (map unat (dec DEFAULT_IDLE_TIMEOUT))) int) (\<lambda>idle.
         bindE (env_get vars ''OXICACHE_MAX_CONNS'' (Some (map unat (dec DEFAULT_MAX_CONNECTIONS))) int) (\<lambda>conns.
         bindE (env_opt vars ''OXICACHE_TLS_CERT'' parse_path) (\<lambda>cert.
           Inr \<lparr>cf_tcp_addr = tcp, cf_http_addr = http, cf_capacity = capacity, cf_token = token,
                cf_idle_timeout = idle, cf_max_conns = conns, cf_tls_cert = cert\<rparr>))))))))"

section \<open>The certificate\<close>

text \<open>
  \<open>tls::server_config\<close> (\<^verbatim>\<open>crates/server/src/tls.rs\<close>): the chain and the key from one file. Reading it, the
  PEM parsers (\<open>pem_io\<close> wraps an I/O error as one of theirs) and the builder are those of libraries.
\<close>

datatype ('p, 'r) tls_error = Pem chars 'p | Tls 'r

definition server_config ::
  "(chars \<Rightarrow> 'i + bytes) \<Rightarrow> ('i \<Rightarrow> 'p) \<Rightarrow> (bytes \<Rightarrow> ('p + 'c) list) \<Rightarrow> (bytes \<Rightarrow> 'p + 'k) \<Rightarrow> ('c list \<Rightarrow> 'k \<Rightarrow> 'r + 't) \<Rightarrow>
     chars \<Rightarrow> ('p, 'r) tls_error + 't" where
  "server_config read pem_io pem_slice_iter from_pem_slice build pem =
     bindE (map_sum (\<lambda>e. Pem pem (pem_io e)) id (read pem)) (\<lambda>bytes.
     bindE (map_sum (Pem pem) id (collect_results (pem_slice_iter bytes))) (\<lambda>chain.
     bindE (map_sum (Pem pem) id (from_pem_slice bytes)) (\<lambda>key.
       map_sum Tls id (build chain key))))"

section \<open>Starting the server\<close>

text \<open>The bytes of a \<open>String\<close>.\<close>

definition utf8_char :: "nat \<Rightarrow> bytes" where
  "utf8_char c =
     (if c < 0x80 then [of_nat c]
      else if c < 0x800 then [of_nat (0xC0 + c div 0x40), of_nat (0x80 + c mod 0x40)]
      else if c < 0x10000
      then [of_nat (0xE0 + c div 0x1000), of_nat (0x80 + c div 0x40 mod 0x40), of_nat (0x80 + c mod 0x40)]
      else [of_nat (0xF0 + c div 0x40000), of_nat (0x80 + c div 0x1000 mod 0x40), of_nat (0x80 + c div 0x40 mod 0x40),
            of_nat (0x80 + c mod 0x40)])"

definition utf8 :: "chars \<Rightarrow> bytes" where
  "utf8 s = concat (map utf8_char s)"

text \<open>\<open>TooManyPermits\<close> is a panic: that of \<open>Semaphore::new\<close> beyond the most permits it can have.\<close>

datatype ('a, 'e, 'i, 'c) server_error =
    Bind 'a 'i
  | NoToken
  | Config "'e config_error"
  | TlsCert chars 'c
  | TooManyPermits nat

text \<open>A bound front end: its listener and what it serves with.\<close>

record ('l, 't) front =
  fr_listener :: 'l
  fr_shared :: "'t shared"

definition front_bind ::
  "('a \<Rightarrow> 'i + 'l) \<Rightarrow> 'a \<Rightarrow> 't options \<Rightarrow> ('a, 'e, 'i, 'c) server_error + ('l, 't) front" where
  "front_bind listener addr opts =
     (case shared_new opts of
        Inl EmptyToken \<Rightarrow> Inl NoToken
      | Inr shared \<Rightarrow>
          (case listener addr of
             Inl e \<Rightarrow> Inl (Bind addr e)
           | Inr l \<Rightarrow> Inr \<lparr>fr_listener = l, fr_shared = shared\<rparr>))"

record ('l, 't) started =
  sr_cache :: cache
  sr_tcp :: "('l, 't) front"
  sr_http :: "('l, 't) front option"

definition config_options :: "nat \<Rightarrow> 'a config \<Rightarrow> 't option \<Rightarrow> 't options" where
  "config_options now args tls =
     with_tls tls (with_max_connections (Some (cf_max_conns args))
       (with_idle_timeout (Some (cf_idle_timeout args)) (options_new now (utf8 (cf_token args)))))"

definition start ::
  "nat \<Rightarrow> (chars \<Rightarrow> 'e + 'a) \<Rightarrow> (chars \<Rightarrow> 'c + 't) \<Rightarrow> ('a \<Rightarrow> 'i + 'l) \<Rightarrow> nat \<Rightarrow> nat option \<Rightarrow> environment \<Rightarrow>
     ('a, 'e, 'i, 'c) server_error + ('l, 't) started" where
  "start max_permits parse_addr cert_config listener now parallelism vars =
     bindE (map_sum Config id (from_env parse_addr vars)) (\<lambda>args.
       let shards = (case parallelism of Some n \<Rightarrow> n | None \<Rightarrow> 1);
           cache = cache_new (cf_capacity args) shards
       in bindE (if cf_max_conns args \<le> max_permits then Inr () else Inl (TooManyPermits (cf_max_conns args))) (\<lambda>_.
          bindE (case cf_tls_cert args of
                      None \<Rightarrow> Inr None
                    | Some p \<Rightarrow> map_sum (TlsCert p) Some (cert_config p)) (\<lambda>tls.
          let opts = config_options now args tls
          in bindE (front_bind listener (cf_tcp_addr args) opts) (\<lambda>tcp.
             bindE (case cf_http_addr args of
                         None \<Rightarrow> Inr None
                       | Some a \<Rightarrow> map_sum id Some (front_bind listener a opts)) (\<lambda>http.
               Inr \<lparr>sr_cache = cache, sr_tcp = tcp, sr_http = http\<rparr>)))))"

section \<open>Sizes\<close>

lemma parse_digits_append:
  "parse_digits acc (xs @ ys) = bindE (parse_digits acc xs) (\<lambda>n. parse_digits n ys)"
  by (induction acc xs rule: parse_digits.induct) (simp_all add: Let_def)

lemma dec_ascii_digits: "c \<in> set (map unat (dec n)) \<Longrightarrow> is_ascii_digit c"
  by (auto simp: is_ascii_digit_def dest: dec_bytes)

lemma parse_digits_dec: "parse_digits 0 (map unat (dec n)) = (if n < 2 ^ 64 then Inr n else Inl PosOverflow)"
proof (induction n rule: dec.induct)
  case (1 n)
  have last: "parse_digits a [48 + n mod 10] =
      (if a * 10 + n mod 10 < 2 ^ 64 then Inr (a * 10 + n mod 10) else Inl PosOverflow)" for a
    by (simp add: is_ascii_digit_def)
  show ?case
  proof (cases "n < 10")
    case True
    then show ?thesis using last [of 0] by (simp add: dec.simps [of n] unat_digit del: of_nat_add)
  next
    case False
    have "map unat (dec n) = map unat (dec (n div 10)) @ [48 + n mod 10]"
      using False by (simp add: dec.simps [of n] unat_digit del: of_nat_add)
    moreover have "n div 10 * 10 + n mod 10 = n" by simp
    moreover have "n < 2 ^ 64 \<Longrightarrow> n div 10 < 2 ^ 64" by linarith
    ultimately show ?thesis using 1 [OF False] last [of "n div 10"]
      by (auto simp: parse_digits_append simp del: div_mult_mod_eq)
  qed
qed

lemma dec_nonempty: "dec n \<noteq> []"
  by (simp add: dec.simps [of n])

lemma parse_u64_dec: "parse_u64 (map unat (dec n)) = (if n < 2 ^ 64 then Inr n else Inl PosOverflow)"
proof -
  let ?s = "map unat (dec n)"
  obtain c cs where s: "?s = c # cs" using dec_nonempty [of n] by (cases ?s) auto
  then have "is_ascii_digit c" using dec_ascii_digits [of c n] by simp
  then have "parse_u64 ?s = parse_digits 0 ?s" by (auto simp: parse_u64_def s is_ascii_digit_def split: list.split)
  then show ?thesis by (simp add: parse_digits_dec)
qed

lemma trim_id:
  assumes "s = [] \<or> \<not> is_whitespace (hd s) \<and> \<not> is_whitespace (last s)"
  shows "trim s = s"
proof (cases "s = []")
  case False
  then have "dropWhile is_whitespace s = s" "dropWhile is_whitespace (rev s) = rev s"
    using assms by (simp_all add: dropWhile_eq_self_iff hd_rev)
  then show ?thesis by (simp add: trim_def)
qed (simp add: trim_def)

lemma digit_not_space: "is_ascii_digit c \<Longrightarrow> \<not> is_whitespace c"
  by (auto simp: is_ascii_digit_def is_whitespace_def)

definition size_units :: "(chars \<times> nat) set" where
  "size_units = {([], 1), (lit ''K'', 2 ^ 10), (lit ''k'', 2 ^ 10), (lit ''M'', 2 ^ 20), (lit ''m'', 2 ^ 20),
     (lit ''G'', 2 ^ 30), (lit ''g'', 2 ^ 30)}"

text \<open>
  A decimal number with or without a suffix is that many units, and a product that does not fit
  64 bits is refused, never wrapped.
\<close>

lemma parse_size_scales:
  assumes "(suffix, mul) \<in> size_units"
  shows "parse_size (map unat (dec n) @ suffix) =
    (if 2 ^ 64 \<le> n then Inl (NotInt PosOverflow)
     else if n = 0 then Inl ZeroCapacity
     else if n * mul < 2 ^ 64 then Inr (n * mul) else Inl (SizeTooLarge (map unat (dec n) @ suffix)))"
proof -
  let ?d = "map unat (dec n)"
  have d: "?d \<noteq> []" "is_ascii_digit (hd ?d)" "is_ascii_digit (last ?d)"
    using dec_nonempty [of n] dec_ascii_digits [of _ n] by (auto simp: hd_map last_map)
  have t: "trim ?d = ?d" using d digit_not_space by (intro trim_id) blast
  have "hd (?d @ suffix) = hd ?d" using d(1) by simp
  moreover have "suffix = [] \<or> \<not> is_whitespace (last suffix)"
    using assms by (auto simp: size_units_def lit_def is_whitespace_def)
  ultimately have ts: "trim (?d @ suffix) = ?d @ suffix"
    using d digit_not_space by (intro trim_id) (auto simp: last_append)
  have "size_split (?d @ suffix) = Some (?d, mul)"
  proof (cases "suffix = []")
    case True
    with assms d show ?thesis by (auto simp: size_split_def size_units_def lit_def)
  next
    case False
    with assms show ?thesis unfolding size_units_def
      by (elim insertE emptyE) (simp_all add: size_split_def lit_def is_ascii_digit_def)
  qed
  moreover have "parse_u64 (trim ?d) = (if n < 2 ^ 64 then Inr n else Inl PosOverflow)" by (simp only: t parse_u64_dec)
  moreover have "mul \<noteq> 0" using assms by (auto simp: size_units_def)
  ultimately show ?thesis unfolding parse_size_def ts Let_def by simp
qed

lemma parse_digits_bound: "parse_digits acc s = Inr n \<Longrightarrow> acc < 2 ^ 64 \<Longrightarrow> n < 2 ^ 64"
  by (induction acc s rule: parse_digits.induct) (auto simp: Let_def split: if_splits)

lemma parse_u64_bound: "parse_u64 s = Inr n \<Longrightarrow> n < 2 ^ 64"
  by (auto simp: parse_u64_def simp del: parse_digits.simps dest: parse_digits_bound split: list.splits if_splits)

lemma parse_nonzero_bound: "parse_nonzero s = Inr n \<Longrightarrow> 0 < n \<and> n < 2 ^ 64"
  by (auto simp: parse_nonzero_def dest: parse_u64_bound split: sum.splits if_splits)

lemma parse_size_bound: "parse_size s = Inr n \<Longrightarrow> 0 < n \<and> n < 2 ^ 64"
  by (auto simp: parse_size_def Let_def split: option.splits prod.splits sum.splits if_splits)

section \<open>What a configuration is\<close>

lemma map_sum_eq [simp]:
  "map_sum f g r = Inr y \<longleftrightarrow> (\<exists>x. r = Inr x \<and> g x = y)" "map_sum f g r = Inl e \<longleftrightarrow> (\<exists>x. r = Inl x \<and> f x = e)"
  by (cases r; auto)+

lemma map_sum_id_Inr: "map_sum f id r = Inr y \<longleftrightarrow> r = Inr y"
  by (cases r) auto

text \<open>Where a value comes from: the variable, or the default when there is no Unicode value.\<close>

lemma env_get_Inr:
  "env_get vars name fb parse = Inr v \<longleftrightarrow>
     (\<exists>t. (vars name = Value t \<or> (\<forall>u. vars name \<noteq> Value u) \<and> fb = Some t) \<and> parse t = Inr v)"
  by (auto simp: env_get_def split: env_var.split option.split)

lemma env_get_Inl:
  "env_get vars name fb parse = Inl e \<longleftrightarrow>
     (\<exists>t x. vars name = Value t \<and> parse t = Inl x \<and> e = BadValue name x) \<or>
     (\<forall>u. vars name \<noteq> Value u) \<and> (case fb of None \<Rightarrow> e = Missing name | Some t \<Rightarrow> \<exists>x. parse t = Inl x \<and> e = BadDefault x)"
  by (auto simp: env_get_def split: env_var.split option.split)

lemma env_opt_Inl:
  "env_opt vars name parse = Inl e \<longleftrightarrow>
     (\<exists>t x. vars name = Value t \<and> parse t = Inl x \<and> e = BadValue name x) \<or> vars name = NotUnicode \<and> e = Missing name"
  by (cases "vars name") (auto simp: env_opt_def env_get_def split: sum.split)

lemma from_env_ok:
  fixes parse_addr :: "chars \<Rightarrow> 'a + 'b"
  assumes "from_env parse_addr vars = Inr c"
  shows "vars ''OXICACHE_TOKEN'' = Value (cf_token c)" and "cf_token c \<noteq> []"
    and "0 < cf_capacity c \<and> cf_capacity c < 2 ^ 64" and "0 < cf_idle_timeout c \<and> cf_idle_timeout c < 2 ^ 64"
    and "0 < cf_max_conns c \<and> cf_max_conns c < 2 ^ 64"
proof -
  from assms [unfolded from_env_def bindE_Inr_iff Let_def] obtain tcp http cap tok idle conns cert where
    f: "env_get vars ''OXICACHE_CAPACITY'' (Some DEFAULT_CAPACITY) parse_size = (Inr cap :: 'a config_error + nat)"
      "env_get vars ''OXICACHE_TOKEN'' None parse_token = (Inr tok :: 'a config_error + chars)"
      "env_get vars ''OXICACHE_IDLE_TIMEOUT'' (Some (map unat (dec DEFAULT_IDLE_TIMEOUT)))
         (\<lambda>s. map_sum NotInt id (parse_nonzero s)) = (Inr idle :: 'a config_error + nat)"
      "env_get vars ''OXICACHE_MAX_CONNS'' (Some (map unat (dec DEFAULT_MAX_CONNECTIONS)))
         (\<lambda>s. map_sum NotInt id (parse_nonzero s)) = (Inr conns :: 'a config_error + nat)"
    and c: "Inr \<lparr>cf_tcp_addr = tcp, cf_http_addr = http, cf_capacity = cap, cf_token = tok,
      cf_idle_timeout = idle, cf_max_conns = conns, cf_tls_cert = cert\<rparr> = Inr c" by blast
  from c have e: "cf_capacity c = cap" "cf_token c = tok" "cf_idle_timeout c = idle" "cf_max_conns c = conns" by auto
  show "vars ''OXICACHE_TOKEN'' = Value (cf_token c)" "cf_token c \<noteq> []"
    using f(2) unfolding e env_get_Inr by (auto simp: parse_token_def split: if_splits)
  show "0 < cf_capacity c \<and> cf_capacity c < 2 ^ 64"
    using f(1) unfolding e env_get_Inr by (auto dest: parse_size_bound)
  show "0 < cf_idle_timeout c \<and> cf_idle_timeout c < 2 ^ 64" "0 < cf_max_conns c \<and> cf_max_conns c < 2 ^ 64"
    using f(3,4) unfolding e env_get_Inr by (auto dest: parse_nonzero_bound)
qed

lemma utf8_nonempty: "s \<noteq> [] \<Longrightarrow> utf8 s \<noteq> []"
  by (cases s) (simp_all add: utf8_def utf8_char_def)

lemma front_bind_Inr: "front_bind listener addr opts = Inr f \<Longrightarrow> shared_new opts = Inr (fr_shared f)"
  by (auto simp: front_bind_def split: sum.splits bind_error.splits)

text \<open>What \<open>start\<close> ends with: the cache, and the shared state of either front end.\<close>

lemma start_Inr:
  fixes parse_addr :: "chars \<Rightarrow> 'e + 'a" and listener :: "'a \<Rightarrow> 'i + 'l" and cert_config :: "chars \<Rightarrow> 'c + 't"
  assumes "start max_permits parse_addr cert_config listener now parallelism vars = Inr r"
  obtains c tls where "from_env parse_addr vars = Inr c" "cf_max_conns c \<le> max_permits"
    "sr_cache r = cache_new (cf_capacity c) (case parallelism of Some n \<Rightarrow> n | None \<Rightarrow> 1)"
    "shared_new (config_options now c tls) = Inr (fr_shared (sr_tcp r))" "(sr_http r = None) = (cf_http_addr c = None)"
    "\<forall>f. sr_http r = Some f \<longrightarrow> shared_new (config_options now c tls) = Inr (fr_shared f)"
proof -
  from assms [unfolded start_def bindE_Inr_iff map_sum_id_Inr Let_def]
  obtain c u tls tcp http where c: "from_env parse_addr vars = Inr c" and
    p: "(if cf_max_conns c \<le> max_permits then Inr () else Inl (TooManyPermits (cf_max_conns c))) =
      (Inr u :: ('a, 'e, 'i, 'c) server_error + unit)" and
    t: "front_bind listener (cf_tcp_addr c) (config_options now c tls) = (Inr tcp :: ('a, 'e, 'i, 'c) server_error + _)" and
    h: "(case cf_http_addr c of None \<Rightarrow> Inr None
      | Some a \<Rightarrow> map_sum id Some (front_bind listener a (config_options now c tls))) = (Inr http :: ('a, 'e, 'i, 'c) server_error + _)" and
    r: "Inr \<lparr>sr_cache = cache_new (cf_capacity c) (case parallelism of Some n \<Rightarrow> n | None \<Rightarrow> 1), sr_tcp = tcp, sr_http = http\<rparr> = Inr r"
    by blast
  show thesis
  proof (rule that [OF c])
    show "(sr_http r = None) = (cf_http_addr c = None)" using h r by (auto split: option.splits)
    show "\<forall>f. sr_http r = Some f \<longrightarrow> shared_new (config_options now c tls) = Inr (fr_shared f)"
      using h r by (auto dest: front_bind_Inr split: option.splits)
  qed (use t r p in \<open>auto dest: front_bind_Inr split: if_splits\<close>)
qed

text \<open>
  C31. A server that starts, starts as it was configured and sound. The token is the value of its
  variable and not empty, so no front end is ever bound without one; capacity, idle timeout and
  connection limit are between 1 and \<open>2 ^ 64\<close>; both front ends serve with the same token, timeout,
  limit and certificate; and the cache satisfies the invariant every later theorem starts from,
  holds nothing, and has shards that together fit the capacity configured.
\<close>

theorem start_is_sound:
  assumes "start max_permits parse_addr cert_config listener now parallelism vars = Inr r"
    and "\<And>n. parallelism = Some n \<Longrightarrow> 0 < n \<and> n \<le> 2 ^ 63" and "world_ok W (mem_new t)"
  shows "\<exists>c. from_env parse_addr vars = Inr c \<and> vars ''OXICACHE_TOKEN'' = Value (cf_token c) \<and>
    sd_token (fr_shared (sr_tcp r)) = utf8 (cf_token c) \<and> utf8 (cf_token c) \<noteq> [] \<and>
    sd_idle_timeout (fr_shared (sr_tcp r)) = Some (cf_idle_timeout c) \<and> cf_idle_timeout c \<in> {1 ..< 2 ^ 64} \<and>
    sd_limit (fr_shared (sr_tcp r)) = Some (limit_new (cf_max_conns c)) \<and> cf_max_conns c \<in> {1 ..< 2 ^ 64} \<and> cf_max_conns c \<le> max_permits \<and>
    (sr_http r = None \<longleftrightarrow> cf_http_addr c = None) \<and> (\<forall>f. sr_http r = Some f \<longrightarrow> fr_shared f = fr_shared (sr_tcp r)) \<and>
    ca_capacity (sr_cache r) = cf_capacity c \<and> cf_capacity c \<in> {1 ..< 2 ^ 64} \<and>
    cache_inv H (\<lambda>_. 0) W (sr_cache r, mem_new t) \<and> cache_view H (sr_cache r) (mem_new t) = Map.empty \<and>
    sum_list (map sh_capacity (ca_shards (sr_cache r))) \<le> cf_capacity c"
proof -
  define n where "n = (case parallelism of Some n \<Rightarrow> n | None \<Rightarrow> 1)"
  obtain c tls where c: "from_env parse_addr vars = Inr c" and p: "cf_max_conns c \<le> max_permits" and r: "sr_cache r = cache_new (cf_capacity c) n"
      "shared_new (config_options now c tls) = Inr (fr_shared (sr_tcp r))" "(sr_http r = None) = (cf_http_addr c = None)"
      "\<forall>f. sr_http r = Some f \<longrightarrow> shared_new (config_options now c tls) = Inr (fr_shared f)"
    using assms(1) unfolding n_def by (rule start_Inr)
  have n: "0 < n" "n \<le> 2 ^ 63" using assms(2) by (cases parallelism; simp add: n_def)+
  note rep = cache_new_rep [OF n, where cap = "cf_capacity c"]
  let ?N = "next_power_of_two n"
  have "sum_list (map sh_capacity (ca_shards (sr_cache r))) = sum_list (map (\<lambda>_. cf_capacity c div ?N) (ca_shards (sr_cache r)))"
    unfolding r(1) by (intro arg_cong [of _ _ sum_list] map_cong) (simp_all add: rep(3))
  also have "\<dots> = ?N * (cf_capacity c div ?N)" unfolding r(1) sum_list_triv rep(4) by simp
  finally have sum: "sum_list (map sh_capacity (ca_shards (sr_cache r))) \<le> cf_capacity c" by simp
  have inv: "cache_inv H (\<lambda>_. 0) W (sr_cache r, mem_new t)" "cache_view H (sr_cache r) (mem_new t) = Map.empty"
    using rep(1,2) assms(3) r(1) by (auto simp: cache_inv_def)
  have fields: "fr_shared (sr_tcp r) = \<lparr>sd_token = utf8 (cf_token c), sd_idle_timeout = Some (cf_idle_timeout c),
      sd_limit = Some (limit_new (cf_max_conns c)), sd_tls = tls, sd_metrics = metrics_new now\<rparr>"
    using r(2) by (auto simp: shared_new_def config_options_def with_tls_def with_max_connections_def with_idle_timeout_def
        options_new_def split: if_splits)
  have "ca_capacity (sr_cache r) = cf_capacity c" by (simp add: r(1) cache_new_def Let_def)
  moreover have "\<forall>f. sr_http r = Some f \<longrightarrow> fr_shared f = fr_shared (sr_tcp r)" using r(2,4) by auto
  ultimately show ?thesis using from_env_ok [OF c] p utf8_nonempty c fields r(3) inv sum
    by (intro exI [of _ c]) simp
qed

section \<open>Errors\<close>

text \<open>A certificate is served only when every certificate of the file was read, in order, and its key.\<close>

lemma server_config_complete:
  "server_config read pem_io iter from_pem build pem = Inr t \<longleftrightarrow>
     (\<exists>bs chain key. read pem = Inr bs \<and> iter bs = map Inr chain \<and> from_pem bs = Inr key \<and> build chain key = Inr t)"
  by (auto simp: server_config_def bindE_Inr_iff map_sum_id_Inr collect_results_Inr)

lemma defaults_parse:
  "parse_size DEFAULT_CAPACITY = Inr (2 ^ 30)"
  "parse_nonzero (map unat (dec DEFAULT_IDLE_TIMEOUT)) = Inr 300"
  "parse_nonzero (map unat (dec DEFAULT_MAX_CONNECTIONS)) = Inr 10000"
proof -
  have "DEFAULT_CAPACITY = map unat (dec 1) @ lit ''G''"
    by (simp add: DEFAULT_CAPACITY_def lit_def dec.simps [of "Suc 0"])
  then show "parse_size DEFAULT_CAPACITY = Inr (2 ^ 30)"
    using parse_size_scales [of "lit ''G''" "2 ^ 30" 1] by (simp add: size_units_def)
  show "parse_nonzero (map unat (dec DEFAULT_IDLE_TIMEOUT)) = Inr 300"
    "parse_nonzero (map unat (dec DEFAULT_MAX_CONNECTIONS)) = Inr 10000"
    by (simp_all add: parse_nonzero_def parse_u64_dec DEFAULT_IDLE_TIMEOUT_def KEEPALIVE_def DEFAULT_MAX_CONNECTIONS_def)
qed

text \<open>
  An error of the configuration is about a variable that is set, and names it, or says that the
  token is missing: the defaults are sound.
\<close>

lemma config_error_named:
  fixes parse_addr :: "chars \<Rightarrow> 'a + 'b"
  assumes "from_env parse_addr vars = Inl e" and "parse_addr DEFAULT_TCP_ADDR = Inr a"
  shows "(\<exists>name t x. e = BadValue name x \<and> vars name = Value t) \<or>
    (\<exists>name. e = Missing name \<and> (vars name = NotUnicode \<or> name = ''OXICACHE_TOKEN'' \<and> vars name = Unset))"
proof -
  have u: "(\<forall>u. vars name \<noteq> Value u) \<longleftrightarrow> vars name = Unset \<or> vars name = NotUnicode" for name
    by (cases "vars name") auto
  have fb: "map_sum NotAddr id (parse_addr DEFAULT_TCP_ADDR) = (Inr a :: 'a value_error + 'b)"
    "parse_size DEFAULT_CAPACITY = (Inr (2 ^ 30) :: 'a value_error + nat)"
    "map_sum NotInt id (parse_nonzero (map unat (dec DEFAULT_IDLE_TIMEOUT))) = (Inr 300 :: 'a value_error + nat)"
    "map_sum NotInt id (parse_nonzero (map unat (dec DEFAULT_MAX_CONNECTIONS))) = (Inr 10000 :: 'a value_error + nat)"
    using assms(2) by (simp_all add: defaults_parse)
  from assms(1) [unfolded from_env_def bindE_Inl_iff Let_def env_get_Inl env_opt_Inl u] fb show ?thesis
    by (elim disjE exE conjE) (simp_all; blast)+
qed

lemma env_get_not_unicode: "env_get (vars(name := NotUnicode)) n fb p = env_get (vars(name := Unset)) n fb p"
  by (simp add: env_get_def)

lemma env_opt_other: "n \<noteq> name \<Longrightarrow> env_opt (vars(name := x)) n p = env_opt vars n p"
  by (simp only: env_opt_def env_get_def fun_upd_other simp_thms)

text \<open>
  A value that is not Unicode counts as no value where there is a default: the server starts, with
  the default instead of what was set.
\<close>

lemma not_unicode_is_default:
  assumes "name \<in> {''OXICACHE_TCP_ADDR'', ''OXICACHE_CAPACITY'', ''OXICACHE_IDLE_TIMEOUT'', ''OXICACHE_MAX_CONNS''}"
  shows "from_env parse_addr (vars(name := NotUnicode)) = from_env parse_addr (vars(name := Unset))"
  using assms unfolding from_env_def
  by (elim insertE emptyE) (simp_all add: env_get_not_unicode env_opt_other)

text \<open>Any idle timeout of 64 bits is accepted.\<close>

lemma idle_timeout_unbounded: "0 < n \<Longrightarrow> n < 2 ^ 64 \<Longrightarrow> parse_nonzero (map unat (dec n)) = Inr n"
  by (simp add: parse_nonzero_def parse_u64_dec)

section \<open>A start\<close>

definition demo_vars :: environment where
  "demo_vars = (\<lambda>_. Unset)(''OXICACHE_TOKEN'' := Value (lit ''s''), ''OXICACHE_CAPACITY'' := Value (lit ''2M''))"

definition demo_start :: "(chars, unit, unit, unit) server_error + (chars, unit) started" where
  "demo_start = start (2 ^ 61 - 1) Inr (\<lambda>_. Inr ()) Inr 0 (Some 1) demo_vars"

lemma demo_config:
  "from_env (Inr :: chars \<Rightarrow> unit + chars) demo_vars =
     Inr \<lparr>cf_tcp_addr = DEFAULT_TCP_ADDR, cf_http_addr = None, cf_capacity = 2 ^ 21, cf_token = lit ''s'',
       cf_idle_timeout = 300, cf_max_conns = 10000, cf_tls_cert = None\<rparr>"
proof -
  have "lit ''2M'' = map unat (dec 2) @ lit ''M''" by (simp add: lit_def dec.simps [of 2])
  then have "parse_size (lit ''2M'') = (Inr (2 ^ 21) :: unit value_error + nat)"
    using parse_size_scales [of "lit ''M''" "2 ^ 20" 2] by (simp add: size_units_def)
  then show ?thesis
    by (simp add: from_env_def env_get_def env_opt_def demo_vars_def defaults_parse parse_token_def)
      (simp add: lit_def)
qed

theorem start_is_sound_witness:
  "\<exists>r. demo_start = Inr r \<and> sd_token (fr_shared (sr_tcp r)) = [115] \<and> ca_capacity (sr_cache r) = 2 ^ 21 \<and>
     cache_inv (\<lambda>_. 5) (\<lambda>_. 0) demo_world (sr_cache r, mem_new 1)"
proof -
  have "\<exists>r. demo_start = Inr r"
    by (simp add: demo_start_def start_def demo_config Let_def front_bind_def shared_new_def config_options_def
        with_tls_def with_max_connections_def with_idle_timeout_def options_new_def utf8_def utf8_char_def lit_def)
  then obtain r where r: "demo_start = Inr r" by blast
  from start_is_sound [OF r [unfolded demo_start_def] _ demo_world_ok, of "\<lambda>_. 5"] demo_config r show ?thesis
    by (auto simp: utf8_def utf8_char_def lit_def)
qed

end
