(* ===== verification/Metrics.thy ===== *)
theory Metrics
  imports Dispatch Conn_Limit
begin

text \<open>
  \<open>Metrics::render\<close> of \<^verbatim>\<open>crates/server/src/metrics.rs\<close>: every counter in the Prometheus text
  format. The version is the build's and a parameter; the clock counts nanoseconds.
\<close>

text \<open>The closure \<open>metric\<close>: name, kind, help text and value, as it formats them.\<close>

type_synonym sample = "bytes \<times> bytes \<times> bytes \<times> nat"

abbreviation newline :: u8 where "newline \<equiv> 10"

definition metric :: "sample \<Rightarrow> bytes" where
  "metric = (\<lambda>(name, kind, help, value).
     str ''# HELP '' @ name @ str '' '' @ help @ [newline] @
     str ''# TYPE '' @ name @ str '' '' @ kind @ [newline] @
     name @ str '' '' @ dec value @ [newline])"

abbreviation counter :: "string \<Rightarrow> string \<Rightarrow> nat \<Rightarrow> sample" where
  "counter name help value \<equiv> (str name, str ''counter'', str help, value)"

abbreviation gauge :: "string \<Rightarrow> string \<Rightarrow> nat \<Rightarrow> sample" where
  "gauge name help value \<equiv> (str name, str ''gauge'', str help, value)"

definition uptime_secs :: "nat \<Rightarrow> metrics \<Rightarrow> nat" where
  "uptime_secs now me = (now - me_start me) div 10 ^ 9"

definition samples :: "nat \<Rightarrow> metrics \<Rightarrow> stats \<Rightarrow> conn_limit option \<Rightarrow> sample list" where
  "samples now me s limit =
     [counter ''oxicache_get_hits_total'' ''GET requests answered with a value'' (cs_get_hits s),
      counter ''oxicache_get_misses_total'' ''GET requests answered not found'' (cs_get_misses s),
      counter ''oxicache_del_hits_total'' ''DEL requests that removed an entry'' (cs_del_hits s),
      counter ''oxicache_del_misses_total'' ''DEL requests answered not found'' (cs_del_misses s),
      counter ''oxicache_evictions_total'' ''Live entries evicted to make room for new ones'' (cs_evictions s),
      counter ''oxicache_set_too_large_total''
        ''SET requests refused because the entry exceeds the per-shard capacity'' (me_set_too_large me),
      counter ''oxicache_auth_failures_total'' ''Requests refused for a wrong or missing token''
        (me_auth_failures me),
      gauge ''oxicache_used_bytes'' ''Bytes held by cached entries, bookkeeping included'' (cs_used_bytes s),
      gauge ''oxicache_capacity_bytes'' ''Configured memory budget for cached entries'' (cs_capacity s),
      gauge ''oxicache_items'' ''Entries currently cached'' (cs_items s)] @
     (case limit of
        None \<Rightarrow> []
      | Some l \<Rightarrow>
          [gauge ''oxicache_open_connections'' ''Connections currently open, TCP and HTTP together'' (cl_open l),
           gauge ''oxicache_max_connections'' ''Configured cap on open connections'' (cl_max l),
           counter ''oxicache_accept_waits_total'' ''Accepts that had to wait for a free connection slot''
             (cl_hits l)]) @
     [gauge ''oxicache_uptime_seconds'' ''Seconds since the server started'' (uptime_secs now me)]"

definition build_info :: "bytes \<Rightarrow> bytes" where
  "build_info version =
     str ''# HELP oxicache_build_info Server version, as a label'' @ [newline] @
     str ''# TYPE oxicache_build_info gauge'' @ [newline] @
     str ''oxicache_build_info{version='' @ [34] @ version @ [34] @ str ''} 1'' @ [newline]"

definition render :: "bytes \<Rightarrow> nat \<Rightarrow> metrics \<Rightarrow> cache \<Rightarrow> conn_limit option \<Rightarrow> bytes" where
  "render version now me c limit =
     concat (map metric (samples now me (cache_stats c) limit)) @ build_info version"

section \<open>Reading it back\<close>

text \<open>A scraper: the lines of a text, and the samples among them.\<close>

fun lines_from :: "bytes \<Rightarrow> bytes \<Rightarrow> bytes list" where
  "lines_from acc [] = (if acc = [] then [] else [acc])"
| "lines_from acc (b # bs) = (if b = newline then acc # lines_from [] bs else lines_from (acc @ [b]) bs)"

definition sample_lines :: "bytes \<Rightarrow> bytes list" where
  "sample_lines t = filter (\<lambda>l. l \<noteq> [] \<and> hd l \<noteq> 35) (lines_from [] t)"

lemma lines_from_line: "newline \<notin> set l \<Longrightarrow> lines_from acc (l @ newline # rest) = (acc @ l) # lines_from [] rest"
  by (induction l arbitrary: acc) auto

lemma dec_newline: "newline \<notin> set (dec n)"
  using dec_bytes by fastforce

text \<open>A sample whose texts are single lines and whose name starts none of the comments.\<close>

definition sample_ok :: "sample \<Rightarrow> bool" where
  "sample_ok = (\<lambda>(name, kind, help, _). newline \<notin> set name \<and> newline \<notin> set kind \<and> newline \<notin> set help \<and>
     name \<noteq> [] \<and> hd name \<noteq> 35)"

lemma sample_lines_metric:
  assumes "sample_ok x"
  shows "sample_lines (metric x @ rest) = (fst x @ str '' '' @ dec (snd (snd (snd x)))) # sample_lines rest"
proof -
  obtain name kind hp v where x: "x = (name, kind, hp, v)" by (rule prod_cases4)
  let ?h = "str ''# HELP '' @ name @ str '' '' @ hp" and ?t = "str ''# TYPE '' @ name @ str '' '' @ kind"
    and ?s = "name @ str '' '' @ dec v"
  have n: "newline \<notin> set ?h" "newline \<notin> set ?t" "newline \<notin> set ?s"
    using assms dec_newline by (auto simp: sample_ok_def x str_def)
  have "metric x @ rest = ?h @ newline # ?t @ newline # ?s @ newline # rest" by (simp add: metric_def x)
  then have "lines_from [] (metric x @ rest) = ?h # ?t # ?s # lines_from [] rest"
    using lines_from_line [OF n(1), of "[]"] lines_from_line [OF n(2), of "[]"] lines_from_line [OF n(3), of "[]"] by simp
  moreover have "hd ?h = 35" "hd ?t = 35" "?s \<noteq> []" "hd ?s \<noteq> 35"
    using assms by (auto simp: sample_ok_def x str_def hd_append)
  ultimately show ?thesis by (simp add: sample_lines_def x)
qed

lemma sample_lines_metrics:
  "\<forall>x \<in> set xs. sample_ok x \<Longrightarrow> sample_lines (concat (map metric xs) @ rest) =
   map (\<lambda>x. fst x @ str '' '' @ dec (snd (snd (snd x)))) xs @ sample_lines rest"
  by (induction xs) (simp_all add: sample_lines_metric)

lemma samples_ok: "\<forall>x \<in> set (samples now me s limit). sample_ok x"
  by (cases limit) (simp_all add: samples_def sample_ok_def str_def)

text \<open>
  What is served at \<^verbatim>\<open>/metrics\<close> reads back: the sample lines of the rendered text are, in order,
  one line with the name and the value of every counter and gauge, and the build line. The
  help and type lines are comments.
\<close>

lemma render_reads_back:
  assumes "newline \<notin> set version"
  shows "sample_lines (render version now me c limit) =
    map (\<lambda>x. fst x @ str '' '' @ dec (snd (snd (snd x)))) (samples now me (cache_stats c) limit) @
    [str ''oxicache_build_info{version='' @ [34] @ version @ [34] @ str ''} 1'']"
proof -
  let ?h = "str ''# HELP oxicache_build_info Server version, as a label''" and ?t = "str ''# TYPE oxicache_build_info gauge''"
    and ?s = "str ''oxicache_build_info{version='' @ [34] @ version @ [34] @ str ''} 1''"
  have n: "newline \<notin> set ?h" "newline \<notin> set ?t" "newline \<notin> set ?s" using assms by (simp_all add: str_def)
  have "build_info version = ?h @ newline # ?t @ newline # ?s @ newline # []" by (simp add: build_info_def)
  then have "lines_from [] (build_info version) = [?h, ?t, ?s]"
    using lines_from_line [OF n(1), of "[]"] lines_from_line [OF n(2), of "[]"] lines_from_line [OF n(3), of "[]" "[]"] by simp
  then have "sample_lines (build_info version) = [?s]" by (simp add: sample_lines_def str_def)
  then show ?thesis using sample_lines_metrics [OF samples_ok] by (simp add: render_def)
qed

end
