(* ===== verification/Http.thy ===== *)
theory Http
  imports Connection Metrics
begin

text \<open>
  The HTTP front end's \<open>handle\<close> of \<^verbatim>\<open>crates/server/src/http.rs\<close>: the same operations as over TCP,
  one per exchange. The HTTP machinery is hyper's; a request is what \<open>handle\<close> reads of it. Reading
  the body through \<open>Limited\<close> is third-party code and a parameter of the request, with its
  documented contract as a hypothesis where it matters: a body that is returned is within the
  limit.
\<close>

section \<open>Requests and responses\<close>

datatype body_error = LengthLimit | BodyError bytes

record http_request =
  rq_path :: bytes
  rq_method :: bytes
  rq_authorization :: "bytes option"
  rq_claimed :: nat
  rq_collect :: "nat \<Rightarrow> body_error + bytes"

record http_response =
  hs_code :: nat
  hs_body :: bytes
  hs_close :: bool

definition http_reply :: "nat \<Rightarrow> bytes \<Rightarrow> http_response" where
  "http_reply code body = \<lparr>hs_code = code, hs_body = body, hs_close = False\<rparr>"

definition closing :: "http_response \<Rightarrow> http_response" where
  "closing res = res\<lparr>hs_close := True\<rparr>"

definition strip_prefix :: "bytes \<Rightarrow> bytes \<Rightarrow> bytes option" where
  "strip_prefix p v = (if take (length p) v = p then Some (drop (length p) v) else None)"

definition authorized :: "http_request \<Rightarrow> bytes \<Rightarrow> bool" where
  "authorized req token =
     (case Option.bind (rq_authorization req) (strip_prefix (str ''Bearer '')) of
        None \<Rightarrow> False
      | Some t \<Rightarrow> ct_eq token t)"

definition path_op :: "bytes \<Rightarrow> op option" where
  "path_op p =
     (if p = str ''/get'' then Some Get else if p = str ''/set'' then Some Set
      else if p = str ''/del'' then Some Del else if p = str ''/batch'' then Some Batch
      else if p = str ''/ping'' then Some Ping else None)"

fun http_code :: "status option \<Rightarrow> nat" where
  "http_code (Some Ok) = 200"
| "http_code (Some NotFound) = 404"
| "http_code (Some BadRequest) = 400"
| "http_code (Some TooLarge) = 413"
| "http_code (Some Unauthorized) = 401"
| "http_code (Some UnknownOp) = 500"
| "http_code None = 500"

section \<open>Handling a request\<close>

text \<open>The response is drained into one buffer; the pieces it was queued in are gone with it.\<close>

definition sv_take :: "world \<Rightarrow> server \<Rightarrow> bytes \<times> server" where
  "sv_take W s = (let (raw, w) = fw_take_bytes (sv_out s) in (raw, release_kept W (s\<lparr>sv_out := w\<rparr>)))"

text \<open>Serving an operation through a writer of its own; the slice of the header panics when short.\<close>

definition serve_op ::
  "(bytes \<Rightarrow> u64) \<Rightarrow> world \<Rightarrow> op \<Rightarrow> bytes \<Rightarrow> server \<Rightarrow> (http_response \<times> server) option" where
  "serve_op H W op body s =
     (case dispatch H W (op_u8 op) body (s\<lparr>sv_out := fw_new\<rparr>) of
        None \<Rightarrow> None
      | Some s1 \<Rightarrow>
          let (raw, s2) = sv_take W s1
          in if length raw < HEADER_LEN then None
             else let (status, len) = decode_header (take HEADER_LEN raw)
                  in Some (http_reply (http_code (status_from_u8 status)) (drop HEADER_LEN raw), s2))"

definition unauthorized :: "server \<Rightarrow> http_response \<times> server" where
  "unauthorized s =
     (closing (http_reply 401 (str ''auth required'')), s\<lparr>sv_metrics := count_auth_failure (sv_metrics s)\<rparr>)"

definition body_too_large_msg :: bytes where
  "body_too_large_msg = str ''frame body exceeds the limit of '' @ dec MAX_FRAME @ str '' bytes''"

definition http_handle ::
  "(bytes \<Rightarrow> u64) \<Rightarrow> world \<Rightarrow> bytes \<Rightarrow> nat \<Rightarrow> bytes \<Rightarrow> conn_limit option \<Rightarrow> http_request \<Rightarrow> server \<Rightarrow>
     (http_response \<times> server) option" where
  "http_handle H W version now token limit req s =
     (if rq_path req = str ''/health'' then Some (closing (http_reply 200 []), s)
      else if rq_path req = str ''/metrics''
      then (if rq_method req \<noteq> str ''GET'' then Some (closing (http_reply 405 (str ''use GET'')), s)
            else if \<not> authorized req token then Some (unauthorized s)
            else Some (http_reply 200 (render version now (sv_metrics s) (fst (sv_cache s)) limit), s))
      else case path_op (rq_path req) of
             None \<Rightarrow> Some (closing (http_reply 404 (str ''unknown path '' @ rq_path req)), s)
           | Some op \<Rightarrow>
               if rq_method req \<noteq> str ''POST'' then Some (closing (http_reply 405 (str ''use POST'')), s)
               else if \<not> authorized req token then Some (unauthorized s)
               else if rq_claimed req > MAX_FRAME
               then Some (http_reply 413 (frame_too_large_msg (FrameTooLarge (rq_claimed req))), s)
               else (case rq_collect req MAX_FRAME of
                       Inl LengthLimit \<Rightarrow> Some (http_reply 413 body_too_large_msg, s)
                     | Inl (BodyError msg) \<Rightarrow> Some (http_reply 400 msg, s)
                     | Inr body \<Rightarrow> serve_op H W op body s))"

section \<open>Properties\<close>

lemma sv_take_ok:
  assumes "srv_ok H W rd s"
  shows "fst (sv_take W s) = fw_bytes (sv_out s)" and "srv_ok H W rd (snd (sv_take W s))"
    and "sv_kept (snd (sv_take W s)) = []" and "sv_view H (snd (sv_take W s)) = sv_view H s"
proof -
  define w where "w = snd (fw_take_bytes (sv_out s))"
  have w: "fw_pieces w = []" "fw_inv w"
    using fw_take_bytes_spec [of "sv_out s"] assms by (auto simp: w_def srv_ok_def fw_inv_def fw_bytes_def)
  have st: "sv_take W s = (fw_bytes (sv_out s), release_kept W (s\<lparr>sv_out := w\<rparr>))"
    by (simp add: sv_take_def w_def fw_take_bytes_spec(1) case_prod_unfold Let_def)
  have "cache_inv H (held rd (sv_kept s)) W (sv_cache s)" using assms by (simp add: srv_ok_def)
  from release_kept_ok [of H rd "s\<lparr>sv_out := w\<rparr>" W] this w
  show "fst (sv_take W s) = fw_bytes (sv_out s)" "srv_ok H W rd (snd (sv_take W s))"
    "sv_kept (snd (sv_take W s)) = []" "sv_view H (snd (sv_take W s)) = sv_view H s" by (simp_all add: st)
qed

text \<open>The statuses a known operation is answered with.\<close>

lemma known_status:
  assumes "request_answer cap V (op_u8 op) body V' r"
  shows "\<exists>st. fst r = status_u8 st \<and> st \<in> {Ok, NotFound, BadRequest, TooLarge}"
proof (cases op)
  case Batch
  then show ?thesis using assms
    by (auto simp: request_answer_def batch_result_def Let_def split: sum.splits if_splits
        intro: exI [of _ Ok] exI [of _ BadRequest] exI [of _ TooLarge])
next
  case Set
  then show ?thesis using assms
    by (auto simp: request_answer_def item_reply_def set_result_def split: sum.splits if_splits
        intro: exI [of _ Ok] exI [of _ BadRequest] exI [of _ TooLarge])
next
  case Del
  then show ?thesis using assms
    by (auto simp: request_answer_def item_reply_def found_status_def split: if_splits
        intro: exI [of _ Ok] exI [of _ NotFound])
qed (use assms in \<open>auto simp: request_answer_def split: option.splits if_splits
  intro: exI [of _ Ok] exI [of _ NotFound] exI [of _ TooLarge]\<close>)

text \<open>The paths of the operations and the codes of the statuses they are answered with, written out.\<close>

lemma path_op_table:
  assumes "(p, op) \<in> {(str ''/get'', Get), (str ''/set'', Set), (str ''/del'', Del), (str ''/batch'', Batch), (str ''/ping'', Ping)}"
  shows "path_op p = Some op" and "p \<noteq> str ''/health''" and "p \<noteq> str ''/metrics''"
  using assms by (auto simp: path_op_def str_def)

lemma http_code_table:
  assumes "st \<in> {Ok, NotFound, BadRequest, TooLarge}"
  shows "(st, http_code (Some st)) \<in> {(Ok, 200), (NotFound, 404), (BadRequest, 400), (TooLarge, 413)}"
  using assms by auto

lemma decode_first: "fst (decode_header (take HEADER_LEN (encode_frame r @ x))) = fst r"
  by (simp add: encode_frame_def encode_header_def decode_header_def HEADER_LEN_def)

lemma serve_op_replies:
  assumes "srv_ok H W rd s" and "sv_kept s = []" and "serve_op H W op body s = Some (res, s')"
  shows "srv_ok H W rd s' \<and> sv_kept s' = [] \<and> \<not> hs_close res \<and>
    (\<exists>r st. request_answer (sv_cap s) (sv_view H s) (op_u8 op) body (sv_view H s') r \<and> fst r = status_u8 st \<and>
       hs_body res = snd r \<and> (st, hs_code res) \<in> {(Ok, 200), (NotFound, 404), (BadRequest, 400), (TooLarge, 413)})"
proof -
  let ?s = "s\<lparr>sv_out := fw_new\<rparr>"
  have ok: "srv_ok H W rd ?s" using assms(1,2) by (simp add: srv_ok_def fw_new_def with_inline_limit_def)
      (simp add: fw_inv_def fw_bytes_def INLINE_BODY_def)
  obtain s1 where d: "dispatch H W (op_u8 op) body ?s = Some s1" using assms(3) by (auto simp: serve_op_def split: option.splits)
  obtain r where r: "srv_ok H W rd s1" "request_answer (sv_cap s) (sv_view H s) (op_u8 op) body (sv_view H s1) r"
      "fw_bytes (sv_out s1) = encode_frame r"
    using dispatch_replied [OF ok d] by (auto simp: replied_def)
  obtain st where st: "fst r = status_u8 st" "st \<in> {Ok, NotFound, BadRequest, TooLarge}" using known_status [OF r(2)] by blast
  note t = sv_take_ok [OF r(1)]
  have len: "HEADER_LEN \<le> length (encode_frame r)" by simp
  have "fst (decode_header (take HEADER_LEN (encode_frame r))) = fst r" using decode_first [of r "[]"] by simp
  then have "res = http_reply (http_code (Some st)) (drop HEADER_LEN (encode_frame r))" "s' = snd (sv_take W s1)"
    using assms(3) d t(1) r(3) st(1) len by (auto simp: serve_op_def case_prod_unfold Let_def split: if_splits)
  then have "hs_body res = snd r" "hs_code res = http_code (Some st)" "\<not> hs_close res" "sv_view H s' = sv_view H s1"
      "srv_ok H W rd s'" "sv_kept s' = []" using t(2-4) by (simp_all add: http_reply_def encode_frame_def)
  then show ?thesis using r(2) st(1) http_code_table [OF st(2)] by (intro conjI exI [of _ r] exI [of _ st]) simp_all
qed

lemma serve_op_returns:
  assumes "srv_ok H W rd s" and "sv_kept s = []" and "\<not> stores (op_u8 op) body"
  shows "\<exists>res s'. serve_op H W op body s = Some (res, s')"
proof -
  let ?s = "s\<lparr>sv_out := fw_new\<rparr>"
  have ok: "srv_ok H W rd ?s" using assms(1,2) by (simp add: srv_ok_def fw_new_def with_inline_limit_def)
      (simp add: fw_inv_def fw_bytes_def INLINE_BODY_def)
  obtain s1 where d: "dispatch H W (op_u8 op) body ?s = Some s1" using dispatch_returns_aux [OF ok assms(3)] by blast
  obtain r where r: "srv_ok H W rd s1" "fw_bytes (sv_out s1) = encode_frame r"
    using dispatch_replied [OF ok d] by (auto simp: replied_def)
  have "HEADER_LEN \<le> length (fst (sv_take W s1))" using sv_take_ok(1) [OF r(1)] r(2) by simp
  then show ?thesis using d by (simp add: serve_op_def case_prod_unfold Let_def)
qed

text \<open>The header that authorizes is \<open>Bearer\<close>, a space and exactly the token.\<close>

lemma authorized_iff: "authorized req token \<longleftrightarrow> rq_authorization req = Some (str ''Bearer '' @ token)"
proof -
  have "strip_prefix p v = Some t \<longleftrightarrow> v = p @ t" for p v t
    by (auto simp: strip_prefix_def) (metis append_take_drop_id)
  moreover have "authorized req token \<longleftrightarrow>
      Option.bind (rq_authorization req) (strip_prefix (str ''Bearer '')) = Some token"
    by (auto simp: authorized_def ct_eq_iff split: option.split)
  ultimately show ?thesis by (simp add: bind_eq_Some_conv)
qed

text \<open>
  C24. Over HTTP an operation is answered as over TCP. A POST to \<open>/get\<close>, \<open>/set\<close>, \<open>/del\<close>, \<open>/batch\<close>
  or \<open>/ping\<close> that carries the bearer token and a body within the frame limit is answered as the
  frame of that operation with that body would be: the response's body is exactly the body of that
  frame's reply, and its code is 200, 404, 400 or 413 as the reply's status is \<open>Ok\<close>, \<open>NotFound\<close>,
  \<open>BadRequest\<close> or \<open>TooLarge\<close> (no other status occurs, so never the code of an internal error). The
  contents change as that operation changes them, and every handle taken for the response is given back.
\<close>

theorem http_answers_as_tcp:
  assumes "srv_ok H W rd s" and "sv_kept s = []"
    and "(rq_path req, op) \<in> {(str ''/get'', Get), (str ''/set'', Set), (str ''/del'', Del), (str ''/batch'', Batch), (str ''/ping'', Ping)}"
    and "rq_method req = str ''POST''" and "rq_authorization req = Some (str ''Bearer '' @ token)" and "rq_claimed req \<le> MAX_FRAME"
    and "rq_collect req MAX_FRAME = Inr body" and "http_handle H W version now token limit req s = Some (res, s')"
  shows "srv_ok H W rd s' \<and> sv_kept s' = [] \<and> \<not> hs_close res \<and>
    (\<exists>r st. request_answer (sv_cap s) (sv_view H s) (op_u8 op) body (sv_view H s') r \<and> fst r = status_u8 st \<and>
       hs_body res = snd r \<and> (st, hs_code res) \<in> {(Ok, 200), (NotFound, 404), (BadRequest, 400), (TooLarge, 413)})"
proof -
  have "serve_op H W op body s = Some (res, s')" using assms(4-8) path_op_table [OF assms(3)] by (simp add: http_handle_def authorized_iff)
  from serve_op_replies [OF assms(1,2) this] show ?thesis .
qed

text \<open>
  C25. Nothing is served over HTTP without the token. Whatever a request without the right bearer
  token asks, the cache is as before, the response closes the connection, and it is empty (the
  health probe) or a refusal.
\<close>

theorem http_requires_token:
  assumes "rq_authorization req \<noteq> Some (str ''Bearer '' @ token)"
  shows "\<exists>res s'. http_handle H W version now token limit req s = Some (res, s') \<and>
    sv_cache s' = sv_cache s \<and> sv_pending s' = sv_pending s \<and> sv_out s' = sv_out s \<and> hs_close res \<and>
    (hs_code res = 200 \<and> hs_body res = [] \<or> hs_code res \<in> {401, 404, 405})"
  using assms by (auto simp: http_handle_def authorized_iff unauthorized_def closing_def http_reply_def split: option.split)

definition demo_request :: http_request where
  "demo_request = \<lparr>rq_path = str ''/get'', rq_method = str ''POST'', rq_authorization = Some (str ''Bearer k''),
     rq_claimed = 1, rq_collect = (\<lambda>_. Inr [7])\<rparr>"

theorem http_answers_as_tcp_witness:
  "\<exists>res s'. http_handle (\<lambda>_. 5) demo_world [] 0 (str ''k'') None demo_request demo_server = Some (res, s') \<and>
     hs_code res = 404 \<and> hs_body res = []"
proof -
  have a: "rq_authorization demo_request = Some (str ''Bearer '' @ str ''k'')" by (simp add: demo_request_def str_def)
  have p: "(rq_path demo_request, Get) \<in> {(str ''/get'', Get), (str ''/set'', Set), (str ''/del'', Del), (str ''/batch'', Batch), (str ''/ping'', Ping)}"
    by (simp add: demo_request_def)
  have o: "rq_method demo_request = str ''POST''" "rq_claimed demo_request \<le> MAX_FRAME" "rq_collect demo_request MAX_FRAME = Inr [7]"
    by (simp_all add: demo_request_def MAX_FRAME_def)
  obtain res s' where "serve_op (\<lambda>_. 5) demo_world Get [7] demo_server = Some (res, s')"
    using serve_op_returns [OF demo_server_ok demo_empty(2), of Get "[7]" "\<lambda>_. 5"] by (auto simp: stores_def)
  then have h: "http_handle (\<lambda>_. 5) demo_world [] 0 (str ''k'') None demo_request demo_server = Some (res, s')"
    using a o path_op_table [OF p] by (simp add: http_handle_def authorized_iff)
  from http_answers_as_tcp [OF demo_server_ok demo_empty(2) p o(1) a o(2,3) h]
  obtain r st where r: "request_answer (sv_cap demo_server) Map.empty (op_u8 Get) [7] (sv_view (\<lambda>_. 5) s') r" "fst r = status_u8 st"
      "hs_body res = snd r" "(st, hs_code res) \<in> {(Ok, 200), (NotFound, 404), (BadRequest, 400), (TooLarge, 413)}"
    by (auto simp: demo_server_view)
  have "r = (status_u8 NotFound, [])" using r(1) by (simp add: request_answer_def)
  moreover have "st = NotFound" using r(2) calculation by (metis fst_conv option.inject status_from_u8_status_u8)
  ultimately show ?thesis using h r(3,4) by simp
qed

theorem http_requires_token_witness:
  "\<exists>res s'. http_handle (\<lambda>_. 5) demo_world [] 0 (str ''x'') None demo_request demo_server = Some (res, s') \<and>
     hs_close res \<and> sv_cache s' = sv_cache demo_server"
proof -
  have "rq_authorization demo_request \<noteq> Some (str ''Bearer '' @ str ''x'')" by (simp add: demo_request_def str_def)
  from http_requires_token [OF this, of "\<lambda>_. 5" demo_world "[]" 0 None demo_server] show ?thesis by blast
qed

end
