(* ===== verification/Ring.thy ===== *)
theory Ring
  imports Prelude "HOL-Library.Multiset" "HOL-Library.List_Lexorder" "HOL-Library.Product_Lexorder"
begin

text \<open>
  The consistent-hash ring of \<^verbatim>\<open>crates/client-rs/src/ring.rs\<close>: MurmurHash3, the points every server
  puts on the circle, and the search for the server a key belongs to. Names are compared byte by
  byte, as the library's lexicographic order on lists does.
\<close>

section \<open>The hash\<close>

definition POINTS :: nat where "POINTS = 512"
definition C1 :: u32 where "C1 = 0xcc9e2d51"
definition C2 :: u32 where "C2 = 0x1b873593"

definition scramble :: "u32 \<Rightarrow> u32" where
  "scramble k = word_rotl 15 (k * C1) * C2"

definition fmix32 :: "u32 \<Rightarrow> u32" where
  "fmix32 h0 =
     (let h1 = h0 XOR drop_bit 16 h0;
          h2 = h1 * 0x85ebca6b;
          h3 = h2 XOR drop_bit 13 h2;
          h4 = h3 * 0xc2b2ae35
      in h4 XOR drop_bit 16 h4)"

text \<open>The loop over whole blocks of four bytes; what it leaves is the tail.\<close>

fun hash_blocks :: "u32 \<Rightarrow> bytes \<Rightarrow> u32 \<times> bytes" where
  "hash_blocks h (a # b # c # d # rest) =
     hash_blocks (word_rotl 13 (h XOR scramble (from_le_bytes [a, b, c, d])) * 5 + 0xe6546b64) rest"
| "hash_blocks h tail = (h, tail)"

text \<open>The bytes of the tail, each shifted to its place.\<close>

fun tail_word :: "nat \<Rightarrow> bytes \<Rightarrow> u32 \<Rightarrow> u32" where
  "tail_word i [] k = k"
| "tail_word i (b # bs) k = tail_word (i + 1) bs (k OR push_bit (8 * i) (ucast b))"

definition ring_hash :: "bytes \<Rightarrow> u32" where
  "ring_hash bytes =
     (let (h, tail) = hash_blocks 0 bytes;
          h' = (if tail \<noteq> [] then h XOR scramble (tail_word 0 tail 0) else h)
      in fmix32 (h' XOR of_nat (length bytes)))"

section \<open>The ring\<close>

text \<open>Points are pairs of a hash and the index of a server.\<close>

definition point_name :: "bytes \<Rightarrow> nat \<Rightarrow> bytes" where
  "point_name name p = name @ str ''#'' @ dec p"

definition ring_points :: "bytes list \<Rightarrow> (u32 \<times> nat) list" where
  "ring_points names =
     concat (map (\<lambda>i. map (\<lambda>p. (ring_hash (point_name (names ! i) p), i)) [0..<POINTS]) [0..<length names])"

text \<open>\<open>dedup_by_key(|p| p.0)\<close>: of consecutive points with one hash the first stays.\<close>

fun dedup_by_hash :: "(u32 \<times> 'a) list \<Rightarrow> (u32 \<times> 'a) list" where
  "dedup_by_hash (p # q # ps) =
     (if fst p = fst q then dedup_by_hash (p # ps) else p # dedup_by_hash (q # ps))"
| "dedup_by_hash ps = ps"

definition ring_new :: "bytes list \<Rightarrow> (u32 \<times> nat) list" where
  "ring_new names = dedup_by_hash (sort_key (\<lambda>(h, i). (h, names ! i)) (ring_points names))"

text \<open>\<open>partition_point\<close> on the sorted points.\<close>

definition partition_point :: "u32 \<Rightarrow> (u32 \<times> 'a) list \<Rightarrow> nat" where
  "partition_point h points = length (takeWhile (\<lambda>p. fst p < h) points)"

definition ring_locate :: "(u32 \<times> 'a) list \<Rightarrow> bytes \<Rightarrow> ('a \<Rightarrow> bool) \<Rightarrow> 'a" where
  "ring_locate points key live =
     (let n = length points;
          start = partition_point (ring_hash key) points mod n
      in case find (\<lambda>i. live (snd (points ! ((start + i) mod n)))) [0..<n] of
           Some i \<Rightarrow> snd (points ! ((start + i) mod n))
         | None \<Rightarrow> snd (points ! start))"

section \<open>The hash is the published one\<close>

lemma hash_vectors:
  "ring_hash [] = 0" "ring_hash (str ''a'') = 0x3c2569b2" "ring_hash (str ''ab'') = 0x9bbfd75f"
  "ring_hash (str ''abc'') = 0xb3dd93fa" "ring_hash (str ''abcd'') = 0x43ed676a"
  "ring_hash (str ''Hello, world!'') = 0xc0363e43"
  by code_simp+

section \<open>The finaliser loses nothing\<close>

lemma xorshift_inv:
  "h = x XOR drop_bit 16 x \<Longrightarrow> h XOR drop_bit 16 h = (x :: u32)"
  "h = x XOR drop_bit 13 x \<Longrightarrow> h XOR drop_bit 13 h XOR drop_bit 26 h = (x :: u32)"
  by (rule bit_word_eqI; auto simp: bit_simps dest: bit_imp_le_length)+

definition unmix32 :: "u32 \<Rightarrow> u32" where
  "unmix32 h =
     (let h4 = h XOR drop_bit 16 h;
          h3 = h4 * 0x7ed1b41d;
          h2 = h3 XOR drop_bit 13 h3 XOR drop_bit 26 h3;
          h1 = h2 * 0xa5cb9243
      in h1 XOR drop_bit 16 h1)"

lemma unmix32_fmix32: "unmix32 (fmix32 h) = h"
proof -
  have c: "(0xc2b2ae35 :: u32) * 0x7ed1b41d = 1" "(0x85ebca6b :: u32) * 0xa5cb9243 = 1" by code_simp+
  have m: "x * 0xc2b2ae35 * 0x7ed1b41d = x" "x * 0x85ebca6b * 0xa5cb9243 = x" for x :: u32
    by (simp_all only: mult.assoc c mult_1_right)
  show ?thesis
    by (simp only: unmix32_def fmix32_def Let_def xorshift_inv [OF refl] m)
qed

lemma fmix32_inj: "inj fmix32"
  by (rule inj_on_inverseI [of _ unmix32]) (simp add: unmix32_fmix32)

section \<open>Sorted points\<close>

abbreviation increasing :: "(u32 \<times> 'a) list \<Rightarrow> bool" where
  "increasing ps \<equiv> sorted_wrt (\<lambda>p q. fst p < fst q) ps"

lemma dedup_set: "set (dedup_by_hash ps) \<subseteq> set ps"
  by (induction ps rule: dedup_by_hash.induct) auto

lemma dedup_fst: "fst ` set (dedup_by_hash ps) = fst ` set ps"
  by (induction ps rule: dedup_by_hash.induct) auto

lemma dedup_hd: "ps \<noteq> [] \<Longrightarrow> hd (dedup_by_hash ps) = hd ps"
  by (induction ps rule: dedup_by_hash.induct) auto

lemma dedup_map: "dedup_by_hash (map (\<lambda>(h, i). (h, f i)) ps) = map (\<lambda>(h, i). (h, f i)) (dedup_by_hash ps)"
  by (induction ps rule: dedup_by_hash.induct) (auto split: prod.splits)

lemma sorted_fst: "sorted (p # ps :: (u32 \<times> bytes) list) \<Longrightarrow> z \<in> set ps \<Longrightarrow> fst p \<le> fst z"
  by (auto simp: less_eq_prod_def less_imp_le)

text \<open>On points sorted by hash, then name: strictly increasing hashes, the least name of each.\<close>

lemma dedup_increasing:
  "sorted (ps :: (u32 \<times> bytes) list) \<Longrightarrow> increasing (dedup_by_hash ps)"
proof (induction ps rule: dedup_by_hash.induct)
  case (1 p q ps)
  show ?case
  proof (cases "fst p = fst q")
    case True
    then show ?thesis using 1 by simp
  next
    case False
    then have "fst p < fst q" using sorted_fst [OF "1.prems", of q] by simp
    moreover have "fst q \<le> fst x" if "x \<in> set (dedup_by_hash (q # ps))" for x
      using dedup_set [of "q # ps"] that "1.prems" sorted_fst [of q ps x] by auto
    ultimately have "\<forall>x \<in> set (dedup_by_hash (q # ps)). fst p < fst x" by force
    moreover have "increasing (dedup_by_hash (q # ps))" using 1 False by simp
    ultimately show ?thesis using False by simp
  qed
qed simp_all

lemma dedup_least:
  "sorted (ps :: (u32 \<times> bytes) list) \<Longrightarrow> x \<in> set (dedup_by_hash ps) \<Longrightarrow> y \<in> set ps \<Longrightarrow> fst y = fst x \<Longrightarrow> x \<le> y"
proof (induction ps arbitrary: x y rule: dedup_by_hash.induct)
  case (1 p q ps)
  show ?case
  proof (cases "fst p = fst q")
    case True
    then have x: "x \<in> set (dedup_by_hash (p # ps))" using "1.prems"(2) by simp
    have so: "sorted (p # ps)" "p \<le> q" using "1.prems"(1) by simp_all
    show ?thesis
    proof (cases "y = q")
      case True
      then have "fst p = fst x" using \<open>fst p = fst q\<close> "1.prems"(4) by simp
      then have "x \<le> p" using "1.IH"(1) [OF \<open>fst p = fst q\<close> so(1) x, of p] by simp
      then show ?thesis using so(2) True by simp
    next
      case False
      then have "y \<in> set (p # ps)" using "1.prems"(3) by auto
      then show ?thesis using "1.IH"(1) [OF \<open>fst p = fst q\<close> so(1) x] "1.prems"(4) by blast
    qed
  next
    case False
    then have lt: "fst p < fst q" using sorted_fst [OF "1.prems"(1), of q] by simp
    have ge: "fst q \<le> fst z" if "z \<in> set (q # ps)" for z using that "1.prems"(1) sorted_fst [of q ps z] by auto
    have so: "sorted (q # ps)" using "1.prems"(1) by simp
    consider "x = p" | "x \<in> set (dedup_by_hash (q # ps))" using "1.prems"(2) False by auto
    then show ?thesis
    proof cases
      case 1
      then show ?thesis using "1.prems"(3,4) lt ge by fastforce
    next
      case 2
      then have "x \<in> set (q # ps)" using dedup_set by blast
      then have "y \<noteq> p" using ge lt "1.prems"(4) by fastforce
      then show ?thesis using "1.IH"(2) [OF False so 2] "1.prems"(3,4) by simp
    qed
  qed
qed auto

section \<open>The ring by names\<close>

definition named :: "bytes list \<Rightarrow> (u32 \<times> nat) list \<Rightarrow> (u32 \<times> bytes) list" where
  "named names ps = map (\<lambda>(h, i). (h, names ! i)) ps"

definition all_points :: "bytes set \<Rightarrow> (u32 \<times> bytes) set" where
  "all_points S = {(ring_hash (point_name n p), n) | n p. n \<in> S \<and> p < POINTS}"

lemma ring_points_index: "(h, i) \<in> set (ring_points names) \<Longrightarrow> i < length names"
  by (auto simp: ring_points_def)

lemma named_points: "set (named names (ring_points names)) = all_points (set names)"
  by (auto simp: named_def ring_points_def all_points_def in_set_conv_nth image_iff) (force simp: atLeast0LessThan)+

lemma sort_key_named: "named names (sort_key (\<lambda>(h, i). (h, names ! i)) ps) = sort (named names ps)"
  unfolding named_def
proof (rule properties_for_sort [symmetric])
  show "mset (map (\<lambda>(h, i). (h, names ! i)) (sort_key (\<lambda>(h, i). (h, names ! i)) ps)) = mset (map (\<lambda>(h, i). (h, names ! i)) ps)"
    by simp
  show "sorted (map (\<lambda>(h, i). (h, names ! i)) (sort_key (\<lambda>(h, i). (h, names ! i)) ps))"
    by (rule sorted_sort_key)
qed

definition ring_of :: "bytes list \<Rightarrow> (u32 \<times> bytes) list" where
  "ring_of names = named names (ring_new names)"

lemma ring_of_dedup: "ring_of names = dedup_by_hash (sort (named names (ring_points names)))"
  unfolding ring_of_def ring_new_def sort_key_named [symmetric] by (simp add: named_def dedup_map)

lemma ring_of_increasing: "increasing (ring_of names)"
  by (simp add: ring_of_dedup dedup_increasing)

text \<open>A hash is on the ring with the least name that puts a point there.\<close>

lemma ring_of_set:
  "set (ring_of names) = {x \<in> all_points (set names). \<forall>y \<in> all_points (set names). fst y = fst x \<longrightarrow> x \<le> y}"
proof -
  let ?ps = "sort (named names (ring_points names))"
  have s: "set ?ps = all_points (set names)" by (simp add: named_points)
  have "x \<in> set (dedup_by_hash ?ps)" if x: "x \<in> set ?ps" "\<forall>y \<in> set ?ps. fst y = fst x \<longrightarrow> x \<le> y" for x
  proof -
    have "fst x \<in> fst ` set (dedup_by_hash ?ps)" unfolding dedup_fst using x(1) by (rule imageI)
    then obtain z where z: "z \<in> set (dedup_by_hash ?ps)" "fst z = fst x" by auto
    have "z \<le> x" using dedup_least [OF sorted_sort z(1) x(1)] z(2) by simp
    moreover have "x \<le> z" using x(2) z dedup_set by blast
    ultimately show ?thesis using z(1) by simp
  qed
  moreover have "set (dedup_by_hash ?ps) \<subseteq> set ?ps" by (rule dedup_set)
  ultimately show ?thesis using dedup_least [OF sorted_sort, of _ "named names (ring_points names)"]
    unfolding ring_of_dedup s [symmetric] by blast
qed

lemma increasing_unique:
  assumes "increasing xs" and "increasing ys" and "set xs = (set ys :: (u32 \<times> bytes) set)"
  shows "xs = ys"
proof (rule sorted_distinct_set_unique)
  have "sorted zs \<and> distinct zs" if "increasing zs" for zs :: "(u32 \<times> bytes) list"
  proof
    show "sorted zs" using that by (induction zs) (auto simp: less_eq_prod_def)
    show "distinct zs" using that by (induction zs) auto
  qed
  with assms show "sorted xs" "distinct xs" "sorted ys" "distinct ys" by simp_all
qed (rule assms(3))

lemma ring_of_cong: "set names = set names' \<Longrightarrow> ring_of names = ring_of names'"
  by (rule increasing_unique) (simp_all only: ring_of_increasing ring_of_set)

section \<open>Finding the server\<close>

lemma named_fst: "map fst (named names ps) = map fst ps"
  by (simp add: named_def case_prod_unfold)

lemma partition_point_fst: "map fst ps = map fst qs \<Longrightarrow> partition_point h ps = partition_point h qs"
proof (induction ps arbitrary: qs)
  case (Cons p ps)
  then obtain q qs' where qs: "qs = q # qs'" "fst q = fst p" "map fst ps = map fst qs'" by (cases qs) auto
  from Cons.IH [OF qs(3)] show ?case by (simp add: partition_point_def qs)
qed (simp add: partition_point_def)

lemma ring_new_nonempty: "names \<noteq> [] \<Longrightarrow> ring_new names \<noteq> []"
proof -
  assume "names \<noteq> []"
  then have "(ring_hash (point_name (names ! 0) 0), 0) \<in> set (ring_points names)"
    by (auto simp: ring_points_def POINTS_def image_iff intro!: bexI [of _ 0])
  then have "set (ring_points names) \<noteq> {}" by (metis empty_iff)
  then have "fst ` set (ring_new names) \<noteq> {}" unfolding ring_new_def dedup_fst by simp
  then show ?thesis by auto
qed

lemma ring_new_index: "(h, i) \<in> set (ring_new names) \<Longrightarrow> i < length names"
  using dedup_set ring_points_index unfolding ring_new_def by fastforce

text \<open>Looking up by index or by name is the same.\<close>

lemma ring_locate_names:
  assumes "names \<noteq> []" and "\<And>i. i < length names \<Longrightarrow> live i = ok (names ! i)"
  shows "ring_locate (ring_new names) key live < length names"
    and "names ! ring_locate (ring_new names) key live = ring_locate (ring_of names) key ok"
proof -
  let ?ps = "ring_new names" and ?n = "length (ring_new names)"
  let ?start = "partition_point (ring_hash key) ?ps mod ?n"
  have n: "0 < ?n" using ring_new_nonempty [OF assms(1)] by simp
  have len: "length (ring_of names) = ?n" by (simp add: ring_of_def named_def)
  have pp: "partition_point (ring_hash key) (ring_of names) = partition_point (ring_hash key) ?ps"
    unfolding ring_of_def by (rule partition_point_fst) (rule named_fst)
  have nth: "snd (ring_of names ! j) = names ! snd (?ps ! j)" if "j < ?n" for j
    using that by (simp add: ring_of_def named_def case_prod_unfold)
  have idx: "snd (?ps ! j) < length names" if "j < ?n" for j
    using ring_new_index [of "fst (?ps ! j)" "snd (?ps ! j)" names] nth_mem [OF that] by simp
  have m: "(?start + j) mod ?n < ?n" "?start < ?n" for j using n by simp_all
  have "(\<lambda>i. live (snd (?ps ! ((?start + i) mod ?n)))) = (\<lambda>i. ok (snd (ring_of names ! ((?start + i) mod ?n))))"
    by (rule ext) (simp only: assms(2) [OF idx [OF m(1)]] nth [OF m(1)])
  then show "names ! ring_locate ?ps key live = ring_locate (ring_of names) key ok"
    using nth m by (simp add: ring_locate_def Let_def len pp split: option.split)
  show "ring_locate ?ps key live < length names"
    using idx m by (simp add: ring_locate_def Let_def split: option.split)
qed

definition first_at :: "u32 \<Rightarrow> (u32 \<times> 'a) list \<Rightarrow> u32 \<times> 'a" where
  "first_at x ps = ps ! (partition_point x ps mod length ps)"

lemma ring_locate_all: "ps \<noteq> [] \<Longrightarrow> ring_locate ps key (\<lambda>_. True) = snd (first_at (ring_hash key) ps)"
proof -
  assume "ps \<noteq> []"
  then obtain k where "length ps = Suc k" by (cases ps) auto
  then have "find (\<lambda>i. True) [0..<length ps] = Some 0" by (simp add: upt_conv_Cons del: upt_Suc)
  then show ?thesis by (simp add: ring_locate_def first_at_def Let_def)
qed

lemma takeWhile_long: "length xs \<le> length (takeWhile P xs) \<Longrightarrow> \<forall>x \<in> set xs. P x"
  by (induction xs) (auto split: if_splits)

text \<open>The first point at or after a position, wrapping round the end.\<close>

lemma first_at_spec:
  assumes "increasing ps" and "ps \<noteq> []"
  shows "first_at x ps \<in> set ps" and
    "x \<le> fst (first_at x ps) \<and> (\<forall>q \<in> set ps. x \<le> fst q \<longrightarrow> fst (first_at x ps) \<le> fst q) \<or>
     (\<forall>q \<in> set ps. fst q < x) \<and> (\<forall>q \<in> set ps. fst (first_at x ps) \<le> fst q)"
proof -
  let ?k = "partition_point x ps"
  have lt: "fst (ps ! i) < fst (ps ! j)" if "i < j" "j < length ps" for i j
    using assms(1) that by (simp add: sorted_wrt_iff_nth_less)
  show "first_at x ps \<in> set ps" using assms(2) by (simp add: first_at_def)
  show "x \<le> fst (first_at x ps) \<and> (\<forall>q \<in> set ps. x \<le> fst q \<longrightarrow> fst (first_at x ps) \<le> fst q) \<or>
     (\<forall>q \<in> set ps. fst q < x) \<and> (\<forall>q \<in> set ps. fst (first_at x ps) \<le> fst q)"
  proof (cases "?k < length ps")
    case True
    have k: "x \<le> fst (ps ! ?k)" using nth_length_takeWhile [of "\<lambda>p. fst p < x" ps] True
      by (simp add: partition_point_def)
    have b: "fst (ps ! i) < x" if "i < ?k" for i
      using that set_takeWhileD [of "takeWhile (\<lambda>p. fst p < x) ps ! i"] nth_mem [of i "takeWhile (\<lambda>p. fst p < x) ps"]
      by (fastforce simp: partition_point_def takeWhile_nth)
    have "fst (ps ! ?k) \<le> fst q" if q: "q \<in> set ps" "x \<le> fst q" for q
    proof -
      obtain i where i: "i < length ps" "q = ps ! i" using q(1) by (auto simp: in_set_conv_nth)
      then have "?k \<le> i" using b q(2) by (meson leD leI)
      then show ?thesis using lt [of ?k i] i by (cases "?k = i") (auto simp: less_imp_le)
    qed
    with k True show ?thesis by (simp add: first_at_def)
  next
    case False
    then have all: "\<forall>q \<in> set ps. fst q < x"
      using takeWhile_long [of ps "\<lambda>p. fst p < x"] by (simp add: partition_point_def)
    then have tw: "takeWhile (\<lambda>p. fst p < x) ps = ps" by (simp add: takeWhile_eq_all_conv)
    have "?k = length ps" unfolding partition_point_def tw ..
    then have f: "first_at x ps = ps ! 0" by (simp add: first_at_def)
    have "fst (ps ! 0) \<le> fst q" if "q \<in> set ps" for q
    proof -
      obtain i where "i < length ps" "q = ps ! i" using \<open>q \<in> set ps\<close> by (auto simp: in_set_conv_nth)
      then show ?thesis using lt [of 0 i] by (cases "i = 0") (auto simp: less_imp_le)
    qed
    with all f show ?thesis by simp
  qed
qed

lemma increasing_fst_inj: "increasing ps \<Longrightarrow> p \<in> set ps \<Longrightarrow> q \<in> set ps \<Longrightarrow> fst p = fst q \<Longrightarrow> p = q"
  by (induction ps) auto

text \<open>Points taken away from elsewhere on the circle do not matter to a position.\<close>

lemma first_at_keeps:
  assumes "increasing ps" and "ps \<noteq> []" and "increasing qs" and "qs \<noteq> []"
    and "first_at x ps \<in> set qs" and "fst ` set qs \<subseteq> fst ` set ps"
  shows "first_at x qs = first_at x ps"
proof -
  let ?p = "first_at x ps" and ?q = "first_at x qs"
  note p = first_at_spec [OF assms(1,2), of x] and q = first_at_spec [OF assms(3,4), of x]
  have in_ps: "\<exists>z \<in> set ps. fst z = fst y" if "y \<in> set qs" for y
  proof -
    have "fst y \<in> fst ` set ps" using imageI [OF that, of fst] assms(6) by (rule set_mp [rotated])
    then show ?thesis by (metis imageE)
  qed
  obtain z where z: "z \<in> set ps" "fst z = fst ?q" using in_ps [OF q(1)] by blast
  have "fst ?q = fst ?p"
  proof (cases "\<forall>r \<in> set ps. fst r < x")
    case True
    then have "\<forall>r \<in> set qs. fst r < x" using in_ps by metis
    then have "fst ?q \<le> fst ?p" using q(2) assms(5) q(1) by auto
    moreover have "fst ?p \<le> fst z" using p z(1) True by auto
    ultimately show ?thesis using z(2) by simp
  next
    case False
    then have P: "x \<le> fst ?p" "\<forall>r \<in> set ps. x \<le> fst r \<longrightarrow> fst ?p \<le> fst r" using p(2) by auto
    then have "x \<le> fst ?q \<and> fst ?q \<le> fst ?p" using q(2) assms(5) by force
    with P z show ?thesis by (metis antisym)
  qed
  then show ?thesis using increasing_fst_inj [OF assms(3) q(1) assms(5)] by simp
qed

lemma ring_of_remove:
  assumes "x \<in> set (ring_of names)" and "snd x \<noteq> n"
  shows "x \<in> set (ring_of (filter (\<lambda>m. m \<noteq> n) names))"
  using assms unfolding ring_of_set by (auto simp: all_points_def)

lemma ring_of_fst: "fst ` set (ring_of names) = fst ` all_points (set names)"
  unfolding ring_of_dedup dedup_fst by (simp add: named_points)

lemma ring_remove_moves:
  assumes "ring_locate (ring_of names) key (\<lambda>_. True) \<noteq> n" and "names \<noteq> []"
    and "filter (\<lambda>m. m \<noteq> n) names \<noteq> []"
  shows "ring_locate (ring_of (filter (\<lambda>m. m \<noteq> n) names)) key (\<lambda>_. True) = ring_locate (ring_of names) key (\<lambda>_. True)"
proof -
  let ?names = "filter (\<lambda>m. m \<noteq> n) names"
  have ne: "ring_of names \<noteq> []" "ring_of ?names \<noteq> []"
    using ring_new_nonempty assms(2,3) by (auto simp: ring_of_def named_def)
  have "first_at (ring_hash key) (ring_of names) \<in> set (ring_of ?names)"
    using ring_of_remove [OF first_at_spec(1) [OF ring_of_increasing ne(1)]] assms(1) ring_locate_all [OF ne(1)] by simp
  moreover have "fst ` set (ring_of ?names) \<subseteq> fst ` set (ring_of names)"
    unfolding ring_of_fst by (auto simp: all_points_def)
  ultimately have "first_at (ring_hash key) (ring_of ?names) = first_at (ring_hash key) (ring_of names)"
    by (rule first_at_keeps [OF ring_of_increasing ne(1) ring_of_increasing ne(2)])
  then show ?thesis by (simp add: ring_locate_all ne)
qed

lemma find_stricter: "find P xs = Some x \<Longrightarrow> Q x \<Longrightarrow> (\<And>y. Q y \<Longrightarrow> P y) \<Longrightarrow> find Q xs = Some x"
  by (induction xs) (auto split: if_splits)

lemma ring_locate_stricter:
  assumes "\<And>j. live' j \<Longrightarrow> live j" and "live' (ring_locate ps key live)"
  shows "ring_locate ps key live' = ring_locate ps key live"
proof -
  let ?n = "length ps" and ?at = "\<lambda>i. snd (ps ! ((partition_point (ring_hash key) ps mod length ps + i) mod length ps))"
  show ?thesis
  proof (cases "find (\<lambda>i. live (?at i)) [0..<?n]")
    case None
    then have no: "\<not> live (?at i)" if "i < ?n" for i using that by (simp add: find_None_iff)
    show ?thesis
    proof (cases "?n = 0")
      case True
      then show ?thesis by (simp add: ring_locate_def)
    next
      case False
      then show ?thesis using no [of 0] assms None by (auto simp: ring_locate_def Let_def)
    qed
  next
    case (Some i)
    then have "live' (?at i)" using assms(2) by (simp add: ring_locate_def Let_def)
    from find_stricter [OF Some, of "\<lambda>i. live' (?at i)"] this assms(1)
    have "find (\<lambda>i. live' (?at i)) [0..<?n] = Some i" by blast
    with Some show ?thesis by (simp add: ring_locate_def Let_def)
  qed
qed

section \<open>Properties\<close>

text \<open>
  C23. Every client agrees on where a key lives: the ring depends on which servers there are and
  not on the order they were listed in, so two clients given the same names send a key to the
  server of the same name, whichever servers are taken to be down.
\<close>

theorem ring_order_independent:
  assumes "names \<noteq> []" and "set names' = set names"
    and "\<And>i. i < length names \<Longrightarrow> live i = ok (names ! i)"
    and "\<And>i. i < length names' \<Longrightarrow> live' i = ok (names' ! i)"
  shows "names' ! ring_locate (ring_new names') key live' = names ! ring_locate (ring_new names) key live"
proof -
  have "names' \<noteq> []" using assms(1,2) by auto
  then show ?thesis
    using ring_locate_names(2) [of names' live' ok key] ring_locate_names(2) [of names live ok key] assms ring_of_cong [OF assms(2)]
    by simp
qed

text \<open>
  C22. Losing or adding a server moves only its own keys. A key that belongs to another server
  than \<open>n\<close> belongs to the same server when \<open>n\<close> is taken out of the list, even where points of
  several servers collide; and when servers are merely taken for down, a key whose server is
  still up stays where it is.
\<close>

theorem ring_moves_only_own_keys:
  assumes "names \<noteq> []" and "filter (\<lambda>m. m \<noteq> n) names \<noteq> []"
    and "\<And>j. live' j \<Longrightarrow> live j"
  shows "(names ! ring_locate (ring_new names) key (\<lambda>_. True) \<noteq> n \<longrightarrow>
      filter (\<lambda>m. m \<noteq> n) names ! ring_locate (ring_new (filter (\<lambda>m. m \<noteq> n) names)) key (\<lambda>_. True) =
      names ! ring_locate (ring_new names) key (\<lambda>_. True)) \<and>
    (live' (ring_locate (ring_new names) key live) \<longrightarrow>
      ring_locate (ring_new names) key live' = ring_locate (ring_new names) key live)"
proof (intro conjI impI)
  assume "names ! ring_locate (ring_new names) key (\<lambda>_. True) \<noteq> n"
  then show "filter (\<lambda>m. m \<noteq> n) names ! ring_locate (ring_new (filter (\<lambda>m. m \<noteq> n) names)) key (\<lambda>_. True) =
      names ! ring_locate (ring_new names) key (\<lambda>_. True)"
    using ring_remove_moves [OF _ assms(1,2), of key] ring_locate_names(2) [OF assms(1), of "\<lambda>_. True" "\<lambda>_. True"]
      ring_locate_names(2) [OF assms(2), of "\<lambda>_. True" "\<lambda>_. True"] by metis
next
  assume "live' (ring_locate (ring_new names) key live)"
  with assms(3) show "ring_locate (ring_new names) key live' = ring_locate (ring_new names) key live"
    by (rule ring_locate_stricter)
qed

theorem ring_order_independent_witness:
  "[str ''b'', str ''a''] ! ring_locate (ring_new [str ''b'', str ''a'']) (str ''k'') (\<lambda>_. True) =
   [str ''a'', str ''b''] ! ring_locate (ring_new [str ''a'', str ''b'']) (str ''k'') (\<lambda>_. True)"
  by (rule ring_order_independent [of _ _ _ "\<lambda>_. True"]) auto

theorem ring_moves_only_own_keys_witness:
  "ring_locate (ring_new [str ''a'', str ''b'']) (str ''k'')
     (\<lambda>j. j = ring_locate (ring_new [str ''a'', str ''b'']) (str ''k'') (\<lambda>_. True)) =
   ring_locate (ring_new [str ''a'', str ''b'']) (str ''k'') (\<lambda>_. True)"
  using ring_moves_only_own_keys [of "[str ''a'', str ''b'']" "str ''a''"
      "\<lambda>j. j = ring_locate (ring_new [str ''a'', str ''b'']) (str ''k'') (\<lambda>_. True)" "\<lambda>_. True" "str ''k''"]
  by (simp add: str_def)

end
