(* ===== verification/Client.thy ===== *)
theory Client
  imports Frame_Writer
begin

text \<open>
  The client of \<^verbatim>\<open>crates/client-rs/src/lib.rs\<close>: its errors, the typed replies, batches and
  their outcomes, and the two tasks of a connection. The writer queues a caller's reply channel
  before it queues the request and sends what has gathered; the reader hands each response to the
  oldest caller waiting.

  The kind of an I/O error (\<open>'k\<close>) and the errors of the serialiser, of rustls and of its PEM
  reader (\<open>'x\<close>) are those of other libraries, and so is the encoding of values: an argument of
  the operations that use it. A oneshot channel is the number of the call that waits on it. The
  state of a connection records, beside what the tasks hold, what they did: the requests queued,
  the bytes sent and received, the answers handed out.
\<close>

section \<open>Text from bytes\<close>

text \<open>
  \<open>String::from_utf8_lossy\<close>: what follows a lead byte must lie in these ranges; the bytes up to
  the first that does not are replaced by one U+FFFD.
\<close>

definition utf8_tail :: "u8 \<Rightarrow> (u8 \<times> u8) list option" where
  "utf8_tail b =
     (let c = (0x80, 0xBF)
      in if b < 0x80 then Some []
         else if 0xC2 \<le> b \<and> b \<le> 0xDF then Some [c]
         else if b = 0xE0 then Some [(0xA0, 0xBF), c]
         else if b = 0xED then Some [(0x80, 0x9F), c]
         else if 0xE1 \<le> b \<and> b \<le> 0xEF then Some [c, c]
         else if b = 0xF0 then Some [(0x90, 0xBF), c, c]
         else if 0xF1 \<le> b \<and> b \<le> 0xF3 then Some [c, c, c]
         else if b = 0xF4 then Some [(0x80, 0x8F), c, c]
         else None)"

fun matched :: "(u8 \<times> u8) list \<Rightarrow> bytes \<Rightarrow> nat" where
  "matched ((lo, hi) # ranges) (b # bs) = (if lo \<le> b \<and> b \<le> hi then Suc (matched ranges bs) else 0)"
| "matched _ _ = 0"

function from_utf8_lossy :: "bytes \<Rightarrow> bytes" where
  "from_utf8_lossy [] = []"
| "from_utf8_lossy (b # bs) =
     (case utf8_tail b of
        None \<Rightarrow> [0xEF, 0xBF, 0xBD] @ from_utf8_lossy bs
      | Some ranges \<Rightarrow>
          let n = matched ranges bs
          in (if n = length ranges then b # take n bs else [0xEF, 0xBF, 0xBD]) @ from_utf8_lossy (drop n bs))"
  by pat_completeness auto
termination by (relation "measure length") auto

section \<open>Errors\<close>

datatype ('k, 'x) error =
    Io 'k bytes
  | Closed
  | Status status bytes
  | InvalidStatus u8
  | Decode decode_error
  | ResponseTooLarge nat
  | Serialize 'x
  | Deserialize 'x
  | Count nat nat  \<comment> \<open>expected, got\<close>
  | TooManyItems nat
  | Pem bytes 'x
  | Tls 'x

datatype fatal = FatalUnauthorized bytes | FatalInvalidStatus u8 | Desync

fun fatal_error :: "fatal \<Rightarrow> ('k, 'x) error" where
  "fatal_error (FatalUnauthorized message) = Status Unauthorized message"
| "fatal_error (FatalInvalidStatus b) = InvalidStatus b"
| "fatal_error Desync = Closed"

fun fatal_of :: "('k, 'x) error \<Rightarrow> fatal option" where
  "fatal_of (Status Unauthorized message) = Some (FatalUnauthorized message)"
| "fatal_of (InvalidStatus b) = Some (FatalInvalidStatus b)"
| "fatal_of _ = None"

datatype lost = Transient | LostFatal fatal

datatype 'k setback = SetbackIo 'k bytes | SetbackClosed | SetbackStatus status bytes | SetbackTooLarge nat

fun setback_error :: "'k setback \<Rightarrow> ('k, 'x) error" where
  "setback_error (SetbackIo kind message) = Io kind message"
| "setback_error SetbackClosed = Closed"
| "setback_error (SetbackStatus status message) = Status status message"
| "setback_error (SetbackTooLarge n) = ResponseTooLarge n"

datatype 'k failed = FailedFatal fatal | FailedSetback "'k setback"

definition failed_of :: "('k, 'x) error \<Rightarrow> 'k failed" where
  "failed_of err =
     (case fatal_of err of
        Some f \<Rightarrow> FailedFatal f
      | None \<Rightarrow>
          FailedSetback
            (case err of
               Io kind message \<Rightarrow> SetbackIo kind message
             | Status status message \<Rightarrow> SetbackStatus status message
             | ResponseTooLarge n \<Rightarrow> SetbackTooLarge n
             | _ \<Rightarrow> SetbackClosed))"

fun failed_error :: "'k failed \<Rightarrow> ('k, 'x) error" where
  "failed_error (FailedFatal f) = fatal_error f"
| "failed_error (FailedSetback s) = setback_error s"

text \<open>What a caller is told of a failed connect is the error of the attempt.\<close>

lemma failed_error_of:
  "failed_error (failed_of e :: 'k failed) =
     (case e of Io _ _ \<Rightarrow> e | Status _ _ \<Rightarrow> e | InvalidStatus _ \<Rightarrow> e | ResponseTooLarge _ \<Rightarrow> e | _ \<Rightarrow> (Closed :: ('k, 'x) error))"
  by (cases e rule: fatal_of.cases) (auto simp: failed_of_def)

section \<open>Replies\<close>

type_synonym ('k, 'x) answer = "('k, 'x) error + status \<times> bytes"

definition refused :: "status \<Rightarrow> bytes \<Rightarrow> ('k, 'x) error" where
  "refused status body = Status status (from_utf8_lossy body)"

text \<open>\<open>Reply\<close> for a get, a set and a del; \<open>from_slice\<close> decodes a value.\<close>

definition reply_value :: "(bytes \<Rightarrow> 'x + 'v) \<Rightarrow> status \<Rightarrow> bytes \<Rightarrow> ('k, 'x) error + 'v option" where
  "reply_value from_slice status body =
     (if status = Ok then (case from_slice body of Inl e \<Rightarrow> Inl (Deserialize e) | Inr v \<Rightarrow> Inr (Some v))
      else if status = NotFound then Inr None
      else Inl (refused status body))"

definition reply_unit :: "status \<Rightarrow> bytes \<Rightarrow> ('k, 'x) error + unit" where
  "reply_unit status body = (if status = Ok then Inr () else Inl (refused status body))"

definition reply_bool :: "status \<Rightarrow> bytes \<Rightarrow> ('k, 'x) error + bool" where
  "reply_bool status body =
     (if status = Ok then Inr True else if status = NotFound then Inr False else Inl (refused status body))"

section \<open>Batches\<close>

text \<open>A \<open>Batch\<close> is its encoder; adding an item returns the slot its answer will be read from.\<close>

definition batch_new :: batch_encoder where
  "batch_new = enc_new"

definition batch_len :: "batch_encoder \<Rightarrow> nat" where
  "batch_len b = enc_len b"

definition batch_is_empty :: "batch_encoder \<Rightarrow> bool" where
  "batch_is_empty b = enc_is_empty b"

definition batch_slot :: "batch_encoder \<Rightarrow> nat" where
  "batch_slot b = enc_len b - 1"

definition batch_get :: "bytes \<Rightarrow> batch_encoder \<Rightarrow> nat \<times> batch_encoder" where
  "batch_get key b = (let b1 = enc_get b key in (batch_slot b1, b1))"

definition batch_set ::
  "bytes \<Rightarrow> (bytes \<Rightarrow> 'x option \<times> bytes) \<Rightarrow> batch_encoder \<Rightarrow> (('k, 'x) error + nat) \<times> batch_encoder" where
  "batch_set key write_named b =
     (case enc_set_with b key write_named of
        (Inl e, b1) \<Rightarrow> (Inl (Serialize e), b1)
      | (Inr _, b1) \<Rightarrow> (Inr (batch_slot b1), b1))"

definition batch_del :: "bytes \<Rightarrow> batch_encoder \<Rightarrow> nat \<times> batch_encoder" where
  "batch_del key b = (let b1 = enc_del b key in (batch_slot b1, b1))"

record batch_outcome =
  oc_body :: bytes
  oc_index :: "(u8 \<times> u32 \<times> u32) list"

definition outcome_len :: "batch_outcome \<Rightarrow> nat" where
  "outcome_len o' = length (oc_index o')"

definition outcome_is_empty :: "batch_outcome \<Rightarrow> bool" where
  "outcome_is_empty o' \<longleftrightarrow> oc_index o' = []"

definition outcome_status :: "batch_outcome \<Rightarrow> nat \<Rightarrow> status option" where
  "outcome_status o' i =
     (if i < length (oc_index o') then status_from_u8 (fst (oc_index o' ! i)) else None)"

text \<open>Reading a slot; \<open>None\<close> is the panic of an index or a range out of bounds.\<close>

definition outcome_get ::
  "(status \<Rightarrow> bytes \<Rightarrow> ('k, 'x) error + 'v) \<Rightarrow> batch_outcome \<Rightarrow> nat \<Rightarrow> (('k, 'x) error + 'v) option" where
  "outcome_get reply o' i =
     (if i < length (oc_index o')
      then let (status, start, len) = oc_index o' ! i
           in case status_from_u8 status of
                None \<Rightarrow> Some (Inl (InvalidStatus status))
              | Some st \<Rightarrow>
                  if unat start + unat len \<le> length (oc_body o')
                  then Some (reply st (take (unat len) (drop (unat start) (oc_body o'))))
                  else None
      else None)"

text \<open>\<open>batch_body\<close> after its call: the replies, counted and indexed where they lie.\<close>

definition batch_body :: "nat \<Rightarrow> ('k, 'x) answer \<Rightarrow> ('k, 'x) error + batch_outcome" where
  "batch_body n reply =
     bindE reply (\<lambda>(_, body).
       case frames body of
         Inl e \<Rightarrow> Inl (Decode e)
       | Inr items \<Rightarrow>
           if fr_left items \<noteq> n then Inl (Count n (fr_left items))
           else Inr \<lparr>oc_body = body,
                     oc_index = map (\<lambda>(status, start, b). (status, of_nat start, of_nat (length b))) (frames_collect items)\<rparr>)"

text \<open>\<open>Client::batch\<close>, over the \<open>call\<close> it makes; \<open>None\<close> is a panic of the encoder.\<close>

definition client_batch ::
  "(op \<Rightarrow> bytes \<Rightarrow> ('k, 'x) answer) \<Rightarrow> batch_encoder \<Rightarrow> (('k, 'x) error + batch_outcome) option" where
  "client_batch call b =
     (let n = enc_len b
      in if n > MAX_ITEMS then Some (Inl (TooManyItems n))
         else map_option (\<lambda>body. batch_body n (call Batch body)) (enc_finish b))"

section \<open>Calls\<close>

definition client_ping :: "(op \<Rightarrow> bytes \<Rightarrow> ('k, 'x) answer) \<Rightarrow> ('k, 'x) error + unit" where
  "client_ping call = bindE (call Ping []) (\<lambda>_. Inr ())"

definition client_get ::
  "(op \<Rightarrow> bytes \<Rightarrow> ('k, 'x) answer) \<Rightarrow> (bytes \<Rightarrow> 'x + 'v) \<Rightarrow> bytes \<Rightarrow> ('k, 'x) error + 'v option" where
  "client_get call from_slice key = bindE (call Get key) (\<lambda>(status, body). reply_value from_slice status body)"

definition client_set ::
  "(op \<Rightarrow> bytes \<Rightarrow> ('k, 'x) answer) \<Rightarrow> bytes \<Rightarrow> (bytes \<Rightarrow> 'x option \<times> bytes) \<Rightarrow> ('k, 'x) error + unit" where
  "client_set call key write_named =
     (case write_named (put_set_key [] key) of
        (Some e, _) \<Rightarrow> Inl (Serialize e)
      | (None, body) \<Rightarrow> bindE (call Set body) (\<lambda>_. Inr ()))"

definition client_del :: "(op \<Rightarrow> bytes \<Rightarrow> ('k, 'x) answer) \<Rightarrow> bytes \<Rightarrow> ('k, 'x) error + bool" where
  "client_del call key = bindE (call Del key) (\<lambda>(status, body). reply_bool status body)"

end
