(* ===== verification/Pipeline.thy ===== *)
theory Pipeline
  imports Client
begin

text \<open>
  One connection of the client (\<open>Conn\<close>, \<open>write_loop\<close> and \<open>read_loop\<close> of
  \<^verbatim>\<open>crates/client-rs/src/lib.rs\<close>): callers, a writer task and a reader task that run
  concurrently and share the queue of callers waiting for a response. The tasks are step
  functions, one step from one point where another task may run to the next, and \<open>io_step\<close> is
  any interleaving of them with the callers and the network.
\<close>

definition YIELD_BELOW :: nat where "YIELD_BELOW = BUF div 4"

definition CHANNEL :: nat where "CHANNEL = 1024"

text \<open>
  Where the writer is: in its \<open>select!\<close>, gathering (whether it has yielded, and the bytes
  gathered), back from yielding, flushing, or returned.
\<close>

datatype writing = Waiting | Gathering bool nat | Yielded nat | Flushing | Stopped

record ('k, 'x, 's) conn =
  ck_rx :: "(op \<times> bytes \<times> nat) list"
  ck_pending :: "nat option list"  \<comment> \<open>\<open>None\<close> for a ping of the writer's own\<close>
  ck_out :: frame_writer
  ck_sock :: 's
  ck_writing :: writing
  ck_reader :: frame_reader
  ck_reading :: bool
  ck_filling :: bool
  ck_lost :: "lost option"
  ck_next :: nat
  ck_reqs :: "(nat option \<times> u8 \<times> bytes) list"
  ck_sent :: bytes
  ck_got :: bytes
  ck_answers :: "(nat option \<times> ('k, 'x) answer) list"

definition conn_spawn :: "'s \<Rightarrow> ('k, 'x, 's) conn" where
  "conn_spawn sock =
     \<lparr>ck_rx = [], ck_pending = [], ck_out = with_inline_limit (4 * 2 ^ 10), ck_sock = sock,
      ck_writing = Waiting, ck_reader = rd_new MAX_FRAME, ck_reading = True, ck_filling = False,
      ck_lost = None, ck_next = 0, ck_reqs = [], ck_sent = [], ck_got = [], ck_answers = []\<rparr>"

text \<open>The verdict is set once.\<close>

definition set_lost :: "lost \<Rightarrow> ('k, 'x, 's) conn \<Rightarrow> ('k, 'x, 's) conn" where
  "set_lost why s = (case ck_lost s of None \<Rightarrow> s\<lparr>ck_lost := Some why\<rparr> | Some _ \<Rightarrow> s)"

definition conn_verdict :: "('k, 'x, 's) conn \<Rightarrow> lost" where
  "conn_verdict s = (case ck_lost s of None \<Rightarrow> Transient | Some why \<Rightarrow> why)"

section \<open>Callers\<close>

text \<open>
  A call queues its request when the channel has room and the writer has not returned; it then
  waits, and sees \<open>Closed\<close> once its reply channel is gone without an answer.
\<close>

definition conn_send :: "op \<Rightarrow> bytes \<Rightarrow> ('k, 'x, 's) conn \<Rightarrow> ('k, 'x, 's) conn" where
  "conn_send op body s = s\<lparr>ck_rx := ck_rx s @ [(op, body, ck_next s)], ck_next := ck_next s + 1\<rparr>"

definition send_result :: "nat \<Rightarrow> ('k, 'x, 's) conn \<Rightarrow> ('k, 'x) answer option" where
  "send_result call s =
     (case map_of (ck_answers s) (Some call) of
        Some res \<Rightarrow> Some res
      | None \<Rightarrow>
          if Some call \<in> set (ck_pending s) \<or> call \<in> (\<lambda>(_, _, c). c) ` set (ck_rx s) then None
          else Some (Inl Closed))"

section \<open>The writer\<close>

text \<open>Returning drops the queue of requests.\<close>

definition stop_writer :: "('k, 'x, 's) conn \<Rightarrow> ('k, 'x, 's) conn" where
  "stop_writer s = s\<lparr>ck_writing := Stopped, ck_rx := []\<rparr>"

text \<open>The caller's channel goes to the reader first; that fails when the reader has returned.\<close>

definition queue_frame ::
  "nat option \<Rightarrow> u8 \<Rightarrow> bytes \<Rightarrow> writing \<Rightarrow> ('k, 'x, 's) conn \<Rightarrow> ('k, 'x, 's) conn" where
  "queue_frame caller op body next s =
     (if ck_reading s
      then s\<lparr>ck_pending := ck_pending s @ [caller], ck_out := fw_frame op body (ck_out s),
             ck_reqs := ck_reqs s @ [(caller, op, body)], ck_writing := next\<rparr>
      else stop_writer s)"

definition take_request :: "bool \<Rightarrow> nat \<Rightarrow> ('k, 'x, 's) conn \<Rightarrow> ('k, 'x, 's) conn" where
  "take_request yielded queued s =
     (case ck_rx s of
        [] \<Rightarrow> s
      | (op, body, call) # rest \<Rightarrow>
          queue_frame (Some call) (op_u8 op) body (Gathering yielded (queued + length body)) (s\<lparr>ck_rx := rest\<rparr>))"

definition write_gather :: "('k, 'x, 's) conn \<Rightarrow> ('k, 'x, 's) conn" where
  "write_gather s =
     (case ck_writing s of
        Gathering yielded queued \<Rightarrow>
          if ck_rx s \<noteq> [] then take_request yielded queued s
          else if \<not> yielded \<and> queued < YIELD_BELOW then s\<lparr>ck_writing := Yielded queued\<rparr>
          else s\<lparr>ck_writing := Flushing\<rparr>
      | Yielded queued \<Rightarrow>
          if ck_rx s \<noteq> [] then take_request True queued s else s\<lparr>ck_writing := Flushing\<rparr>
      | _ \<Rightarrow> s)"

definition write_ping :: "('k, 'x, 's) conn \<Rightarrow> ('k, 'x, 's) conn" where
  "write_ping s = queue_frame None (op_u8 Ping) [] Flushing s"

definition write_flush ::
  "('s \<Rightarrow> bytes list \<Rightarrow> ('e + nat) \<times> 's) \<Rightarrow> ('k, 'x, 's) conn \<Rightarrow> ('k, 'x, 's) conn" where
  "write_flush write_vectored s =
     (case fw_flush write_vectored (ck_out s) (ck_sock s) of
        (res, sent, sock, w) \<Rightarrow>
          let s1 = s\<lparr>ck_out := w, ck_sock := sock, ck_sent := ck_sent s @ sent\<rparr>
          in case res of
               None \<Rightarrow> stop_writer s1
             | Some (Inr _) \<Rightarrow> s1\<lparr>ck_writing := Waiting\<rparr>
             | Some (Inl _) \<Rightarrow> stop_writer (set_lost Transient s1))"

section \<open>The reader\<close>

definition answer_of :: "u8 \<times> bytes \<Rightarrow> ('k, 'x) answer" where
  "answer_of f =
     (case status_from_u8 (fst f) of
        Some status \<Rightarrow>
          if status = Ok \<or> status = NotFound then Inr (status, snd f)
          else Inl (Status status (from_utf8_lossy (snd f)))
      | None \<Rightarrow> Inl (InvalidStatus (fst f)))"

fun fatal_answer :: "('k, 'x) answer \<Rightarrow> lost option" where
  "fatal_answer (Inl (InvalidStatus b)) = Some (LostFatal (FatalInvalidStatus b))"
| "fatal_answer _ = None"

text \<open>The verdict is recorded, then the waiting callers are dropped.\<close>

definition stop_reader :: "lost \<Rightarrow> ('k, 'x, 's) conn \<Rightarrow> ('k, 'x, 's) conn" where
  "stop_reader why s = (set_lost why s)\<lparr>ck_reading := False, ck_pending := []\<rparr>"

definition hand_over :: "('k, 'x) answer \<Rightarrow> ('k, 'x, 's) conn \<Rightarrow> ('k, 'x, 's) conn" where
  "hand_over res s =
     (case ck_pending s of
        [] \<Rightarrow> s
      | p # ps \<Rightarrow> s\<lparr>ck_pending := ps, ck_answers := ck_answers s @ [(p, res)]\<rparr>)"

definition read_one :: "('k, 'x, 's) conn \<Rightarrow> ('k, 'x, 's) conn" where
  "read_one s =
     (case next_buffered_owned (ck_reader s) of
        (Inr (Some f), r) \<Rightarrow>
          let s1 = s\<lparr>ck_reader := r\<rparr>
          in if ck_pending s = [] then stop_reader (LostFatal Desync) s1
             else let res = answer_of f;
                      s2 = hand_over res s1
                  in (case fatal_answer res of Some why \<Rightarrow> stop_reader why s2 | None \<Rightarrow> s2)
      | (Inr None, r) \<Rightarrow> s\<lparr>ck_reader := r, ck_filling := True\<rparr>
      | (Inl (FrameTooLarge n), r) \<Rightarrow>
          stop_reader Transient (hand_over (Inl (ResponseTooLarge n)) (s\<lparr>ck_reader := r\<rparr>)))"

definition read_fill :: "'e + bytes \<Rightarrow> ('k, 'x, 's) conn \<Rightarrow> ('k, 'x, 's) conn" where
  "read_fill got s =
     (case fill got (ck_reader s) of
        (filled, r) \<Rightarrow>
          let s1 = s\<lparr>ck_reader := r, ck_got := ck_got s @ (case got of Inr b \<Rightarrow> b | Inl _ \<Rightarrow> [])\<rparr>
          in if filled = Inr True then s1\<lparr>ck_filling := False\<rparr> else stop_reader Transient s1)"

section \<open>Interleavings\<close>

inductive io_step ::
  "('s \<Rightarrow> bytes list \<Rightarrow> ('e + nat) \<times> 's) \<Rightarrow> ('k, 'x, 's) conn \<Rightarrow> ('k, 'x, 's) conn \<Rightarrow> bool" for wv where
  send: "ck_writing s \<noteq> Stopped \<Longrightarrow> length (ck_rx s) < CHANNEL \<Longrightarrow> io_step wv s (conn_send op body s)"
| recv: "ck_writing s = Waiting \<Longrightarrow> ck_rx s \<noteq> [] \<Longrightarrow> io_step wv s (take_request False 0 s)"
| idle: "ck_writing s = Waiting \<Longrightarrow> io_step wv s (write_ping s)"
| stop: "ck_writing s = Waiting \<Longrightarrow> \<not> ck_reading s \<Longrightarrow> io_step wv s (stop_writer s)"
| gather: "io_step wv s (write_gather s)"
| flush: "ck_writing s = Flushing \<Longrightarrow> io_step wv s (write_flush wv s)"
| read: "ck_reading s \<Longrightarrow> \<not> ck_filling s \<Longrightarrow> io_step wv s (read_one s)"
| filled: "ck_reading s \<Longrightarrow> ck_filling s \<Longrightarrow> io_step wv s (read_fill (got :: 'e + bytes) s)"
| abort: "io_step wv s (stop_writer (s\<lparr>ck_reading := False, ck_pending := []\<rparr>))"

text \<open>
  What the tasks keep: what was sent and what is queued are the requests taken, in order; the
  callers answered and those waiting are the callers of those requests, in order; what was
  received is the responses answered with, in order, and what the reader still holds.
\<close>

definition matches :: "('k, 'x) answer list \<Rightarrow> (u8 \<times> bytes) list \<Rightarrow> bool" where
  "matches res fs \<longleftrightarrow>
     (\<exists>late. res = map answer_of (take (length res) fs) @ late \<and>
        (late = [] \<or> (\<exists>n > MAX_FRAME. late = [Inl (ResponseTooLarge n)])))"

definition wrote :: "('k, 'x, 's) conn \<Rightarrow> bool" where
  "wrote s \<longleftrightarrow> fw_inv (ck_out s) \<and>
     (\<exists>rest. concat (map (encode_frame \<circ> snd) (ck_reqs s)) = ck_sent s @ rest \<and>
        (ck_writing s \<noteq> Stopped \<longrightarrow> rest = fw_bytes (ck_out s)))"

definition paired :: "('k, 'x, 's) conn \<Rightarrow> bool" where
  "paired s \<longleftrightarrow>
     (\<exists>dropped. map fst (ck_reqs s) = map fst (ck_answers s) @ ck_pending s @ dropped \<and>
        (ck_reading s \<longrightarrow> dropped = []))"

definition heard :: "('k, 'x, 's) conn \<Rightarrow> bool" where
  "heard s \<longleftrightarrow> rd_max_frame (ck_reader s) = MAX_FRAME \<and>
     (\<exists>fs. ck_got s = concat (map encode_frame fs) @ rd_view (ck_reader s) \<and> (\<forall>f \<in> set fs. frame_ok f) \<and>
        matches (map snd (ck_answers s)) fs \<and>
        (ck_reading s \<longrightarrow> map snd (ck_answers s) = map answer_of fs))"

lemmas conn_inv = wrote_def paired_def heard_def

lemma set_lost_fields [simp]:
  "ck_rx (set_lost w s) = ck_rx s" "ck_pending (set_lost w s) = ck_pending s" "ck_out (set_lost w s) = ck_out s"
  "ck_writing (set_lost w s) = ck_writing s" "ck_reader (set_lost w s) = ck_reader s"
  "ck_reading (set_lost w s) = ck_reading s" "ck_reqs (set_lost w s) = ck_reqs s"
  "ck_sent (set_lost w s) = ck_sent s" "ck_got (set_lost w s) = ck_got s"
  "ck_answers (set_lost w s) = ck_answers s"
  by (simp_all add: set_lost_def split: option.split)

lemma queue_frame_inv:
  assumes "wrote s" and "paired s" and "heard s" and "ck_writing s \<noteq> Stopped"
  shows "wrote (queue_frame c op body nxt s)" "paired (queue_frame c op body nxt s)"
    "heard (queue_frame c op body nxt s)"
  using assms by (auto simp: queue_frame_def stop_writer_def conn_inv)

lemma take_request_inv:
  assumes "wrote s" and "paired s" and "heard s" and "ck_writing s \<noteq> Stopped"
  shows "wrote (take_request y q s)" "paired (take_request y q s)" "heard (take_request y q s)"
proof -
  have "wrote (s\<lparr>ck_rx := rest\<rparr>)" "paired (s\<lparr>ck_rx := rest\<rparr>)" "heard (s\<lparr>ck_rx := rest\<rparr>)" for rest
    using assms by (auto simp: conn_inv)
  then show "wrote (take_request y q s)" "paired (take_request y q s)" "heard (take_request y q s)"
    using assms by (auto simp: take_request_def queue_frame_inv split: list.splits)
qed

lemma write_gather_inv:
  assumes "wrote s" and "paired s" and "heard s"
  shows "wrote (write_gather s)" "paired (write_gather s)" "heard (write_gather s)"
proof -
  have "wrote (s\<lparr>ck_writing := w\<rparr>)" if "ck_writing s \<noteq> Stopped" for w
    using assms(1) that by (auto simp: conn_inv)
  moreover have "paired (s\<lparr>ck_writing := w\<rparr>)" "heard (s\<lparr>ck_writing := w\<rparr>)" for w
    using assms(2,3) by (auto simp: conn_inv)
  ultimately show "wrote (write_gather s)" "paired (write_gather s)" "heard (write_gather s)"
    using assms by (auto simp: write_gather_def take_request_inv split: writing.splits)
qed

lemma write_flush_inv:
  assumes "write_contract wv" and "wrote s" and "paired s" and "heard s" and "ck_writing s = Flushing"
  shows "wrote (write_flush wv s)" "paired (write_flush wv s)" "heard (write_flush wv s)"
proof -
  obtain res sent sock w r where f: "fw_flush wv (ck_out s) (ck_sock s) = (Some res, sent, sock, w)"
    "fw_bytes (ck_out s) = sent @ r" "fw_inv w"
    "if res = Inr () then r = [] \<and> fw_bytes w = [] \<and> fw_len w = 0 else fw_bytes w = fw_bytes (ck_out s)"
    using fw_flush_spec [OF assms(1), of "ck_out s" "ck_sock s"] assms(2) unfolding wrote_def by blast
  then show "wrote (write_flush wv s)"
    using assms(2,5) by (auto simp: write_flush_def stop_writer_def wrote_def Let_def split: sum.split)
  from f assms(3,4) show "paired (write_flush wv s)" "heard (write_flush wv s)"
    by (auto simp: write_flush_def stop_writer_def paired_def heard_def Let_def split: sum.split)
qed

lemma matches_all [simp]: "matches (map answer_of fs) fs"
  by (simp add: matches_def)

lemma matches_more: "matches res fs \<Longrightarrow> res = map answer_of fs \<Longrightarrow> matches res (fs @ [f])"
  by (simp add: matches_def)

lemma matches_late: "n > MAX_FRAME \<Longrightarrow> matches (map answer_of fs @ [Inl (ResponseTooLarge n)]) fs"
  by (auto simp: matches_def)

lemma stop_reader_inv:
  "wrote s \<Longrightarrow> wrote (stop_reader w s)" "paired s \<Longrightarrow> paired (stop_reader w s)"
  "heard s \<Longrightarrow> heard (stop_reader w s)"
  by (auto simp: stop_reader_def conn_inv)

lemma hand_over_inv:
  "wrote s \<Longrightarrow> wrote (hand_over res s)" "paired s \<Longrightarrow> paired (hand_over res s)"
  by (auto simp: hand_over_def conn_inv split: list.splits)

lemma hand_over_heard:
  assumes "ck_got s = concat (map encode_frame fs) @ rd_view (ck_reader s)" and "\<forall>f \<in> set fs. frame_ok f"
    and "rd_max_frame (ck_reader s) = MAX_FRAME" and "map snd (ck_answers s) @ [res] = map answer_of fs"
    and "ck_pending s \<noteq> []"
  shows "heard (hand_over res s)"
  using assms by (cases "ck_pending s") (auto simp: hand_over_def heard_def)

lemma read_one_inv:
  assumes "wrote s" and "paired s" and "heard s" and "ck_reading s"
  shows "wrote (read_one s)" "paired (read_one s)" "heard (read_one s)"
proof -
  obtain x r where nb: "next_buffered_owned (ck_reader s) = (x, r)" by fastforce
  then have x: "x = fst (next_buffered (ck_reader s))" and v: "rd_view r = rd_view (snd (next_buffered (ck_reader s)))"
    using next_buffered_owned_agrees [of "ck_reader s"] by simp_all
  have m: "rd_max_frame r = MAX_FRAME"
    using nb assms(3) by (auto simp: next_buffered_owned_def rd_head_def heard_def Let_def
        split: sum.splits option.splits prod.splits if_splits)
  obtain fs where fs: "ck_got s = concat (map encode_frame fs) @ rd_view (ck_reader s)" "\<forall>f \<in> set fs. frame_ok f"
    "map snd (ck_answers s) = map answer_of fs" using assms(3,4) unfolding heard_def by blast
  let ?s = "s\<lparr>ck_reader := r\<rparr>"
  have w: "wrote ?s" "paired ?s" using assms(1,2) by (simp_all add: conn_inv)
  have "wrote (read_one s) \<and> paired (read_one s) \<and> heard (read_one s)"
  proof (cases rule: next_buffered_cases [of "ck_reader s"])
    case (large t n)
    have "heard (hand_over (Inl (ResponseTooLarge n)) ?s\<lparr>ck_reading := False\<rparr>)"
      using fs m v large assms(3) matches_late [of n fs]
      by (cases "ck_pending s") (auto simp: heard_def hand_over_def)
    then have "heard (stop_reader Transient (hand_over (Inl (ResponseTooLarge n)) ?s))"
      by (simp add: heard_def stop_reader_def)
    then show ?thesis using nb x large w by (simp add: read_one_def stop_reader_inv hand_over_inv)
  next
    case (frame f rest)
    then have ok: "frame_ok f" and view: "rd_view (ck_reader s) = encode_frame f @ rd_view r"
      using frame_step_inv v by auto
    show ?thesis
    proof (cases "ck_pending s = []")
      case True
      have "heard (stop_reader (LostFatal Desync) ?s)"
        using fs m ok view matches_more [of "map snd (ck_answers s)" fs f] unfolding heard_def
        by (intro conjI exI [of _ "fs @ [f]"]) (auto simp: stop_reader_def)
      then show ?thesis using True nb x frame w by (simp add: read_one_def stop_reader_inv)
    next
      case False
      have "heard (hand_over (answer_of f) ?s)"
        by (rule hand_over_heard [of _ "fs @ [f]"]) (use fs m ok view False in auto)
      with w have "wrote (hand_over (answer_of f) ?s) \<and> paired (hand_over (answer_of f) ?s) \<and> heard (hand_over (answer_of f) ?s)"
        by (simp add: hand_over_inv)
      then show ?thesis using False nb x frame
        by (simp add: read_one_def Let_def stop_reader_inv split: option.split)
    qed
  next
    case (more e)
    then show ?thesis using nb x w fs m v assms(3) by (auto simp: read_one_def conn_inv)
  qed
  then show "wrote (read_one s)" "paired (read_one s)" "heard (read_one s)" by blast+
qed

lemma read_fill_inv:
  assumes "wrote s" and "paired s" and "heard s" and "ck_reading s"
  shows "wrote (read_fill got s)" "paired (read_fill got s)" "heard (read_fill got s)"
proof -
  let ?s = "s\<lparr>ck_reader := snd (fill got (ck_reader s)), ck_got := ck_got s @ (case got of Inr b \<Rightarrow> b | Inl _ \<Rightarrow> [])\<rparr>"
  have w: "wrote ?s" "paired ?s" using assms(1,2) by (simp_all add: conn_inv)
  have "rd_view (snd (fill got (ck_reader s))) = rd_view (ck_reader s) @ (case got of Inr b \<Rightarrow> b | Inl _ \<Rightarrow> [])"
    by (cases got) (simp_all add: fill_def rd_view_def release_def)
  with assms(3) have h: "heard ?s" by (auto simp: heard_def)
  obtain x r where f: "fill got (ck_reader s) = (x, r)" by fastforce
  have "wrote (?s\<lparr>ck_filling := False\<rparr>)" "paired (?s\<lparr>ck_filling := False\<rparr>)" "heard (?s\<lparr>ck_filling := False\<rparr>)"
    using w h by (auto simp: conn_inv)
  then show "wrote (read_fill got s)" "paired (read_fill got s)" "heard (read_fill got s)"
    using w h f by (simp_all add: read_fill_def stop_reader_inv Let_def)
qed

lemma io_step_inv:
  assumes "io_step wv s s'" and "write_contract wv" and "wrote s" and "paired s" and "heard s"
  shows "wrote s' \<and> paired s' \<and> heard s'"
  using assms
proof (cases rule: io_step.cases)
  case (send op body)
  with assms show ?thesis by (auto simp: conn_send_def conn_inv)
next
  case idle
  with assms show ?thesis by (simp add: write_ping_def queue_frame_inv)
next
  case stop
  with assms show ?thesis by (auto simp: stop_writer_def conn_inv)
next
  case abort
  with assms show ?thesis by (auto simp: stop_writer_def conn_inv)
next
  case flush
  with assms show ?thesis by (simp add: write_flush_inv)
next
  case (filled got)
  with assms show ?thesis by (simp add: read_fill_inv)
qed (simp_all add: take_request_inv write_gather_inv read_one_inv)

interpretation io: step_invariant "io_step wv" "\<lambda>s. write_contract wv \<longrightarrow> wrote s \<and> paired s \<and> heard s" for wv
  by unfold_locales (simp add: io_step_inv)

lemma io_reach_inv:
  assumes "(io_step wv)\<^sup>*\<^sup>* (conn_spawn sock) s" and "write_contract wv"
  shows "wrote s \<and> paired s \<and> heard s"
  using io.reach_inv [OF assms(1)] assms(2) by (simp add: conn_inv conn_spawn_def fw_inv_new matches_def)

section \<open>Properties\<close>

text \<open>
  C8. Pipelining keeps requests and responses together. In every interleaving of the callers, the
  two tasks and the network: what was sent is a prefix of the requests taken, in order; the
  callers answered are the first of those requests' callers, in order; and each answer is read
  from the response in the same place of the stream received (a response announced too large to
  accept is its caller's error, and the last).
\<close>

theorem pipelined_in_order:
  fixes s :: "('k, 'x, 's) conn"
  assumes "(io_step wv)\<^sup>*\<^sup>* (conn_spawn sock) s" and "write_contract wv"
  shows "\<exists>fs unsent unanswered. concat (map (encode_frame \<circ> snd) (ck_reqs s)) = ck_sent s @ unsent \<and>
    map fst (ck_reqs s) = map fst (ck_answers s) @ unanswered \<and>
    ck_got s = concat (map encode_frame fs) @ rd_view (ck_reader s) \<and> (\<forall>f \<in> set fs. frame_ok f) \<and>
    matches (map snd (ck_answers s)) fs"
  using io_reach_inv [OF assms] unfolding conn_inv by blast

section \<open>A run\<close>

text \<open>
  A socket that takes all it is given; a call that authenticates and a ping, sent together; and
  the answer to the first.
\<close>

definition eager_socket :: "unit \<Rightarrow> bytes list \<Rightarrow> (unit + nat) \<times> unit" where
  "eager_socket s v = (Inr (length (concat v)), ())"

lemma eager_socket_contract: "write_contract eager_socket"
  by (simp add: write_contract_def eager_socket_def)

definition demo_queued :: "(unit, unit, unit) conn" where
  "demo_queued =
     write_gather (write_gather (write_gather (take_request False 0
       (conn_send Ping [] (conn_send Auth [9] (conn_spawn ()))))))"

definition demo_run :: "(unit, unit, unit) conn" where
  "demo_run =
     read_one (read_fill (Inr [0, 0, 0, 0, 0] :: unit + bytes) (read_one (write_flush eager_socket demo_queued)))"

definition demo_sent :: "(unit, unit, unit) conn" where
  "demo_sent =
     (conn_spawn ())\<lparr>ck_pending := [Some 0, Some 1], ck_next := 2,
       ck_reqs := [(Some 0, 4, [9]), (Some 1, 5, [])], ck_sent := [4, 1, 0, 0, 0, 9, 5, 0, 0, 0, 0]\<rparr>"

lemma demo_flush: "write_flush eager_socket demo_queued = demo_sent"
  by (simp add: demo_queued_def demo_sent_def write_flush_def write_gather_def take_request_def queue_frame_def
      conn_send_def conn_spawn_def YIELD_BELOW_def BUF_def fw_flush_def fw_frame_def fw_header_def fw_put_bytes_def
      fw_put_slice_def with_inline_limit_def encode_header_def to_le_bytes_def eager_socket_def iov_def MAX_IOV_def
      flush_loop.simps advance.simps)

lemma demo_sent_fields [simp]:
  "ck_pending demo_sent = [Some 0, Some 1]" "ck_reader demo_sent = rd_new MAX_FRAME" "ck_reading demo_sent"
  "\<not> ck_filling demo_sent" "ck_got demo_sent = []" "ck_answers demo_sent = []"
  "ck_reqs demo_sent = [(Some 0, 4, [9]), (Some 1, 5, [])]" "ck_sent demo_sent = [4, 1, 0, 0, 0, 9, 5, 0, 0, 0, 0]"
  by (simp_all add: demo_sent_def conn_spawn_def)

lemma demo_waits: "read_one demo_sent = demo_sent\<lparr>ck_filling := True\<rparr>"
  by (simp add: read_one_def next_buffered_owned_def rd_head_def rd_new_def release_def HEADER_LEN_def demo_sent_def conn_spawn_def)

lemma demo_filled:
  "read_fill (Inr [0, 0, 0, 0, 0] :: unit + bytes) (read_one demo_sent) =
     demo_sent\<lparr>ck_reader := (rd_new MAX_FRAME)\<lparr>rd_buf := [0, 0, 0, 0, 0]\<rparr>, ck_got := [0, 0, 0, 0, 0], ck_filling := False\<rparr>"
  by (simp add: demo_waits read_fill_def fill_def rd_new_def release_def)

lemma demo_next:
  "next_buffered_owned ((rd_new MAX_FRAME)\<lparr>rd_buf := [0, 0, 0, 0, 0]\<rparr>) = (Inr (Some (0, [])), rd_new MAX_FRAME)"
proof -
  have "decode_header [0, 0, 0, 0, 0] = (0, 0)" by (simp add: decode_header_def from_le_bytes_def)
  then show ?thesis by (simp add: next_buffered_owned_def rd_head_def rd_new_def release_def Let_def HEADER_LEN_def)
qed

lemma demo_run_eq:
  "demo_run = demo_sent\<lparr>ck_got := [0, 0, 0, 0, 0], ck_filling := False, ck_pending := [Some 1],
     ck_answers := [(Some 0, Inr (Ok, []))]\<rparr>"
proof -
  have "answer_of (0, []) = (Inr (Ok, []) :: (unit, unit) answer)" by (simp add: answer_of_def status_from_u8_def)
  then show ?thesis
    unfolding demo_run_def demo_flush demo_filled
    by (simp add: read_one_def demo_next hand_over_def Let_def)
qed

lemma demo_reach: "(io_step eager_socket)\<^sup>*\<^sup>* (conn_spawn ()) demo_run"
proof -
  let ?s0 = "conn_spawn () :: (unit, unit, unit) conn"
  let ?s1 = "conn_send Auth [9] ?s0" let ?s2 = "conn_send Ping [] ?s1" let ?s3 = "take_request False 0 ?s2"
  let ?fill = "read_fill (Inr [0, 0, 0, 0, 0] :: unit + bytes) (read_one demo_sent)"
  have 1: "io_step eager_socket ?s0 ?s1" "io_step eager_socket ?s1 ?s2"
    by (rule io_step.send; simp add: CHANNEL_def conn_spawn_def conn_send_def)+
  have 2: "io_step eager_socket ?s2 ?s3"
    by (rule io_step.recv) (simp_all add: conn_spawn_def conn_send_def)
  have 3: "io_step eager_socket ?s3 (write_gather ?s3)"
    "io_step eager_socket (write_gather ?s3) (write_gather (write_gather ?s3))"
    "io_step eager_socket (write_gather (write_gather ?s3)) demo_queued" unfolding demo_queued_def by (rule io_step.gather)+
  have "io_step eager_socket demo_queued (write_flush eager_socket demo_queued)"
    by (rule io_step.flush) (simp add: demo_queued_def write_gather_def take_request_def queue_frame_def conn_send_def
        conn_spawn_def YIELD_BELOW_def BUF_def)
  then have 4: "io_step eager_socket demo_queued demo_sent" unfolding demo_flush .
  have 5: "io_step eager_socket demo_sent (read_one demo_sent)" by (rule io_step.read) simp_all
  have 6: "io_step eager_socket (read_one demo_sent) ?fill" by (rule io_step.filled) (simp_all add: demo_waits)
  have 7: "io_step eager_socket ?fill demo_run"
    unfolding demo_run_def demo_flush by (rule io_step.read) (simp_all add: demo_filled)
  show ?thesis using 1 2 3 4 5 6 7 by (meson rtranclp.rtrancl_into_rtrancl rtranclp.rtrancl_refl)
qed

lemma demo_answer: "ck_answers demo_run = [(Some 0, Inr (Ok, []))]"
  by (simp add: demo_run_eq)

theorem pipelined_in_order_witness:
  "ck_answers demo_run = [(Some 0, Inr (Ok, []))] \<and>
   (\<exists>unsent unanswered. concat (map (encode_frame \<circ> snd) (ck_reqs demo_run)) = ck_sent demo_run @ unsent \<and>
      map fst (ck_reqs demo_run) = map fst (ck_answers demo_run) @ unanswered)"
  using pipelined_in_order [OF demo_reach eager_socket_contract] demo_answer by blast

end
