(* ===== verification/Supervisor.thy ===== *)
theory Supervisor
  imports Client
begin

text \<open>
  The connection supervisor of \<^verbatim>\<open>crates/client-rs/src/lib.rs\<close> (\<open>Inner\<close>, \<open>Backoff\<close> and
  \<open>Client::call\<close>): any number of concurrent calls share one link; those that find it lost queue on
  a mutex, the first reconnects and the others share what came of it. A call is re-issued once.

  A connection is a number; whether it is lost, and why, is the \<open>OnceLock\<close> its tasks set. A call is
  in one of the phases between the points where it awaits something, and \<open>sup_step\<close> is any
  interleaving of the calls, the tasks that set the verdicts, and calls dropped half-way. Times
  are in milliseconds.
\<close>

section \<open>Backing off\<close>

definition BACKOFF_MIN :: nat where "BACKOFF_MIN = 100"
definition BACKOFF_MAX :: nat where "BACKOFF_MAX = 5000"

record 'k backoff =
  bo_delay :: nat
  bo_not_before :: nat
  bo_last :: "'k setback option"

definition backoff_fresh :: "nat \<Rightarrow> 'k backoff" where
  "backoff_fresh now = \<lparr>bo_delay = BACKOFF_MIN, bo_not_before = now, bo_last = None\<rparr>"

definition backoff_failed :: "nat \<Rightarrow> 'k setback \<Rightarrow> 'k backoff \<Rightarrow> 'k backoff" where
  "backoff_failed now s b =
     \<lparr>bo_delay = min (bo_delay b * 2) BACKOFF_MAX, bo_not_before = now + bo_delay b, bo_last = Some s\<rparr>"

section \<open>The link\<close>

datatype link = Up nat | Down | Dead fatal

record 'k inner =
  in_link :: link
  in_backoff :: "'k backoff"
  in_attempts :: u64
  in_reconnects :: u64

definition inner_new :: "nat \<Rightarrow> link \<Rightarrow> 'k inner" where
  "inner_new now link =
     \<lparr>in_link = link, in_backoff = backoff_fresh now, in_attempts = 0, in_reconnects = 0\<rparr>"

definition client_lazy :: "nat \<Rightarrow> 'k inner" where
  "client_lazy now = inner_new now Down"

text \<open>
  \<open>Conn::open\<close>: what came of connecting, the answer to AUTH, and the verdict the reader left when
  that answer was \<open>Closed\<close>.
\<close>

definition conn_open :: "('k, 'x) error + nat \<Rightarrow> ('k, 'x) answer \<Rightarrow> lost \<Rightarrow> 'k failed + nat" where
  "conn_open connected reply verdict =
     (case connected of
        Inl e \<Rightarrow> Inl (failed_of e)
      | Inr conn \<Rightarrow>
          (case reply of
             Inr _ \<Rightarrow> Inr conn
           | Inl e \<Rightarrow>
               Inl (if e = Closed
                    then (case verdict of LostFatal f \<Rightarrow> FailedFatal f | Transient \<Rightarrow> FailedSetback SetbackClosed)
                    else failed_of e)))"

text \<open>A connection refused its token, or answered with a status the protocol lacks, fails for good.\<close>

lemma conn_open_fatal:
  "conn_open (Inr c) (Inl e) verdict = Inl (FailedFatal f) \<longleftrightarrow>
     (if e = Closed then verdict = LostFatal f else fatal_of e = Some f)"
  by (auto simp: conn_open_def failed_of_def split: lost.split option.split)

text \<open>A client that connects at once; \<open>None\<close> is the panic of a keepalive of zero.\<close>

definition client_connect_with :: "nat \<Rightarrow> nat \<Rightarrow> 'k failed + nat \<Rightarrow> (('k, 'x) error + 'k inner) option" where
  "client_connect_with keepalive now opened =
     (if keepalive = 0 then None
      else Some (case opened of Inl f \<Rightarrow> Inl (failed_error f) | Inr c \<Rightarrow> Inr (inner_new now (Up c))))"

text \<open>What a connection's tasks have said of its end, if anything.\<close>

type_synonym verdicts = "nat \<Rightarrow> lost option"

definition current :: "verdicts \<Rightarrow> 'k inner \<Rightarrow> ('k, 'x) error + nat option" where
  "current lost s =
     (case in_link s of
        Up c \<Rightarrow> Inr (if lost c = None then Some c else None)
      | Down \<Rightarrow> Inr None
      | Dead f \<Rightarrow> Inl (fatal_error f))"

definition settled :: "verdicts \<Rightarrow> nat option \<Rightarrow> link \<Rightarrow> (fatal + nat) option" where
  "settled lost failed link =
     (case link of
        Up c \<Rightarrow>
          (case lost c of
             Some (LostFatal f) \<Rightarrow> Some (Inl f)
           | Some Transient \<Rightarrow> None
           | None \<Rightarrow> if failed = Some c then None else Some (Inr c))
      | Down \<Rightarrow> None
      | Dead f \<Rightarrow> Some (Inl f))"

text \<open>
  \<open>recover\<close> under the mutex, up to where it waits to reconnect (\<open>None\<close>); \<open>seen\<close> is the count of
  attempts read before the mutex was asked for.
\<close>

definition recover_settle ::
  "verdicts \<Rightarrow> nat option \<Rightarrow> u64 \<Rightarrow> 'k inner \<Rightarrow> (('k, 'x) error + nat) option \<times> 'k inner" where
  "recover_settle lost failed seen s =
     (case settled lost failed (in_link s) of
        Some (Inr c) \<Rightarrow> (Some (Inr c), s)
      | Some (Inl f) \<Rightarrow> (Some (Inl (fatal_error f)), s\<lparr>in_link := Dead f\<rparr>)
      | None \<Rightarrow>
          let s1 = s\<lparr>in_link := Down\<rparr>
          in case bo_last (in_backoff s1) of
               Some sb \<Rightarrow> if in_attempts s1 \<noteq> seen then (Some (Inl (setback_error sb)), s1) else (None, s1)
             | None \<Rightarrow> (None, s1))"

text \<open>The rest, once the attempt has an outcome.\<close>

definition recover_opened ::
  "nat \<Rightarrow> 'k failed + nat \<Rightarrow> 'k inner \<Rightarrow> (('k, 'x) error + nat) \<times> 'k inner" where
  "recover_opened now outcome s =
     (let s1 = s\<lparr>in_attempts := in_attempts s + 1\<rparr>
      in case outcome of
           Inr c \<Rightarrow>
             (Inr c, s1\<lparr>in_link := Up c, in_backoff := backoff_fresh now, in_reconnects := in_reconnects s1 + 1\<rparr>)
         | Inl failed \<Rightarrow>
             (Inl (failed_error failed),
              (case failed of
                 FailedFatal f \<Rightarrow> s1\<lparr>in_link := Dead f\<rparr>
               | FailedSetback sb \<Rightarrow> s1\<lparr>in_backoff := backoff_failed now sb (in_backoff s1)\<rparr>)))"

section \<open>Calls\<close>

text \<open>
  Where a call is: not begun, about to recover from a connection, queued on the mutex, holding it
  while it connects, waiting for the reply to what it sent, answered, or dropped by its caller.
\<close>

datatype ('k, 'x) call_phase =
    Fresh
  | Recovering "nat option" bool
  | Queued u64 "nat option" bool
  | Opening bool
  | Sending nat bool
  | Done "('k, 'x) answer"
  | Dropped

record ('k, 'x) sup =
  su_inner :: "'k inner"
  su_lost :: verdicts
  su_holder :: "nat option"
  su_phase :: "nat \<Rightarrow> ('k, 'x) call_phase"
  su_sends :: "nat \<Rightarrow> nat"

definition sup_new :: "'k inner \<Rightarrow> ('k, 'x) sup" where
  "sup_new s =
     \<lparr>su_inner = s, su_lost = (\<lambda>_. None), su_holder = None, su_phase = (\<lambda>_. Fresh), su_sends = (\<lambda>_. 0)\<rparr>"

definition goto :: "nat \<Rightarrow> ('k, 'x) call_phase \<Rightarrow> ('k, 'x) sup \<Rightarrow> ('k, 'x) sup" where
  "goto a p S = S\<lparr>su_phase := (su_phase S)(a := p)\<rparr>"

text \<open>\<open>conn.send(op, body.clone())\<close> is one more request on the wire.\<close>

definition send_on :: "nat \<Rightarrow> nat \<Rightarrow> bool \<Rightarrow> ('k, 'x) sup \<Rightarrow> ('k, 'x) sup" where
  "send_on a c retried S = (goto a (Sending c retried) S)\<lparr>su_sends := (su_sends S)(a := su_sends S a + 1)\<rparr>"

definition call_begin :: "nat \<Rightarrow> ('k, 'x) sup \<Rightarrow> ('k, 'x) sup" where
  "call_begin a S =
     (case current (su_lost S) (su_inner S) of
        Inl e \<Rightarrow> goto a (Done (Inl e)) S
      | Inr (Some c) \<Rightarrow> send_on a c False S
      | Inr None \<Rightarrow> goto a (Recovering None False) S)"

definition recovered :: "nat \<Rightarrow> bool \<Rightarrow> ('k, 'x) error + nat \<Rightarrow> ('k, 'x) sup \<Rightarrow> ('k, 'x) sup" where
  "recovered a retried res S =
     (case res of Inl e \<Rightarrow> goto a (Done (Inl e)) S | Inr c \<Rightarrow> send_on a c retried S)"

definition call_locked :: "nat \<Rightarrow> u64 \<Rightarrow> nat option \<Rightarrow> bool \<Rightarrow> ('k, 'x) sup \<Rightarrow> ('k, 'x) sup" where
  "call_locked a seen failed retried S =
     (case recover_settle (su_lost S) failed seen (su_inner S) of
        (Some res, s) \<Rightarrow> recovered a retried res (S\<lparr>su_inner := s\<rparr>)
      | (None, s) \<Rightarrow> goto a (Opening retried) (S\<lparr>su_inner := s, su_holder := Some a\<rparr>))"

definition call_opened :: "nat \<Rightarrow> nat \<Rightarrow> bool \<Rightarrow> 'k failed + nat \<Rightarrow> ('k, 'x) sup \<Rightarrow> ('k, 'x) sup" where
  "call_opened a now retried outcome S =
     (case recover_opened now outcome (su_inner S) of
        (res, s) \<Rightarrow> recovered a retried res (S\<lparr>su_inner := s, su_holder := None\<rparr>))"

definition call_replied :: "nat \<Rightarrow> nat \<Rightarrow> bool \<Rightarrow> ('k, 'x) answer \<Rightarrow> ('k, 'x) sup \<Rightarrow> ('k, 'x) sup" where
  "call_replied a c retried res S =
     (if res = Inl Closed \<and> \<not> retried then goto a (Recovering (Some c) True) S else goto a (Done res) S)"

text \<open>A dropped call gives the mutex back.\<close>

definition call_dropped :: "nat \<Rightarrow> ('k, 'x) sup \<Rightarrow> ('k, 'x) sup" where
  "call_dropped a S =
     goto a Dropped (S\<lparr>su_holder := (if su_holder S = Some a then None else su_holder S)\<rparr>)"

inductive sup_step :: "('k, 'x) sup \<Rightarrow> ('k, 'x) sup \<Rightarrow> bool" where
  start: "su_phase S a = Fresh \<Longrightarrow> sup_step S (call_begin a S)"
| count: "su_phase S a = Recovering failed retried \<Longrightarrow>
    sup_step S (goto a (Queued (in_attempts (su_inner S)) failed retried) S)"
| lock: "su_phase S a = Queued seen failed retried \<Longrightarrow> su_holder S = None \<Longrightarrow>
    sup_step S (call_locked a seen failed retried S)"
| opened: "su_phase S a = Opening retried \<Longrightarrow> bo_not_before (in_backoff (su_inner S)) \<le> now \<Longrightarrow>
    sup_step S (call_opened a now retried outcome S)"
| replied: "su_phase S a = Sending c retried \<Longrightarrow> sup_step S (call_replied a c retried res S)"
| dropped: "(\<forall>res. su_phase S a \<noteq> Done res) \<Longrightarrow> sup_step S (call_dropped a S)"
| lose: "su_lost S c = None \<Longrightarrow> sup_step S (S\<lparr>su_lost := (su_lost S)(c := Some why)\<rparr>)"

section \<open>Invariants\<close>

text \<open>Who holds the mutex is the call that is connecting, and the link is down meanwhile.\<close>

definition lock_inv :: "('k, 'x) sup \<Rightarrow> bool" where
  "lock_inv S \<longleftrightarrow>
     (\<forall>a retried. su_phase S a = Opening retried \<longrightarrow> su_holder S = Some a) \<and>
     (su_holder S \<noteq> None \<longrightarrow> in_link (su_inner S) = Down)"

text \<open>How many requests a call may have sent when it is in a phase.\<close>

fun sends_ok :: "nat \<Rightarrow> ('k, 'x) call_phase \<Rightarrow> bool" where
  "sends_ok n Fresh \<longleftrightarrow> n = 0"
| "sends_ok n (Recovering _ retried) \<longleftrightarrow> n = of_bool retried"
| "sends_ok n (Queued _ _ retried) \<longleftrightarrow> n = of_bool retried"
| "sends_ok n (Opening retried) \<longleftrightarrow> n = of_bool retried"
| "sends_ok n (Sending _ retried) \<longleftrightarrow> n = 1 + of_bool retried"
| "sends_ok n (Done res) \<longleftrightarrow> n \<le> 2 \<and> (n = 0 \<longrightarrow> (\<exists>e. res = Inl e))"
| "sends_ok n Dropped \<longleftrightarrow> n \<le> 2"

definition sends_inv :: "('k, 'x) sup \<Rightarrow> bool" where
  "sends_inv S \<longleftrightarrow> (\<forall>a. sends_ok (su_sends S a) (su_phase S a))"

lemmas sup_defs = goto_def send_on_def recovered_def call_begin_def call_locked_def call_opened_def
  call_replied_def call_dropped_def

lemma lock_inv_new: "lock_inv (sup_new s)"
  by (simp add: lock_inv_def sup_new_def)

lemma sends_inv_new: "sends_inv (sup_new s)"
  by (simp add: sends_inv_def sup_new_def)

lemma lock_inv_step:
  assumes "sup_step S S'" and "lock_inv S"
  shows "lock_inv S'"
  using assms
proof (cases rule: sup_step.cases)
  case (start a)
  with assms(2) show ?thesis
    by (auto simp: lock_inv_def sup_defs split: sum.splits option.splits)
next
  case (lock a seen failed retried)
  with assms(2) show ?thesis
    by (auto simp: lock_inv_def sup_defs recover_settle_def Let_def split: sum.splits option.splits prod.splits if_splits)
next
  case (opened a retried now outcome)
  with assms(2) have "su_holder S = Some a" by (auto simp: lock_inv_def)
  with opened assms(2) show ?thesis
    by (auto simp: lock_inv_def sup_defs split: sum.splits prod.splits)
next
  case (dropped a)
  with assms(2) show ?thesis by (auto simp: lock_inv_def sup_defs)
qed (auto simp: lock_inv_def sup_defs)

lemma sends_inv_step:
  assumes "sup_step S S'" and "sends_inv S"
  shows "sends_inv S'"
proof -
  have ok: "sends_ok (su_sends S a) p" if "su_phase S a = p" for a p
    using assms(2) that by (auto simp: sends_inv_def)
  from assms(1) show ?thesis
  proof (cases rule: sup_step.cases)
    case (start a)
    with assms(2) ok [OF start(2)] show ?thesis
      by (auto simp: sends_inv_def sup_defs split: sum.splits option.splits)
  next
    case (count a failed retried)
    with assms(2) ok [OF count(2)] show ?thesis by (auto simp: sends_inv_def goto_def)
  next
    case (lock a seen failed retried)
    with assms(2) ok [OF lock(2)] show ?thesis
      by (auto simp: sends_inv_def sup_defs split: sum.splits option.splits prod.splits)
  next
    case (opened a retried now outcome)
    with assms(2) ok [OF opened(2)] show ?thesis
      by (auto simp: sends_inv_def sup_defs split: sum.splits prod.splits)
  next
    case (replied a c retried res)
    with assms(2) ok [OF replied(2)] show ?thesis by (auto simp: sends_inv_def sup_defs)
  next
    case (dropped a)
    have "sends_ok n p \<Longrightarrow> n \<le> 2" for n and p :: "('a, 'b) call_phase" by (cases p) auto
    with dropped assms(2) show ?thesis by (auto simp: sends_inv_def sup_defs)
  qed (use assms(2) in \<open>auto simp: sends_inv_def sup_defs\<close>)
qed

interpretation lock: step_invariant sup_step lock_inv
  by unfold_locales (rule lock_inv_step)

interpretation sends: step_invariant sup_step sends_inv
  by unfold_locales (rule sends_inv_step)

text \<open>Once the link is dead, no step revives it, connects again or answers a new call.\<close>

definition dead_with :: "fatal \<Rightarrow> u64 \<Rightarrow> nat set \<Rightarrow> ('k, 'x) sup \<Rightarrow> bool" where
  "dead_with f n A S \<longleftrightarrow> in_link (su_inner S) = Dead f \<and> in_attempts (su_inner S) = n \<and> lock_inv S \<and>
     (\<forall>a \<in> A. su_sends S a = 0 \<and> su_phase S a \<in> {Fresh, Done (Inl (fatal_error f)), Dropped})"

lemma dead_with_goto:
  "dead_with f n A S \<Longrightarrow> lock_inv (goto a p S) \<Longrightarrow> a \<in> A \<Longrightarrow> p \<in> {Done (Inl (fatal_error f)), Dropped} \<Longrightarrow>
   dead_with f n A (goto a p S)"
  by (auto simp: dead_with_def goto_def)

lemma dead_with_step:
  assumes "sup_step S S'" and "dead_with f n A S"
  shows "dead_with f n A S'"
proof -
  have l: "lock_inv S'" using lock_inv_step assms by (auto simp: dead_with_def)
  have no: "su_phase S a \<noteq> Opening r" for a r using assms(2) by (auto simp: dead_with_def lock_inv_def)
  from assms(1) show ?thesis
  proof (cases rule: sup_step.cases)
    case (start a)
    with assms(2) l show ?thesis by (auto simp: dead_with_def sup_defs current_def)
  next
    case (lock a seen failed retried)
    with assms(2) l show ?thesis
      by (auto simp: dead_with_def sup_defs recover_settle_def settled_def)
  next
    case (opened a retried now outcome)
    with no show ?thesis by blast
  qed (use assms(2) l in \<open>auto simp: dead_with_def sup_defs\<close>)
qed

interpretation dead: step_invariant sup_step "dead_with f n A" for f n A
  by unfold_locales (rule dead_with_step)

section \<open>Properties\<close>

text \<open>
  C40. A call sends its request at most twice, whatever else happens: it is re-issued once if the
  connection it was on is lost, and no call is answered without having been sent.
\<close>

theorem call_sent_at_most_twice:
  assumes "sup_step\<^sup>*\<^sup>* (sup_new s) S"
  shows "su_sends S a \<le> 2 \<and> (su_phase S a = Done (Inr r) \<longrightarrow> 0 < su_sends S a)"
proof -
  have "sends_ok (su_sends S a) (su_phase S a)"
    using sends.reach_inv [OF assms sends_inv_new] by (simp add: sends_inv_def)
  then show ?thesis by (cases "su_phase S a") (auto split: if_splits)
qed

text \<open>
  C10. A refused token, an unknown status byte or an unsolicited response is final. From a state
  where the link is dead with such an error, whatever the calls and tasks do, it stays dead with
  it, nothing connects again, and a call that begins then sends nothing and ends with that error,
  unless its caller drops it.
\<close>

theorem dead_client_stays_dead:
  assumes "sup_step\<^sup>*\<^sup>* (sup_new s) S" and "in_link (su_inner S) = Dead f" and "sup_step\<^sup>*\<^sup>* S S'"
  shows "in_link (su_inner S') = Dead f \<and> in_attempts (su_inner S') = in_attempts (su_inner S) \<and>
    (su_phase S a = Fresh \<longrightarrow> su_sends S' a = 0 \<and> su_phase S' a \<in> {Fresh, Done (Inl (fatal_error f)), Dropped})"
proof -
  let ?A = "{a. su_phase S a = Fresh}"
  have "sends_inv S" by (rule sends.reach_inv [OF assms(1) sends_inv_new])
  then have "\<forall>a \<in> ?A. su_sends S a = 0" unfolding sends_inv_def by (metis mem_Collect_eq sends_ok.simps(1))
  with lock.reach_inv [OF assms(1) lock_inv_new] assms(2)
  have "dead_with f (in_attempts (su_inner S)) ?A S" by (simp add: dead_with_def)
  then have "dead_with f (in_attempts (su_inner S)) ?A S'" by (rule dead.reach_inv [OF assms(3)])
  then show ?thesis by (simp add: dead_with_def)
qed

section \<open>Reconnecting\<close>

text \<open>Failures in a row, each with when it happened: the wait doubles from 100 ms and stops at 5 s.\<close>

lemma backoff_doubles:
  assumes "b = fold (\<lambda>(now, sb). backoff_failed now sb) fails (backoff_fresh t)"
  shows "bo_delay b = min (BACKOFF_MIN * 2 ^ length fails) BACKOFF_MAX"
    and "bo_not_before (backoff_failed now sb b) = now + min (BACKOFF_MIN * 2 ^ length fails) BACKOFF_MAX"
proof -
  show "bo_delay b = min (BACKOFF_MIN * 2 ^ length fails) BACKOFF_MAX"
    unfolding assms
    by (induction fails rule: rev_induct)
      (auto simp: backoff_fresh_def backoff_failed_def BACKOFF_MIN_def BACKOFF_MAX_def min_def)
  then show "bo_not_before (backoff_failed now sb b) = now + min (BACKOFF_MIN * 2 ^ length fails) BACKOFF_MAX"
    by (simp add: backoff_failed_def)
qed

text \<open>A call that queued while another's attempt failed shares that failure and makes no attempt.\<close>

lemma attempt_shared:
  assumes "settled (su_lost S) failed (in_link (su_inner S)) = None"
    and "bo_last (in_backoff (su_inner S)) = Some sb" and "in_attempts (su_inner S) \<noteq> seen"
  shows "su_phase (call_locked a seen failed retried S) a = Done (Inl (setback_error sb))"
    and "in_attempts (su_inner (call_locked a seen failed retried S)) = in_attempts (su_inner S)"
  using assms by (simp_all add: call_locked_def recover_settle_def recovered_def goto_def)

section \<open>A run\<close>

text \<open>A client whose first call is refused its token.\<close>

definition demo_refused :: "(unit, unit) sup" where
  "demo_refused =
     (let S1 = call_begin 0 (sup_new (client_lazy 0));
          S2 = goto 0 (Queued 0 None False) S1
      in call_opened 0 9 False (Inl (FailedFatal (FatalUnauthorized []))) (call_locked 0 0 None False S2))"

lemma demo_refused_reach: "sup_step\<^sup>*\<^sup>* (sup_new (client_lazy 0)) demo_refused"
proof -
  let ?S0 = "sup_new (client_lazy 0) :: (unit, unit) sup"
  let ?S1 = "call_begin 0 ?S0" let ?S2 = "goto 0 (Queued 0 None False) ?S1" let ?S3 = "call_locked 0 0 None False ?S2"
  note defs = sup_new_def client_lazy_def inner_new_def sup_defs current_def recover_settle_def settled_def backoff_fresh_def
  have "sup_step ?S0 ?S1" by (rule sup_step.start) (simp add: sup_new_def)
  moreover have "sup_step ?S1 ?S2"
    using sup_step.count [of ?S1 0 None False] by (simp add: defs)
  moreover have "sup_step ?S2 ?S3" by (rule sup_step.lock) (simp_all add: defs)
  moreover have "sup_step ?S3 demo_refused"
    unfolding demo_refused_def Let_def by (rule sup_step.opened) (simp_all add: defs)
  ultimately show ?thesis by (meson rtranclp.rtrancl_into_rtrancl rtranclp.rtrancl_refl)
qed

lemma demo_refused_dead:
  "in_link (su_inner demo_refused) = Dead (FatalUnauthorized [])" "su_phase demo_refused 2 = Fresh"
  "su_phase demo_refused 0 = Done (Inl (Status Unauthorized []))"
  by (simp_all add: demo_refused_def sup_new_def client_lazy_def inner_new_def sup_defs current_def
      recover_settle_def settled_def backoff_fresh_def recover_opened_def)

theorem call_sent_at_most_twice_witness:
  "sup_step\<^sup>*\<^sup>* (sup_new (client_lazy 0)) demo_refused \<and> su_sends demo_refused 0 \<le> 2"
  using call_sent_at_most_twice [OF demo_refused_reach] demo_refused_reach by blast

theorem dead_client_stays_dead_witness:
  "sup_step demo_refused (call_begin 2 demo_refused) \<and>
   in_link (su_inner (call_begin 2 demo_refused)) = Dead (FatalUnauthorized []) \<and>
   su_phase (call_begin 2 demo_refused) 2 \<in> {Fresh, Done (Inl (Status Unauthorized [])), Dropped}"
proof -
  have s: "sup_step demo_refused (call_begin 2 demo_refused)" by (rule sup_step.start) (rule demo_refused_dead)
  from dead_client_stays_dead [OF demo_refused_reach demo_refused_dead(1) r_into_rtranclp [of sup_step, OF s], of 2] s
  show ?thesis by (simp add: demo_refused_dead)
qed

end
