(* ===== verification/Cluster.thy ===== *)
theory Cluster
  imports Ring Client
begin

text \<open>
  The cluster of \<^verbatim>\<open>crates/client-rs/src/cluster.rs\<close>: one health word per server and the policy
  that drops a server which stops answering, the choice of a key's server, and the batch that is
  split over the servers and put together again.

  A server is its index. The calls made on its client are an argument, and so are the clock and
  the order in which the concurrent requests of a fan-out complete.
\<close>

section \<open>Health\<close>

record failover =
  fo_failures :: u32
  fo_retry :: nat  \<comment> \<open>milliseconds\<close>

definition failover_default :: failover where
  "failover_default = \<lparr>fo_failures = 2, fo_retry = 30000\<rparr>"

definition DEADLINE_BITS :: nat where "DEADLINE_BITS = 48"
definition DEADLINE_MAX :: u64 where "DEADLINE_MAX = push_bit DEADLINE_BITS 1 - 1"
definition FAILURES_MAX :: u32 where "FAILURES_MAX = ucast (drop_bit DEADLINE_BITS (- 1 :: u64))"
definition HEALTHY :: u64 where "HEALTHY = 0"

definition health :: "u32 \<Rightarrow> u64 \<Rightarrow> u64" where
  "health n d = push_bit DEADLINE_BITS (ucast (min n FAILURES_MAX)) OR min d DEADLINE_MAX"

definition failures :: "u64 \<Rightarrow> u32" where
  "failures h = ucast (drop_bit DEADLINE_BITS h)"

definition deadline :: "u64 \<Rightarrow> u64" where
  "deadline h = h AND DEADLINE_MAX"

definition saturating_add :: "u64 \<Rightarrow> u64 \<Rightarrow> u64" where
  "saturating_add a b = (if a + b < a then - 1 else a + b)"

definition retry :: "failover \<Rightarrow> u64" where
  "retry policy = (if fo_retry policy < 2 ^ 64 then of_nat (fo_retry policy) else - 1)"

definition is_up :: "u64 \<Rightarrow> u64 \<Rightarrow> bool" where
  "is_up h now \<longleftrightarrow> deadline h \<le> now"

definition answered :: "u64 \<Rightarrow> u64" where
  "answered h = (if h \<noteq> HEALTHY then HEALTHY else h)"

text \<open>The word a failure stores over the one it has seen.\<close>

definition failed_word :: "failover option \<Rightarrow> u64 \<Rightarrow> u64 \<Rightarrow> u64" where
  "failed_word failover now seen =
     (let n = failures seen + 1;
          d = (case failover of
                 Some policy \<Rightarrow> if n \<ge> fo_failures policy then saturating_add now (retry policy) else deadline seen
               | None \<Rightarrow> deadline seen)
      in health n d)"

text \<open>
  The exchange loop: each exchange that fails leaves the word it found, which is then the one
  counted from; the last succeeds.
\<close>

fun node_failed :: "failover option \<Rightarrow> u64 \<Rightarrow> u64 \<Rightarrow> u64 list \<Rightarrow> u64" where
  "node_failed failover now seen [] = failed_word failover now seen"
| "node_failed failover now seen (current # rest) = node_failed failover now current rest"

definition drop_out :: "failover \<Rightarrow> u64 \<Rightarrow> u64" where
  "drop_out policy now = health (fo_failures policy) (saturating_add now (retry policy))"

fun unreachable :: "('k, 'x) error \<Rightarrow> bool" where
  "unreachable (Io _ _) = True"
| "unreachable Closed = True"
| "unreachable (InvalidStatus _) = True"
| "unreachable (Status Unauthorized _) = True"
| "unreachable _ = False"

section \<open>Choosing a server\<close>

record cluster =
  cu_health :: "u64 list"
  cu_ring :: "(u32 \<times> nat) list"
  cu_failover :: "failover option"

definition cluster_index :: "cluster \<Rightarrow> bytes \<Rightarrow> u64 \<Rightarrow> nat" where
  "cluster_index c key now =
     (if length (cu_health c) = 1 then 0 else ring_locate (cu_ring c) key (\<lambda>i. is_up (cu_health c ! i) now))"

definition cluster_note :: "nat \<Rightarrow> u64 \<Rightarrow> ('k, 'x) error + 'a \<Rightarrow> cluster \<Rightarrow> cluster" where
  "cluster_note i now result c =
     (let h = cu_health c ! i
      in c\<lparr>cu_health := (cu_health c)[i :=
           (case result of
              Inl e \<Rightarrow> if unreachable e then node_failed (cu_failover c) now h [] else answered h
            | Inr _ \<Rightarrow> answered h)]\<rparr>)"

definition node_for :: "cluster \<Rightarrow> bytes \<Rightarrow> u64 \<Rightarrow> nat" where
  "node_for c key now = cluster_index c key now"

text \<open>The servers in the ring, by their index.\<close>

definition live :: "cluster \<Rightarrow> u64 \<Rightarrow> nat list" where
  "live c now = filter (\<lambda>i. is_up (cu_health c ! i) now) [0..<length (cu_health c)]"

text \<open>Building a cluster; \<open>None\<close> is the panic of no server or the same one twice.\<close>

definition cluster_new :: "bytes list \<Rightarrow> failover option \<Rightarrow> cluster option" where
  "cluster_new names failover =
     (if names \<noteq> [] \<and> length (remdups_adj (sort names)) = length names
      then Some \<lparr>cu_health = replicate (length names) HEALTHY, cu_ring = ring_new names, cu_failover = failover\<rparr>
      else None)"

text \<open>The pings of \<open>open\<close> as they complete: the server, what it answered and when.\<close>

fun open_loop ::
  "(nat \<times> (('k, 'x) error + unit) \<times> u64) list \<Rightarrow> ('k, 'x) error option \<Rightarrow> nat \<Rightarrow> cluster \<Rightarrow>
     (('k, 'x) error + unit) \<times> cluster" where
  "open_loop [] first up c =
     (case first of Some e \<Rightarrow> if up = 0 then (Inl e, c) else (Inr (), c) | None \<Rightarrow> (Inr (), c))"
| "open_loop ((i, result, now) # rest) first up c =
     (case result of
        Inr _ \<Rightarrow> open_loop rest first (up + 1) c
      | Inl (Status st m) \<Rightarrow> (Inl (Status st m), c)
      | Inl (InvalidStatus b) \<Rightarrow> (Inl (InvalidStatus b), c)
      | Inl e \<Rightarrow>
          open_loop rest (case first of None \<Rightarrow> Some e | Some _ \<Rightarrow> first) up
            (case cu_failover c of
               Some policy \<Rightarrow> c\<lparr>cu_health := (cu_health c)[i := drop_out policy now]\<rparr>
             | None \<Rightarrow> c))"

definition cluster_open ::
  "(nat \<times> (('k, 'x) error + unit) \<times> u64) list \<Rightarrow> cluster \<Rightarrow> (('k, 'x) error + unit) \<times> cluster" where
  "cluster_open pings = open_loop pings None 0"

fun ping_loop ::
  "(nat \<times> (('k, 'x) error + unit) \<times> u64) list \<Rightarrow> ('k, 'x) error option \<Rightarrow> cluster \<Rightarrow>
     (('k, 'x) error + unit) \<times> cluster" where
  "ping_loop [] first c = (case first of Some e \<Rightarrow> Inl e | None \<Rightarrow> Inr (), c)"
| "ping_loop ((i, result, now) # rest) first c =
     ping_loop rest
       (case result of Inl e \<Rightarrow> (case first of None \<Rightarrow> Some e | Some _ \<Rightarrow> first) | Inr _ \<Rightarrow> first)
       (cluster_note i now result c)"

definition cluster_ping ::
  "(nat \<times> (('k, 'x) error + unit) \<times> u64) list \<Rightarrow> cluster \<Rightarrow> (('k, 'x) error + unit) \<times> cluster" where
  "cluster_ping pings = ping_loop pings None"

section \<open>Single calls\<close>

text \<open>\<open>get\<close>, \<open>set\<close> and \<open>del\<close>: at \<open>now\<close> the key's server is picked, at \<open>later\<close> its answer noted.\<close>

definition cluster_get ::
  "(nat \<Rightarrow> op \<Rightarrow> bytes \<Rightarrow> ('k, 'x) answer) \<Rightarrow> (bytes \<Rightarrow> 'x + 'v) \<Rightarrow> bytes \<Rightarrow> u64 \<Rightarrow> u64 \<Rightarrow> cluster \<Rightarrow>
     (('k, 'x) error + 'v option) \<times> cluster" where
  "cluster_get call from_slice key now later c =
     (let i = cluster_index c key now; result = client_get (call i) from_slice key in (result, cluster_note i later result c))"

definition cluster_set ::
  "(nat \<Rightarrow> op \<Rightarrow> bytes \<Rightarrow> ('k, 'x) answer) \<Rightarrow> bytes \<Rightarrow> (bytes \<Rightarrow> 'x option \<times> bytes) \<Rightarrow> u64 \<Rightarrow> u64 \<Rightarrow> cluster \<Rightarrow>
     (('k, 'x) error + unit) \<times> cluster" where
  "cluster_set call key write_named now later c =
     (let i = cluster_index c key now; result = client_set (call i) key write_named in (result, cluster_note i later result c))"

definition cluster_del ::
  "(nat \<Rightarrow> op \<Rightarrow> bytes \<Rightarrow> ('k, 'x) answer) \<Rightarrow> bytes \<Rightarrow> u64 \<Rightarrow> u64 \<Rightarrow> cluster \<Rightarrow>
     (('k, 'x) error + bool) \<times> cluster" where
  "cluster_del call key now later c =
     (let i = cluster_index c key now; result = client_del (call i) key in (result, cluster_note i later result c))"

section \<open>Batches\<close>

text \<open>The key an item goes by.\<close>

definition item_key :: "u8 \<times> bytes \<Rightarrow> decode_error + bytes" where
  "item_key x =
     (if op_from_u8 (fst x) = Some Set then bindE (set_body (snd x)) (\<lambda>(k, _). Inr k) else Inr (snd x))"

fun route_items :: "(bytes \<Rightarrow> nat) \<Rightarrow> (u8 \<times> bytes) list \<Rightarrow> decode_error + nat list" where
  "route_items owner [] = Inr []"
| "route_items owner (x # xs) =
     bindE (item_key x) (\<lambda>k. bindE (route_items owner xs) (\<lambda>r. Inr (owner k # r)))"

record group =
  gr_enc :: batch_encoder
  gr_items :: "u32 list"

definition group_default :: group where
  "group_default = \<lparr>gr_enc = enc_new, gr_items = []\<rparr>"

definition group_push :: "nat \<times> (u8 \<times> bytes) \<Rightarrow> nat \<Rightarrow> group option list \<Rightarrow> group option list" where
  "group_push = (\<lambda>(i, (op, item)) at groups.
     let g = (case groups ! at of None \<Rightarrow> group_default | Some g \<Rightarrow> g)
     in groups[at := Some \<lparr>gr_enc = enc_push (gr_enc g) op item, gr_items = gr_items g @ [of_nat i]\<rparr>])"

definition make_groups :: "nat \<Rightarrow> (u8 \<times> bytes) list \<Rightarrow> nat list \<Rightarrow> group option list" where
  "make_groups nodes items route =
     fold (\<lambda>(x, at). group_push x at) (zip (enumerate 0 items) route) (replicate nodes None)"

text \<open>\<open>merge\<close>: one server's replies into the merged body; \<open>Inl\<close> leaves everything as it was.\<close>

definition merge_one :: "(u8 \<times> bytes) \<times> u32 \<Rightarrow> bytes \<times> (u8 \<times> u32 \<times> u32) list \<Rightarrow> bytes \<times> (u8 \<times> u32 \<times> u32) list" where
  "merge_one = (\<lambda>((status, body), i) (merged, ix).
     (merged @ body, ix[unat i := (status, of_nat (length merged), of_nat (length body))]))"

definition merge ::
  "u32 list \<Rightarrow> bytes \<Rightarrow> bytes \<times> (u8 \<times> u32 \<times> u32) list \<Rightarrow>
     ('k, 'x) error + bytes \<times> (u8 \<times> u32 \<times> u32) list" where
  "merge items replies = (\<lambda>(merged, ix).
     let total = length merged + length replies
     in if total > 2 ^ 32 - 1 then Inl (ResponseTooLarge total)
        else case frames replies of
               Inl e \<Rightarrow> Inl (Decode e)
             | Inr fr \<Rightarrow>
                 if fr_left fr \<noteq> length items then Inl (Count (length items) (fr_left fr))
                 else Inr (fold merge_one (zip (frames_items fr) items) (merged, ix)))"

text \<open>
  The loop over the requests as they complete, each with the server and the time it is noted at:
  the first error stays, and every server's outcome is noted.
\<close>

fun merge_loop ::
  "(nat \<Rightarrow> op \<Rightarrow> bytes \<Rightarrow> ('k, 'x) answer) \<Rightarrow> group option list \<Rightarrow> (nat \<times> u64) list \<Rightarrow>
     ('k, 'x) error option \<Rightarrow> bytes \<times> (u8 \<times> u32 \<times> u32) list \<Rightarrow> cluster \<Rightarrow>
     ((('k, 'x) error + batch_outcome) \<times> cluster) option" where
  "merge_loop call groups [] failure (merged, ix) c =
     Some (case failure of Some e \<Rightarrow> Inl e | None \<Rightarrow> Inr \<lparr>oc_body = merged, oc_index = ix\<rparr>, c)"
| "merge_loop call groups ((at, now) # done) failure mi c =
     (case groups ! at of
        None \<Rightarrow> merge_loop call groups done failure mi c
      | Some g \<Rightarrow>
          (case enc_finish (gr_enc g) of
             None \<Rightarrow> None
           | Some body \<Rightarrow>
               let result = call at Batch body;
                   c1 = cluster_note at now result c
               in case bindE result (\<lambda>(_, replies). merge (gr_items g) replies mi) of
                    Inl e \<Rightarrow>
                      merge_loop call groups done (case failure of None \<Rightarrow> Some e | Some _ \<Rightarrow> failure) mi c1
                  | Inr mi1 \<Rightarrow> merge_loop call groups done failure mi1 c1))"

text \<open>\<open>done\<close> is the order in which the servers answer; \<open>None\<close> is a panic of the encoder.\<close>

definition cluster_batch ::
  "(nat \<Rightarrow> op \<Rightarrow> bytes \<Rightarrow> ('k, 'x) answer) \<Rightarrow> batch_encoder \<Rightarrow> u64 \<Rightarrow> (nat \<times> u64) list \<Rightarrow> cluster \<Rightarrow>
     ((('k, 'x) error + batch_outcome) \<times> cluster) option" where
  "cluster_batch call b now done c =
     (let n = batch_len b
      in if n > MAX_ITEMS then Some (Inl (TooManyItems n), c)
         else case enc_finish b of
           None \<Rightarrow> None
         | Some body \<Rightarrow>
             (case frames body of
                Inl e \<Rightarrow> Some (Inl (Decode e), c)
              | Inr fr \<Rightarrow>
                  (case route_items (\<lambda>k. cluster_index c k now) (frames_items fr) of
                     Inl e \<Rightarrow> Some (Inl (Decode e), c)
                   | Inr [] \<Rightarrow> Some (Inr \<lparr>oc_body = [], oc_index = []\<rparr>, c)
                   | Inr (only # route) \<Rightarrow>
                       if list_all (\<lambda>at. at = only) route
                       then let result = batch_body n (call only Batch body)
                            in Some (result, cluster_note only (case done of (_, later) # _ \<Rightarrow> later | [] \<Rightarrow> now) result c)
                       else merge_loop call (make_groups (length (cu_health c)) (frames_items fr) (only # route)) done None
                              ([], replicate n (status_u8 Ok, 0, 0)) c)))"

section \<open>The health word\<close>

lemma DEADLINE_MAX_mask: "DEADLINE_MAX = mask 48"
  by (simp add: DEADLINE_MAX_def DEADLINE_BITS_def mask_eq_exp_minus_1)

lemma FAILURES_MAX_mask: "FAILURES_MAX = mask 16"
  by (simp add: FAILURES_MAX_def DEADLINE_BITS_def mask_eq_exp_minus_1)

lemma unat_maxs: "unat DEADLINE_MAX = 2 ^ 48 - 1" "unat FAILURES_MAX = 2 ^ 16 - 1"
  by (simp_all add: DEADLINE_MAX_mask FAILURES_MAX_mask mask_eq_exp_minus_1)

lemma take_bit_unat: "unat (x :: 'a::len word) < 2 ^ n \<Longrightarrow> take_bit n x = x"
  by (simp add: word_unat_eq_iff unsigned_take_bit_eq take_bit_nat_eq_self)

lemma health_unpack [simp]:
  "failures (health n d) = min n FAILURES_MAX" "deadline (health n d) = min d DEADLINE_MAX"
proof -
  define n' d' where "n' = min n FAILURES_MAX" and "d' = min d DEADLINE_MAX"
  then have "unat n' \<le> 2 ^ 16 - 1" "unat d' \<le> 2 ^ 48 - 1"
    unfolding unat_maxs [symmetric] by (simp_all add: word_le_nat_alt [symmetric])
  then have n: "take_bit 16 n' = n'" and d: "take_bit 48 d' = d'" by (simp_all add: take_bit_unat)
  have b: "bit n' k \<Longrightarrow> k < 16" "bit d' k \<Longrightarrow> k < 48" for k
    by (metis n bit_take_bit_iff) (metis d bit_take_bit_iff)
  show "failures (health n d) = min n FAILURES_MAX"
    unfolding failures_def health_def DEADLINE_BITS_def n'_def [symmetric] d'_def [symmetric]
    by (rule bit_word_eqI) (use b in \<open>fastforce simp: bit_simps\<close>)
  show "deadline (health n d) = min d DEADLINE_MAX"
    unfolding deadline_def health_def DEADLINE_BITS_def n'_def [symmetric] d'_def [symmetric]
    by (rule bit_word_eqI) (use b in \<open>fastforce simp: bit_simps DEADLINE_MAX_mask\<close>)
qed

lemma deadline_healthy [simp]: "deadline HEALTHY = 0" "failures HEALTHY = 0" "answered h = HEALTHY"
  by (simp_all add: deadline_def failures_def HEALTHY_def answered_def)

lemma unat_u64_max: "unat (- 1 :: u64) = 2 ^ 64 - 1"
  by (simp add: unsigned_minus_1_eq_mask mask_eq_exp_minus_1)

lemma unat_saturating_add: "unat (saturating_add a b) = min (unat a + unat b) (2 ^ 64 - 1)"
proof -
  have ab: "unat a < 2 ^ 64" "unat b < 2 ^ 64" using unsigned_less [of a] unsigned_less [of b] by simp_all
  have s: "unat (a + b) = (unat a + unat b) mod 2 ^ 64" by (simp add: unat_word_ariths)
  show ?thesis
  proof (cases "unat a + unat b < 2 ^ 64")
    case True
    with s show ?thesis by (simp add: saturating_add_def word_less_nat_alt)
  next
    case False
    with ab have "(unat a + unat b) mod 2 ^ 64 = unat a + unat b - 2 ^ 64" by (simp add: le_mod_geq)
    with s ab False have "a + b < a" by (simp add: word_less_nat_alt)
    with False show ?thesis by (simp add: saturating_add_def unat_u64_max)
  qed
qed

lemma unat_retry: "unat (retry p) = min (fo_retry p) (2 ^ 64 - 1)"
  by (simp add: retry_def unat_of_nat_u64 unat_u64_max)

lemma unat_min: "unat (min a b) = min (unat a) (unat b)"
  by (simp add: min_def word_le_nat_alt)

lemma deadline_le: "min (deadline h) DEADLINE_MAX = deadline h"
  by (simp add: deadline_def word_and_le1 min_def)

text \<open>Whatever other calls store between a failed exchange and the next, one failure is counted on one word.\<close>

lemma node_failed_atomic: "node_failed failover now seen found = failed_word failover now (last (seen # found))"
  by (induction found arbitrary: seen) auto

lemma failed_word_counts:
  assumes "unat (failures w) \<le> 2 ^ 16 - 1"
  shows "unat (failures (failed_word (Some p) t w)) = min (unat (failures w) + 1) (2 ^ 16 - 1)"
    and "unat (deadline (failed_word (Some p) t w)) =
      (if unat (fo_failures p) \<le> unat (failures w) + 1 then min (unat t + fo_retry p) (2 ^ 48 - 1)
       else unat (deadline w))"
proof -
  have n: "unat (failures w + 1) = unat (failures w) + 1" using assms by (simp add: unat_word_ariths)
  then show "unat (failures (failed_word (Some p) t w)) = min (unat (failures w) + 1) (2 ^ 16 - 1)"
    by (simp add: failed_word_def Let_def unat_min unat_maxs)
  have "min (min (unat t + min (fo_retry p) (2 ^ 64 - 1)) (2 ^ 64 - 1)) (2 ^ 48 - 1) = min (unat t + fo_retry p) (2 ^ 48 - 1 :: nat)"
    by auto
  then show "unat (deadline (failed_word (Some p) t w)) =
      (if unat (fo_failures p) \<le> unat (failures w) + 1 then min (unat t + fo_retry p) (2 ^ 48 - 1)
       else unat (deadline w))"
    using n by (simp add: failed_word_def Let_def deadline_le word_le_nat_alt)
      (simp add: unat_min unat_maxs unat_saturating_add unat_retry)
qed

lemma failures_less: "unat (failures h) < 2 ^ 16"
proof -
  have "unat h < 2 ^ 64" using unsigned_less [of h] by simp
  then have "unat h div 2 ^ 48 < 2 ^ 16" by (simp add: less_mult_imp_div_less)
  then show ?thesis
    by (simp add: failures_def DEADLINE_BITS_def unsigned_ucast_eq unsigned_drop_bit_eq drop_bit_eq_div unat_div take_bit_nat_eq_self)
qed

lemma failures_counted:
  "unat (failures (fold (failed_word (Some p)) ts HEALTHY)) = min (length ts) (2 ^ 16 - 1) \<and>
   unat (deadline (fold (failed_word (Some p)) ts HEALTHY)) =
     (if ts \<noteq> [] \<and> unat (fo_failures p) \<le> min (length ts) (2 ^ 16)
      then min (unat (last ts) + fo_retry p) (2 ^ 48 - 1) else 0)"
proof (induction ts rule: rev_induct)
  case Nil
  show ?case by simp
next
  case (snoc t ts)
  define w where "w = fold (failed_word (Some p)) ts HEALTHY"
  have "unat (failures w) \<le> 2 ^ 16 - 1" using snoc by (simp add: w_def)
  note step = failed_word_counts [OF this, of p t]
  have "fold (failed_word (Some p)) (ts @ [t]) HEALTHY = failed_word (Some p) t w" by (simp add: w_def)
  then show ?case using step snoc unfolding w_def [symmetric] by auto
qed

text \<open>The atomic changes a health word goes through, in any order and from any number of calls.\<close>

inductive health_step :: "failover option \<Rightarrow> u64 \<Rightarrow> u64 \<Rightarrow> bool" for failover where
  answer: "health_step failover h HEALTHY"
| failure: "health_step failover h (failed_word failover now h)"
| dropping: "failover = Some policy \<Longrightarrow> health_step failover h (drop_out policy now)"

text \<open>No interleaving leaves a server dropped with a clear count.\<close>

lemma health_step_counts:
  assumes "health_step failover h h'" and "\<And>p. failover = Some p \<Longrightarrow> fo_failures p \<noteq> 0"
  shows "h' = HEALTHY \<or> failures h' \<noteq> 0"
proof -
  have m: "min n FAILURES_MAX \<noteq> 0" if "n \<noteq> 0" for n
    using that by (auto simp: min_def FAILURES_MAX_mask mask_eq_exp_minus_1)
  from assms(1) show ?thesis
  proof cases
    case (failure now)
    have "unat (failures h) < 2 ^ 16" by (rule failures_less)
    then have "failures h + 1 \<noteq> 0" by (simp add: word_unat_eq_iff unat_word_ariths)
    with failure m show ?thesis by (simp add: failed_word_def Let_def)
  next
    case (dropping p now)
    with assms(2) m show ?thesis by (simp add: drop_out_def)
  qed simp
qed

interpretation health: step_invariant "health_step failover"
  "\<lambda>h. (\<forall>p. failover = Some p \<longrightarrow> fo_failures p \<noteq> 0) \<longrightarrow> h = HEALTHY \<or> failures h \<noteq> 0" for failover
  by unfold_locales (blast dest: health_step_counts)

lemma never_half_cleared:
  assumes "(health_step failover)\<^sup>*\<^sup>* HEALTHY h" and "\<And>p. failover = Some p \<Longrightarrow> fo_failures p \<noteq> 0"
    and "deadline h \<noteq> 0"
  shows "failures h \<noteq> 0"
  using health.reach_inv [OF assms(1)] assms(2,3) by auto

section \<open>Properties of the policy\<close>

text \<open>
  C11. A server is dropped by its last straw and let back in on time. From an answer on, with
  failures only, at the given times: until there are as many as the policy allows the server is in
  the ring; from then on it is out, and back once \<open>retry\<close> milliseconds have passed since the
  last failure (or the clock has reached the largest deadline the word can hold, which is
  8900 years). This is so for limits up to \<open>2 ^ 16\<close>; a server with a larger one is never dropped.
\<close>

theorem dropped_at_limit_until_retry:
  assumes "fo_failures p \<noteq> 0" and "w = fold (\<lambda>t h. node_failed (Some p) t h []) ts (answered h)"
  shows "is_up w now \<longleftrightarrow>
    length ts < unat (fo_failures p) \<or> 2 ^ 16 < unat (fo_failures p) \<or>
    min (unat (last ts) + fo_retry p) (2 ^ 48 - 1) \<le> unat now"
proof -
  have "0 < unat (fo_failures p)" using assms(1) by (simp add: unat_gt_0)
  moreover have "is_up w now \<longleftrightarrow> unat (deadline w) \<le> unat now" by (simp add: is_up_def word_le_nat_alt)
  moreover have "w = fold (failed_word (Some p)) ts HEALTHY" using assms(2) by simp
  ultimately show ?thesis using failures_counted [of p ts] by auto
qed

theorem dropped_at_limit_until_retry_witness:
  "\<not> is_up (fold (\<lambda>t h. node_failed (Some failover_default) t h []) [5, 7] (answered 3)) 30006 \<and>
   is_up (fold (\<lambda>t h. node_failed (Some failover_default) t h []) [5, 7] (answered 3)) 30007"
  using dropped_at_limit_until_retry [of failover_default _ "[5, 7]" 3, OF _ refl]
  by (simp add: failover_default_def)

section \<open>Splitting a batch\<close>

lemma ring_locate_less:
  assumes "names \<noteq> []"
  shows "ring_locate (ring_new names) key ok < length names"
proof -
  let ?ps = "ring_new names" and ?n = "length (ring_new names)"
  have "snd (?ps ! (j mod ?n)) < length names" for j
    using ring_new_index [of "fst (?ps ! (j mod ?n))" "snd (?ps ! (j mod ?n))" names]
      ring_new_nonempty [OF assms] by (simp add: nth_mem)
  then show ?thesis by (simp add: ring_locate_def Let_def split: option.split)
qed

lemma route_items_Inr:
  "\<forall>x \<in> set xs. \<exists>k. item_key x = Inr k \<Longrightarrow> route_items owner xs = Inr (map (\<lambda>x. owner (projr (item_key x))) xs)"
  by (induction xs) auto

text \<open>The positions of the items a server gets.\<close>

definition share :: "nat list \<Rightarrow> nat \<Rightarrow> nat list" where
  "share route at = filter (\<lambda>i. route ! i = at) [0..<length route]"

definition group_of :: "(u8 \<times> bytes) list \<Rightarrow> nat list \<Rightarrow> group option \<Rightarrow> bool" where
  "group_of items is g \<longleftrightarrow>
     (case g of
        None \<Rightarrow> is = []
      | Some g \<Rightarrow> is \<noteq> [] \<and> enc_repr (gr_enc g) (map (\<lambda>i. items ! i) is) \<and> gr_items g = map of_nat is)"

lemma group_push_other: "at \<noteq> at' \<Longrightarrow> group_push x at gs ! at' = gs ! at'"
  by (cases x) (auto simp: group_push_def Let_def)

lemma length_group_push [simp]: "length (group_push x at gs) = length gs"
  by (cases x) (auto simp: group_push_def Let_def)

lemma group_push_own:
  assumes "group_of items is (gs ! at)" and "at < length gs"
  shows "group_of items (is @ [i]) (group_push (i, items ! i) at gs ! at)"
  using assms by (cases "gs ! at"; cases "items ! i")
    (auto simp: group_of_def group_push_def group_default_def enc_repr_push enc_repr_push [OF enc_repr_new, simplified])

lemma make_groups_spec:
  assumes "length route = length items" and "\<forall>at \<in> set route. at < nodes" and "at < nodes"
  shows "group_of items (share route at) (make_groups nodes items route ! at)"
proof -
  define zs where "zs = zip (enumerate 0 items) route"
  define grow where "grow = (\<lambda>(x :: nat \<times> u8 \<times> bytes, at). group_push x at)"
  have nth: "zs ! k = ((k, items ! k), route ! k)" if "k < length route" for k
    using that assms(1) by (simp add: zs_def nth_enumerate_eq)
  have "length (fold grow (take k zs) (replicate nodes None)) = nodes \<and>
      group_of items (filter (\<lambda>i. route ! i = at) [0..<k]) (fold grow (take k zs) (replicate nodes None) ! at)"
    if "k \<le> length route" for k
    using that
  proof (induction k)
    case 0
    then show ?case using assms(3) by (simp add: group_of_def)
  next
    case (Suc k)
    let ?gs = "fold grow (take k zs) (replicate nodes None)"
    have "k < length zs" using Suc.prems assms(1) by (simp add: zs_def)
    then have "fold grow (take (Suc k) zs) (replicate nodes None) = group_push (k, items ! k) (route ! k) ?gs"
      using nth [of k] Suc.prems by (simp add: take_Suc_conv_app_nth grow_def)
    moreover have "route ! k < nodes" using assms(2) Suc.prems by simp
    ultimately show ?case
      using Suc group_push_own [of items _ ?gs at k] group_push_other [of "route ! k" at] by (cases "route ! k = at") auto
  qed
  from this [of "length route"] show ?thesis
    using assms(1) by (simp add: make_groups_def share_def zs_def grow_def)
qed

section \<open>Merging replies\<close>

text \<open>The positions whose reply stands in the merged body where the index says.\<close>

definition placed :: "(nat \<Rightarrow> u8 \<times> bytes) \<Rightarrow> nat set \<Rightarrow> bytes \<times> (u8 \<times> u32 \<times> u32) list \<Rightarrow> bool" where
  "placed rep S mi \<longleftrightarrow>
     (\<forall>i \<in> S. i < length (snd mi) \<and>
        (\<exists>pre post. fst mi = pre @ snd (rep i) @ post \<and>
           snd mi ! i = (fst (rep i), of_nat (length pre), of_nat (length (snd (rep i))))))"

lemma merge_one_placed:
  assumes "placed rep S mi" and "i < length (snd mi)" and "i < 2 ^ 32"
  shows "placed rep (insert i S) (merge_one (rep i, of_nat i) mi)"
    and "length (snd (merge_one (rep i, of_nat i) mi)) = length (snd mi)"
    and "length (fst (merge_one (rep i, of_nat i) mi)) = length (fst mi) + length (snd (rep i))"
proof -
  obtain m ix where mi: "mi = (m, ix)" by (cases mi)
  obtain t b where r: "rep i = (t, b)" by (cases "rep i")
  have one: "merge_one (rep i, of_nat i) mi = (m @ b, ix[i := (t, of_nat (length m), of_nat (length b))])"
    using assms(3) by (simp add: merge_one_def mi r)
  then show "length (snd (merge_one (rep i, of_nat i) mi)) = length (snd mi)"
    "length (fst (merge_one (rep i, of_nat i) mi)) = length (fst mi) + length (snd (rep i))"
    by (simp_all add: mi r)
  have "\<exists>pre post. m @ b = pre @ snd (rep j) @ post \<and>
      ix[i := (t, of_nat (length m), of_nat (length b))] ! j = (fst (rep j), of_nat (length pre), of_nat (length (snd (rep j))))"
    if "j \<in> insert i S" for j
  proof (cases "j = i")
    case True
    then show ?thesis using assms(2) by (intro exI [of _ m] exI [of _ "[]"]) (simp add: r mi)
  next
    case False
    with that assms(1) obtain pre post where "m = pre @ snd (rep j) @ post"
      "ix ! j = (fst (rep j), of_nat (length pre), of_nat (length (snd (rep j))))"
      unfolding placed_def mi by fastforce
    with False show ?thesis by (intro exI [of _ pre] exI [of _ "post @ b"]) simp
  qed
  with assms(1,2) show "placed rep (insert i S) (merge_one (rep i, of_nat i) mi)"
    unfolding one unfolding placed_def mi by auto
qed

lemma merge_fold_placed:
  assumes "placed rep S mi" and "\<forall>i \<in> set is. i < length (snd mi)" and "length (snd mi) \<le> 2 ^ 32"
  shows "placed rep (S \<union> set is) (fold merge_one (zip (map rep is) (map of_nat is)) mi) \<and>
    length (snd (fold merge_one (zip (map rep is) (map of_nat is)) mi)) = length (snd mi) \<and>
    length (fst (fold merge_one (zip (map rep is) (map of_nat is)) mi)) = length (fst mi) + sum_list (map (length \<circ> snd \<circ> rep) is)"
  using assms
proof (induction "is" arbitrary: mi S)
  case (Cons i "is")
  have "i < 2 ^ 32" using Cons.prems by fastforce
  note one = merge_one_placed [OF Cons.prems(1) _ this]
  from Cons.IH [OF one(1)] Cons.prems one(2,3) show ?case by simp
qed simp

lemma length_encode_batch: "sum_list (map (length \<circ> snd) xs) \<le> length (encode_batch xs)"
  by (induction xs) (simp_all add: encode_batch_def)

lemma merge_placed:
  assumes "placed rep S mi" and "\<forall>i \<in> set is. i < length (snd mi)" and "length (snd mi) \<le> MAX_ITEMS"
    and "length is \<le> MAX_ITEMS" and "\<forall>i \<in> set is. frame_ok (rep i)"
    and "length (fst mi) + length (encode_batch (map rep is)) \<le> 2 ^ 32 - 1"
  shows "\<exists>mi'. merge (map of_nat is) (encode_batch (map rep is)) mi = Inr mi' \<and> placed rep (S \<union> set is) mi' \<and>
    length (snd mi') = length (snd mi) \<and> length (fst mi') \<le> length (fst mi) + length (encode_batch (map rep is))"
proof -
  have "list_all frame_ok (map rep is)" using assms(5) by (simp add: list_all_iff)
  then obtain f where f: "frames (encode_batch (map rep is)) = Inr f" "frames_items f = map rep is"
    using frames_items_iff [of "encode_batch (map rep is)" "map rep is"] assms(4) by auto
  then have "fr_left f = length is"
    by (auto simp: frames_Inr_iff frames_items_wf frames_wf_def)
  with f assms(6) have "merge (map of_nat is) (encode_batch (map rep is)) mi =
      Inr (fold merge_one (zip (map rep is) (map of_nat is)) mi)"
    by (cases mi) (simp add: merge_def Let_def)
  moreover have "length (snd mi) \<le> 2 ^ 32" using assms(3) by (simp add: MAX_ITEMS_def)
  ultimately show ?thesis
    using merge_fold_placed [OF assms(1,2)] length_encode_batch [of "map rep is"]
    by (intro exI [of _ "fold merge_one (zip (map rep is) (map of_nat is)) mi"]) (simp add: comp_assoc)
qed

lemma merge_loop_placed:
  fixes call :: "nat \<Rightarrow> op \<Rightarrow> bytes \<Rightarrow> ('k, 'x) answer"
  assumes "\<forall>at \<in> fst ` set ds. share route at \<noteq> [] \<and> group_of items (share route at) (groups ! at) \<and>
      (\<exists>st. call at Batch (encode_batch (map (\<lambda>i. items ! i) (share route at))) =
         Inr (st, encode_batch (map rep (share route at))))"
    and "\<forall>i < length route. frame_ok (rep i)" and "length route \<le> MAX_ITEMS"
    and "placed rep S mi" and "length (snd mi) = length route"
    and "length (fst mi) + sum_list (map (\<lambda>d. length (encode_batch (map rep (share route (fst d))))) ds) \<le> 2 ^ 32 - 1"
  shows "\<exists>out c'. merge_loop call groups ds None mi c = Some (Inr out, c') \<and>
    placed rep (S \<union> (\<Union>at \<in> fst ` set ds. set (share route at))) (oc_body out, oc_index out) \<and>
    length (oc_index out) = length route \<and> length (oc_body out) \<le> 2 ^ 32 - 1"
  using assms
proof (induction ds arbitrary: mi S c)
  case Nil
  then show ?case by (cases mi) simp
next
  case (Cons d ds)
  obtain at now where d: "d = (at, now)" by (cases d)
  let ?is = "share route at"
  from Cons.prems(1) d obtain g st where g: "groups ! at = Some g" "enc_repr (gr_enc g) (map (\<lambda>i. items ! i) ?is)"
    "gr_items g = map of_nat ?is"
    and call: "call at Batch (encode_batch (map (\<lambda>i. items ! i) ?is)) = Inr (st, encode_batch (map rep ?is))"
    by (auto simp: group_of_def split: option.splits)
  have "length ?is \<le> length route" by (simp add: share_def) (metis length_filter_le length_upt diff_zero)
  then have len: "length ?is \<le> MAX_ITEMS" using Cons.prems(3) by simp
  with g have fin: "enc_finish (gr_enc g) = Some (encode_batch (map (\<lambda>i. items ! i) ?is))"
    using enc_finish_repr by (metis length_map)
  have in_range: "\<forall>i \<in> set ?is. i < length (snd mi)" using Cons.prems(5) by (auto simp: share_def)
  have "\<forall>i \<in> set ?is. frame_ok (rep i)" using Cons.prems(2) by (auto simp: share_def)
  then obtain mi' where m: "merge (map of_nat ?is) (encode_batch (map rep ?is)) mi = (Inr mi' :: ('k, 'x) error + _)"
    "placed rep (S \<union> set ?is) mi'" "length (snd mi') = length route"
    "length (fst mi') \<le> length (fst mi) + length (encode_batch (map rep ?is))"
    using merge_placed [OF Cons.prems(4) in_range _ len] Cons.prems(3,5,6) d by auto
  have step: "merge_loop call groups (d # ds) None mi c =
      merge_loop call groups ds None mi' (cluster_note at now (call at Batch (encode_batch (map (\<lambda>i. items ! i) ?is))) c)"
    using g fin call m(1) by (simp add: d Let_def)
  show ?case
    unfolding step using Cons.IH [OF _ Cons.prems(2,3) m(2,3)] Cons.prems(1,6) m(4) d by (simp add: Un_assoc)
qed

text \<open>What a slot reads when its item was answered with a frame.\<close>

definition slot_answer :: "(status \<Rightarrow> bytes \<Rightarrow> ('k, 'x) error + 'v) \<Rightarrow> u8 \<times> bytes \<Rightarrow> ('k, 'x) error + 'v" where
  "slot_answer reply f =
     (case status_from_u8 (fst f) of None \<Rightarrow> Inl (InvalidStatus (fst f)) | Some st \<Rightarrow> reply st (snd f))"

lemma outcome_get_placed:
  assumes "placed rep S (oc_body out, oc_index out)" and "i \<in> S" and "length (oc_body out) \<le> 2 ^ 32 - 1"
  shows "outcome_get reply out i = Some (slot_answer reply (rep i))"
proof -
  from assms(1,2) obtain pre post where p: "i < length (oc_index out)" "oc_body out = pre @ snd (rep i) @ post"
    "oc_index out ! i = (fst (rep i), of_nat (length pre), of_nat (length (snd (rep i))))"
    unfolding placed_def by fastforce
  with assms(3) show ?thesis
    by (simp add: outcome_get_def slot_answer_def split: option.split)
qed

lemma batch_body_placed:
  assumes "n \<le> MAX_ITEMS" and "\<forall>i < n. frame_ok (rep i)" and "length (encode_batch (map rep [0..<n])) \<le> 2 ^ 32 - 1"
  shows "\<exists>out. batch_body n (Inr (st, encode_batch (map rep [0..<n]))) = Inr out \<and>
    placed rep {..<n} (oc_body out, oc_index out) \<and> length (oc_index out) = n \<and> length (oc_body out) \<le> 2 ^ 32 - 1"
proof -
  let ?ys = "map rep [0..<n]" let ?b = "encode_batch ?ys"
  obtain f where f: "frames ?b = Inr f" "frames_items f = ?ys"
    using frames_items_iff [of ?b ?ys] assms(1,2) by (auto simp: list_all_iff)
  then obtain xs where wf: "frames_wf f xs" "fr_at f = U32" "?b = encode_batch xs" by (auto simp: frames_Inr_iff)
  then have xs: "xs = ?ys" using f(2) frames_items_wf by metis
  have left: "fr_left f = n" using wf(1) xs by (simp add: frames_wf_def)
  let ?ix = "map (\<lambda>(status, start, b). (status, of_nat start, of_nat (length b))) (frames_collect f) :: (u8 \<times> u32 \<times> u32) list"
  have items: "map untag (frames_collect f) = ?ys" using f(2) by (simp add: frames_items_def)
  then have len: "length (frames_collect f) = n" using length_map [of untag "frames_collect f"] unfolding items by simp
  have "\<exists>pre post. ?b = pre @ snd (rep i) @ post \<and> ?ix ! i = (fst (rep i), of_nat (length pre), of_nat (length (snd (rep i))))"
    if "i < n" for i
  proof -
    obtain t at b where x: "frames_collect f ! i = (t, at, b)" by (rule prod_cases3)
    then have r: "rep i = (t, b)" using arg_cong [OF items, of "\<lambda>l. l ! i"] that len by simp
    have "(t, at, b) \<in> set (frames_collect f)" using x that len nth_mem by metis
    then obtain pre post where p: "fr_rest f = pre @ b @ post" "at = fr_at f + length pre"
      using frames_collect_wf [OF wf(1)] by fastforce
    have "?b = (to_le_bytes (of_nat (length xs)) @ pre) @ b @ post"
      using wf p(1) xs by (simp add: encode_batch_def frames_wf_def)
    then show ?thesis
      by (intro exI [of _ "to_le_bytes (of_nat (length xs)) @ pre"] exI [of _ post])
        (use x r that len p(2) wf(2) in \<open>simp add: U32_def\<close>)
  qed
  with f left len assms(3) show ?thesis
    by (simp add: batch_body_def placed_def)
qed

section \<open>The cluster\<close>

text \<open>One health word per server, and the ring of their names; every operation keeps it.\<close>

definition cluster_ok :: "bytes list \<Rightarrow> cluster \<Rightarrow> bool" where
  "cluster_ok names c \<longleftrightarrow>
     names \<noteq> [] \<and> distinct names \<and> length (cu_health c) = length names \<and> cu_ring c = ring_new names"

lemma sorted_distinct_adj: "sorted xs \<Longrightarrow> distinct_adj xs \<Longrightarrow> distinct (xs :: 'a::linorder list)"
proof (induction xs)
  case (Cons x xs)
  then show ?case by (cases xs) (auto simp: distinct_adj_Cons)
qed simp

lemma cluster_new_ok: "cluster_new names failover = Some c \<Longrightarrow> cluster_ok names c"
  using sorted_distinct_adj [of "sort names"]
  by (auto simp: cluster_new_def cluster_ok_def distinct_adj_conv_length_remdups_adj split: if_splits)

lemma cluster_note_ok: "cluster_ok names c \<Longrightarrow> cluster_ok names (cluster_note i now res c)"
  by (simp add: cluster_ok_def cluster_note_def Let_def)

lemma cluster_index_less: "cluster_ok names c \<Longrightarrow> cluster_index c key now < length (cu_health c)"
  using ring_locate_less [of names] by (auto simp: cluster_index_def cluster_ok_def)

lemma share_nonempty: "at \<in> set route \<Longrightarrow> share route at \<noteq> []"
proof -
  assume "at \<in> set route"
  then obtain i where "i < length route" "route ! i = at" by (auto simp: in_set_conv_nth)
  then have "i \<in> set (share route at)" by (simp add: share_def)
  then show ?thesis by auto
qed

lemma share_all: "list_all (\<lambda>at. at = only) route \<Longrightarrow> share route only = [0..<length route]"
  by (auto simp: share_def list_all_length intro: filter_True)

lemma cluster_batch_routed:
  assumes "enc_repr b items" and "length items \<le> MAX_ITEMS"
    and "\<forall>x \<in> set items. frame_ok x \<and> (\<exists>k. item_key x = Inr k)"
    and "route = map (\<lambda>x. cluster_index c (projr (item_key x)) now) items" and "route = only # rest"
  shows "cluster_batch call b now ds c =
    (if list_all (\<lambda>at. at = only) rest
     then let result = batch_body (length items) (call only Batch (encode_batch items))
          in Some (result, cluster_note only (case ds of (_, later) # _ \<Rightarrow> later | [] \<Rightarrow> now) result c)
     else merge_loop call (make_groups (length (cu_health c)) items route) ds None
            ([], replicate (length items) (status_u8 Ok, 0, 0)) c)"
proof -
  have n: "enc_len b = length items" using assms(1) by (simp add: enc_len_def enc_repr_def)
  obtain f where "frames (encode_batch items) = Inr f" "frames_items f = items"
    using frames_items_iff [of "encode_batch items" items] assms(2,3) by (auto simp: list_all_iff)
  moreover have "route_items (\<lambda>k. cluster_index c k now) items = Inr route"
    using assms(3,4) by (simp add: route_items_Inr)
  ultimately show ?thesis
    using n enc_finish_repr [OF assms(1,2)] assms(2,5) by (simp add: cluster_batch_def batch_len_def Let_def)
qed

lemma cluster_batch_none:
  assumes "enc_repr b []"
  shows "cluster_batch call b now ds c = Some (Inr \<lparr>oc_body = [], oc_index = []\<rparr>, c)"
proof -
  obtain f where "frames (encode_batch []) = Inr f" "frames_items f = []"
    using frames_items_iff [of "encode_batch []" "[]"] by auto
  then show ?thesis
    using assms enc_finish_repr [OF assms] by (simp add: cluster_batch_def batch_len_def enc_len_def enc_repr_def)
qed

text \<open>
  C9. A batch over a cluster reads as if one server had answered it. When each server answers
  the request it gets with one reply per item, every slot holds the reply of the server its key
  belongs to for that very item, in the order the batch was built: whether the batch went to one
  server or was split, and in whatever order the servers answered.
\<close>

theorem cluster_batch_in_order:
  fixes call :: "nat \<Rightarrow> op \<Rightarrow> bytes \<Rightarrow> ('k, 'x) answer"
  assumes "cluster_ok names c" and "enc_repr b items" and "length items \<le> MAX_ITEMS"
    and "\<forall>x \<in> set items. frame_ok x \<and> (\<exists>k. item_key x = Inr k)"
    and "route = map (\<lambda>x. cluster_index c (projr (item_key x)) now) items"
    and "fst ` set ds = set route"
    and "\<forall>at \<in> set route. \<exists>st. call at Batch (encode_batch (map (\<lambda>i. items ! i) (share route at))) =
      Inr (st, encode_batch (map rep (share route at)))"
    and "\<forall>i < length items. frame_ok (rep i)"
    and "sum_list (map (\<lambda>d. length (encode_batch (map rep (share route (fst d))))) ds) \<le> 2 ^ 32 - 1"
  shows "\<exists>out c'. cluster_batch call b now ds c = Some (Inr out, c') \<and> outcome_len out = length items \<and>
    (\<forall>i < length items. outcome_get reply out i = Some (slot_answer reply (rep i)))"
proof -
  note routed = cluster_batch_routed [OF assms(2-5), where call = call and ds = ds]
  have len: "length route = length items" using assms(5) by simp
  have main: "cluster_batch call b now ds c = Some (Inr out, c') \<Longrightarrow>
      placed rep {..<length items} (oc_body out, oc_index out) \<Longrightarrow>
      length (oc_index out) = length items \<Longrightarrow> length (oc_body out) \<le> 2 ^ 32 - 1 \<Longrightarrow> ?thesis" for out c'
    by (intro exI [of _ out] exI [of _ c']) (auto simp: outcome_len_def intro!: outcome_get_placed)
  show ?thesis
  proof (cases route)
    case Nil
    then have "items = []" using len by simp
    then have "cluster_batch call b now ds c = Some (Inr \<lparr>oc_body = [], oc_index = []\<rparr>, c)"
      using cluster_batch_none assms(2) by simp
    then show ?thesis using \<open>items = []\<close> by (intro main) (auto simp: placed_def)
  next
    case (Cons only rest)
    show ?thesis
    proof (cases "list_all (\<lambda>at. at = only) rest")
      case True
      then have sh: "share route only = [0..<length items]"
        using share_all [of only route] Cons len by (simp del: upt_Suc)
      then have xs: "map (\<lambda>i. items ! i) (share route only) = items" by (simp add: map_nth)
      obtain st where call: "call only Batch (encode_batch items) = Inr (st, encode_batch (map rep [0..<length items]))"
        using assms(7) Cons sh xs by auto
      obtain d where d: "d \<in> set ds" "fst d = only" using assms(6) Cons by (metis imageE list.set_intros(1))
      then have "length (encode_batch (map rep [0..<length items])) \<le>
          sum_list (map (\<lambda>d. length (encode_batch (map rep (share route (fst d))))) ds)"
        using sh by (intro member_le_sum_list) force+
      then obtain out where out: "batch_body (length items) (Inr (st, encode_batch (map rep [0..<length items]))) = (Inr out :: ('k, 'x) error + batch_outcome)"
        "placed rep {..<length items} (oc_body out, oc_index out)" "length (oc_index out) = length items" "length (oc_body out) \<le> 2 ^ 32 - 1"
        using batch_body_placed [OF assms(3,8), where st = st] assms(9) by (metis (no_types, lifting) le_trans)
      show ?thesis
        by (rule main [OF _ out(2-4)]) (use True call out(1) in \<open>simp add: routed [OF Cons] Let_def\<close>)
    next
      case False
      let ?gs = "make_groups (length (cu_health c)) items route"
      have nodes: "\<forall>at \<in> set route. at < length (cu_health c)" using assms(1,5) by (auto simp: cluster_index_less)
      then have "\<forall>at \<in> fst ` set ds. share route at \<noteq> [] \<and> group_of items (share route at) (?gs ! at) \<and>
          (\<exists>st. call at Batch (encode_batch (map (\<lambda>i. items ! i) (share route at))) = Inr (st, encode_batch (map rep (share route at))))"
        using assms(6,7) make_groups_spec [OF len nodes] share_nonempty by simp
      from merge_loop_placed [of ds route items ?gs call rep "{}" "([], replicate (length items) (status_u8 Ok, 0, 0))" c, OF this]
      obtain out c' where out: "merge_loop call ?gs ds None ([], replicate (length items) (status_u8 Ok, 0, 0)) c = Some (Inr out, c')"
        "placed rep (\<Union>at \<in> fst ` set ds. set (share route at)) (oc_body out, oc_index out)"
        "length (oc_index out) = length items" "length (oc_body out) \<le> 2 ^ 32 - 1"
        using assms(3,8,9) len by (auto simp: placed_def)
      have "(\<Union>at \<in> fst ` set ds. set (share route at)) = {..<length items}"
        using assms(6) len by (auto simp: share_def)
      with out(2) have p: "placed rep {..<length items} (oc_body out, oc_index out)" by simp
      show ?thesis
        by (rule main [OF _ p out(3,4)]) (use False out(1) in \<open>simp add: routed [OF Cons]\<close>)
    qed
  qed
qed

text \<open>Two servers that answer every item with its own body, and two items.\<close>

definition echo :: "nat \<Rightarrow> op \<Rightarrow> bytes \<Rightarrow> (unit, unit) answer" where
  "echo at op body =
     (case frames body of
        Inl e \<Rightarrow> Inl (Decode e)
      | Inr f \<Rightarrow> Inr (Ok, encode_batch (map (\<lambda>x. (status_u8 Ok, snd x)) (frames_items f))))"

lemma echo_answers:
  assumes "length is \<le> MAX_ITEMS" and "\<forall>i \<in> set is. frame_ok (items ! i)"
  shows "echo at op (encode_batch (map (\<lambda>i. items ! i) is)) =
    Inr (Ok, encode_batch (map (\<lambda>i. (status_u8 Ok, snd (items ! i))) is))"
proof -
  obtain f where "frames (encode_batch (map (\<lambda>i. items ! i) is)) = Inr f" "frames_items f = map (\<lambda>i. items ! i) is"
    using frames_items_iff [of "encode_batch (map (\<lambda>i. items ! i) is)" "map (\<lambda>i. items ! i) is"] assms
    by (auto simp: list_all_iff)
  then show ?thesis by (simp add: echo_def comp_def)
qed

definition ok_slot :: "status \<Rightarrow> bytes \<Rightarrow> (unit, unit) error + status \<times> bytes" where
  "ok_slot st v = Inr (st, v)"

theorem cluster_batch_in_order_witness:
  "\<exists>c out c' ds. cluster_new [str ''a'', str ''b''] None = Some c \<and>
     cluster_batch echo (enc_get (enc_get enc_new [1]) [2, 3]) 0 ds c = Some (Inr out, c') \<and>
     (\<forall>i < 2. outcome_get ok_slot out i = Some (Inr (Ok, [[1], [2, 3]] ! i)))"
proof -
  let ?items = "[(op_u8 Get, [1]), (op_u8 Get, [2, 3])] :: (u8 \<times> bytes) list"
  obtain c where c: "cluster_new [str ''a'', str ''b''] None = Some c"
    by (simp add: cluster_new_def str_def)
  define route where "route = map (\<lambda>x. cluster_index c (projr (item_key x)) 0) ?items"
  define ds where "ds = map (\<lambda>at. (at, 0 :: u64)) (remdups route)"
  let ?rep = "\<lambda>i. (status_u8 Ok, snd (?items ! i))"
  have r: "enc_repr (enc_get (enc_get enc_new [1]) [2, 3]) ?items"
    using enc_repr_push [OF enc_repr_push [OF enc_repr_new]] by (simp add: enc_get_push)
  have x: "\<forall>x \<in> set ?items. frame_ok x \<and> (\<exists>k. item_key x = Inr k)"
    by (simp add: frame_ok_def item_key_def op_from_u8_def)
  have d: "fst ` set ds = set route" by (simp add: ds_def image_image)
  have e: "\<forall>at \<in> set route. \<exists>st. echo at Batch (encode_batch (map (\<lambda>i. ?items ! i) (share route at))) =
      Inr (st, encode_batch (map ?rep (share route at)))"
  proof
    fix at
    have "length (share route at) \<le> length [0..<length route]" unfolding share_def by (rule length_filter_le)
    then have "length (share route at) \<le> MAX_ITEMS" by (simp add: route_def MAX_ITEMS_def)
    moreover have "\<forall>i \<in> set (share route at). frame_ok (?items ! i)"
      by (auto simp: share_def route_def frame_ok_def less_Suc_eq)
    ultimately show "\<exists>st. echo at Batch (encode_batch (map (\<lambda>i. ?items ! i) (share route at))) =
      Inr (st, encode_batch (map ?rep (share route at)))" using echo_answers [of "share route at" ?items] by blast
  qed
  have p: "\<forall>i < length ?items. frame_ok (?rep i)" by (simp add: less_Suc_eq all_conj_distrib frame_ok_def)
  have s: "sum_list (map (\<lambda>d. length (encode_batch (map ?rep (share route (fst d))))) ds) \<le> 2 ^ 32 - 1"
    by (simp add: ds_def route_def share_def encode_batch_def HEADER_LEN_def)
  have k: "cluster_ok [str ''a'', str ''b''] c" by (rule cluster_new_ok [OF c])
  have l: "length ?items \<le> MAX_ITEMS" by (simp add: MAX_ITEMS_def)
  from cluster_batch_in_order [of _ c _ ?items route 0 ds echo ?rep ok_slot, OF k r l x route_def d e p s]
  obtain out c' where out: "cluster_batch echo (enc_get (enc_get enc_new [1]) [2, 3]) 0 ds c = Some (Inr out, c')"
    "\<forall>i < length ?items. outcome_get ok_slot out i = Some (slot_answer ok_slot (?rep i))"
    by blast
  then have "\<forall>i < 2. outcome_get ok_slot out i = Some (Inr (Ok, [[1], [2, 3]] ! i))"
    by (auto simp: slot_answer_def ok_slot_def less_Suc_eq numeral_2_eq_2 status_from_u8_def)
  with c out(1) show ?thesis by blast
qed

end
