(* ===== verification/Cli.thy ===== *)
theory Cli
  imports Cluster Pipeline
begin

text \<open>
  The command-line client, \<^verbatim>\<open>crates/client-rs/src/main.rs\<close> and \<^verbatim>\<open>cli.rs\<close>: choosing an address, the
  commands and what they print, and the requests of the load test.

  Arguments are parsed by clap and given here as a record. Name resolution, TLS and the connection
  are arguments: a client is the \<open>call\<close> it makes. \<open>None\<close> is a panic. Text is its UTF-8 bytes.
\<close>

section \<open>Arguments\<close>

record bench_args =
  ba_conns :: nat
  ba_pipeline :: nat
  ba_batch :: nat
  ba_value_size :: nat
  ba_keys :: nat

datatype cmd = CmdGet "bytes list" | CmdSet "bytes list" | CmdDel "bytes list" | CmdBench bench_args

record args =
  ar_addr :: bytes
  ar_token :: bytes
  ar_tls_ca :: "bytes option"
  ar_cmd :: cmd

text \<open>\<open>env\<close> is the variable, when it is set to text; \<open>disp\<close> is \<open>Display\<close> of the value.\<close>

definition warn_if_overridden ::
  "bytes \<Rightarrow> bytes \<Rightarrow> bytes option \<Rightarrow> 'v option \<Rightarrow> (bytes \<Rightarrow> 'v option) \<Rightarrow> ('v \<Rightarrow> bytes) \<Rightarrow> bool \<Rightarrow> bytes list" where
  "warn_if_overridden flag var env val parse disp shown =
     (case (env, val) of
        (Some e, Some v) \<Rightarrow>
          if parse e \<noteq> Some v
          then [if shown
                then str ''warning: --'' @ flag @ str ''='' @ disp v @ str '' overrides '' @ var @ str ''='' @ e
                else str ''warning: --'' @ flag @ str '' overrides a different '' @ var]
          else []
      | _ \<Rightarrow> [])"

definition cli_warnings :: "bytes option \<Rightarrow> bytes option \<Rightarrow> args \<Rightarrow> bytes list" where
  "cli_warnings env_addr env_token ag =
     warn_if_overridden (str ''addr'') (str ''OXICACHE_ADDR'') env_addr (Some (ar_addr ag)) Some id True @
     warn_if_overridden (str ''token'') (str ''OXICACHE_TOKEN'') env_token (Some (ar_token ag)) Some id False"

definition rsplit_once :: "u8 \<Rightarrow> bytes \<Rightarrow> (bytes \<times> bytes) option" where
  "rsplit_once c s =
     (if c \<in> set s
      then let t = rev (takeWhile (\<lambda>x. x \<noteq> c) (rev s)) in Some (take (length s - length t - 1) s, t)
      else None)"

definition trim_brackets :: "bytes \<Rightarrow> bytes" where
  "trim_brackets s = rev (dropWhile (\<lambda>x. x \<in> {91, 93}) (rev (dropWhile (\<lambda>x. x \<in> {91, 93}) s)))"

section \<open>The commands\<close>

text \<open>One batch call per key, and the slots they hand out.\<close>

fun batch_all :: "(bytes \<Rightarrow> batch_encoder \<Rightarrow> nat \<times> batch_encoder) \<Rightarrow> bytes list \<Rightarrow> batch_encoder \<Rightarrow> nat list \<times> batch_encoder" where
  "batch_all f [] b = ([], b)"
| "batch_all f (k # ks) b = (let (s, b1) = f k b; (ss, b2) = batch_all f ks b1 in (s # ss, b2))"

text \<open>Reading the slots in order, up to the first error.\<close>

fun read_slots :: "(nat \<Rightarrow> ('e + 'v) option) \<Rightarrow> nat list \<Rightarrow> ('e + 'v list) option" where
  "read_slots out [] = Some (Inr [])"
| "read_slots out (s # ss) =
     (case out s of
        None \<Rightarrow> None
      | Some (Inl e) \<Rightarrow> Some (Inl e)
      | Some (Inr v) \<Rightarrow> map_option (map_sum id (\<lambda>vs. v # vs)) (read_slots out ss))"

definition batch_read ::
  "(op \<Rightarrow> bytes \<Rightarrow> ('k, 'x) answer) \<Rightarrow> (status \<Rightarrow> bytes \<Rightarrow> ('k, 'x) error + 'v) \<Rightarrow> nat list \<times> batch_encoder \<Rightarrow>
     (('k, 'x) error + 'v list) option" where
  "batch_read call reply sb =
     (case client_batch call (snd sb) of
        None \<Rightarrow> None
      | Some (Inl e) \<Rightarrow> Some (Inl e)
      | Some (Inr out) \<Rightarrow> read_slots (outcome_get reply out) (fst sb))"

definition cmd_get ::
  "(op \<Rightarrow> bytes \<Rightarrow> ('k, 'x) answer) \<Rightarrow> (bytes \<Rightarrow> 'x + 'v) \<Rightarrow> bytes list \<Rightarrow> (('k, 'x) error + 'v option list) option" where
  "cmd_get call from_slice keys =
     (case keys of
        [key] \<Rightarrow> Some (map_sum id (\<lambda>v. [v]) (client_get call from_slice key))
      | _ \<Rightarrow> batch_read call (reply_value from_slice) (batch_all batch_get keys batch_new))"

definition cmd_del ::
  "(op \<Rightarrow> bytes \<Rightarrow> ('k, 'x) answer) \<Rightarrow> bytes list \<Rightarrow> (('k, 'x) error + bool list) option" where
  "cmd_del call keys =
     (case keys of
        [key] \<Rightarrow> Some (map_sum id (\<lambda>v. [v]) (client_del call key))
      | _ \<Rightarrow> batch_read call reply_bool (batch_all batch_del keys batch_new))"

text \<open>\<open>chunks(2)\<close>; a chunk of one has no value to read.\<close>

fun pairs_of :: "bytes list \<Rightarrow> (bytes \<times> bytes) list option" where
  "pairs_of [] = Some []"
| "pairs_of [k] = None"
| "pairs_of (k # v # kv) = map_option (\<lambda>ps. (k, v) # ps) (pairs_of kv)"

fun batch_sets ::
  "(bytes \<Rightarrow> bytes \<Rightarrow> 'x option \<times> bytes) \<Rightarrow> (bytes \<times> bytes) list \<Rightarrow> batch_encoder \<Rightarrow>
     ('k, 'x) error + nat list \<times> batch_encoder" where
  "batch_sets write_str [] b = Inr ([], b)"
| "batch_sets write_str ((k, v) # ps) b =
     (case batch_set k (write_str v) b of
        (Inl e, _) \<Rightarrow> Inl e
      | (Inr s, b1) \<Rightarrow> map_sum id (\<lambda>(ss, b2). (s # ss, b2)) (batch_sets write_str ps b1))"

definition cmd_set ::
  "(op \<Rightarrow> bytes \<Rightarrow> ('k, 'x) answer) \<Rightarrow> (bytes \<Rightarrow> bytes \<Rightarrow> 'x option \<times> bytes) \<Rightarrow> (bytes \<times> bytes) list \<Rightarrow>
     (('k, 'x) error + unit) option" where
  "cmd_set call write_str pairs =
     (case pairs of
        [(k, v)] \<Rightarrow> Some (client_set call k (write_str v))
      | _ \<Rightarrow>
          (case batch_sets write_str pairs batch_new of
             Inl e \<Rightarrow> Some (Inl e)
           | Inr sb \<Rightarrow> map_option (map_sum id (\<lambda>_. ())) (batch_read call reply_unit sb)))"

text \<open>
  A MessagePack value: a string, whose text it may not be able to give, or something else with its
  own \<open>Display\<close>.
\<close>

datatype 'v msg_value = MsgString "bytes option" | MsgOther 'v

definition get_line :: "('v \<Rightarrow> bytes) \<Rightarrow> bytes \<times> 'v msg_value option \<Rightarrow> bytes" where
  "get_line disp kv =
     fst kv @ str '': '' @
       (case snd kv of
          Some (MsgString s) \<Rightarrow> (case s of Some t \<Rightarrow> t | None \<Rightarrow> [])
        | Some (MsgOther v) \<Rightarrow> disp v
        | None \<Rightarrow> str ''(nil)'')"

definition del_line :: "bytes \<times> bool \<Rightarrow> bytes" where
  "del_line kf = fst kf @ str '': '' @ (if snd kf then str ''deleted'' else str ''(nil)'')"

definition set_line :: "nat \<Rightarrow> bytes" where
  "set_line n = str ''OK ('' @ dec n @ str '' entries)''"

section \<open>Main\<close>

datatype ('k, 'x, 'i) cli_error = CliText bytes | CliIo 'i | CliClient "('k, 'x) error"

text \<open>The addresses in turn: only one that nobody answered on is skipped.\<close>

fun connect_loop ::
  "('a \<Rightarrow> ('k, 'x) error + 'c) \<Rightarrow> ('k, 'x) error option \<Rightarrow> 'a list \<Rightarrow> (('k, 'x) error + 'a \<times> 'c) option" where
  "connect_loop connect latest [] = map_option Inl latest"
| "connect_loop connect latest (a # addrs) =
     (case connect a of
        Inr c \<Rightarrow> Some (Inr (a, c))
      | Inl e \<Rightarrow>
          (case e of
             Io _ _ \<Rightarrow> connect_loop connect (Some e) addrs
           | Closed \<Rightarrow> connect_loop connect (Some e) addrs
           | _ \<Rightarrow> Some (Inl e)))"

definition cli_connect ::
  "('t option \<Rightarrow> bytes \<Rightarrow> 'a \<Rightarrow> ('k, 'x) error + 'c) \<Rightarrow> (bytes \<Rightarrow> 'i + 'a list) \<Rightarrow> (bytes \<Rightarrow> bytes \<Rightarrow> 'i + 't) \<Rightarrow> args \<Rightarrow>
     (('k, 'x, 'i) cli_error + 'a \<times> 'c) option" where
  "cli_connect connect lookup_host trusting ag =
     (case rsplit_once 58 (ar_addr ag) of
        None \<Rightarrow> Some (Inl (CliText (str ''--addr must be host:port'')))
      | Some (host, _) \<Rightarrow>
          if (case ar_cmd ag of CmdSet kv \<Rightarrow> length kv mod 2 \<noteq> 0 | _ \<Rightarrow> False)
          then Some (Inl (CliText (str ''set expects key value pairs'')))
          else (case lookup_host (ar_addr ag) of
             Inl e \<Rightarrow> Some (Inl (CliIo e))
           | Inr addrs \<Rightarrow>
               if addrs = [] then Some (Inl (CliText (ar_addr ag @ str '': no address'')))
               else (case (case ar_tls_ca ag of
                             None \<Rightarrow> Inr None
                           | Some ca \<Rightarrow> map_sum id Some (trusting ca (trim_brackets host))) of
                  Inl e \<Rightarrow> Some (Inl (CliIo e))
                | Inr tls \<Rightarrow>
                    map_option (map_sum CliClient id) (connect_loop (connect tls (ar_token ag)) None addrs))))"

text \<open>
  What a command prints. The load test reports a rate over the time it took; \<open>bench\<close> is what it comes to
  over connections of its own.
\<close>

definition cli_run ::
  "(op \<Rightarrow> bytes \<Rightarrow> ('k, 'x) answer) \<Rightarrow> (bytes \<Rightarrow> 'x + 'v msg_value) \<Rightarrow> ('v \<Rightarrow> bytes) \<Rightarrow>
     (bytes \<Rightarrow> bytes \<Rightarrow> 'x option \<times> bytes) \<Rightarrow> (bench_args \<Rightarrow> (('k, 'x) error + bytes) option) \<Rightarrow> cmd \<Rightarrow>
     (('k, 'x) error + bytes list) option" where
  "cli_run call from_slice disp write_str bench c =
     (case c of
        CmdGet keys \<Rightarrow> map_option (map_sum id (\<lambda>vs. map (get_line disp) (zip keys vs))) (cmd_get call from_slice keys)
      | CmdSet kv \<Rightarrow>
          (case pairs_of kv of
             None \<Rightarrow> None
           | Some ps \<Rightarrow> map_option (map_sum id (\<lambda>_. [set_line (length ps)])) (cmd_set call write_str ps))
      | CmdDel keys \<Rightarrow> map_option (map_sum id (\<lambda>fs. map del_line (zip keys fs))) (cmd_del call keys)
      | CmdBench ba \<Rightarrow> map_option (map_sum id (\<lambda>l. [l])) (bench ba))"

section \<open>The load test\<close>

definition bench_key :: "nat \<Rightarrow> bytes" where
  "bench_key i = str ''bench:'' @ replicate (8 - length (dec i)) 48 @ dec i"

definition KEY_LEN :: nat where "KEY_LEN = 14"

definition bench_keys :: "nat \<Rightarrow> bytes" where
  "bench_keys keyspace = concat (map bench_key [0..<keyspace])"

definition bench_seed :: "nat \<Rightarrow> nat \<Rightarrow> u64" where
  "bench_seed c p = of_nat (c * 1000003 + p * 7919 + 1)"

definition xorshift :: "u64 \<Rightarrow> u64" where
  "xorshift r0 =
     (let r1 = xor r0 (push_bit 13 r0); r2 = xor r1 (drop_bit 7 r1) in xor r2 (push_bit 17 r2))"

text \<open>The keys of one request; \<open>None\<close> is a remainder by zero or a slice past the end.\<close>

fun bench_picks :: "nat \<Rightarrow> bytes \<Rightarrow> nat \<Rightarrow> u64 \<Rightarrow> (bytes list \<times> u64) option" where
  "bench_picks keyspace keys 0 rng = Some ([], rng)"
| "bench_picks keyspace keys (Suc n) rng =
     (let r = xorshift rng; i = unat r mod keyspace * KEY_LEN
      in if keyspace = 0 \<or> length keys < i + KEY_LEN then None
         else map_option (\<lambda>(ks, r'). (take KEY_LEN (drop i keys) # ks, r')) (bench_picks keyspace keys n r))"

record bench_state =
  bs_rng :: u64
  bs_ops :: nat
  bs_reqs :: nat
  bs_hits :: nat

text \<open>
  The request of one turn, up to its counting: how many keys it found. \<open>skip\<close> reads over a value.
\<close>

definition bench_request ::
  "(op \<Rightarrow> bytes \<Rightarrow> ('k, 'x) answer) \<Rightarrow> (bytes \<Rightarrow> 'x + unit) \<Rightarrow> (bytes \<Rightarrow> 'x option \<times> bytes) \<Rightarrow> bool \<Rightarrow> bytes list \<Rightarrow>
     (('k, 'x) error + nat) option" where
  "bench_request call skip value_str is_write ks =
     (case ks of
        [k] \<Rightarrow>
          if is_write then Some (map_sum id (\<lambda>_. 0) (client_set call k value_str))
          else Some (map_sum id (\<lambda>v. if v = None then 0 else 1) (client_get call skip k))
      | _ \<Rightarrow>
          if is_write
          then (case batch_sets (\<lambda>_. value_str) (map (\<lambda>k. (k, [])) ks) batch_new of
                  Inl e \<Rightarrow> Some (Inl e)
                | Inr (_, b) \<Rightarrow> map_option (map_sum id (\<lambda>_. 0)) (client_batch call b))
          else map_option (map_sum id (\<lambda>vs. length (filter (\<lambda>v. v \<noteq> None) vs)))
                 (batch_read call (reply_value skip) (batch_all batch_get ks batch_new)))"

text \<open>
  One turn of a task. Whether it writes is decided by a number below ten thousand against the ratio,
  a floating-point comparison that is an argument here.
\<close>

definition bench_turn ::
  "bench_args \<Rightarrow> (nat \<Rightarrow> bool) \<Rightarrow> (bytes \<Rightarrow> 'x + unit) \<Rightarrow> (bytes \<Rightarrow> bytes \<Rightarrow> 'x option \<times> bytes) \<Rightarrow>
     (op \<Rightarrow> bytes \<Rightarrow> ('k, 'x) answer) \<Rightarrow> bench_state \<Rightarrow> (('k, 'x) error + bench_state) option" where
  "bench_turn ba writes skip write_str call st =
     (case bench_picks (ba_keys ba) (bench_keys (ba_keys ba)) (ba_batch ba) (bs_rng st) of
        None \<Rightarrow> None
      | Some (ks, r) \<Rightarrow>
          let r' = xorshift r; value_str = write_str (replicate (ba_value_size ba) 120)
          in map_option (map_sum id (\<lambda>n. \<lparr>bs_rng = r', bs_ops = bs_ops st + ba_batch ba, bs_reqs = bs_reqs st + 1,
                           bs_hits = bs_hits st + n\<rparr>))
               (bench_request call skip value_str (writes (unat r' mod 10000)) ks))"

text \<open>Where each task of each connection starts.\<close>

definition bench_seeds :: "bench_args \<Rightarrow> u64 list" where
  "bench_seeds ba = concat (map (\<lambda>c. map (bench_seed c) [0..<ba_pipeline ba]) [0..<ba_conns ba])"

section \<open>Addresses\<close>

lemma rsplit_once_iff:
  "rsplit_once c s = Some (h, t) \<longleftrightarrow> s = h @ c # t \<and> c \<notin> set t"
proof
  assume l: "rsplit_once c s = Some (h, t)"
  then have c: "c \<in> set (rev s)" and t: "t = rev (takeWhile (\<lambda>x. x \<noteq> c) (rev s))" and h: "h = take (length s - length t - 1) s"
    by (auto simp: rsplit_once_def Let_def split: if_splits)
  obtain a b where ab: "rev s = a @ c # b" "c \<notin> set a" using split_list_first [OF c] by blast
  then have a: "takeWhile (\<lambda>x. x \<noteq> c) (rev s) = a" by (auto simp: takeWhile_append intro: takeWhile_eq_all_conv [THEN iffD2])
  have "s = rev b @ c # rev a" using arg_cong [OF ab(1), of rev] by simp
  with a t h ab(2) show "s = h @ c # t \<and> c \<notin> set t" by simp
next
  assume r: "s = h @ c # t \<and> c \<notin> set t"
  then have "takeWhile (\<lambda>x. x \<noteq> c) (rev s) = rev t" by (auto simp: takeWhile_append intro: takeWhile_eq_all_conv [THEN iffD2])
  with r show "rsplit_once c s = Some (h, t)" by (simp add: rsplit_once_def Let_def)
qed

definition unanswered :: "('k, 'x) error + 'c \<Rightarrow> bool" where
  "unanswered r \<longleftrightarrow> (\<exists>k m. r = Inl (Io k m)) \<or> r = Inl Closed"

text \<open>
  The server is the first address that somebody answered on, for better or worse; only when nobody
  did on any of them is the error that of the last.
\<close>

lemma connect_loop_first:
  "connect_loop connect latest addrs =
     (case find (\<lambda>a. \<not> unanswered (connect a)) addrs of
        Some a \<Rightarrow> Some (map_sum id (Pair a) (connect a))
      | None \<Rightarrow> if addrs = [] then map_option Inl latest else Some (map_sum id (Pair (last addrs)) (connect (last addrs))))"
proof (induction addrs arbitrary: latest)
  case (Cons a addrs)
  show ?case
  proof (cases "unanswered (connect a)")
    case True
    then obtain e where e: "connect a = Inl e" "connect_loop connect latest (a # addrs) = connect_loop connect (Some e) addrs"
      by (auto simp: unanswered_def)
    with True Cons.IH [of "Some e"] show ?thesis by (simp split: option.split)
  next
    case False
    then show ?thesis by (auto simp: unanswered_def split: sum.split error.split)
  qed
qed simp

text \<open>What is printed about an overridden token depends on neither the token nor the variable's value.\<close>

lemma cli_warnings_hide_token:
  "cli_warnings ea et ag = cli_warnings ea None ag @
     (if et = None \<or> et = Some (ar_token ag) then [] else [str ''warning: --token overrides a different OXICACHE_TOKEN''])"
  by (auto simp: cli_warnings_def warn_if_overridden_def str_def split: option.split)

section \<open>Several keys at once\<close>

lemma read_slots_all:
  assumes "\<forall>s \<in> set ss. out s = Some (r s)"
  shows "read_slots out ss = Some (collect_results (map r ss))"
  using assms by (induction ss) (auto split: sum.split)

lemma batch_read_in_order:
  fixes call :: "op \<Rightarrow> bytes \<Rightarrow> ('k, 'x) answer"
  assumes "enc_repr b items" and "length items \<le> MAX_ITEMS" and "length reps = length items"
    and "call Batch (encode_batch items) = Inr (st, encode_batch reps)"
    and "\<forall>x \<in> set reps. frame_ok x" and "length (encode_batch reps) \<le> 2 ^ 32 - 1"
  shows "batch_read call reply ([0..<length items], b) = Some (collect_results (map (slot_answer reply) reps))"
proof -
  let ?n = "length items"
  have m: "map (\<lambda>i. reps ! i) [0..<?n] = reps" using assms(3) map_nth [of reps] by simp
  obtain out where out: "batch_body ?n (Inr (st, encode_batch reps)) = (Inr out :: ('k, 'x) error + batch_outcome)"
    "placed (\<lambda>i. reps ! i) {..<?n} (oc_body out, oc_index out)" "length (oc_body out) \<le> 2 ^ 32 - 1"
    using batch_body_placed [OF assms(2), of "\<lambda>i. reps ! i" st] assms(3,5,6) unfolding m by auto
  have "client_batch call b = Some (Inr out)"
    using assms(1,2,4) out(1) enc_finish_repr [OF assms(1,2)] by (simp add: client_batch_def enc_len_def enc_repr_def)
  moreover have "read_slots (outcome_get reply out) [0..<?n] = Some (collect_results (map (\<lambda>i. slot_answer reply (reps ! i)) [0..<?n]))"
    by (rule read_slots_all) (use outcome_get_placed [OF out(2) _ out(3)] in auto)
  moreover have "map (\<lambda>i. slot_answer reply (reps ! i)) [0..<?n] = map (slot_answer reply) reps"
    using arg_cong [OF m, of "map (slot_answer reply)"] by (simp add: comp_def)
  ultimately show ?thesis by (simp add: batch_read_def)
qed

lemma batch_all_repr:
  assumes "enc_repr b xs" and "\<And>k b ys. enc_repr b ys \<Longrightarrow> fst (f k b) = length ys \<and> enc_repr (snd (f k b)) (ys @ [(t, k)])"
  shows "fst (batch_all f ks b) = [length xs..<length xs + length ks] \<and> enc_repr (snd (batch_all f ks b)) (xs @ map (Pair t) ks)"
  using assms(1)
proof (induction ks arbitrary: b xs)
  case (Cons k ks)
  obtain s b1 where f: "f k b = (s, b1)" by fastforce
  obtain ss b2 where r: "batch_all f ks b1 = (ss, b2)" by fastforce
  from assms(2) [OF Cons.prems, of k] f have 1: "s = length xs" "enc_repr b1 (xs @ [(t, k)])" by auto
  from Cons.IH [OF this(2)] r have "ss = [Suc (length xs)..<Suc (length xs) + length ks]"
    "enc_repr b2 ((xs @ [(t, k)]) @ map (Pair t) ks)" by auto
  with f r 1 show ?case by (simp add: upt_conv_Cons del: upt_Suc)
qed simp

lemma batch_get_repr: "enc_repr b ys \<Longrightarrow> fst (batch_get k b) = length ys \<and> enc_repr (snd (batch_get k b)) (ys @ [(op_u8 Get, k)])"
  using enc_repr_push [of b ys "op_u8 Get" k]
  by (simp add: batch_get_def batch_slot_def enc_get_push Let_def enc_len_def enc_repr_def)

lemma batch_del_repr: "enc_repr b ys \<Longrightarrow> fst (batch_del k b) = length ys \<and> enc_repr (snd (batch_del k b)) (ys @ [(op_u8 Del, k)])"
  using enc_repr_push [of b ys "op_u8 Del" k]
  by (simp add: batch_del_def batch_slot_def enc_del_push Let_def enc_len_def enc_repr_def)

text \<open>Alone or in a batch, an item answered with a frame reads the same.\<close>

lemma answer_value: "bindE (answer_of f) (\<lambda>(st, b). reply_value from_slice st b) = slot_answer (reply_value from_slice) f"
  by (auto simp: answer_of_def slot_answer_def reply_value_def refused_def split: option.split)

lemma answer_bool: "bindE (answer_of f) (\<lambda>(st, b). reply_bool st b) = slot_answer reply_bool f"
  by (auto simp: answer_of_def slot_answer_def reply_bool_def refused_def split: option.split)

lemma answer_unit: "fst f \<noteq> status_u8 NotFound \<Longrightarrow> bindE (answer_of f) (\<lambda>_. Inr ()) = slot_answer reply_unit f"
  by (auto simp: answer_of_def slot_answer_def reply_unit_def refused_def dest: status_from_u8_Some split: option.split)

text \<open>
  However many keys a command names, a key's line shows what the server answered for that key: the
  one asked alone and the ones asked in a batch are answered with the same frames.
\<close>

definition answers_each :: "(op \<Rightarrow> bytes \<Rightarrow> ('k, 'x) answer) \<Rightarrow> op \<Rightarrow> (bytes \<Rightarrow> u8 \<times> bytes) \<Rightarrow> bytes list \<Rightarrow> bool" where
  "answers_each call op' rep bodies \<longleftrightarrow>
     length bodies \<le> MAX_ITEMS \<and> length (encode_batch (map rep bodies)) \<le> 2 ^ 32 - 1 \<and>
     (\<forall>k \<in> set bodies. call op' k = answer_of (rep k) \<and> frame_ok (rep k)) \<and>
     (\<exists>st. call Batch (encode_batch (map (Pair (op_u8 op')) bodies)) = Inr (st, encode_batch (map rep bodies)))"

lemma batch_read_each:
  assumes "answers_each call op' rep bodies" and "enc_repr b (map (Pair (op_u8 op')) bodies)"
  shows "batch_read call reply ([0..<length bodies], b) = Some (collect_results (map (\<lambda>k. slot_answer reply (rep k)) bodies))"
proof -
  obtain st where "call Batch (encode_batch (map (Pair (op_u8 op')) bodies)) = Inr (st, encode_batch (map rep bodies))"
    using assms(1) by (auto simp: answers_each_def)
  with batch_read_in_order [OF assms(2), where reps = "map rep bodies" and call = call and st = st and reply = reply] assms(1)
  show ?thesis by (simp add: answers_each_def comp_def)
qed

lemma cmd_get_in_order:
  fixes call :: "op \<Rightarrow> bytes \<Rightarrow> ('k, 'x) answer" and from_slice :: "bytes \<Rightarrow> 'x + 'v"
  assumes "answers_each call Get rep keys"
  shows "cmd_get call from_slice keys = Some (collect_results (map (\<lambda>k. slot_answer (reply_value from_slice) (rep k)) keys))"
proof (cases "\<exists>k. keys = [k]")
  case True
  then obtain k where "keys = [k]" by blast
  moreover from this assms have "client_get call from_slice k = slot_answer (reply_value from_slice) (rep k)"
    by (simp add: client_get_def answers_each_def answer_value)
  ultimately show ?thesis by (cases "slot_answer (reply_value from_slice) (rep k) :: ('k, 'x) error + 'v option") (simp_all add: cmd_get_def)
next
  case False
  obtain ss b where a: "batch_all batch_get keys batch_new = (ss, b)" by fastforce
  then have "ss = [0..<length keys]" "enc_repr b (map (Pair (op_u8 Get)) keys)"
    using batch_all_repr [where f = batch_get and t = "op_u8 Get" and ks = keys, OF enc_repr_new batch_get_repr] by (auto simp: batch_new_def)
  with False a batch_read_each [OF assms, of b] show ?thesis by (auto simp: cmd_get_def split: list.split)
qed

lemma cmd_del_in_order:
  fixes call :: "op \<Rightarrow> bytes \<Rightarrow> ('k, 'x) answer"
  assumes "answers_each call Del rep keys"
  shows "cmd_del call keys = Some (collect_results (map (\<lambda>k. slot_answer reply_bool (rep k)) keys))"
proof (cases "\<exists>k. keys = [k]")
  case True
  then obtain k where "keys = [k]" by blast
  moreover from this assms have "client_del call k = slot_answer reply_bool (rep k)"
    by (simp add: client_del_def answers_each_def answer_bool)
  ultimately show ?thesis by (cases "slot_answer reply_bool (rep k) :: ('k, 'x) error + bool") (simp_all add: cmd_del_def)
next
  case False
  obtain ss b where a: "batch_all batch_del keys batch_new = (ss, b)" by fastforce
  then have "ss = [0..<length keys]" "enc_repr b (map (Pair (op_u8 Del)) keys)"
    using batch_all_repr [where f = batch_del and t = "op_u8 Del" and ks = keys, OF enc_repr_new batch_del_repr] by (auto simp: batch_new_def)
  with False a batch_read_each [OF assms, of b] show ?thesis by (auto simp: cmd_del_def split: list.split)
qed

text \<open>So it is for pairs, given a writer that appends the encoded value.\<close>

abbreviation set_bytes :: "(bytes \<Rightarrow> bytes) \<Rightarrow> bytes \<times> bytes \<Rightarrow> bytes" where
  "set_bytes enc kv \<equiv> encode_set (fst kv) (enc (snd kv))"

lemma batch_sets_repr:
  fixes write_str :: "bytes \<Rightarrow> bytes \<Rightarrow> 'x option \<times> bytes"
  assumes "\<And>v out. write_str v out = (None, out @ enc v)" and "enc_repr b xs"
  shows "\<exists>b'. batch_sets write_str ps b = (Inr ([length xs..<length xs + length ps], b') :: ('k, 'x) error + _) \<and>
    enc_repr b' (xs @ map (\<lambda>p. (op_u8 Set, set_bytes enc p)) ps)"
  using assms(2)
proof (induction ps arbitrary: b xs)
  case (Cons p ps)
  obtain k v where p: "p = (k, v)" by fastforce
  let ?b = "enc_push b (op_u8 Set) (encode_set k (enc v))"
  have r: "enc_repr ?b (xs @ [(op_u8 Set, encode_set k (enc v))])" by (rule enc_repr_push [OF Cons.prems])
  have "write_str v = (\<lambda>out. (None, out @ enc v))" using assms(1) by auto
  then have "batch_set k (write_str v) b = (Inr (length xs) :: ('k, 'x) error + nat, ?b)"
    using r by (simp add: batch_set_def set_with_in_place enc_set_push batch_slot_def enc_len_def enc_repr_def)
  with Cons.IH [OF r] p show ?case by (auto simp: upt_conv_Cons simp del: upt_Suc)
qed simp

lemma cmd_set_in_order:
  fixes call :: "op \<Rightarrow> bytes \<Rightarrow> ('k, 'x) answer"
  assumes "answers_each call Set rep (map (set_bytes enc) pairs)" and "\<And>v out. write_str v out = (None, out @ enc v)"
    and "\<forall>p \<in> set pairs. fst (rep (set_bytes enc p)) \<noteq> status_u8 NotFound"
  shows "cmd_set call write_str pairs =
    Some (map_sum id (\<lambda>_. ()) (collect_results (map (\<lambda>p. slot_answer reply_unit (rep (set_bytes enc p))) pairs)))"
proof (cases "\<exists>k v. pairs = [(k, v)]")
  case True
  then obtain k v where kv: "pairs = [(k, v)]" by blast
  let ?r = "rep (encode_set k (enc v))"
  have "client_set call k (write_str v) = bindE (answer_of ?r) (\<lambda>_. Inr ())"
    using assms(1,2) kv by (simp add: client_set_def answers_each_def put_set_key_def encode_set_def put_set_def)
  also have "\<dots> = slot_answer reply_unit ?r" by (rule answer_unit) (use assms(3) kv in simp)
  finally show ?thesis using kv
    by (cases "slot_answer reply_unit ?r :: ('k, 'x) error + unit") (simp_all add: cmd_set_def)
next
  case False
  obtain b where "batch_sets write_str pairs batch_new = (Inr ([0..<length pairs], b) :: ('k, 'x) error + nat list \<times> batch_encoder)"
    "enc_repr b (map (Pair (op_u8 Set)) (map (set_bytes enc) pairs))"
    using batch_sets_repr [where write_str = write_str and ps = pairs and enc = enc and 'k = 'k, OF assms(2) enc_repr_new] by (auto simp: batch_new_def comp_def)
  with False batch_read_each [OF assms(1), of b reply_unit] show ?thesis
    by (auto simp: cmd_set_def comp_def split: list.split)
qed

section \<open>Keys of the load test\<close>

lemma length_bench_key: "i < 10 ^ 8 \<Longrightarrow> length (bench_key i) = KEY_LEN"
  using length_dec [of i 8] by (simp add: bench_key_def KEY_LEN_def)

lemma bench_keys_split:
  assumes "i < n" and "i \<le> 10 ^ 8"
  shows "\<exists>pre post. bench_keys n = pre @ bench_key i @ post \<and> length pre = i * KEY_LEN"
proof -
  have "[0..<n] = [0..<i] @ i # [Suc i..<n]" using assms(1) upt_add_eq_append [of 0 i "n - i"] by (simp add: upt_conv_Cons)
  then have "bench_keys n = concat (map bench_key [0..<i]) @ bench_key i @ concat (map bench_key [Suc i..<n])"
    by (simp add: bench_keys_def)
  moreover have "length (concat (map bench_key [0..<i])) = sum_list (map (\<lambda>j. KEY_LEN) [0..<i])"
    unfolding length_concat map_map comp_def using assms(2) by (intro arg_cong [of _ _ sum_list] map_cong) (auto simp: length_bench_key)
  ultimately show ?thesis by (auto simp: sum_list_triv)
qed

text \<open>With up to \<open>10 ^ 8\<close> keys every pick is a key of the test, the one its number says.\<close>

lemma bench_pick_is_key:
  assumes "i < n" and "n \<le> 10 ^ 8"
  shows "i * KEY_LEN + KEY_LEN \<le> length (bench_keys n) \<and> take KEY_LEN (drop (i * KEY_LEN) (bench_keys n)) = bench_key i"
proof -
  obtain pre post where "bench_keys n = pre @ bench_key i @ post" "length pre = i * KEY_LEN"
    using bench_keys_split [of i n] assms by auto
  moreover have "length (bench_key i) = KEY_LEN" using assms length_bench_key by simp
  ultimately show ?thesis by simp
qed

lemma bench_picks_keys:
  assumes "0 < n" and "n \<le> 10 ^ 8"
  shows "\<exists>ks r. bench_picks n (bench_keys n) m rng = Some (ks, r) \<and> length ks = m \<and> set ks \<subseteq> bench_key ` {..<n}"
proof (induction m arbitrary: rng)
  case (Suc m)
  let ?i = "unat (xorshift rng) mod n"
  have "?i < n" using assms(1) by simp
  with bench_pick_is_key [OF this assms(2)] Suc.IH [of "xorshift rng"] assms(1) show ?case
    by (fastforce simp: Let_def)
qed simp

text \<open>
  With more, the key of number \<open>10 ^ 8\<close> has nine digits and every later one starts past its place:
  what is picked for the next number is not a key of the test.
\<close>

lemma bench_key_out_of_step:
  assumes "10 ^ 8 + 1 < n"
  shows "take KEY_LEN (drop ((10 ^ 8 + 1) * KEY_LEN) (bench_keys n)) \<noteq> bench_key j"
proof -
  obtain pre post where s: "bench_keys n = pre @ bench_key (10 ^ 8) @ post" "length pre = 10 ^ 8 * KEY_LEN"
    using bench_keys_split [of "10 ^ 8" n] assms by auto
  have k: "bench_key (10 ^ 8) = str ''bench:10000000'' @ [48]" by (simp add: bench_key_def dec.simps str_def)
  have l: "(10 ^ 8 + 1) * KEY_LEN = length pre + length (str ''bench:10000000'')" using s(2) by (simp add: KEY_LEN_def)
  have "drop ((10 ^ 8 + 1) * KEY_LEN) (bench_keys n) = 48 # post" unfolding s(1) k l by simp
  then have "hd (take KEY_LEN (drop ((10 ^ 8 + 1) * KEY_LEN) (bench_keys n))) = 48" by (simp add: KEY_LEN_def)
  moreover have "hd (bench_key j) = 98" by (simp add: bench_key_def str_def)
  ultimately show ?thesis by auto
qed

text \<open>A turn never counts more hits than keys asked for.\<close>

lemma map_sum_Inr_iff: "map_sum f g r = Inr y \<longleftrightarrow> (\<exists>x. r = Inr x \<and> g x = y)"
  by (cases r) auto

lemma length_read_slots: "read_slots out ss = Some (Inr vs) \<Longrightarrow> length vs = length ss"
  by (induction ss arbitrary: vs) (auto simp: map_sum_Inr_iff split: option.splits sum.splits)

lemma length_batch_all: "length (fst (batch_all f ks b)) = length ks"
  by (induction ks arbitrary: b) (simp_all add: Let_def case_prod_unfold)

lemma length_bench_picks: "bench_picks n keys m rng = Some (ks, r) \<Longrightarrow> length ks = m"
  by (induction m arbitrary: rng ks) (auto simp: Let_def split: if_splits)

lemma batch_read_length: "batch_read call reply sb = Some (Inr vs) \<Longrightarrow> length vs = length (fst sb)"
  by (auto simp: batch_read_def dest: length_read_slots split: option.splits sum.splits)

lemma bench_request_hits:
  assumes "bench_request call skip value_str w ks = Some (Inr n)"
  shows "n \<le> length ks"
proof (cases "w \<or> length ks = 1")
  case True
  then show ?thesis using assms
    by (auto simp: bench_request_def map_sum_Inr_iff length_Suc_conv split: list.splits sum.splits if_splits prod.splits)
next
  case False
  then have "map_option (map_sum id (\<lambda>vs. length (filter (\<lambda>v. v \<noteq> None) vs)))
      (batch_read call (reply_value skip) (batch_all batch_get ks batch_new)) = Some (Inr n)"
    using assms by (auto simp: bench_request_def split: list.splits)
  then obtain vs where "batch_read call (reply_value skip) (batch_all batch_get ks batch_new) = Some (Inr vs)"
    "n = length (filter (\<lambda>v. v \<noteq> None) vs)" by (auto simp: map_sum_Inr_iff)
  with batch_read_length length_batch_all show ?thesis by (metis length_filter_le)
qed

lemma bench_hits_bounded:
  assumes "bench_turn ba writes skip write_str call st = Some (Inr st')" and "bs_hits st \<le> bs_ops st"
  shows "bs_hits st' \<le> bs_ops st' \<and> bs_reqs st' = bs_reqs st + 1"
proof -
  obtain ks r n where p: "bench_picks (ba_keys ba) (bench_keys (ba_keys ba)) (ba_batch ba) (bs_rng st) = Some (ks, r)"
    and n: "bench_request call skip (write_str (replicate (ba_value_size ba) 120)) (writes (unat (xorshift r) mod 10000)) ks = Some (Inr n)"
    and st': "bs_ops st' = bs_ops st + ba_batch ba" "bs_hits st' = bs_hits st + n" "bs_reqs st' = bs_reqs st + 1"
    using assms(1) by (auto simp: bench_turn_def Let_def map_sum_Inr_iff split: option.splits)
  have "n \<le> length ks" by (rule bench_request_hits [OF n])
  with length_bench_picks [OF p] st' assms(2) show ?thesis by simp
qed

end
