(* ===== verification/Spec2Isabelle.thy ===== *)
theory Spec2Isabelle
  imports Wire Frame_Reader Frame_Writer Cache_Key Slab Race Cache_Inv
    Policy Teardown Value_Copy Dispatch_Inv Conn_Limit Connection Shared_Connection Tls_Stream Startup Metrics Http
    Ring Client Pipeline Supervisor Cluster Cli
begin

text \<open>
  Verification of oxicache, an in-memory cache server and its client, written in Rust. Paths below
  are relative to \<^verbatim>\<open>src/crates\<close>.

  \<^bold>\<open>The program.\<close> A client and the server speak a binary protocol of frames (an operation or status
  byte, a length, a body) over TCP, optionally under TLS; the server offers the same operations over
  HTTP. A connection is first authenticated with a token, then served burst by burst: what has
  arrived is split into frames, every frame is dispatched to the cache, and the responses are queued
  and written together. The cache is split by the hash of the key into shards; each has a cuckoo
  index that maps keys to entries, two queues and a ghost list that decide what is evicted
  (S3-FIFO), and a budget in bytes. Entries live in memory of a slab allocator and are reference
  counted; what a reader may still look at is handed to an epoch collector. The client pipelines
  calls over one connection, reconnects with backoff, and spreads keys over several servers with a
  consistent-hash ring.

  \<^bold>\<open>The theories\<close>, from the bottom up, with the code each models.

  \<^item> \<open>Transition\<close>: locales of what holds of every reachable state of a step relation, from what one step
    keeps; every step relation below interprets one. \<open>Prelude\<close>: machine integers, byte strings,
    little-endian and decimal conversion, results, shared lemmas.
  \<^item> \<open>Framing\<close> and \<open>Wire\<close> (\<^verbatim>\<open>wire/src/lib.rs\<close>): operations, statuses, frames, batches
    (\<open>BatchEncoder\<close>, \<open>frames\<close>), SET bodies. Locale \<open>framing\<close> states what self-delimiting messages
    promise; the frames are its interpretation \<open>wire\<close>. Round trips, exactness of the parser, every
    unchecked access in bounds, damaged bodies refused.
  \<^item> \<open>Frame_Reader\<close>, \<open>Frame_Writer\<close> (\<^verbatim>\<open>wire/src/io.rs\<close>): reassembly from reads cut anywhere; the
    vectored writer over a socket that takes what it likes. Locale \<open>frame_sink\<close> is the interface
    through which responses are queued, interpreted as \<open>fw\<close>.
  \<^item> \<open>Cache_Key\<close> (\<^verbatim>\<open>key.rs\<close>), \<open>Slab\<close> (\<^verbatim>\<open>slab.rs\<close>), \<open>Entry\<close>, \<open>Memory\<close> (the first half of
    \<^verbatim>\<open>s3fifo.rs\<close>), all under \<^verbatim>\<open>server/src/cache\<close>: keys, chunks handed out and returned without
    overlap, the heap of reference-counted entries and its agreement with the slab's books.
    \<open>Value_Copy\<close> shows that the streaming copy of a value stores what a plain one does.
  \<^item> \<open>Cuckoo\<close>, \<open>Index_Map\<close> (\<^verbatim>\<open>table.rs\<close>): buckets, the path search, growth. Locale \<open>entry_index\<close> says
    an index is a finite map from keys to entries; interpretation \<open>cuckoo\<close>. \<open>Race\<close>: a lookup load by load
    beside the writer store by store; it returns what the key had at some moment of the call.
  \<^item> \<open>Shard\<close>, \<open>Shard_Inv\<close> (\<^verbatim>\<open>s3fifo.rs\<close>): the shard's operations; handles and counts agree, bytes are
    accounted for and within the budget, a set is read back and changes no other key. \<open>Policy\<close>: what
    is evicted, the main queue as a clock and kept from scans. \<open>Teardown\<close>: what a dropped shard frees,
    and what a retried growth wrongly releases.
  \<^item> \<open>Cache\<close>, \<open>Cache_Inv\<close> (\<^verbatim>\<open>mod.rs\<close>): the sharded front; locale \<open>forgetful_map\<close> is its contract, a
    map that may forget, kept by every interleaving of threads, readers and the collector.
  \<^item> \<open>Dispatch\<close>, \<open>Dispatch_Inv\<close>, \<open>Connection\<close>, \<open>Conn_Limit\<close> (\<^verbatim>\<open>server/src/tcp.rs\<close>): one request, one
    connection, the budget of connections and the shutdown of the front ends. A reference says what
    a request is answered; \<open>dispatch\<close> and whole sessions refine it. \<open>Shared_Serving\<close> and
    \<open>Shared_Connection\<close> follow the same code access by access, with other threads changing the cache
    between any two: replies stay in order and each is right for moments while its request was served.
    \<open>Tls_Stream\<close>: from the accepted socket to the first turn, and the reader that drains a TLS session.
  \<^item> \<open>Startup\<close> (\<^verbatim>\<open>server/src/main.rs\<close>, \<^verbatim>\<open>tls.rs\<close>): the configuration, its parsers and errors, the certificate,
    and the server bound with them, which starts in the states the other theorems start from.
  \<^item> \<open>Http\<close> (\<^verbatim>\<open>server/src/http.rs\<close>), \<open>Metrics\<close> (\<^verbatim>\<open>server/src/metrics.rs\<close>): the HTTP handler answers as
    TCP does, and only with the token; the counters and their rendering.
  \<^item> \<open>Ring\<close>, \<open>Client\<close>, \<open>Pipeline\<close>, \<open>Supervisor\<close>, \<open>Cluster\<close> (\<^verbatim>\<open>client-rs/src\<close>): the ring; replies and
    batches; the writer and reader tasks of a connection; reconnecting and re-issuing calls; health
    words, failover and batches split over servers. \<open>Cli\<close>: the commands, what they print, and the
    requests of the load test.

  This theory holds what spans them: the client's pipeline against the server's sessions.

  \<^bold>\<open>Conventions.\<close> A struct is a record, an enum a datatype, a 64-bit hash or slot word a word of that
  width. Lengths and counts of type \<open>usize\<close> are natural numbers where they are lengths of things in
  memory; where a computation could wrap it is on words. Errors are values of a sum. Tasks that run
  concurrently are step relations, and theorems about them hold of every reachable state; what a
  mutex makes atomic is one step. \<open>dispatch\<close> and \<open>burst\<close> have the cache to themselves; that other threads
  act between the accesses of a request is in the relations of \<open>Shared_Serving\<close>, of which the functions are the
  runs without them (\<open>session_alone\<close>), and what others may do there includes every step of \<open>Cache_Inv\<close>
  (\<open>others_cstep\<close>). The loops of the source terminate by a measure that is proved,
  except growth of the index, which need not end when too many keys share a hash: it is a partial
  function, and theorems say when it returns. A growth that has to start over releases handles it
  does not own; it is not followed beyond that, and counts as not returning. Panics that input can
  cause are values: \<open>None\<close>, or a constructor of their own. No definition takes fuel.

  \<^bold>\<open>Parameters\<close>, code outside the repository: the hash function of keys, the epoch collector (what is
  retired is dropped later, and not while a pinned thread has it borrowed), the kernel's memory
  mapping, sockets (a write takes a prefix of what it is offered, or fails), the clock, tokio's
  channels and semaphore (queues and a count), hyper's parsing of requests, rustls and its PEM
  parsers, the parser of socket addresses, name resolution, the environment, the value encoding.

  \<^bold>\<open>Not modelled.\<close> Orderings weaker than an interleaving of single loads and stores: \<open>Race\<close> takes the
  fences and acquire and release accesses of the index to give that. Above \<open>Race\<close> a lookup is one step.
  Prefetching, alignment of types and allocator tuning, which change no result. Socket
  options, signals and logging, which only call libraries. Formatting of errors for people. Of the
  command-line client, the parsing of arguments by clap and the report of the load test, which is
  floating-point arithmetic on a measured time. The TypeScript client, which is another program.
\<close>

section \<open>Streams of frames\<close>





section \<open>A client and a server\<close>









end
